(* ===== verification/MMO_Prelude.thy ===== *)
theory MMO_Prelude
  imports Main "HOL-Library.Word" "HOL-Library.Signed_Division"
begin

text \<open>
  Shared vocabulary of the development: the machine types the sources use, the failure
  values (every crash, thrown exception or out-of-bounds access of the C++ code is a branch
  of the model), sequencing of fallible computations, the memory block operations
  (\<^verbatim>\<open>memcpy\<close>) and the generic list lemmas that the components share.
\<close>

section \<open>Machine types and failures\<close>

type_synonym byte = "8 word"
type_synonym int32 = int
type_synonym int64 = int
type_synonym session_id = int

text \<open>
  \<open>OutOfBounds\<close>: an access outside the array a pointer points into; \<open>NullDeref\<close>: a null
  dereference; \<open>CrashCall\<close>: a call of \<^verbatim>\<open>CRASH()\<close>; \<open>Underflow_Violation\<close> and \<open>Twice_Free\<close>:
  the two messages a \<^verbatim>\<open>FreeListException\<close> is thrown with; \<open>BadVariant\<close>: a failed
  \<^verbatim>\<open>std::get\<close> on a variant; \<open>StackOverflow\<close>: a recursion deeper than the stack given to it;
  \<open>UseAfterFree\<close>: a use of a deleted object; \<open>LengthError\<close>: a \<^verbatim>\<open>std::length_error\<close>;
  \<open>ConversionError\<close>: a \<^verbatim>\<open>pqxx::conversion_error\<close>; \<open>AssertionFailed\<close>: a \<^verbatim>\<open>FLATBUFFERS_ASSERT\<close> that does not hold.
\<close>

datatype error = OutOfBounds | NullDeref | CrashCall | Underflow_Violation | Twice_Free
  | BadVariant | StackOverflow | UseAfterFree | LengthError | ConversionError | AssertionFailed

type_synonym 'a result = "error + 'a"

text \<open>Sequencing: the first failure ends the computation.\<close>

definition ebind :: "'a result \<Rightarrow> ('a \<Rightarrow> 'b result) \<Rightarrow> 'b result" where
  "ebind m f = (case m of Inl e \<Rightarrow> Inl e | Inr x \<Rightarrow> f x)"

named_theorems crem_simps \<open>C remainder on the operands the code uses\<close>
named_theorems frame_simps \<open>fields an operation leaves alone\<close>
named_theorems step_intros \<open>steps of the concurrent models\<close>

lemma ebind_simps [simp]: "ebind (Inl e) f = Inl e" "ebind (Inr x) f = f x"
  by (simp_all add: ebind_def)

lemma ebind_eq_Inr [simp]: "ebind m f = Inr y \<longleftrightarrow> (\<exists>x. m = Inr x \<and> f x = Inr y)"
  by (cases m) simp_all

lemma ebind_assoc: "ebind (ebind m f) g = ebind m (\<lambda>x. ebind (f x) g)"
  by (cases m) simp_all

text \<open>The mark in front of every pooled object (Global.h).\<close>

definition MARK_FRONT :: int where
  "MARK_FRONT = 0x1234567876543210"

section \<open>C remainder\<close>

text \<open>
  The built-in \<^verbatim>\<open>%\<close> on signed operands truncates towards zero: \<^verbatim>\<open>-1 % 7000\<close> is \<^verbatim>\<open>-1\<close>.
  \<open>smod\<close> is that operation on \<open>int\<close>.
\<close>

abbreviation crem :: "int \<Rightarrow> int \<Rightarrow> int" where
  "crem a b \<equiv> a smod b"

lemma crem_nonneg [crem_simps]: "0 \<le> a \<Longrightarrow> 0 < b \<Longrightarrow> crem a b = a mod b"
  by (simp add: signed_modulo_int_def signed_divide_int_def sgn_if
        minus_div_mult_eq_mod [symmetric] zabs_def)

lemma crem_minus_one [crem_simps]: "1 < b \<Longrightarrow> crem (- 1) b = - 1"
  by (simp add: signed_modulo_int_def signed_divide_int_def sgn_if)

section \<open>Conversion to 32 bits\<close>

text \<open>The value of an \<^verbatim>\<open>int32_t\<close> after a computation that gave \<open>v\<close> (two's complement).\<close>

definition to_int32 :: "int \<Rightarrow> int" where
  "to_int32 v = (v + 2 ^ 31) mod 2 ^ 32 - 2 ^ 31"

lemma to_int32_small: "0 \<le> v \<Longrightarrow> v < 2 ^ 31 \<Longrightarrow> to_int32 v = v"
  by (simp add: to_int32_def)

lemma to_int32_id: "- (2 ^ 31) \<le> v \<Longrightarrow> v < 2 ^ 31 \<Longrightarrow> to_int32 v = v"
  by (simp add: to_int32_def)

text \<open>The same at 64 bits.\<close>

definition to_int64 :: "int \<Rightarrow> int" where
  "to_int64 v = (v + 2 ^ 63) mod 2 ^ 64 - 2 ^ 63"

lemma to_int64_id: "- (2 ^ 63) \<le> v \<Longrightarrow> v < 2 ^ 63 \<Longrightarrow> to_int64 v = v"
  by (simp add: to_int64_def)

lemma to_int64_cong: "v mod 2 ^ 64 = w mod 2 ^ 64 \<Longrightarrow> to_int64 v = to_int64 w"
  unfolding to_int64_def by (metis mod_add_left_eq)

lemma to_int64_mod: "to_int64 v mod 2 ^ 64 = v mod 2 ^ 64"
  by (simp add: to_int64_def mod_diff_left_eq)

lemma to_int64_add: "to_int64 (to_int64 a + b) = to_int64 (a + b)"
  by (rule to_int64_cong) (metis mod_add_left_eq to_int64_mod)

lemma to_int64_diff: "to_int64 (to_int64 a - b) = to_int64 (a - b)"
  by (rule to_int64_cong) (metis mod_diff_left_eq to_int64_mod)

section \<open>Memory blocks\<close>

text \<open>
  A block of memory is a list; a pointer into it is an offset. \<open>mem_read\<close> and \<open>mem_write\<close>
  are the two directions of \<^verbatim>\<open>memcpy\<close>; an access that leaves the block, or a negative
  length (converted to a huge \<^verbatim>\<open>size_t\<close>), is \<open>OutOfBounds\<close>.
\<close>

definition mem_read :: "'a list \<Rightarrow> int \<Rightarrow> int \<Rightarrow> 'a list result" where
  "mem_read m p n =
     (if 0 \<le> p \<and> 0 \<le> n \<and> p + n \<le> int (length m)
      then Inr (take (nat n) (drop (nat p) m)) else Inl OutOfBounds)"

definition mem_write :: "'a list \<Rightarrow> int \<Rightarrow> 'a list \<Rightarrow> 'a list result" where
  "mem_write m p xs =
     (if 0 \<le> p \<and> p + int (length xs) \<le> int (length m)
      then Inr (take (nat p) m @ xs @ drop (nat p + length xs) m) else Inl OutOfBounds)"

lemma mem_write_length: "mem_write m p xs = Inr m' \<Longrightarrow> length m' = length m"
  by (auto simp: mem_write_def split: if_splits)

lemma mem_read_length: "mem_read m p n = Inr xs \<Longrightarrow> length xs = nat n"
  by (auto simp: mem_read_def split: if_splits)

lemma mem_write_Nil: "0 \<le> p \<Longrightarrow> p \<le> int (length m) \<Longrightarrow> mem_write m p [] = Inr m"
  by (simp add: mem_write_def)

lemma mem_write_nth:
  assumes "mem_write m p xs = Inr m'" "i < length m"
  shows "m' ! i = (if nat p \<le> i \<and> i < nat p + length xs then xs ! (i - nat p) else m ! i)"
  using assms by (auto simp: mem_write_def nth_append split: if_splits)

section \<open>Lists\<close>

lemma map_upt_append:
  "map f [0..<m + n] = map f [0..<m] @ map (\<lambda>i. f (m + i)) [0..<n]"
  by (induction n) auto

lemma take_map_upt: "take k (map f [0..<n]) = map f [0..<min k n]"
  by (simp add: take_map min_def)

lemma drop_map_upt: "drop k (map f [0..<n]) = map (\<lambda>i. f (k + i)) [0..<n - k]"
  by (rule nth_equalityI) auto

lemma nth_map_take_drop:
  "p + n \<le> length m \<Longrightarrow> take n (drop p m) = map (\<lambda>i. m ! (p + i)) [0..<n]"
  by (rule nth_equalityI) auto

section \<open>Weights summed over threads\<close>

text \<open>
  The concurrent models keep a list of program counters, one per thread. \<open>wsum w xs\<close> adds a
  weight over them; a step of one thread changes one summand.
\<close>

definition wsum :: "('a \<Rightarrow> int) \<Rightarrow> 'a list \<Rightarrow> int" where
  "wsum w xs = sum_list (map w xs)"

lemma wsum_Nil [simp]: "wsum w [] = 0"
  by (simp add: wsum_def)

lemma wsum_Cons [simp]: "wsum w (x # xs) = w x + wsum w xs"
  by (simp add: wsum_def)

lemma wsum_append [simp]: "wsum w (xs @ ys) = wsum w xs + wsum w ys"
  by (simp add: wsum_def)

lemma wsum_replicate [simp]: "wsum w (replicate n x) = int n * w x"
  by (induction n) (simp_all add: algebra_simps)

lemma wsum_update: "i < length xs \<Longrightarrow> wsum w (xs[i := y]) = wsum w xs + w y - w (xs ! i)"
  by (induction xs arbitrary: i) (auto split: nat.split)

lemma wsum_nonneg: "(\<And>x. 0 \<le> w x) \<Longrightarrow> 0 \<le> wsum w xs"
  by (induction xs) simp_all

lemma wsum_ge: "(\<And>x. 0 \<le> w x) \<Longrightarrow> i < length xs \<Longrightarrow> w (xs ! i) \<le> wsum w xs"
proof (induction xs arbitrary: i)
  case (Cons x xs)
  then show ?case using wsum_nonneg [of w xs] by (cases i) (auto intro: add_increasing)
qed simp

lemma wsum_ge_two:
  assumes w: "\<And>x. 0 \<le> w x" and i: "i < length xs" "j < length xs" "i \<noteq> j"
  shows "w (xs ! i) + w (xs ! j) \<le> wsum w xs"
  using i
proof (induction xs arbitrary: i j)
  case (Cons x xs)
  note ge = wsum_ge [of w, OF w, of _ xs]
  consider j' where "i = 0" "j = Suc j'" | i' where "i = Suc i'" "j = 0" | i' j' where "i = Suc i'" "j = Suc j'"
    using Cons.prems(3) by (cases i; cases j) auto
  then show ?case
  proof cases
    case 3
    then show ?thesis using Cons w [of x] by fastforce
  qed (use ge Cons.prems in \<open>auto simp: add.commute\<close>)
qed simp

lemma wsum_zero: "(\<And>x. x \<in> set xs \<Longrightarrow> w x = 0) \<Longrightarrow> wsum w xs = 0"
  by (induction xs) simp_all

lemma wsum_card: "wsum (\<lambda>x. of_bool (P x)) xs = int (card {i. i < length xs \<and> P (xs ! i)})"
proof -
  have "wsum (\<lambda>x. of_bool (P x)) xs = int (length (filter P xs))"
    by (induction xs) (simp_all add: of_bool_def)
  then show ?thesis by (simp add: length_filter_conv_card)
qed

lemma nth_update_all:
  "u < length xs \<Longrightarrow> P y \<Longrightarrow> (u \<noteq> t \<Longrightarrow> P (xs ! u)) \<Longrightarrow> P (xs[t := y] ! u)"
  by (cases "u = t") auto

lemma concat_map_update:
  "i < length xs \<Longrightarrow> (\<And>j. j < length xs \<Longrightarrow> j \<noteq> i \<Longrightarrow> f (xs ! j) = []) \<Longrightarrow> concat (map f (xs[i := y])) = f y"
proof (induction xs arbitrary: i)
  case (Cons x xs)
  show ?case
  proof (cases i)
    case 0
    have "f z = []" if "z \<in> set xs" for z
    proof -
      from that obtain k where "k < length xs" "xs ! k = z" by (auto simp: in_set_conv_nth)
      then show ?thesis using Cons.prems(2) [of "Suc k"] 0 by auto
    qed
    then have "concat (map f xs) = []" by simp
    with 0 show ?thesis by simp
  next
    case (Suc k)
    have "f (xs ! j) = []" if "j < length xs" "j \<noteq> k" for j
      using Cons.prems(2) [of "Suc j"] that Suc by simp
    with Suc Cons.IH [of k] Cons.prems(1) Cons.prems(2) [of 0] show ?thesis by simp
  qed
qed simp

section \<open>Linked nodes\<close>

text \<open>
  The lock-free containers link nodes by next pointers. \<open>nx a\<close> is the next pointer of the node at
  address \<open>a\<close>, if there is a node; \<open>chain nx p xs\<close>: following the pointers from \<open>p\<close> visits the
  nodes \<open>xs\<close> and ends in null.
\<close>

fun chain :: "(nat \<Rightarrow> nat option option) \<Rightarrow> nat option \<Rightarrow> nat list \<Rightarrow> bool" where
  "chain nx p [] = (p = None)"
| "chain nx p (x # xs) = (p = Some x \<and> (case nx x of None \<Rightarrow> False | Some q \<Rightarrow> chain nx q xs))"

lemma chain_update: "chain nx p xs \<Longrightarrow> a \<notin> set xs \<Longrightarrow> chain (nx(a := q)) p xs"
  by (induction xs arbitrary: p) (auto split: option.splits)

lemma chain_None [simp]: "chain nx None xs \<longleftrightarrow> xs = []"
  by (cases xs) auto

lemma chain_Some: "chain nx (Some a) xs \<Longrightarrow> \<exists>q ys. nx a = Some q \<and> xs = a # ys \<and> chain nx q ys"
  by (cases xs) (auto split: option.splits)

lemma chain_member: "chain nx p xs \<Longrightarrow> a \<in> set xs \<Longrightarrow> nx a \<noteq> None"
  by (induction xs arbitrary: p) (auto split: option.splits)

section \<open>Circular slices\<close>

text \<open>
  \<open>cslice b p n\<close>: the \<open>n\<close> elements of the ring \<open>b\<close> from position \<open>p\<close> on, wrapping at the end.
\<close>

definition cslice :: "'a list \<Rightarrow> int \<Rightarrow> nat \<Rightarrow> 'a list" where
  "cslice b p n = map (\<lambda>i. b ! nat ((p + int i) mod int (length b))) [0..<n]"

lemma length_cslice [simp]: "length (cslice b p n) = n"
  by (simp add: cslice_def)

lemma cslice_0 [simp]: "cslice b p 0 = []"
  by (simp add: cslice_def)

lemma cslice_mod [simp]: "cslice b (p mod int (length b)) n = cslice b p n"
  by (simp add: cslice_def mod_add_left_eq)

lemma cslice_cong_mod:
  "p mod int (length b) = q mod int (length b) \<Longrightarrow> cslice b p n = cslice b q n"
  by (metis cslice_mod)

lemma cslice_append: "cslice b p (m + n) = cslice b p m @ cslice b (p + int m) n"
  by (simp add: cslice_def map_upt_append add.assoc)

lemma take_cslice: "take k (cslice b p n) = cslice b p (min k n)"
  by (simp add: cslice_def take_map_upt)

lemma drop_cslice: "drop k (cslice b p n) = cslice b (p + int k) (n - k)"
  by (simp add: cslice_def drop_map_upt add.assoc)

text \<open>A contiguous read is a circular slice; a contiguous write extends one.\<close>

lemma mem_read_cslice:
  assumes "mem_read b p n = Inr xs"
  shows "xs = cslice b p (nat n)"
proof -
  from assms have b: "0 \<le> p" "0 \<le> n" "p + n \<le> int (length b)"
    and xs: "xs = take (nat n) (drop (nat p) b)"
    by (auto simp: mem_read_def split: if_splits)
  from b have "nat p + nat n \<le> length b" by linarith
  then have "xs = map (\<lambda>i. b ! (nat p + i)) [0..<nat n]"
    by (simp add: xs nth_map_take_drop)
  also have "\<dots> = cslice b p (nat n)"
    unfolding cslice_def
  proof (rule map_cong [OF refl])
    fix i assume "i \<in> set [0..<nat n]"
    with b have "(p + int i) mod int (length b) = p + int i" by auto
    with b show "b ! (nat p + i) = b ! nat ((p + int i) mod int (length b))"
      by (simp add: nat_add_distrib)
  qed
  finally show ?thesis .
qed

lemma cslice_mem_write_same:
  assumes w: "mem_write b p xs = Inr b'"
  shows "cslice b' p (length xs) = xs"
proof (rule nth_equalityI)
  from w have bd: "0 \<le> p" "p + int (length xs) \<le> int (length b)"
    by (auto simp: mem_write_def split: if_splits)
  fix i assume "i < length (cslice b' p (length xs))"
  then have i: "i < length xs" by simp
  with bd have m: "(p + int i) mod int (length b) = p + int i" by auto
  from i bd have "nat (p + int i) < length b" by linarith
  from mem_write_nth [OF w this] i bd m show "cslice b' p (length xs) ! i = xs ! i"
    by (simp add: cslice_def mem_write_length [OF w] nat_add_distrib)
qed simp

lemma cslice_mem_write_before:
  assumes w: "mem_write b p xs = Inr b'" and u: "u + length xs \<le> length b"
  shows "cslice b' (p - int u) u = cslice b (p - int u) u"
proof (rule nth_equalityI)
  from w have bd: "0 \<le> p" "p + int (length xs) \<le> int (length b)"
    by (auto simp: mem_write_def split: if_splits)
  fix i assume "i < length (cslice b' (p - int u) u)"
  then have i: "i < u" by simp
  let ?N = "int (length b)" and ?j = "(p - int u + int i) mod int (length b)"
  from i u have N: "0 < ?N" by linarith
  then have j: "0 \<le> ?j" "?j < ?N" by auto
  have out: "\<not> (p \<le> ?j \<and> ?j < p + int (length xs))"
  proof
    assume a: "p \<le> ?j \<and> ?j < p + int (length xs)"
    have "(?j - (p - int u + int i)) mod ?N = 0"
      by (simp add: mod_diff_left_eq)
    then have "(?j - p + (int u - int i)) mod ?N = 0"
      by (simp add: algebra_simps)
    moreover from a i u have "0 < ?j - p + (int u - int i)" "?j - p + (int u - int i) < ?N"
      by linarith+
    ultimately show False by simp
  qed
  have "\<not> (nat p \<le> nat ?j \<and> nat ?j < nat p + length xs)"
    using out bd j by linarith
  moreover from j have "nat ?j < length b" by linarith
  ultimately have "b' ! nat ?j = b ! nat ?j"
    using mem_write_nth [OF w, of "nat ?j"] by (simp only: if_False)
  with i show "cslice b' (p - int u) u ! i = cslice b (p - int u) u ! i"
    by (simp add: cslice_def mem_write_length [OF w])
qed simp

lemma cslice_mem_write_after:
  assumes w: "mem_write b p xs = Inr b'" and n: "n + length xs \<le> length b"
  shows "cslice b' (p + int (length xs)) n = cslice b (p + int (length xs)) n"
proof -
  let ?u = "length b - length xs"
  have u: "int ?u = int (length b) - int (length xs)" using n by simp
  have "p - int ?u = p + int (length xs) - int (length b)" by (simp add: u)
  then have "(p - int ?u) mod int (length b) = (p + int (length xs) - int (length b)) mod int (length b)"
    by (simp only:)
  also have "\<dots> = (p + int (length xs)) mod int (length b)" by simp
  finally have m: "(p - int ?u) mod int (length b) = (p + int (length xs)) mod int (length b)" .
  have "cslice b' (p + int (length xs)) ?u = cslice b (p + int (length xs)) ?u"
    using cslice_mem_write_before [OF w, of ?u] n m mem_write_length [OF w]
    by (metis cslice_mod le_add_diff_inverse2 add_leD2 order_refl)
  then have "take n (cslice b' (p + int (length xs)) ?u) = take n (cslice b (p + int (length xs)) ?u)"
    by simp
  moreover have "min n ?u = n" using n by simp
  ultimately show ?thesis by (simp add: take_cslice)
qed

lemma cslice_mem_write:
  assumes w: "mem_write b p xs = Inr b'" and u: "u + length xs \<le> length b"
    and p: "p mod int (length b) = e mod int (length b)"
  shows "cslice b' (e - int u) (u + length xs) = cslice b (e - int u) u @ xs"
proof -
  from p have "(p - int u) mod int (length b) = (e - int u) mod int (length b)"
    by (metis mod_diff_left_eq)
  then have eq: "cslice c (e - int u) n = cslice c (p - int u) n" if "length c = length b" for c :: "'a list" and n
    by (metis cslice_mod that)
  have "cslice b' (e - int u) (u + length xs) = cslice b' (p - int u) (u + length xs)"
    by (simp add: eq mem_write_length [OF w])
  also have "\<dots> = cslice b' (p - int u) u @ cslice b' p (length xs)"
    by (simp add: cslice_append)
  also have "\<dots> = cslice b (p - int u) u @ xs"
    by (simp add: cslice_mem_write_same [OF w] cslice_mem_write_before [OF w u])
  finally show ?thesis by (simp add: eq)
qed

lemma mem_read_ok: "0 \<le> p \<Longrightarrow> 0 \<le> n \<Longrightarrow> p + n \<le> int (length m) \<Longrightarrow>
    mem_read m p n = Inr (take (nat n) (drop (nat p) m))"
  by (simp add: mem_read_def)

lemma mem_write_ok: "0 \<le> p \<Longrightarrow> p + int (length xs) \<le> int (length m) \<Longrightarrow>
    mem_write m p xs = Inr (take (nat p) m @ xs @ drop (nat p + length xs) m)"
  by (simp add: mem_write_def)

end
