(* ===== verification/Fifo_Interface.thy ===== *)
theory Fifo_Interface
  imports MMO_Prelude
begin

text \<open>
  The contract of a bounded first-in first-out buffer, as the byte ring of a session
  (\<open>Ring_Buffer\<close>) and the fixed-size item queue (\<open>Template_Queue\<close>) both provide it, and what
  any client may conclude from it: over any sequence of transfers the elements come out in
  the order they went in, none lost, none duplicated, never more than the capacity inside.
\<close>

datatype 'a fifo_op = Put "'a list" | Get nat

text \<open>A client never asks for an empty transfer.\<close>

fun proper_op :: "'a fifo_op \<Rightarrow> bool" where
  "proper_op (Put xs) = (xs \<noteq> [])"
| "proper_op (Get k) = (0 < k)"

text \<open>
  What a transfer reports: how many elements were accepted, or the elements delivered. A run over
  given put and get operations has one report per transfer; the first failure ends it.
\<close>

datatype 'a fifo_out = Accepted nat | Delivered "'a list"

fun fifo_run :: "('q \<Rightarrow> 'a list \<Rightarrow> ('q \<times> nat) result) \<Rightarrow> ('q \<Rightarrow> nat \<Rightarrow> ('q \<times> 'a list) result) \<Rightarrow>
    'q \<Rightarrow> 'a fifo_op list \<Rightarrow> ('q \<times> 'a fifo_out list) result" where
  "fifo_run put get q [] = Inr (q, [])"
| "fifo_run put get q (Put xs # ops) =
     ebind (put q xs) (\<lambda>(q, n). ebind (fifo_run put get q ops) (\<lambda>(q, outs). Inr (q, Accepted n # outs)))"
| "fifo_run put get q (Get k # ops) =
     ebind (get q k) (\<lambda>(q, ys). ebind (fifo_run put get q ops) (\<lambda>(q, outs). Inr (q, Delivered ys # outs)))"

text \<open>
  The specification: a list of at most \<open>cap\<close> elements. A put takes what fits, a get the oldest
  elements, as many as there are.
\<close>

fun fifo_spec :: "nat \<Rightarrow> 'a list \<Rightarrow> 'a fifo_op list \<Rightarrow> 'a list \<times> 'a fifo_out list" where
  "fifo_spec cap xs [] = (xs, [])"
| "fifo_spec cap xs (Put ys # ops) =
     (let n = min (length ys) (cap - length xs); (zs, outs) = fifo_spec cap (xs @ take n ys) ops
      in (zs, Accepted n # outs))"
| "fifo_spec cap xs (Get k # ops) =
     (let (zs, outs) = fifo_spec cap (drop k xs) ops in (zs, Delivered (take k xs) # outs))"

text \<open>All elements accepted and all elements delivered in a run.\<close>

fun accepted_in :: "'a fifo_op list \<Rightarrow> 'a fifo_out list \<Rightarrow> 'a list" where
  "accepted_in (Put xs # ops) (Accepted n # outs) = take n xs @ accepted_in ops outs"
| "accepted_in (op # ops) (out # outs) = accepted_in ops outs"
| "accepted_in ops outs = []"

fun delivered_in :: "'a fifo_out list \<Rightarrow> 'a list" where
  "delivered_in [] = []"
| "delivered_in (Delivered ys # outs) = ys @ delivered_in outs"
| "delivered_in (Accepted n # outs) = delivered_in outs"

lemma fifo_spec_conserves:
  "fifo_spec cap xs ops = (zs, outs) \<Longrightarrow> xs @ accepted_in ops outs = delivered_in outs @ zs"
proof (induction cap xs ops arbitrary: zs outs rule: fifo_spec.induct)
  case (2 cap xs ys ops)
  let ?n = "min (length ys) (cap - length xs)"
  obtain zs' outs' where r: "fifo_spec cap (xs @ take ?n ys) ops = (zs', outs')" by (cases "fifo_spec cap (xs @ take ?n ys) ops")
  then have "zs = zs'" "outs = Accepted ?n # outs'" using 2(2) by simp_all
  with "2.IH" [OF refl r] show ?case by simp
next
  case (3 cap xs k ops)
  obtain zs' outs' where r: "fifo_spec cap (drop k xs) ops = (zs', outs')" by (cases "fifo_spec cap (drop k xs) ops")
  then have "zs = zs'" "outs = Delivered (take k xs) # outs'" using 3(2) by simp_all
  moreover have "xs @ accepted_in ops outs' = take k xs @ drop k xs @ accepted_in ops outs'"
    by (simp only: append.assoc [symmetric] append_take_drop_id)
  ultimately show ?case using "3.IH" [OF r] by simp
qed simp

locale bounded_fifo =
  fixes invar :: "'q \<Rightarrow> bool"
    and items :: "'q \<Rightarrow> 'a list"
    and cap :: nat
    and put :: "'q \<Rightarrow> 'a list \<Rightarrow> ('q \<times> nat) result"
    and get :: "'q \<Rightarrow> nat \<Rightarrow> ('q \<times> 'a list) result"
  assumes items_cap: "invar q \<Longrightarrow> length (items q) \<le> cap"
    and put_spec: "invar q \<Longrightarrow> xs \<noteq> [] \<Longrightarrow> n = min (length xs) (cap - length (items q)) \<Longrightarrow>
      \<exists>q'. put q xs = Inr (q', n) \<and> invar q' \<and> items q' = items q @ take n xs"
    and get_spec: "invar q \<Longrightarrow> 0 < k \<Longrightarrow>
      \<exists>q'. get q k = Inr (q', take k (items q)) \<and> invar q' \<and> items q' = drop k (items q)"
begin

text \<open>Every run succeeds and reports what the specification reports.\<close>

lemma run_fifo:
  assumes "invar q" "list_all proper_op ops" "fifo_spec cap (items q) ops = (zs, outs)"
  shows "\<exists>q'. fifo_run put get q ops = Inr (q', outs) \<and> invar q' \<and> items q' = zs"
  using assms
proof (induction ops arbitrary: q zs outs)
  case (Cons a ops)
  show ?case
  proof (cases a)
    case (Put xs)
    obtain q1 where q1: "put q xs = Inr (q1, min (length xs) (cap - length (items q)))" "invar q1"
      "items q1 = items q @ take (min (length xs) (cap - length (items q))) xs"
      using put_spec [OF Cons.prems(1) _ refl, of xs] Cons.prems(2) Put by auto
    obtain zs' outs' where r: "fifo_spec cap (items q1) ops = (zs', outs')" by (cases "fifo_spec cap (items q1) ops")
    from Cons.IH [OF q1(2) _ r] Cons.prems(2,3) Put q1 r show ?thesis by (auto simp: Let_def)
  next
    case (Get k)
    obtain q1 where q1: "get q k = Inr (q1, take k (items q))" "invar q1" "items q1 = drop k (items q)"
      using get_spec [OF Cons.prems(1), of k] Cons.prems(2) Get by auto
    obtain zs' outs' where r: "fifo_spec cap (items q1) ops = (zs', outs')" by (cases "fifo_spec cap (items q1) ops")
    from Cons.IH [OF q1(2) _ r] Cons.prems(2,3) Get q1 r show ?thesis by auto
  qed
qed simp

end

end
