(* ===== verification/Ring_Buffer.thy ===== *)
theory Ring_Buffer
  imports Fifo_Interface
begin

text \<open>
  \<^verbatim>\<open>RingQ\<close> (ServerCore/Memory/RingBuffer.h and .cpp): the receive buffer of a session, a ring
  of 7000 bytes with a read and a write position. One slot stays unused, the positions point
  at the slot before the next one, and the code computes with the truncating \<^verbatim>\<open>%\<close>. The
  operations are modelled one by one; the invariant, the byte queue they implement and the
  two defects of the zero-length calls follow.
\<close>

section \<open>State\<close>

definition RING_BUFFER_SIZE :: int where
  "RING_BUFFER_SIZE = 7000"

record RingQ =
  m_readPosition :: int
  m_writePosition :: int
  m_Buffer :: "byte list"

definition RingQ_new :: RingQ where
  "RingQ_new = \<lparr>m_readPosition = 0, m_writePosition = 0,
     m_Buffer = replicate (nat RING_BUFFER_SIZE) 0\<rparr>"

text \<open>A \<^verbatim>\<open>WSABUF\<close>: a pointer into the ring (an offset) and a length.\<close>

record WSABUF =
  buf :: int
  len :: int

section \<open>Sizes\<close>

definition GetWriteSize :: "RingQ \<Rightarrow> int" where
  "GetWriteSize q =
     (let copyReadPos = m_readPosition q; copyWritePos = m_writePosition q in
      if crem (copyWritePos + 1) RING_BUFFER_SIZE = copyReadPos then 0
      else if copyReadPos > copyWritePos then copyReadPos - copyWritePos - 1
      else copyReadPos + (RING_BUFFER_SIZE - 1) - copyWritePos)"

definition GetReadSize :: "RingQ \<Rightarrow> int" where
  "GetReadSize q =
     (let copyWritePos = m_writePosition q; copyReadPos = m_readPosition q in
      if copyWritePos = copyReadPos then 0
      else if copyReadPos < copyWritePos then copyWritePos - copyReadPos
      else copyWritePos + (RING_BUFFER_SIZE - 1) - copyReadPos + 1)"

definition GetFreeSize :: "int \<Rightarrow> int \<Rightarrow> int" where
  "GetFreeSize front rear =
     (if crem (rear + 1) RING_BUFFER_SIZE = front then 0
      else if front > rear then front - rear - 1
      else front + (RING_BUFFER_SIZE - 1) - rear)"

definition GetUsedSize :: "int \<Rightarrow> int \<Rightarrow> int" where
  "GetUsedSize front rear =
     (if rear = front then 0
      else if front < rear then rear - front
      else rear + (RING_BUFFER_SIZE - 1) - front + 1)"

definition GetDirectWriteSize :: "RingQ \<Rightarrow> int" where
  "GetDirectWriteSize q =
     (let copyFront = m_readPosition q; copyRear = m_writePosition q in
      if crem (copyRear + 1) RING_BUFFER_SIZE = copyFront then 0
      else let rearNext = crem (copyRear + 1) RING_BUFFER_SIZE in
        if rearNext < copyFront then copyFront - rearNext
        else (RING_BUFFER_SIZE - 1) - rearNext + 1)"

definition GetDirectReadSize :: "RingQ \<Rightarrow> int" where
  "GetDirectReadSize q =
     (let copyRear = m_writePosition q; copyFront = m_readPosition q in
      if copyFront = copyRear then 0
      else let nextFront = crem (copyFront + 1) RING_BUFFER_SIZE in
        if nextFront \<le> copyRear then copyRear - nextFront + 1
        else (RING_BUFFER_SIZE - 1) - nextFront + 1)"

definition GetDirectEnqueueSize :: "int \<Rightarrow> int \<Rightarrow> int" where
  "GetDirectEnqueueSize copyFront copyRear =
     (if crem (copyRear + 1) RING_BUFFER_SIZE = copyFront then 0
      else let rearNext = crem (copyRear + 1) RING_BUFFER_SIZE in
        if rearNext < copyFront then copyFront - rearNext
        else (RING_BUFFER_SIZE - 1) - rearNext + 1)"

definition GetDirectDequeueSize :: "int \<Rightarrow> int \<Rightarrow> int" where
  "GetDirectDequeueSize copyFront copyRear =
     (if copyFront = copyRear then 0
      else let nextFront = crem (copyFront + 1) RING_BUFFER_SIZE in
        if nextFront \<le> copyRear then copyRear - nextFront + 1
        else (RING_BUFFER_SIZE - 1) - nextFront + 1)"

section \<open>Pointers into the ring\<close>

text \<open>\<open>None\<close> is \<^verbatim>\<open>nullptr\<close>, \<open>Some off\<close> is \<^verbatim>\<open>m_Buffer + off\<close>.\<close>

definition GetFrontBufferPtr :: "int \<Rightarrow> int \<Rightarrow> int option" where
  "GetFrontBufferPtr copyFront copyRear =
     (if copyRear = copyFront then None else Some (crem (copyFront + 1) RING_BUFFER_SIZE))"

definition GetReadBufferPtr :: "RingQ \<Rightarrow> int option" where
  "GetReadBufferPtr q =
     (let copyRear = m_writePosition q; copyFront = m_readPosition q in
      if copyRear = copyFront then None else Some (crem (copyFront + 1) RING_BUFFER_SIZE))"

definition GetWriteBufferPtr :: "int \<Rightarrow> int \<Rightarrow> int option" where
  "GetWriteBufferPtr copyFront copyRear =
     (if crem (copyRear + 1) RING_BUFFER_SIZE = copyFront then None
      else Some (crem (copyRear + 1) RING_BUFFER_SIZE))"

definition GetWriteBufferPtr_void :: "RingQ \<Rightarrow> int option" where
  "GetWriteBufferPtr_void q =
     (let copyFront = m_readPosition q; copyRear = m_writePosition q in
      if crem (copyRear + 1) RING_BUFFER_SIZE = copyFront then None
      else Some (crem (copyRear + 1) RING_BUFFER_SIZE))"

definition GetReadPosition :: "RingQ \<Rightarrow> int" where
  "GetReadPosition q = m_readPosition q"

definition GetwritePosition :: "RingQ \<Rightarrow> int" where
  "GetwritePosition q = m_writePosition q"

section \<open>Transfers\<close>

text \<open>
  \<open>Enqueue q buffer size\<close> copies up to \<open>size\<close> bytes of the caller's \<open>buffer\<close> in, in one or
  two pieces; the result is the new ring and the number of bytes taken.
\<close>

definition Enqueue :: "RingQ \<Rightarrow> byte list \<Rightarrow> int \<Rightarrow> (RingQ \<times> int) result" where
  "Enqueue q buffer size0 =
     (let copyFront = m_readPosition q; copyRear0 = m_writePosition q;
          copyFreeSize = GetFreeSize copyFront copyRear0 in
      if copyFreeSize < size0 \<and> copyFreeSize \<le> 0 then Inr (q, 0)
      else
        let size = (if copyFreeSize < size0 then copyFreeSize else size0);
            directSize = GetDirectEnqueueSize copyFront copyRear0;
            copyRear1 = crem (copyRear0 + 1) RING_BUFFER_SIZE in
        if directSize < size then
          ebind (mem_read buffer 0 directSize) (\<lambda>c1.
          ebind (mem_write (m_Buffer q) copyRear1 c1) (\<lambda>b1.
          let copyRear2 = crem (copyRear1 + directSize - 1) RING_BUFFER_SIZE;
              diff = size - directSize;
              copyRear3 = crem (copyRear2 + 1) RING_BUFFER_SIZE in
          ebind (mem_read buffer directSize diff) (\<lambda>c2.
          ebind (mem_write b1 copyRear3 c2) (\<lambda>b2.
          Inr (q\<lparr>m_Buffer := b2,
                 m_writePosition := crem (copyRear3 + diff - 1) RING_BUFFER_SIZE\<rparr>, size)))))
        else
          ebind (mem_read buffer 0 size) (\<lambda>c.
          ebind (mem_write (m_Buffer q) copyRear1 c) (\<lambda>b.
          Inr (q\<lparr>m_Buffer := b,
                 m_writePosition := crem (copyRear1 + size - 1) RING_BUFFER_SIZE\<rparr>, size))))"

text \<open>
  \<open>Dequeue q dest size\<close> copies up to \<open>size\<close> bytes out to the caller's \<open>dest\<close>; the result is
  the new ring, the new \<open>dest\<close> and the number of bytes copied. \<open>Peek\<close> leaves the ring alone.
\<close>

definition Dequeue :: "RingQ \<Rightarrow> byte list \<Rightarrow> int \<Rightarrow> (RingQ \<times> byte list \<times> int) result" where
  "Dequeue q dest size0 =
     (let copyRear = m_writePosition q; copyFront0 = m_readPosition q;
          copyUsedSize = GetUsedSize copyFront0 copyRear in
      if copyUsedSize < size0 \<and> copyUsedSize \<le> 0 then Inr (q, dest, 0)
      else
        let size = (if copyUsedSize < size0 then copyUsedSize else size0);
            directSize = GetDirectDequeueSize copyFront0 copyRear;
            copyFront1 = crem (copyFront0 + 1) RING_BUFFER_SIZE in
        if directSize < size then
          ebind (mem_read (m_Buffer q) copyFront1 directSize) (\<lambda>c1.
          ebind (mem_write dest 0 c1) (\<lambda>d1.
          let copyFront2 = crem (copyFront1 + directSize - 1) RING_BUFFER_SIZE;
              diff = size - directSize;
              copyFront3 = crem (copyFront2 + 1) RING_BUFFER_SIZE in
          ebind (mem_read (m_Buffer q) copyFront3 diff) (\<lambda>c2.
          ebind (mem_write d1 directSize c2) (\<lambda>d2.
          Inr (q\<lparr>m_readPosition := crem (copyFront3 + diff - 1) RING_BUFFER_SIZE\<rparr>, d2, size)))))
        else
          ebind (mem_read (m_Buffer q) copyFront1 size) (\<lambda>c.
          ebind (mem_write dest 0 c) (\<lambda>d.
          Inr (q\<lparr>m_readPosition := crem (copyFront1 + size - 1) RING_BUFFER_SIZE\<rparr>, d, size))))"

definition Peek :: "RingQ \<Rightarrow> byte list \<Rightarrow> int \<Rightarrow> (byte list \<times> int) result" where
  "Peek q dest size0 =
     (let copyRear = m_writePosition q; copyFront0 = m_readPosition q;
          tempUsedSize = GetUsedSize copyFront0 copyRear in
      if tempUsedSize < size0 \<and> tempUsedSize \<le> 0 then Inr (dest, 0)
      else
        let size = (if tempUsedSize < size0 then tempUsedSize else size0);
            directSize = GetDirectReadSize q;
            copyFront1 = crem (copyFront0 + 1) RING_BUFFER_SIZE in
        if directSize < size then
          ebind (mem_read (m_Buffer q) copyFront1 directSize) (\<lambda>c1.
          ebind (mem_write dest 0 c1) (\<lambda>d1.
          let copyFront2 = crem (copyFront1 + directSize - 1) RING_BUFFER_SIZE;
              diff = size - directSize;
              copyFront3 = crem (copyFront2 + 1) RING_BUFFER_SIZE in
          ebind (mem_read (m_Buffer q) copyFront3 diff) (\<lambda>c2.
          ebind (mem_write d1 directSize c2) (\<lambda>d2. Inr (d2, size)))))
        else
          ebind (mem_read (m_Buffer q) copyFront1 size) (\<lambda>c.
          ebind (mem_write dest 0 c) (\<lambda>d. Inr (d, size))))"

definition ClearBuffer :: "RingQ \<Rightarrow> RingQ" where
  "ClearBuffer q = q\<lparr>m_readPosition := 0, m_writePosition := 0\<rparr>"

definition MoveWitePosition :: "RingQ \<Rightarrow> int \<Rightarrow> RingQ" where
  "MoveWitePosition q size0 =
     (if size0 < 0 then q
      else q\<lparr>m_writePosition := crem (m_writePosition q + size0) RING_BUFFER_SIZE\<rparr>)"

definition MoveReadPosition :: "RingQ \<Rightarrow> int \<Rightarrow> RingQ" where
  "MoveReadPosition q size0 =
     (if size0 < 0 then q
      else q\<lparr>m_readPosition := crem (m_readPosition q + size0) RING_BUFFER_SIZE\<rparr>)"

text \<open>
  The scatter list for \<^verbatim>\<open>WSARecv\<close>: at most two free regions, appended to \<open>wsaBufs\<close>. The loop
  runs \<open>n\<close> times (two in the code).
\<close>

fun direct_enq_loop :: "nat \<Rightarrow> int \<Rightarrow> int \<Rightarrow> WSABUF list \<Rightarrow> WSABUF list" where
  "direct_enq_loop 0 copyFront copyRear wsaBufs = wsaBufs"
| "direct_enq_loop (Suc n) copyFront copyRear wsaBufs =
     (case GetWriteBufferPtr copyFront copyRear of
        None \<Rightarrow> wsaBufs
      | Some buffer \<Rightarrow>
          let directEnQSize = GetDirectEnqueueSize copyFront copyRear in
          direct_enq_loop n copyFront (crem (copyRear + directEnQSize) RING_BUFFER_SIZE)
            (wsaBufs @ [\<lparr>buf = buffer, len = directEnQSize\<rparr>]))"

definition GetDirectEnQData :: "RingQ \<Rightarrow> WSABUF list \<Rightarrow> WSABUF list" where
  "GetDirectEnQData q wsaBufs = direct_enq_loop 2 (m_readPosition q) (m_writePosition q) wsaBufs"

text \<open>The dequeue counterpart walks the regions but never appends one.\<close>

fun direct_deq_loop :: "nat \<Rightarrow> int \<Rightarrow> int \<Rightarrow> WSABUF list \<Rightarrow> WSABUF list" where
  "direct_deq_loop 0 copyFront copyRear wsaBufs = wsaBufs"
| "direct_deq_loop (Suc n) copyFront copyRear wsaBufs =
     (case GetFrontBufferPtr copyFront copyRear of
        None \<Rightarrow> wsaBufs
      | Some buffer \<Rightarrow>
          let directDeQSize = GetDirectDequeueSize copyFront copyRear in
          direct_deq_loop n (crem (copyFront + directDeQSize) RING_BUFFER_SIZE) copyRear wsaBufs)"

definition GetDirectDeQData :: "RingQ \<Rightarrow> WSABUF list \<Rightarrow> WSABUF list" where
  "GetDirectDeQData q wsaBufs = direct_deq_loop 2 (m_readPosition q) (m_writePosition q) wsaBufs"

section \<open>Invariant and contents\<close>

definition ring_inv :: "RingQ \<Rightarrow> bool" where
  "ring_inv q \<longleftrightarrow> int (length (m_Buffer q)) = RING_BUFFER_SIZE \<and>
     0 \<le> m_readPosition q \<and> m_readPosition q < RING_BUFFER_SIZE \<and>
     0 \<le> m_writePosition q \<and> m_writePosition q < RING_BUFFER_SIZE"

text \<open>The bytes in the ring, oldest first.\<close>

definition contents :: "RingQ \<Rightarrow> byte list" where
  "contents q = cslice (m_Buffer q) (m_readPosition q + 1) (nat (GetReadSize q))"

lemma ring_invD:
  assumes "ring_inv q"
  shows "int (length (m_Buffer q)) = 7000" "0 \<le> m_readPosition q" "m_readPosition q < 7000"
    "0 \<le> m_writePosition q" "m_writePosition q < 7000"
  using assms by (auto simp: ring_inv_def RING_BUFFER_SIZE_def)

text \<open>Positions step around the ring: the two shapes of remainder that occur.\<close>

lemma crem_next:
  assumes "0 \<le> r" "r < 7000"
  shows "crem (r + 1) RING_BUFFER_SIZE = (if r = 6999 then 0 else r + 1)"
  using assms by (auto simp: RING_BUFFER_SIZE_def crem_simps)

lemma crem_in_range: "0 \<le> a \<Longrightarrow> 0 \<le> crem a RING_BUFFER_SIZE \<and> crem a RING_BUFFER_SIZE < 7000"
  by (simp add: RING_BUFFER_SIZE_def crem_simps)

lemma crem_mod: "0 \<le> a \<Longrightarrow> crem a RING_BUFFER_SIZE = a mod 7000"
  by (simp add: RING_BUFFER_SIZE_def crem_simps)

lemma crem_small: "0 \<le> a \<Longrightarrow> a < 7000 \<Longrightarrow> crem a RING_BUFFER_SIZE = a"
  by (simp add: RING_BUFFER_SIZE_def crem_simps)

lemmas ring_size_defs = GetWriteSize_def GetReadSize_def GetFreeSize_def GetUsedSize_def
  GetDirectWriteSize_def GetDirectReadSize_def GetDirectEnqueueSize_def
  GetDirectDequeueSize_def RING_BUFFER_SIZE_def

lemma GetUsedSize_mod:
  assumes "0 \<le> f" "f < 7000" "0 \<le> r" "r < 7000"
  shows "GetUsedSize f r = (r - f) mod 7000"
proof (cases "f \<le> r")
  case True
  with assms have "(r - f) mod 7000 = r - f" by simp
  with True show ?thesis by (simp add: GetUsedSize_def)
next
  case False
  have "(r - f) mod 7000 = (r - f + 7000) mod 7000" by simp
  also from False assms have "\<dots> = r - f + 7000" by (intro mod_pos_pos_trivial) simp_all
  finally show ?thesis using False by (simp add: GetUsedSize_def RING_BUFFER_SIZE_def)
qed

lemma GetUsedSize_bounds:
  assumes "0 \<le> f" "f < 7000" "0 \<le> r" "r < 7000"
  shows "0 \<le> GetUsedSize f r" "GetUsedSize f r \<le> 6999"
  using assms by (auto simp: GetUsedSize_def RING_BUFFER_SIZE_def)

lemma GetFreeSize_used:
  assumes "0 \<le> f" "f < 7000" "0 \<le> r" "r < 7000"
  shows "GetFreeSize f r = 6999 - GetUsedSize f r"
  using assms by (auto simp: GetFreeSize_def GetUsedSize_def crem_next, auto simp: RING_BUFFER_SIZE_def)

lemma GetReadSize_used: "GetReadSize q = GetUsedSize (m_readPosition q) (m_writePosition q)"
  by (simp add: GetReadSize_def GetUsedSize_def)

lemma GetWriteSize_free: "GetWriteSize q = GetFreeSize (m_readPosition q) (m_writePosition q)"
  by (simp add: GetWriteSize_def GetFreeSize_def)

lemma GetDirectWriteSize_direct:
  "GetDirectWriteSize q = GetDirectEnqueueSize (m_readPosition q) (m_writePosition q)"
  by (simp add: GetDirectWriteSize_def GetDirectEnqueueSize_def Let_def)

lemma GetDirectReadSize_direct:
  "GetDirectReadSize q = GetDirectDequeueSize (m_readPosition q) (m_writePosition q)"
  by (simp add: GetDirectReadSize_def GetDirectDequeueSize_def Let_def)

text \<open>The direct sizes: what fits before the physical end of the array.\<close>

lemma GetDirectEnqueueSize_min:
  assumes "0 \<le> f" "f < 7000" "0 \<le> r" "r < 7000"
  shows "GetDirectEnqueueSize f r = min (GetFreeSize f r) (7000 - (r + 1) mod 7000)"
  using assms
  by (auto simp: GetDirectEnqueueSize_def GetFreeSize_def crem_next Let_def min_def,
      auto simp: RING_BUFFER_SIZE_def)

lemma GetDirectDequeueSize_min:
  assumes "0 \<le> f" "f < 7000" "0 \<le> r" "r < 7000"
  shows "GetDirectDequeueSize f r = min (GetUsedSize f r) (7000 - (f + 1) mod 7000)"
  using assms
  by (auto simp: GetDirectDequeueSize_def GetUsedSize_def crem_next Let_def min_def,
      auto simp: RING_BUFFER_SIZE_def)

lemma contents_length: "ring_inv q \<Longrightarrow> int (length (contents q)) = GetReadSize q"
  using GetUsedSize_bounds [of "m_readPosition q" "m_writePosition q"]
  by (simp add: contents_def GetReadSize_used ring_invD)

lemma contents_bound: "ring_inv q \<Longrightarrow> length (contents q) \<le> 6999"
  using GetUsedSize_bounds [of "m_readPosition q" "m_writePosition q"] contents_length [of q]
  by (simp add: GetReadSize_used ring_invD)

lemma GetWriteSize_contents: "ring_inv q \<Longrightarrow> GetWriteSize q = 6999 - int (length (contents q))"
  by (simp add: contents_length GetReadSize_used GetWriteSize_free GetFreeSize_used ring_invD)

lemma RingQ_new_inv: "ring_inv RingQ_new" "contents RingQ_new = []"
  by (simp_all add: ring_inv_def RingQ_new_def RING_BUFFER_SIZE_def contents_def GetReadSize_def)

text \<open>
  Moving a position by \<open>n\<close>: the ring then holds \<open>n\<close> more (or fewer) bytes, as long as the
  count stays within the capacity.
\<close>

lemma used_add:
  assumes "0 \<le> f" "f < 7000" "0 \<le> r" "r < 7000" "0 \<le> n" "GetUsedSize f r + n \<le> 6999"
  shows "GetUsedSize f ((r + n) mod 7000) = GetUsedSize f r + n"
proof -
  have "GetUsedSize f ((r + n) mod 7000) = (r - f + n) mod 7000"
    using assms by (simp add: GetUsedSize_mod mod_diff_left_eq algebra_simps)
  also have "\<dots> = ((r - f) mod 7000 + n) mod 7000" by (simp add: mod_add_left_eq)
  also have "\<dots> = GetUsedSize f r + n"
    using assms GetUsedSize_bounds [of f r]
    by (subst GetUsedSize_mod [symmetric]) (auto intro: mod_pos_pos_trivial)
  finally show ?thesis .
qed

lemma used_sub:
  assumes "0 \<le> f" "f < 7000" "0 \<le> r" "r < 7000" "0 \<le> n" "n \<le> GetUsedSize f r"
  shows "GetUsedSize ((f + n) mod 7000) r = GetUsedSize f r - n"
proof -
  have "GetUsedSize ((f + n) mod 7000) r = (r - f - n) mod 7000"
    using assms by (simp add: GetUsedSize_mod mod_diff_right_eq algebra_simps)
  also have "\<dots> = ((r - f) mod 7000 - n) mod 7000" by (simp add: mod_diff_left_eq)
  also have "\<dots> = GetUsedSize f r - n"
    using assms GetUsedSize_bounds [of f r]
    by (subst GetUsedSize_mod [symmetric]) (auto intro: mod_pos_pos_trivial)
  finally show ?thesis .
qed

section \<open>Enqueue, Dequeue and Peek implement a bounded byte queue\<close>

text \<open>Where the two-piece and the one-piece copies end up: the same position.\<close>

lemma crem_mod_add: "0 \<le> k \<Longrightarrow> crem (a mod 7000 + k) RING_BUFFER_SIZE = (a + k) mod 7000"
  by (simp add: crem_mod mod_add_left_eq)

lemma crem_mod_add_pred:
  "0 < k \<Longrightarrow> crem (a mod 7000 + k - 1) RING_BUFFER_SIZE = (a + (k - 1)) mod 7000"
  using crem_mod_add [of "k - 1" a] by (simp add: add_diff_eq)

lemma ring_positions:
  assumes "0 \<le> r" "r < 7000" "0 < d"
  shows "crem (r + 1) RING_BUFFER_SIZE = (r + 1) mod 7000"
    and "crem ((r + 1) mod 7000 + d - 1) RING_BUFFER_SIZE = (r + d) mod 7000"
    and "crem ((r + d) mod 7000 + 1) RING_BUFFER_SIZE = (r + 1 + d) mod 7000"
    and "0 < e \<Longrightarrow> crem ((r + 1 + d) mod 7000 + e - 1) RING_BUFFER_SIZE = (r + (d + e)) mod 7000"
proof -
  show "crem (r + 1) RING_BUFFER_SIZE = (r + 1) mod 7000"
    using assms by (simp add: crem_mod)
  have "r + 1 + (d - 1) = r + d" by simp
  then show "crem ((r + 1) mod 7000 + d - 1) RING_BUFFER_SIZE = (r + d) mod 7000"
    using crem_mod_add_pred [of d "r + 1"] assms by (simp only:)
  have "r + d + 1 = r + 1 + d" by simp
  then show "crem ((r + d) mod 7000 + 1) RING_BUFFER_SIZE = (r + 1 + d) mod 7000"
    using crem_mod_add [of 1 "r + d"] by (simp only: zero_le_one)
  have "r + 1 + d + (e - 1) = r + (d + e)" by simp
  then show "0 < e \<Longrightarrow> crem ((r + 1 + d) mod 7000 + e - 1) RING_BUFFER_SIZE = (r + (d + e)) mod 7000"
    using crem_mod_add_pred [of e "r + 1 + d"] by (simp only:)
qed

text \<open>
  The start of the contents seen from the write position, and what extending the slice that
  ends there does to the contents.
\<close>

lemma contents_from_write:
  assumes "ring_inv q"
  shows "contents q = cslice (m_Buffer q)
    (m_writePosition q + 1 - int (length (contents q))) (length (contents q))"
proof -
  let ?u = "GetUsedSize (m_readPosition q) (m_writePosition q)"
  note inv = ring_invD [OF assms]
  have u: "int (length (contents q)) = ?u"
    using contents_length [OF assms] by (simp add: GetReadSize_used)
  have "(m_writePosition q + 1 - ?u) mod 7000 = (m_readPosition q + 1) mod 7000"
    using inv by (simp add: GetUsedSize_mod mod_diff_right_eq add.commute)
  then have "cslice (m_Buffer q) (m_writePosition q + 1 - ?u) (nat ?u)
      = cslice (m_Buffer q) (m_readPosition q + 1) (nat ?u)"
    using inv by (intro cslice_cong_mod) simp
  with u show ?thesis by (simp add: contents_def GetReadSize_used)
qed

lemma contents_extend:
  assumes inv: "ring_inv q" and len: "length b' = length (m_Buffer q)"
    and n: "0 \<le> n" "int (length (contents q)) + n \<le> 6999"
    and sl: "cslice b' (m_writePosition q + 1 - int (length (contents q)))
      (length (contents q) + nat n) = contents q @ xs"
    and q': "q' = q\<lparr>m_Buffer := b', m_writePosition := (m_writePosition q + n) mod 7000\<rparr>"
  shows "ring_inv q' \<and> contents q' = contents q @ xs"
proof -
  note i = ring_invD [OF inv]
  have inv': "ring_inv q'" using i len by (simp add: q' ring_inv_def RING_BUFFER_SIZE_def)
  let ?u = "GetUsedSize (m_readPosition q) (m_writePosition q)"
  have u: "int (length (contents q)) = ?u"
    using contents_length [OF inv] by (simp add: GetReadSize_used)
  have r: "GetReadSize q' = ?u + n"
    using i n u by (simp add: q' GetReadSize_used used_add)
  have "(m_readPosition q + 1) mod 7000 = (m_writePosition q + 1 - ?u) mod 7000"
    using i by (simp add: GetUsedSize_mod mod_diff_right_eq add.commute)
  then have "contents q' = cslice b' (m_writePosition q + 1 - ?u) (nat (?u + n))"
    unfolding contents_def r using i len by (simp add: q') (rule cslice_cong_mod, simp)
  moreover have "nat (?u + n) = length (contents q) + nat n"
    using n u by linarith
  ultimately show ?thesis using inv' sl u by simp
qed

text \<open>The two branches of \<open>Enqueue\<close>, with the clamped size named \<open>n\<close>.\<close>

lemma Enqueue_one_piece:
  assumes inv: "ring_inv q"
    and n: "(if GetFreeSize (m_readPosition q) (m_writePosition q) < sz
         then GetFreeSize (m_readPosition q) (m_writePosition q) else sz) = n" "0 < n"
    and d: "\<not> GetDirectEnqueueSize (m_readPosition q) (m_writePosition q) < n"
    and c: "mem_read buffer 0 n = Inr c"
    and w: "mem_write (m_Buffer q) ((m_writePosition q + 1) mod 7000) c = Inr b"
  shows "Enqueue q buffer sz =
    Inr (q\<lparr>m_Buffer := b, m_writePosition := (m_writePosition q + n) mod 7000\<rparr>, n)"
proof -
  have "\<not> (GetFreeSize (m_readPosition q) (m_writePosition q) < sz \<and>
            GetFreeSize (m_readPosition q) (m_writePosition q) \<le> 0)"
    using n by (auto split: if_splits)
  then show ?thesis
    using c w d n(2) ring_invD [OF inv]
    by (simp only: Enqueue_def Let_def n(1) if_False ebind_simps ring_positions refl)
qed

lemma Enqueue_two_pieces:
  assumes inv: "ring_inv q"
    and n: "(if GetFreeSize (m_readPosition q) (m_writePosition q) < sz
         then GetFreeSize (m_readPosition q) (m_writePosition q) else sz) = n" "0 < n"
    and d: "GetDirectEnqueueSize (m_readPosition q) (m_writePosition q) = d" "0 < d" "d < n"
    and c1: "mem_read buffer 0 d = Inr c1"
    and w1: "mem_write (m_Buffer q) ((m_writePosition q + 1) mod 7000) c1 = Inr b1"
    and c2: "mem_read buffer d (n - d) = Inr c2"
    and w2: "mem_write b1 ((m_writePosition q + 1 + d) mod 7000) c2 = Inr b2"
  shows "Enqueue q buffer sz =
    Inr (q\<lparr>m_Buffer := b2, m_writePosition := (m_writePosition q + n) mod 7000\<rparr>, n)"
proof -
  have "\<not> (GetFreeSize (m_readPosition q) (m_writePosition q) < sz \<and>
            GetFreeSize (m_readPosition q) (m_writePosition q) \<le> 0)"
    using n by (auto split: if_splits)
  moreover have nd: "d + (n - d) = n" "0 < n - d" using d by simp_all
  note P = ring_positions [OF ring_invD(4,5) [OF inv] d(2)]
  ultimately show ?thesis
    using c1 w1 c2 w2 d(3)
    by (simp only: Enqueue_def Let_def n(1) d(1) if_False if_True ebind_simps P(1-3) P(4) [OF nd(2)] nd)
qed

text \<open>What a transfer of \<open>n\<close> bytes into the ring establishes.\<close>

definition enqueued :: "RingQ \<Rightarrow> byte list \<Rightarrow> int \<Rightarrow> (RingQ \<times> int) result \<Rightarrow> bool" where
  "enqueued q buffer n res \<longleftrightarrow> (\<exists>q'. res = Inr (q', n) \<and> ring_inv q' \<and>
     contents q' = contents q @ take (nat n) buffer \<and> m_readPosition q' = m_readPosition q)"

lemma enqueuedI:
  assumes "ring_inv q" "0 \<le> n" "int (length (contents q)) + n \<le> 6999"
    and "res = Inr (q\<lparr>m_Buffer := b, m_writePosition := (m_writePosition q + n) mod 7000\<rparr>, n)"
    and "length b = length (m_Buffer q)"
    and "cslice b (m_writePosition q + 1 - int (length (contents q))) (length (contents q) + nat n)
      = contents q @ take (nat n) buffer"
  shows "enqueued q buffer n res"
  using assms contents_extend [OF assms(1,5,2,3,6) refl] by (auto simp: enqueued_def)

lemma Enqueue_one_piece_correct:
  assumes inv: "ring_inv q" and n: "0 < n" "n \<le> int (length buffer)" "int (length (contents q)) + n \<le> 6999"
    and nif: "(if GetFreeSize (m_readPosition q) (m_writePosition q) < sz
         then GetFreeSize (m_readPosition q) (m_writePosition q) else sz) = n"
    and d: "\<not> GetDirectEnqueueSize (m_readPosition q) (m_writePosition q) < n"
    and fit: "(m_writePosition q + 1) mod 7000 + n \<le> 7000"
  shows "enqueued q buffer n (Enqueue q buffer sz)"
proof -
  let ?r = "m_writePosition q" and ?u = "length (contents q)" and ?c = "take (nat n) buffer"
  have bl: "length (m_Buffer q) = 7000" using ring_invD [OF inv] by linarith
  have c: "mem_read buffer 0 n = Inr ?c" and lc: "length ?c = nat n"
    using n by (simp_all add: mem_read_def)
  obtain b where w: "mem_write (m_Buffer q) ((?r + 1) mod 7000) ?c = Inr b"
    using bl n lc fit by (simp add: mem_write_def)
  have "cslice b (?r + 1 - int ?u) (?u + length ?c) = contents q @ ?c"
    using cslice_mem_write [OF w, of ?u "?r + 1"] bl n lc contents_from_write [OF inv] by simp
  then show ?thesis
    using Enqueue_one_piece [OF inv nif n(1) d c w] lc n mem_write_length [OF w]
    by (intro enqueuedI [OF inv]) simp_all
qed

lemma Enqueue_two_pieces_correct:
  assumes inv: "ring_inv q" and n: "n \<le> int (length buffer)" "int (length (contents q)) + n \<le> 6999"
    and nif: "(if GetFreeSize (m_readPosition q) (m_writePosition q) < sz
         then GetFreeSize (m_readPosition q) (m_writePosition q) else sz) = n"
    and d: "GetDirectEnqueueSize (m_readPosition q) (m_writePosition q) = d" "0 < d" "d < n"
    and fit: "d = 7000 - (m_writePosition q + 1) mod 7000"
  shows "enqueued q buffer n (Enqueue q buffer sz)"
proof -
  let ?r = "m_writePosition q" and ?u = "length (contents q)"
  let ?p = "(?r + 1) mod 7000"
  let ?c1 = "take (nat d) buffer" and ?c2 = "take (nat (n - d)) (drop (nat d) buffer)"
  have bl: "length (m_Buffer q) = 7000" using ring_invD [OF inv] by linarith
  have c1: "mem_read buffer 0 d = Inr ?c1" and l1: "length ?c1 = nat d"
    using d n by (simp_all add: mem_read_def)
  have c2: "mem_read buffer d (n - d) = Inr ?c2" and l2: "length ?c2 = nat (n - d)"
    using d n by (simp_all add: mem_read_def)
  obtain b1 where w1: "mem_write (m_Buffer q) ?p ?c1 = Inr b1"
    using mem_write_ok [of ?p ?c1 "m_Buffer q"] bl l1 d fit by auto
  have "(?r + 1 + d) mod 7000 = (?p + d) mod 7000" by (simp add: mod_add_left_eq)
  also have "\<dots> = 0" by (simp add: fit)
  finally have p2: "(?r + 1 + d) mod 7000 = 0" .
  have b1l: "length b1 = 7000" using mem_write_length [OF w1] bl by simp
  have "0 + int (length ?c2) \<le> int (length b1)" using l2 n d b1l by linarith
  then obtain b2 where w2: "mem_write b1 ((?r + 1 + d) mod 7000) ?c2 = Inr b2"
    using mem_write_ok [of 0 ?c2 b1] unfolding p2 by blast
  have s1: "cslice b1 (?r + 1 - int ?u) (?u + nat d) = contents q @ ?c1"
    using cslice_mem_write [OF w1, of ?u "?r + 1"] bl n d l1 contents_from_write [OF inv] by simp
  have "cslice b2 (?r + 1 + d - int (?u + nat d)) (?u + nat d + length ?c2)
      = cslice b1 (?r + 1 + d - int (?u + nat d)) (?u + nat d) @ ?c2"
    using cslice_mem_write [OF w2, of "?u + nat d" "?r + 1 + d"] b1l n d l2 by simp
  moreover have "?r + 1 + d - int (?u + nat d) = ?r + 1 - int ?u" "?u + nat d + length ?c2 = ?u + nat n"
    using d l2 by simp_all
  moreover have "?c1 @ ?c2 = take (nat n) buffer"
    using d by (simp add: take_add [symmetric] nat_add_distrib [symmetric])
  ultimately have "cslice b2 (?r + 1 - int ?u) (?u + nat n) = contents q @ take (nat n) buffer"
    using s1 by (simp only: append_assoc)
  then show ?thesis
    using Enqueue_two_pieces [OF inv nif _ d c1 w1 c2 w2] b1l bl d n mem_write_length [OF w2]
    by (intro enqueuedI [OF inv]) simp_all
qed

lemma Enqueue_correct:
  assumes inv: "ring_inv q" and sz: "0 < sz" "sz \<le> int (length buffer)"
  shows "enqueued q buffer (min sz (6999 - int (length (contents q)))) (Enqueue q buffer sz)"
proof -
  let ?f = "m_readPosition q" and ?r = "m_writePosition q" and ?u = "int (length (contents q))"
  define n where "n = min sz (6999 - ?u)"
  note i = ring_invD [OF inv]
  have ub: "?u \<le> 6999" using contents_bound [OF inv] by simp
  have fr: "GetFreeSize ?f ?r = 6999 - ?u"
    using GetWriteSize_contents [OF inv] by (simp add: GetWriteSize_free)
  have d: "GetDirectEnqueueSize ?f ?r = min (6999 - ?u) (7000 - (?r + 1) mod 7000)"
    using i fr by (simp add: GetDirectEnqueueSize_min)
  have p: "(?r + 1) mod 7000 < 7000" by simp
  have nif: "(if GetFreeSize ?f ?r < sz then GetFreeSize ?f ?r else sz) = n"
    by (auto simp: fr n_def)
  have n: "n \<le> int (length buffer)" "?u + n \<le> 6999" using sz by (auto simp: n_def)
  consider "n \<le> 0" | "0 < n" "\<not> GetDirectEnqueueSize ?f ?r < n" | "0 < n" "GetDirectEnqueueSize ?f ?r < n"
    by linarith
  then have "enqueued q buffer n (Enqueue q buffer sz)"
  proof cases
    case 1
    with sz ub have "?u = 6999" "n = 0" by (auto simp: n_def)
    with sz inv show ?thesis by (simp add: Enqueue_def fr enqueued_def)
  next
    case 2
    then show ?thesis using d n by (intro Enqueue_one_piece_correct [OF inv _ _ _ nif]) linarith+
  next
    case 3
    then show ?thesis using d n p by (intro Enqueue_two_pieces_correct [OF inv _ _ nif refl]) linarith+
  qed
  then show ?thesis by (simp add: n_def)
qed

text \<open>
  Reading. A read of \<open>n\<close> bytes in one or two pieces delivers the first \<open>n\<close> bytes of the
  contents; \<open>copied\<close> is what the two \<^verbatim>\<open>memcpy\<close> calls leave in the destination.
\<close>

definition copied :: "byte list \<Rightarrow> byte list \<Rightarrow> byte list" where
  "copied dest xs = xs @ drop (length xs) dest"

lemma mem_write_copied:
  "length xs \<le> length dest \<Longrightarrow> mem_write dest 0 xs = Inr (copied dest xs)"
  by (simp add: mem_write_def copied_def)

lemma mem_write_copied_more:
  "length xs + length ys \<le> length dest \<Longrightarrow>
     mem_write (copied dest xs) (int (length xs)) ys = Inr (copied dest (xs @ ys))"
  by (simp add: mem_write_def copied_def add.commute)

lemma contents_prefix:
  assumes "ring_inv q" "0 \<le> n" "n \<le> int (length (contents q))"
  shows "take (nat n) (contents q) = cslice (m_Buffer q) (m_readPosition q + 1) (nat n)"
  using assms contents_length [OF assms(1)]
  by (simp add: contents_def take_cslice min_def)

lemma ring_read_one:
  assumes inv: "ring_inv q" and n: "0 \<le> n" "n \<le> int (length (contents q))"
    and fit: "(m_readPosition q + 1) mod 7000 + n \<le> 7000"
  shows "mem_read (m_Buffer q) ((m_readPosition q + 1) mod 7000) n = Inr (take (nat n) (contents q))"
proof -
  note i = ring_invD [OF inv]
  obtain xs where xs: "mem_read (m_Buffer q) ((m_readPosition q + 1) mod 7000) n = Inr xs"
    using i fit n by (simp add: mem_read_def)
  have "xs = cslice (m_Buffer q) ((m_readPosition q + 1) mod 7000) (nat n)"
    using xs by (rule mem_read_cslice)
  also have "\<dots> = take (nat n) (contents q)"
    using contents_prefix [OF inv n] i cslice_mod [of "m_Buffer q" "m_readPosition q + 1"] by simp
  finally show ?thesis using xs by simp
qed

lemma ring_read_rest:
  assumes inv: "ring_inv q" and d: "0 \<le> d" "0 \<le> e" "d + e \<le> int (length (contents q))"
    and p: "(m_readPosition q + 1 + d) mod 7000 = 0"
  shows "mem_read (m_Buffer q) ((m_readPosition q + 1 + d) mod 7000) e
    = Inr (take (nat e) (drop (nat d) (contents q)))"
proof -
  note i = ring_invD [OF inv]
  have e: "e \<le> 7000" using d contents_bound [OF inv] by linarith
  obtain xs where xs: "mem_read (m_Buffer q) ((m_readPosition q + 1 + d) mod 7000) e = Inr xs"
    using i d e unfolding p by (simp add: mem_read_def)
  have "xs = cslice (m_Buffer q) (m_readPosition q + 1 + d) (nat e)"
    using mem_read_cslice [OF xs] i cslice_mod [of "m_Buffer q" "m_readPosition q + 1 + d"] by simp
  also have "\<dots> = take (nat e) (drop (nat d) (contents q))"
    using d contents_length [OF inv]
    by (simp add: contents_def drop_cslice take_cslice min_def)
  finally show ?thesis using xs by simp
qed

text \<open>
  The clamp and the choice between one and two pieces are the same in \<open>Dequeue\<close> and
  \<open>Peek\<close>: the facts about the sizes that both proofs use.
\<close>

lemma read_sizes:
  assumes inv: "ring_inv q" and sz: "0 < sz"
  defines "n \<equiv> min sz (int (length (contents q)))"
  defines "d \<equiv> GetDirectDequeueSize (m_readPosition q) (m_writePosition q)"
  shows "GetUsedSize (m_readPosition q) (m_writePosition q) = int (length (contents q))"
    and "(if int (length (contents q)) < sz then int (length (contents q)) else sz) = n"
    and "n \<le> 0 \<Longrightarrow> contents q = []"
    and "0 < n \<Longrightarrow> \<not> (int (length (contents q)) < sz \<and> int (length (contents q)) \<le> 0)"
    and "\<not> d < n \<Longrightarrow> (m_readPosition q + 1) mod 7000 + n \<le> 7000"
    and "d < n \<Longrightarrow> d = 7000 - (m_readPosition q + 1) mod 7000"
    and "d < n \<Longrightarrow> 0 < d"
    and "d < n \<Longrightarrow> (m_readPosition q + 1 + d) mod 7000 = 0"
proof -
  note i = ring_invD [OF inv]
  show u: "GetUsedSize (m_readPosition q) (m_writePosition q) = int (length (contents q))"
    using contents_length [OF inv] by (simp add: GetReadSize_used)
  have d: "d = min (int (length (contents q))) (7000 - (m_readPosition q + 1) mod 7000)"
    using i u by (simp add: d_def GetDirectDequeueSize_min)
  have p: "(m_readPosition q + 1) mod 7000 < 7000" by simp
  show "(if int (length (contents q)) < sz then int (length (contents q)) else sz) = n"
    "n \<le> 0 \<Longrightarrow> contents q = []"
    "0 < n \<Longrightarrow> \<not> (int (length (contents q)) < sz \<and> int (length (contents q)) \<le> 0)"
    "\<not> d < n \<Longrightarrow> (m_readPosition q + 1) mod 7000 + n \<le> 7000"
    using sz d by (auto simp: n_def min_def split: if_splits)
  show dd: "d < n \<Longrightarrow> d = 7000 - (m_readPosition q + 1) mod 7000"
    using d by (auto simp: n_def min_def split: if_splits)
  then show "d < n \<Longrightarrow> 0 < d" using p by linarith
  have "(m_readPosition q + 1 + d) mod 7000 = ((m_readPosition q + 1) mod 7000 + d) mod 7000"
    by (simp add: mod_add_left_eq)
  then show "d < n \<Longrightarrow> (m_readPosition q + 1 + d) mod 7000 = 0" using dd by simp
qed

lemma contents_drop:
  assumes inv: "ring_inv q" and n: "0 \<le> n" "n \<le> int (length (contents q))"
    and q': "q' = q\<lparr>m_readPosition := (m_readPosition q + n) mod 7000\<rparr>"
  shows "ring_inv q'" and "contents q' = drop (nat n) (contents q)"
proof -
  note i = ring_invD [OF inv]
  let ?u = "GetUsedSize (m_readPosition q) (m_writePosition q)"
  have u: "int (length (contents q)) = ?u"
    using contents_length [OF inv] by (simp add: GetReadSize_used)
  show "ring_inv q'" using i by (simp add: q' ring_inv_def RING_BUFFER_SIZE_def)
  have r: "GetReadSize q' = ?u - n" using i n u by (simp add: q' GetReadSize_used used_sub)
  have "((m_readPosition q + n) mod 7000 + 1) mod 7000 = (m_readPosition q + n + 1) mod 7000"
    by (simp add: mod_add_left_eq)
  then have "((m_readPosition q + n) mod 7000 + 1) mod 7000 = (m_readPosition q + 1 + n) mod 7000"
    by (simp add: add.commute add.left_commute)
  then have "contents q' = cslice (m_Buffer q) (m_readPosition q + 1 + n) (nat (?u - n))"
    unfolding contents_def r using i by (simp add: q') (rule cslice_cong_mod, simp)
  also have "\<dots> = drop (nat n) (contents q)"
    using n u by (simp add: contents_def GetReadSize_used drop_cslice nat_diff_distrib)
  finally show "contents q' = drop (nat n) (contents q)" .
qed

lemma Dequeue_correct:
  assumes inv: "ring_inv q" and sz: "0 < sz" "sz \<le> int (length dest)"
  defines "n \<equiv> min sz (int (length (contents q)))"
  shows "\<exists>q'. Dequeue q dest sz = Inr (q', copied dest (take (nat n) (contents q)), n) \<and>
     ring_inv q' \<and> contents q' = drop (nat n) (contents q)"
proof -
  let ?f = "m_readPosition q" and ?q' = "q\<lparr>m_readPosition := (m_readPosition q + n) mod 7000\<rparr>"
  define d where "d = GetDirectDequeueSize ?f (m_writePosition q)"
  note sizes = read_sizes [OF inv sz(1), folded n_def d_def]
  have n: "n \<le> int (length (contents q))" "n \<le> int (length dest)" using sz by (auto simp: n_def)
  have fin: "0 < n \<Longrightarrow> Dequeue q dest sz = Inr (?q', copied dest (take (nat n) (contents q)), n) \<Longrightarrow> ?thesis"
    using contents_drop [OF inv _ n(1) refl] by auto
  consider "n \<le> 0" | "0 < n" "\<not> d < n" | "0 < n" "d < n" by linarith
  then show ?thesis
  proof cases
    case 1
    from sizes(3) [OF this] sz have "contents q = []" "n = 0" by (simp_all add: n_def)
    with sz inv show ?thesis by (simp add: Dequeue_def sizes(1) copied_def)
  next
    case 2
    note P = ring_positions [OF ring_invD(2,3) [OF inv] 2(1)]
    have "mem_write dest 0 (take (nat n) (contents q)) = Inr (copied dest (take (nat n) (contents q)))"
      using n by (intro mem_write_copied) simp
    moreover have "mem_read (m_Buffer q) ((?f + 1) mod 7000) n = Inr (take (nat n) (contents q))"
      using 2 n sizes(5) by (intro ring_read_one [OF inv]) simp_all
    ultimately have "Dequeue q dest sz = Inr (?q', copied dest (take (nat n) (contents q)), n)"
      using 2 sizes(4)
      by (simp only: Dequeue_def Let_def sizes(1,2) d_def [symmetric] P if_False ebind_simps)
    with 2 show ?thesis by (intro fin)
  next
    case 3
    note P = ring_positions [OF ring_invD(2,3) [OF inv] sizes(7) [OF 3(2)]]
    have nd: "0 < n - d" "d + (n - d) = n" using 3 by simp_all
    let ?c1 = "take (nat d) (contents q)" and ?c2 = "take (nat (n - d)) (drop (nat d) (contents q))"
    have d: "0 < d" "d \<le> int (length (contents q))" using sizes(7) 3 n by auto
    have r1: "mem_read (m_Buffer q) ((?f + 1) mod 7000) d = Inr ?c1"
      using d sizes(6) 3 by (intro ring_read_one [OF inv]) simp_all
    have r2: "mem_read (m_Buffer q) ((?f + 1 + d) mod 7000) (n - d) = Inr ?c2"
      using d n 3 sizes(8) by (intro ring_read_rest [OF inv]) simp_all
    have w1: "mem_write dest 0 ?c1 = Inr (copied dest ?c1)"
      using 3 n by (intro mem_write_copied) simp
    have "int (length ?c1) = d" using d by simp
    then have w2: "mem_write (copied dest ?c1) d ?c2 = Inr (copied dest (?c1 @ ?c2))"
      using mem_write_copied_more [of ?c1 ?c2 dest] d n 3 by simp
    have "?c1 @ ?c2 = take (nat n) (contents q)"
      using d nd by (simp add: take_add [symmetric] nat_add_distrib [symmetric])
    then have "Dequeue q dest sz = Inr (?q', copied dest (take (nat n) (contents q)), n)"
      using 3 sizes(4) r1 r2 w1 w2
      by (simp only: Dequeue_def Let_def sizes(1,2) d_def [symmetric] P(1-3) P(4) [OF nd(1)] nd
            if_False if_True ebind_simps)
    with 3 show ?thesis by (intro fin)
  qed
qed

lemma Peek_correct:
  assumes inv: "ring_inv q" and sz: "0 < sz" "sz \<le> int (length dest)"
  defines "n \<equiv> min sz (int (length (contents q)))"
  shows "Peek q dest sz = Inr (copied dest (take (nat n) (contents q)), n)"
proof -
  have "Dequeue q dest sz = Inr (q', d, k) \<Longrightarrow> Peek q dest sz = Inr (d, k)" for q' d k
    by (auto simp: Peek_def Dequeue_def Let_def GetDirectReadSize_direct split: if_splits)
  then show ?thesis using Dequeue_correct [OF inv sz] unfolding n_def by blast
qed

section \<open>Moving the positions\<close>

lemma MoveReadPosition_correct:
  assumes inv: "ring_inv q" and n: "0 \<le> n" "n \<le> int (length (contents q))"
  shows "ring_inv (MoveReadPosition q n)"
    and "contents (MoveReadPosition q n) = drop (nat n) (contents q)"
proof -
  have "MoveReadPosition q n = q\<lparr>m_readPosition := (m_readPosition q + n) mod 7000\<rparr>"
    using n ring_invD [OF inv] by (simp add: MoveReadPosition_def crem_mod)
  from contents_drop [OF inv n this]
  show "ring_inv (MoveReadPosition q n)" "contents (MoveReadPosition q n) = drop (nat n) (contents q)" .
qed

text \<open>
  \<open>MoveWitePosition\<close> accepts what a completed receive left in the free regions: the bytes
  after the contents become contents.
\<close>

definition free_bytes :: "RingQ \<Rightarrow> nat \<Rightarrow> byte list" where
  "free_bytes q n = cslice (m_Buffer q) (m_writePosition q + 1) n"

lemma MoveWitePosition_correct:
  assumes inv: "ring_inv q" and n: "0 \<le> n" "n \<le> GetWriteSize q"
  shows "ring_inv (MoveWitePosition q n)"
    and "contents (MoveWitePosition q n) = contents q @ free_bytes q (nat n)"
proof -
  note i = ring_invD [OF inv]
  have q': "MoveWitePosition q n
      = q\<lparr>m_Buffer := m_Buffer q, m_writePosition := (m_writePosition q + n) mod 7000\<rparr>"
    using n i by (simp add: MoveWitePosition_def crem_mod)
  let ?u = "length (contents q)"
  have "cslice (m_Buffer q) (m_writePosition q + 1 - int ?u) (?u + nat n)
      = contents q @ free_bytes q (nat n)"
    using contents_from_write [OF inv] by (simp add: cslice_append free_bytes_def)
  then show "ring_inv (MoveWitePosition q n)"
    "contents (MoveWitePosition q n) = contents q @ free_bytes q (nat n)"
    using contents_extend [OF inv refl n(1) _ _ q'] n GetWriteSize_contents [OF inv] by auto
qed

lemma ClearBuffer_correct: "ring_inv q \<Longrightarrow> ring_inv (ClearBuffer q) \<and> contents (ClearBuffer q) = []"
  by (simp add: ring_inv_def ClearBuffer_def contents_def GetReadSize_def RING_BUFFER_SIZE_def)

section \<open>The scatter list\<close>

text \<open>A list of regions read one after the other.\<close>

definition region_bytes :: "byte list \<Rightarrow> WSABUF list \<Rightarrow> byte list" where
  "region_bytes b bs = concat (map (\<lambda>w. cslice b (buf w) (nat (len w))) bs)"

lemma direct_enq_loop_step:
  assumes "crem (r + 1) RING_BUFFER_SIZE = p"
  shows "direct_enq_loop (Suc k) f r acc =
    (if p = f then acc
     else let d = (if p < f then f - p else 7000 - p) in
       direct_enq_loop k f (crem (r + d) RING_BUFFER_SIZE) (acc @ [\<lparr>buf = p, len = d\<rparr>]))"
  by (simp add: GetWriteBufferPtr_def GetDirectEnqueueSize_def assms Let_def)
     (simp add: RING_BUFFER_SIZE_def)

lemma GetDirectEnQData_regions:
  assumes inv: "ring_inv q"
  defines "p \<equiv> (m_writePosition q + 1) mod 7000" and "n \<equiv> GetWriteSize q"
  shows "GetDirectEnQData q [] =
    (if n = 0 then []
     else if p + n \<le> 7000 then [\<lparr>buf = p, len = n\<rparr>]
     else [\<lparr>buf = p, len = 7000 - p\<rparr>, \<lparr>buf = 0, len = n - (7000 - p)\<rparr>])"
proof -
  let ?f = "m_readPosition q" and ?r = "m_writePosition q"
  note i = ring_invD [OF inv]
  have p: "crem (?r + 1) RING_BUFFER_SIZE = p" "p = (if ?r = 6999 then 0 else ?r + 1)"
    using i by (simp_all add: p_def crem_mod)
  have n: "n = (if p = ?f then 0 else if p < ?f then ?f - p else ?f + 7000 - p)"
    using i by (auto simp: n_def GetWriteSize_def Let_def p, auto simp: RING_BUFFER_SIZE_def)
  consider "p = ?f" | "p < ?f" | "?f < p" by linarith
  then show ?thesis
  proof cases
    case 1
    then show ?thesis
      by (simp add: GetDirectEnQData_def numeral_2_eq_2 direct_enq_loop_step [OF p(1)] n
          del: direct_enq_loop.simps(2))
  next
    case 2
    have "?r + (?f - p) = ?f - 1 \<or> ?r + (?f - p) = ?f - 1 + 7000"
      using p(2) by (auto split: if_splits)
    then have "(?r + (?f - p)) mod 7000 = (?f - 1) mod 7000"
      by (metis mod_add_self2)
    also have "\<dots> = ?f - 1" using 2 i p_def by (intro mod_pos_pos_trivial) (auto simp: p(2) split: if_splits)
    finally have "crem (?r + (?f - p)) RING_BUFFER_SIZE = ?f - 1"
      using 2 i by (simp add: crem_mod)
    moreover have "crem (?f - 1 + 1) RING_BUFFER_SIZE = ?f" using i by (simp add: crem_small)
    ultimately show ?thesis
      using 2 i n by (simp add: GetDirectEnQData_def numeral_2_eq_2 direct_enq_loop_step [OF p(1)]
          direct_enq_loop_step [where r = "?f - 1"] Let_def del: direct_enq_loop.simps(2))
  next
    case 3
    have "crem (?r + (7000 - p)) RING_BUFFER_SIZE = 6999"
      using 3 i p(2) by (auto simp: RING_BUFFER_SIZE_def crem_simps split: if_splits)
    moreover have "crem (6999 + 1) RING_BUFFER_SIZE = 0" by (simp add: RING_BUFFER_SIZE_def crem_simps)
    ultimately show ?thesis
      using 3 i p n by (auto simp: GetDirectEnQData_def numeral_2_eq_2 direct_enq_loop_step [OF p(1)]
          direct_enq_loop_step [where r = 6999 and p = 0] Let_def
          simp del: direct_enq_loop.simps(2))
  qed
qed

text \<open>
  The regions handed to the kernel are inside the array and are, in order, exactly the free
  bytes of the ring.
\<close>

lemma GetDirectEnQData_correct:
  assumes inv: "ring_inv q"
  shows "\<forall>w \<in> set (GetDirectEnQData q []). 0 \<le> buf w \<and> 0 < len w \<and> buf w + len w \<le> 7000"
    and "sum_list (map len (GetDirectEnQData q [])) = GetWriteSize q"
    and "region_bytes (m_Buffer q) (GetDirectEnQData q []) = free_bytes q (nat (GetWriteSize q))"
proof -
  let ?p = "(m_writePosition q + 1) mod 7000" and ?n = "GetWriteSize q"
  note i = ring_invD [OF inv]
  have p: "0 \<le> ?p" "?p < 7000" by simp_all
  have n: "0 \<le> ?n" "?n \<le> 6999"
    using GetWriteSize_contents [OF inv] contents_bound [OF inv] by simp_all
  show "\<forall>w \<in> set (GetDirectEnQData q []). 0 \<le> buf w \<and> 0 < len w \<and> buf w + len w \<le> 7000"
    "sum_list (map len (GetDirectEnQData q [])) = ?n"
    using p n by (auto simp: GetDirectEnQData_regions [OF inv])
  have sl: "cslice (m_Buffer q) ?p k = cslice (m_Buffer q) (m_writePosition q + 1) k" for k
    using i cslice_mod [of "m_Buffer q" "m_writePosition q + 1"] by simp
  have "(m_writePosition q + 1 - ?p + 7000) mod 7000 = 0"
    by (simp add: minus_mod_eq_mult_div del: mod_diff_right_eq)
  then have "0 mod 7000 = (m_writePosition q + 1 + (7000 - ?p)) mod 7000"
    by (simp add: add.commute add_diff_eq)
  then have "cslice (m_Buffer q) 0 k = cslice (m_Buffer q) (m_writePosition q + 1 + (7000 - ?p)) k" for k
    using i by (intro cslice_cong_mod) (simp only:)
  moreover have "nat ?n = nat (7000 - ?p) + nat (?n - (7000 - ?p))" if "7000 < ?p + ?n"
    using that p by linarith
  ultimately show "region_bytes (m_Buffer q) (GetDirectEnQData q []) = free_bytes q (nat ?n)"
    using p n by (auto simp: GetDirectEnQData_regions [OF inv] region_bytes_def free_bytes_def sl
        cslice_append)
qed

section \<open>The ring is a bounded queue\<close>

text \<open>
  The interface's operations on the model: \<open>ring_put\<close> is \<open>Enqueue\<close> of a whole buffer and
  \<open>ring_get\<close> is \<open>Dequeue\<close> into a buffer of the requested size; an access outside a buffer is
  a failure of the run.
\<close>

definition ring_put :: "RingQ \<Rightarrow> byte list \<Rightarrow> (RingQ \<times> nat) result" where
  "ring_put q xs = ebind (Enqueue q xs (int (length xs))) (\<lambda>(q, n). Inr (q, nat n))"

definition ring_get :: "RingQ \<Rightarrow> nat \<Rightarrow> (RingQ \<times> byte list) result" where
  "ring_get q k = ebind (Dequeue q (replicate k 0) (int k)) (\<lambda>(q, d, n). Inr (q, take (nat n) d))"

interpretation ring: bounded_fifo ring_inv contents 6999 ring_put ring_get
proof
  show "length (contents q) \<le> 6999" if "ring_inv q" for q
    using that by (rule contents_bound)
next
  fix q and xs :: "byte list" and n assume a: "ring_inv q" "xs \<noteq> []" "n = min (length xs) (6999 - length (contents q))"
  from a Enqueue_correct [of q "int (length xs)" xs] contents_bound [of q]
  show "\<exists>q'. ring_put q xs = Inr (q', n) \<and> ring_inv q' \<and> contents q' = contents q @ take n xs"
    by (auto simp: ring_put_def enqueued_def min_def nat_diff_distrib split: if_splits)
next
  fix q and k :: nat assume a: "ring_inv q" "0 < k"
  from a Dequeue_correct [of q "int k" "replicate k 0"]
  show "\<exists>q'. ring_get q k = Inr (q', take k (contents q)) \<and> ring_inv q' \<and> contents q' = drop k (contents q)"
    by (auto simp: ring_get_def copied_def min_def)
qed

section \<open>Zero-length calls\<close>

text \<open>
  With a length of zero and the position at the last slot, the copy loop's \<^verbatim>\<open>(pos + 0 - 1) % N\<close>
  is \<^verbatim>\<open>-1 % N = -1\<close>: the position leaves the ring.
\<close>

lemma Enqueue_zero:
  assumes "ring_inv q" "m_writePosition q = 6999" "m_readPosition q \<noteq> 0"
  shows "Enqueue q [] 0 = Inr (q\<lparr>m_writePosition := - 1\<rparr>, 0)"
  using ring_invD [OF assms(1)] assms(2,3)
  by (simp add: Enqueue_def GetFreeSize_def GetDirectEnqueueSize_def crem_next Let_def)
     (auto simp: RING_BUFFER_SIZE_def mem_read_def mem_write_def crem_simps)

lemma Dequeue_zero:
  assumes "ring_inv q" "m_readPosition q = 6999" "m_writePosition q = 6999"
  shows "Dequeue q dest 0 = Inr (q\<lparr>m_readPosition := - 1\<rparr>, dest, 0)"
  using ring_invD [OF assms(1)] assms(2,3)
  by (simp add: Dequeue_def GetUsedSize_def GetDirectDequeueSize_def crem_next Let_def)
     (auto simp: RING_BUFFER_SIZE_def mem_read_def mem_write_def crem_simps)

section \<open>Properties\<close>

text \<open>
  C1. Whatever sequence of non-empty \<open>Enqueue\<close> and \<open>Dequeue\<close> calls runs on a new ring, no call touches
  memory outside the ring or the caller's buffer, and every call reports what a list of at
  most 6999 bytes would: an \<open>Enqueue\<close> accepts as many bytes as fit (all of them while there is
  room), a \<open>Dequeue\<close> delivers the oldest bytes, as many as were asked for and are inside. At the
  end the ring holds the bytes of that list: the bytes accepted are the bytes delivered
  followed by those, in order.
\<close>

theorem ring_runs_as_fifo:
  assumes "list_all proper_op ops" "fifo_spec 6999 [] ops = (bytes, outs)"
  shows "\<exists>q. fifo_run ring_put ring_get RingQ_new ops = Inr (q, outs) \<and> contents q = bytes \<and> ring_inv q \<and>
    accepted_in ops outs = delivered_in outs @ contents q \<and> length (contents q) \<le> 6999"
proof -
  obtain q where "fifo_run ring_put ring_get RingQ_new ops = Inr (q, outs)" "ring_inv q" "contents q = bytes"
    using ring.run_fifo [OF RingQ_new_inv(1) assms(1)] assms(2) RingQ_new_inv(2) by auto
  then show ?thesis using fifo_spec_conserves [OF assms(2)] contents_bound by auto
qed

theorem ring_runs_as_fifo_witness:
  "\<exists>q. fifo_run ring_put ring_get RingQ_new [Put (replicate 5000 1), Get 4000, Put (replicate 6000 2), Get 1, Put [3]] =
      Inr (q, [Accepted 5000, Delivered (replicate 4000 1), Accepted 5999, Delivered [1], Accepted 1]) \<and>
    contents q = replicate 999 1 @ replicate 5999 2 @ [3]"
  using ring_runs_as_fifo [of "[Put (replicate 5000 1), Get 4000, Put (replicate 6000 2), Get 1, Put [3]]"
      "replicate 999 1 @ replicate 5999 2 @ [3]"
      "[Accepted 5000, Delivered (replicate 4000 1), Accepted 5999, Delivered [1], Accepted 1]"]
  by (auto simp: take_Cons')

text \<open>
  \<open>Peek\<close> returns what \<open>Dequeue\<close> with the same arguments would return and leaves the ring as
  it is; \<open>Dequeue\<close> takes the first bytes of the contents, as many as asked for and present.
\<close>

theorem Peek_agrees_with_Dequeue:
  assumes "ring_inv q" "0 < sz" "sz \<le> int (length dest)"
  shows "\<exists>q' d n. Dequeue q dest sz = Inr (q', d, n) \<and> Peek q dest sz = Inr (d, n) \<and>
    n = min sz (int (length (contents q))) \<and> take (nat n) d = take (nat sz) (contents q) \<and>
    contents q = take (nat n) d @ contents q'"
proof -
  let ?n = "min sz (int (length (contents q)))"
  have "length (take (nat ?n) (contents q)) = nat ?n" by auto
  then have c: "take (nat ?n) (copied dest (take (nat ?n) (contents q))) = take (nat ?n) (contents q)"
    by (simp add: copied_def)
  have "take (nat ?n) (contents q) = take (nat sz) (contents q)"
    "contents q = take (nat sz) (contents q) @ drop (nat ?n) (contents q)" by (auto simp: min_def)
  with c Dequeue_correct [OF assms] Peek_correct [OF assms] show ?thesis by auto
qed

theorem Peek_agrees_with_Dequeue_witness:
  "\<exists>q' d n. Dequeue RingQ_new [7, 8] 2 = Inr (q', d, n) \<and> Peek RingQ_new [7, 8] 2 = Inr (d, n) \<and>
    n = min 2 (int (length (contents RingQ_new))) \<and> take (nat n) d = take (nat 2) (contents RingQ_new) \<and>
    contents RingQ_new = take (nat n) d @ contents q'"
  by (rule Peek_agrees_with_Dequeue [OF RingQ_new_inv(1)]) simp_all

text \<open>
  C22. The scatter list handed to \<^verbatim>\<open>WSARecv\<close>: every region lies inside \<^verbatim>\<open>m_Buffer\<close>, together the
  regions are as long as \<open>GetWriteSize\<close> says, and bytes written to them in order become, after
  \<open>MoveWitePosition\<close>, the bytes after the old contents.
\<close>

theorem scatter_list_is_the_free_space:
  assumes "ring_inv q" "0 \<le> n" "n \<le> GetWriteSize q"
  shows "list_all (\<lambda>w. 0 \<le> buf w \<and> 0 < len w \<and> buf w + len w \<le> 7000) (GetDirectEnQData q []) \<and>
    sum_list (map len (GetDirectEnQData q [])) = GetWriteSize q \<and>
    ring_inv (MoveWitePosition q n) \<and> contents (MoveWitePosition q n) =
      contents q @ take (nat n) (region_bytes (m_Buffer q) (GetDirectEnQData q []))"
proof -
  have "take (nat n) (free_bytes q (nat (GetWriteSize q))) = free_bytes q (nat n)"
    using assms(3) by (simp add: free_bytes_def take_cslice min_def)
  then show ?thesis
    using GetDirectEnQData_correct [OF assms(1)] MoveWitePosition_correct [OF assms]
    by (simp add: list_all_iff)
qed

theorem scatter_list_is_the_free_space_witness:
  "list_all (\<lambda>w. 0 \<le> buf w \<and> 0 < len w \<and> buf w + len w \<le> 7000) (GetDirectEnQData RingQ_new []) \<and>
    sum_list (map len (GetDirectEnQData RingQ_new [])) = GetWriteSize RingQ_new \<and>
    ring_inv (MoveWitePosition RingQ_new 5) \<and> contents (MoveWitePosition RingQ_new 5) =
      contents RingQ_new @ take (nat 5) (region_bytes (m_Buffer RingQ_new) (GetDirectEnQData RingQ_new []))"
  using scatter_list_is_the_free_space [OF RingQ_new_inv(1), of 5]
    GetWriteSize_contents [OF RingQ_new_inv(1)] RingQ_new_inv(2) by simp

text \<open>
  A zero-length call corrupts the ring: with the positions at the last slot of an empty
  ring, \<open>Dequeue\<close> of zero bytes leaves the read position at \<open>-1\<close>, outside the array, and the ring
  then claims to hold 7000 bytes that nobody sent.
\<close>

theorem zero_length_Dequeue_corrupts:
  assumes "ring_inv q" "m_readPosition q = 6999" "m_writePosition q = 6999"
  shows "\<exists>q'. Dequeue q dest 0 = Inr (q', dest, 0) \<and> contents q = [] \<and>
    m_readPosition q' = - 1 \<and> GetReadSize q' = 7000"
  using Dequeue_zero [OF assms] assms(2,3) by (simp add: contents_def GetReadSize_def)

theorem zero_length_Dequeue_corrupts_witness:
  "\<exists>q'. Dequeue (RingQ_new\<lparr>m_readPosition := 6999, m_writePosition := 6999\<rparr>) [] 0 = Inr (q', [], 0) \<and>
    contents (RingQ_new\<lparr>m_readPosition := 6999, m_writePosition := 6999\<rparr>) = [] \<and>
    m_readPosition q' = - 1 \<and> GetReadSize q' = 7000"
  by (rule zero_length_Dequeue_corrupts)
     (simp_all add: ring_inv_def RingQ_new_def RING_BUFFER_SIZE_def)

end
