(* ===== verification/Packet_Codec.thy ===== *)
theory Packet_Codec
  imports MMO_Prelude
begin

unbundle bit_operations_syntax

text \<open>
  The wire format: a packet is a four-byte little-endian length followed by a FlatBuffers
  payload that \<^verbatim>\<open>NetworkServer::Convert\<close> (ServerCore/Network/NetworkServer.cpp) scrambles by a
  fixed key stream. \<open>ReadScalar_u32\<close> and \<open>to_int32\<close> are the header read of
  \<^verbatim>\<open>NetworkTaskReceiveIO::Complete\<close>; \<open>packet_bytes\<close> is what \<^verbatim>\<open>NetworkSession::Send\<close> puts on the
  wire for a payload.
\<close>

section \<open>The key stream\<close>

definition g_key :: "byte list" where
  "g_key = map of_char ''MMORPG - MOBIRIX''"

definition next_key :: "byte \<Rightarrow> nat \<Rightarrow> byte" where
  "next_key key n = (key + g_key ! (n mod length g_key)) * 253 + 195"

fun convert_loop :: "nat \<Rightarrow> byte \<Rightarrow> byte list \<Rightarrow> byte list" where
  "convert_loop n key [] = []"
| "convert_loop n key (b # bs) =
     (let key' = next_key key n in (b XOR key') # convert_loop (Suc n) key' bs)"

definition convert_bytes :: "byte list \<Rightarrow> byte list" where
  "convert_bytes bs = convert_loop 0 0 bs"

text \<open>
  \<open>Convert m p n\<close>: in place, on the \<open>n\<close> bytes at offset \<open>p\<close> of the block \<open>m\<close>. The loop does
  not run for \<open>n \<le> 0\<close>.
\<close>

definition Convert :: "byte list \<Rightarrow> int \<Rightarrow> int \<Rightarrow> byte list result" where
  "Convert m p bufferSize =
     (if bufferSize \<le> 0 then Inr m
      else ebind (mem_read m p bufferSize) (\<lambda>bs. mem_write m p (convert_bytes bs)))"

section \<open>The length header\<close>

definition PACKET_HEADER_SIZE :: int where
  "PACKET_HEADER_SIZE = 4"

text \<open>A little-endian \<^verbatim>\<open>uint32_t\<close> read.\<close>

definition le_value :: "byte list \<Rightarrow> int" where
  "le_value bs = foldr (\<lambda>b v. uint b + 256 * v) bs 0"

definition ReadScalar_u32 :: "byte list \<Rightarrow> int \<Rightarrow> int result" where
  "ReadScalar_u32 m p = ebind (mem_read m p 4) (\<lambda>bs. Inr (le_value bs))"

primrec le_bytes :: "nat \<Rightarrow> int \<Rightarrow> byte list" where
  "le_bytes 0 v = []"
| "le_bytes (Suc k) v = word_of_int v # le_bytes k (v div 256)"

text \<open>
  The size-prefixed buffer the FlatBuffers builder releases for a payload, and the bytes of
  the packet after \<^verbatim>\<open>Send\<close> has converted the payload.
\<close>

definition size_prefixed :: "byte list \<Rightarrow> byte list" where
  "size_prefixed payload = le_bytes 4 (int (length payload)) @ payload"

definition packet_bytes :: "byte list \<Rightarrow> byte list result" where
  "packet_bytes payload =
     (let buffer = size_prefixed payload;
          messageSize = to_int32 (int (length buffer) - PACKET_HEADER_SIZE) in
      if messageSize > 0 then Convert buffer PACKET_HEADER_SIZE messageSize else Inr buffer)"

section \<open>Lemmas\<close>

lemma length_g_key [simp]: "length g_key = 16"
  by (simp add: g_key_def)

lemma length_convert_loop [simp]: "length (convert_loop n k bs) = length bs"
  by (induction bs arbitrary: n k) (simp_all add: Let_def)

lemma length_convert_bytes [simp]: "length (convert_bytes bs) = length bs"
  by (simp add: convert_bytes_def)

lemma convert_loop_involutive: "convert_loop n k (convert_loop n k bs) = bs"
  by (induction bs arbitrary: n k) (simp_all add: Let_def xor.assoc)

lemma convert_bytes_involutive [simp]: "convert_bytes (convert_bytes bs) = bs"
  by (simp add: convert_bytes_def convert_loop_involutive)

text \<open>The key stream depends on the position only: conversion works byte by byte.\<close>

primrec key_stream :: "nat \<Rightarrow> byte" where
  "key_stream 0 = next_key 0 0"
| "key_stream (Suc n) = next_key (key_stream n) (Suc n)"

lemma convert_loop_nth:
  "i < length bs \<Longrightarrow> convert_loop (Suc n) (key_stream n) bs ! i = bs ! i XOR key_stream (Suc n + i)"
proof (induction bs arbitrary: n i)
  case (Cons b bs)
  show ?case
  proof (cases i)
    case (Suc j)
    with Cons.prems Cons.IH [of j "Suc n"] show ?thesis by (simp add: Let_def)
  qed (simp add: Let_def)
qed simp

lemma convert_bytes_nth:
  "i < length bs \<Longrightarrow> convert_bytes bs ! i = bs ! i XOR key_stream i"
proof (cases bs)
  case (Cons b bs')
  assume "i < length bs"
  with Cons show ?thesis
    using convert_loop_nth [of "i - 1" bs' 0]
    by (cases i) (simp_all add: convert_bytes_def Let_def)
qed simp

lemma Convert_ok:
  assumes "0 \<le> p" "0 \<le> n" "p + n \<le> int (length m)"
  shows "Convert m p n =
    Inr (take (nat p) m @ convert_bytes (take (nat n) (drop (nat p) m)) @ drop (nat p + nat n) m)"
proof (cases "n = 0")
  case True
  then show ?thesis by (simp add: Convert_def convert_bytes_def)
next
  case False
  have "nat p + nat n \<le> length m" using assms by linarith
  then have "length (take (nat n) (drop (nat p) m)) = nat n" by simp
  with False assms show ?thesis
    by (simp add: Convert_def mem_read_ok mem_write_def)
qed

lemma Convert_mem_write:
  assumes "mem_read m p n = Inr xs"
  shows "Convert m p n = mem_write m p (convert_bytes xs)"
proof (cases "n \<le> 0")
  case True
  with assms have "xs = []" "0 \<le> p" "p \<le> int (length m)"
    by (auto simp: mem_read_def split: if_splits)
  with True show ?thesis by (simp add: Convert_def convert_bytes_def mem_write_Nil)
qed (simp add: Convert_def assms)

lemma le_value_Cons: "le_value (b # bs) = uint b + 256 * le_value bs"
  by (simp add: le_value_def)

lemma le_value_bounds: "0 \<le> le_value bs \<and> le_value bs < 256 ^ length bs"
proof (induction bs)
  case (Cons b bs)
  have "0 \<le> uint b" "uint b < 256" using uint_lt2p [of b] by simp_all
  with Cons show ?case by (simp add: le_value_Cons)
qed (simp add: le_value_def)

lemma length_le_bytes [simp]: "length (le_bytes k v) = k"
  by (induction k arbitrary: v) simp_all

lemma le_value_le_bytes: "0 \<le> v \<Longrightarrow> v < 256 ^ k \<Longrightarrow> le_value (le_bytes k v) = v"
proof (induction k arbitrary: v)
  case (Suc k)
  have "v div 256 < 256 ^ k" using Suc.prems by (simp add: div_less_iff_less_mult mult.commute)
  with Suc show ?case
    by (simp add: le_value_Cons uint_word_of_int take_bit_eq_mod)
qed (simp add: le_value_def)

lemma packet_bytes_eq:
  assumes "length payload < 2 ^ 31"
  shows "packet_bytes payload = Inr (le_bytes 4 (int (length payload)) @ convert_bytes payload)"
proof -
  have "to_int32 (int (length payload)) = int (length payload)"
    using assms by (intro to_int32_small) simp_all
  then show ?thesis
    by (auto simp: packet_bytes_def size_prefixed_def PACKET_HEADER_SIZE_def Convert_ok Let_def)
       (simp add: convert_bytes_def)
qed

section \<open>Property\<close>

text \<open>
  What \<open>Send\<close> puts on the wire for a payload, the receiver turns back into the buffer the
  builder released: the header reads as the payload's length and \<open>Convert\<close> undoes itself.
\<close>

theorem packet_roundtrip:
  assumes "length payload < 2 ^ 31"
  shows "\<exists>bs. packet_bytes payload = Inr bs \<and>
    ebind (ReadScalar_u32 bs 0) (\<lambda>h. Convert bs PACKET_HEADER_SIZE (to_int32 h)) = Inr (size_prefixed payload)"
proof -
  let ?n = "int (length payload)" and ?bs = "le_bytes 4 (int (length payload)) @ convert_bytes payload"
  have "ReadScalar_u32 ?bs 0 = Inr ?n"
    using assms by (simp add: ReadScalar_u32_def mem_read_def le_value_le_bytes)
  moreover have "to_int32 ?n = ?n" using assms by (intro to_int32_small) simp_all
  moreover have "Convert ?bs PACKET_HEADER_SIZE ?n = Inr (size_prefixed payload)"
    by (simp add: PACKET_HEADER_SIZE_def Convert_ok size_prefixed_def)
  ultimately show ?thesis using packet_bytes_eq [OF assms] by simp
qed

theorem packet_roundtrip_witness:
  "\<exists>bs. packet_bytes [1, 2, 3] = Inr bs \<and>
    ebind (ReadScalar_u32 bs 0) (\<lambda>h. Convert bs PACKET_HEADER_SIZE (to_int32 h)) = Inr (size_prefixed [1, 2, 3])"
  by (rule packet_roundtrip) simp

end
