(* ===== verification/Receive_Stream.thy ===== *)
theory Receive_Stream
  imports Ring_Buffer Packet_Codec
begin

text \<open>
  The receive path of a session: the kernel fills the regions of the ring that
  \<open>GetDirectEnQData\<close> offers, \<^verbatim>\<open>NetworkTaskReceiveIO::Complete\<close>
  (ServerCore/Network/NetworkTask.cpp) accounts for the bytes and cuts complete packets off
  the front. The packet pointer is used as if the packet were contiguous; an access past the
  end of \<^verbatim>\<open>m_Buffer\<close> is the fault \<open>OutOfBounds\<close>. \<open>parse_bytes\<close> says what the loop does in
  terms of the byte stream, and \<open>parse_loop_refines\<close> that it does so.
\<close>

section \<open>The kernel's side of a receive\<close>

text \<open>\<^verbatim>\<open>WSARecv\<close> fills the buffers in order with the data that arrived.\<close>

fun wsa_fill :: "byte list \<Rightarrow> WSABUF list \<Rightarrow> byte list \<Rightarrow> byte list result" where
  "wsa_fill b [] data = (if data = [] then Inr b else Inl OutOfBounds)"
| "wsa_fill b (w # ws) data =
     ebind (mem_write b (buf w) (take (nat (len w)) data)) (\<lambda>b'. wsa_fill b' ws (drop (nat (len w)) data))"

section \<open>The parse loop of NetworkTaskReceiveIO::Complete\<close>

datatype parse_status = Parsed | Fault error | NoFuel

text \<open>
  The result: the ring, the packets handed to \<^verbatim>\<open>OnRecvMessage\<close> (header and converted payload,
  as they lie in memory) in order, and how the loop ended.
\<close>

fun parse_loop :: "nat \<Rightarrow> RingQ \<Rightarrow> RingQ \<times> byte list list \<times> parse_status" where
  "parse_loop 0 q = (q, [], NoFuel)"
| "parse_loop (Suc fuel) q =
     (let packetSize = GetReadSize q in
      if packetSize \<ge> PACKET_HEADER_SIZE then
        (case GetReadBufferPtr q of
           None \<Rightarrow> (q, [], Fault NullDeref)
         | Some packet \<Rightarrow>
             (case ReadScalar_u32 (m_Buffer q) packet of
                Inl e \<Rightarrow> (q, [], Fault e)
              | Inr header \<Rightarrow>
                  let messageSize = to_int32 header in
                  if 0 \<le> messageSize \<and> messageSize \<le> packetSize - PACKET_HEADER_SIZE then
                    let q1 = MoveReadPosition q (PACKET_HEADER_SIZE + messageSize) in
                    (case Convert (m_Buffer q1) (packet + PACKET_HEADER_SIZE) messageSize of
                       Inl e \<Rightarrow> (q1, [], Fault e)
                     | Inr b \<Rightarrow>
                         (case mem_read b packet (PACKET_HEADER_SIZE + messageSize) of
                            Inl e \<Rightarrow> (q1\<lparr>m_Buffer := b\<rparr>, [], Fault e)
                          | Inr msg \<Rightarrow>
                              let (q3, msgs, st) = parse_loop fuel (q1\<lparr>m_Buffer := b\<rparr>)
                              in (q3, msg # msgs, st)))
                  else (q, [], Parsed)))
      else (q, [], Parsed))"

text \<open>
  A packet takes at least four bytes and the ring holds at most 6999, so 1750 rounds are
  enough (\<open>parse_loop_fuel\<close>).
\<close>

definition PARSE_FUEL :: nat where
  "PARSE_FUEL = 1750"

text \<open>A completed receive of \<open>data\<close>: the kernel's copy, the write position, the loop.\<close>

definition receive :: "RingQ \<Rightarrow> byte list \<Rightarrow> RingQ \<times> byte list list \<times> parse_status" where
  "receive q data =
     (case wsa_fill (m_Buffer q) (GetDirectEnQData q []) data of
        Inl e \<Rightarrow> (q, [], Fault e)
      | Inr b \<Rightarrow> parse_loop PARSE_FUEL (MoveWitePosition (q\<lparr>m_Buffer := b\<rparr>) (int (length data))))"

text \<open>
  The life of a receive task on a connection that carries \<open>stream\<close>: \<open>Start\<close> gives up when the
  ring is full, otherwise the request stays pending until the kernel completes it with some
  bytes of the stream, at most \<open>n\<close> and at most what the regions hold (\<open>n\<close> ranges over a
  schedule; nothing completes while there is no byte), and \<open>Complete\<close> parses and starts again.
\<close>

datatype recv_status = Waiting | Stopped | RecvFault parse_status

fun recv_loop :: "RingQ \<Rightarrow> byte list \<Rightarrow> nat list \<Rightarrow> RingQ \<times> byte list list \<times> recv_status" where
  "recv_loop q stream [] = (if GetWriteSize q \<le> 0 then (q, [], Stopped) else (q, [], Waiting))"
| "recv_loop q stream (n # ns) =
     (if GetWriteSize q \<le> 0 then (q, [], Stopped)
      else let k = min n (nat (GetWriteSize q)) in
        if take k stream = [] then recv_loop q stream ns
        else (case receive q (take k stream) of
           (q', ms, Parsed) \<Rightarrow>
             let (q'', ms', st) = recv_loop q' (drop k stream) ns in (q'', ms @ ms', st)
         | (q', ms, st) \<Rightarrow> (q', ms, RecvFault st)))"

section \<open>The loop on the byte stream\<close>

text \<open>\<open>p\<close> is the place of the first byte in the array.\<close>

function parse_bytes :: "int \<Rightarrow> byte list \<Rightarrow> byte list list \<times> byte list \<times> parse_status" where
  "parse_bytes p bs =
     (if length bs < 4 then ([], bs, Parsed)
      else if p + 4 > 7000 then ([], bs, Fault OutOfBounds)
      else let m = to_int32 (le_value (take 4 bs)) in
        if 0 \<le> m \<and> m \<le> int (length bs) - 4 then
          if p + 4 + m > 7000 then ([], drop (nat (4 + m)) bs, Fault OutOfBounds)
          else let (ms, rest, st) = parse_bytes ((p + 4 + m) mod 7000) (drop (nat (4 + m)) bs)
               in ((take 4 bs @ convert_bytes (take (nat m) (drop 4 bs))) # ms, rest, st)
        else ([], bs, Parsed))"
  by pat_completeness auto
termination
  by (relation "measure (\<lambda>(p, bs). length bs)") auto

declare parse_bytes.simps [simp del]

section \<open>The loop refines the stream parser\<close>

lemma ring_header:
  assumes inv: "ring_inv q" and l: "4 \<le> length (contents q)"
  defines "p \<equiv> (m_readPosition q + 1) mod 7000"
  shows "GetReadBufferPtr q = Some p"
    and "ReadScalar_u32 (m_Buffer q) p =
      (if p + 4 > 7000 then Inl OutOfBounds else Inr (le_value (take 4 (contents q))))"
proof -
  note i = ring_invD [OF inv]
  have "m_writePosition q \<noteq> m_readPosition q"
    using l contents_length [OF inv] by (auto simp: GetReadSize_def)
  then show "GetReadBufferPtr q = Some p"
    using i by (simp add: GetReadBufferPtr_def p_def crem_mod)
  show "ReadScalar_u32 (m_Buffer q) p =
      (if p + 4 > 7000 then Inl OutOfBounds else Inr (le_value (take 4 (contents q))))"
    using ring_read_one [OF inv, of 4] l i
    by (auto simp: ReadScalar_u32_def p_def mem_read_def)
qed

text \<open>
  One packet: what \<open>Convert\<close> and the read position do to the ring. A write that ends where the
  contents begin leaves the contents alone.
\<close>

lemma contents_write_before:
  assumes inv: "ring_inv q" and w: "mem_write (m_Buffer q) a ys = Inr b"
    and a: "(a + int (length ys)) mod 7000 = (m_readPosition q + 1) mod 7000"
    and l: "length (contents q) + length ys \<le> 7000"
  shows "ring_inv (q\<lparr>m_Buffer := b\<rparr>)" and "contents (q\<lparr>m_Buffer := b\<rparr>) = contents q"
proof -
  note i = ring_invD [OF inv]
  have lb: "length b = length (m_Buffer q)" using mem_write_length [OF w] .
  show "ring_inv (q\<lparr>m_Buffer := b\<rparr>)" using inv lb by (simp add: ring_inv_def)
  let ?n = "length (contents q)"
  have "cslice b (m_readPosition q + 1) ?n = cslice b (a + int (length ys)) ?n"
    using a i lb by (intro cslice_cong_mod) simp
  also have "\<dots> = cslice (m_Buffer q) (a + int (length ys)) ?n"
    using l i by (intro cslice_mem_write_after [OF w]) simp
  also have "\<dots> = cslice (m_Buffer q) (m_readPosition q + 1) ?n"
    using a i by (intro cslice_cong_mod) simp
  finally show "contents (q\<lparr>m_Buffer := b\<rparr>) = contents q"
    by (simp add: contents_def GetReadSize_def)
qed

lemma ring_payload:
  assumes inv: "ring_inv q" and m: "0 \<le> m" "4 + m \<le> int (length (contents q))"
  defines "p \<equiv> (m_readPosition q + 1) mod 7000"
  assumes fit: "p + 4 + m \<le> 7000"
  shows "mem_read (m_Buffer q) (p + 4) m = Inr (take (nat m) (drop 4 (contents q)))"
    and "cslice (m_Buffer q) p 4 = take 4 (contents q)"
proof -
  note i = ring_invD [OF inv]
  have pre: "cslice (m_Buffer q) p k = take k (contents q)" if "k \<le> length (contents q)" for k
    using contents_prefix [OF inv, of "int k"] that i cslice_mod [of "m_Buffer q" "m_readPosition q + 1" k]
    by (simp add: p_def)
  then show p4: "cslice (m_Buffer q) p 4 = take 4 (contents q)" using m by simp
  have "take (4 + nat m) (contents q) = take 4 (contents q) @ cslice (m_Buffer q) (p + 4) (nat m)"
    using pre [of "4 + nat m"] p4 m by (simp add: cslice_append nat_le_iff)
  then have "cslice (m_Buffer q) (p + 4) (nat m) = take (nat m) (drop 4 (contents q))"
    by (simp add: take_add)
  moreover have "0 \<le> p" by (simp add: p_def)
  ultimately show "mem_read (m_Buffer q) (p + 4) m = Inr (take (nat m) (drop 4 (contents q)))"
    using fit m i mem_read_cslice [of "m_Buffer q" "p + 4" m] by (auto simp: mem_read_def)
qed

lemma ring_packet:
  assumes inv: "ring_inv q" and m: "0 \<le> m" "4 + m \<le> int (length (contents q))"
  defines "p \<equiv> (m_readPosition q + 1) mod 7000"
  assumes fit: "p + 4 + m \<le> 7000"
  defines "q1 \<equiv> MoveReadPosition q (4 + m)"
  shows "\<exists>b. Convert (m_Buffer q1) (p + 4) m = Inr b \<and>
     mem_read b p (4 + m) = Inr (take 4 (contents q) @ convert_bytes (take (nat m) (drop 4 (contents q)))) \<and>
     ring_inv (q1\<lparr>m_Buffer := b\<rparr>) \<and> contents (q1\<lparr>m_Buffer := b\<rparr>) = drop (nat (4 + m)) (contents q)"
proof -
  let ?B = "m_Buffer q" and ?ys = "convert_bytes (take (nat m) (drop 4 (contents q)))"
  note i = ring_invD [OF inv]
  note pay = ring_payload [OF inv m fit [unfolded p_def], folded p_def]
  have p: "0 \<le> p" by (simp add: p_def)
  have mv: "ring_inv q1" "contents q1 = drop (nat (4 + m)) (contents q)"
    unfolding q1_def using m by (simp_all add: MoveReadPosition_correct [OF inv])
  have q1: "m_Buffer q1 = ?B" "m_readPosition q1 = (m_readPosition q + (4 + m)) mod 7000"
    using m i by (simp_all add: q1_def MoveReadPosition_def crem_mod)
  have ly: "length ?ys = nat m" using m by simp
  then obtain b where w: "mem_write ?B (p + 4) ?ys = Inr b"
    using fit m p i by (simp add: mem_write_def)
  have "cslice b p (4 + nat m) = take 4 (contents q) @ ?ys"
    using cslice_mem_write [OF w, of 4 "p + 4"] ly pay(2) fit p m i by simp
  then have rd: "mem_read b p (4 + m) = Inr (take 4 (contents q) @ ?ys)"
    using fit m p i mem_read_cslice [of b p "4 + m"] mem_write_length [OF w]
    by (auto simp: mem_read_def nat_add_distrib)
  have at_end: "(p + 4 + int (length ?ys)) mod 7000 = (m_readPosition q1 + 1) mod 7000"
  proof -
    have "p + 4 + int (length ?ys) = p + (4 + m)" using m ly by simp
    moreover have "(p + (4 + m)) mod 7000 = (m_readPosition q + 1 + (4 + m)) mod 7000"
      unfolding p_def by (rule mod_add_left_eq)
    moreover have "(m_readPosition q1 + 1) mod 7000 = (m_readPosition q + (4 + m) + 1) mod 7000"
      unfolding q1 by (rule mod_add_left_eq)
    ultimately show ?thesis by (simp only: ac_simps)
  qed
  have "length (contents q1) + length ?ys \<le> 7000"
    using contents_bound [OF inv] mv(2) ly m by simp
  moreover have "mem_write (m_Buffer q1) (p + 4) ?ys = Inr b" using w q1 by simp
  ultimately have "ring_inv (q1\<lparr>m_Buffer := b\<rparr>)" "contents (q1\<lparr>m_Buffer := b\<rparr>) = contents q1"
    using contents_write_before [OF mv(1) _ at_end] by blast+
  then show ?thesis using mv(2) q1(1) Convert_mem_write [OF pay(1)] w rd by simp
qed

lemma Convert_straddle:
  assumes "length b = 7000" "0 \<le> m" "0 \<le> p" "p + 4 \<le> 7000" "p + 4 + m > 7000"
  shows "Convert b (p + 4) m = Inl OutOfBounds"
  using assms by (simp add: Convert_def mem_read_def)

lemma next_packet_position:
  assumes "ring_inv q" "0 \<le> m"
  shows "(m_readPosition (MoveReadPosition q (4 + m)\<lparr>m_Buffer := b\<rparr>) + 1) mod 7000
    = ((m_readPosition q + 1) mod 7000 + 4 + m) mod 7000"
proof -
  have "m_readPosition (MoveReadPosition q (4 + m)) = (m_readPosition q + (4 + m)) mod 7000"
    using assms ring_invD [OF assms(1)] by (simp add: MoveReadPosition_def crem_mod)
  moreover have "((m_readPosition q + (4 + m)) mod 7000 + 1) mod 7000 = (m_readPosition q + (4 + m) + 1) mod 7000"
    by (rule mod_add_left_eq)
  moreover have "((m_readPosition q + 1) mod 7000 + (4 + m)) mod 7000 = (m_readPosition q + 1 + (4 + m)) mod 7000"
    by (rule mod_add_left_eq)
  ultimately show ?thesis by (simp add: ac_simps)
qed

text \<open>The three ways a round ends, and the round that goes on.\<close>

lemma parse_loop_refines:
  assumes "ring_inv q" "length (contents q) < 4 * fuel"
  shows "\<exists>q' ms st. parse_loop fuel q = (q', ms, st) \<and> ring_inv q' \<and>
    parse_bytes ((m_readPosition q + 1) mod 7000) (contents q) = (ms, contents q', st)"
  using assms
proof (induction fuel arbitrary: q)
  case (Suc fuel)
  let ?p = "(m_readPosition q + 1) mod 7000" and ?c = "contents q"
  let ?m = "to_int32 (le_value (take 4 ?c))"
  note inv = Suc.prems(1)
  have bl: "length (m_Buffer q) = 7000" using ring_invD [OF inv] by linarith
  have sz: "GetReadSize q = int (length ?c)" using contents_length [OF inv] by simp
  note unf = parse_bytes.simps [of ?p ?c]
  consider (short) "length ?c < 4"
    | (hdr) "4 \<le> length ?c" "?p + 4 > 7000"
    | (incomplete) "4 \<le> length ?c" "?p + 4 \<le> 7000" "\<not> (0 \<le> ?m \<and> ?m \<le> int (length ?c) - 4)"
    | (straddle) "4 \<le> length ?c" "?p + 4 \<le> 7000" "0 \<le> ?m \<and> ?m \<le> int (length ?c) - 4" "?p + 4 + ?m > 7000"
    | (packet) "4 \<le> length ?c" "?p + 4 \<le> 7000" "0 \<le> ?m \<and> ?m \<le> int (length ?c) - 4" "?p + 4 + ?m \<le> 7000"
    by linarith
  then show ?case
  proof cases
    case short
    then show ?thesis using inv unf by (simp add: sz PACKET_HEADER_SIZE_def)
  next
    case hdr
    then show ?thesis using inv unf ring_header [OF inv hdr(1)] by (simp add: sz PACKET_HEADER_SIZE_def)
  next
    case incomplete
    then show ?thesis using inv unf ring_header [OF inv incomplete(1)]
      by (cases "0 \<le> ?m") (simp_all add: sz PACKET_HEADER_SIZE_def Let_def)
  next
    case straddle
    have "Convert (m_Buffer q) (?p + 4) ?m = Inl OutOfBounds"
      using straddle bl by (intro Convert_straddle) simp_all
    moreover have "m_Buffer (MoveReadPosition q (4 + ?m)) = m_Buffer q"
      by (simp add: MoveReadPosition_def)
    ultimately show ?thesis
      using straddle unf ring_header [OF inv straddle(1)] MoveReadPosition_correct [OF inv, of "4 + ?m"]
      by (simp add: sz PACKET_HEADER_SIZE_def Let_def)
  next
    case packet
    let ?q1 = "MoveReadPosition q (4 + ?m)"
    from packet obtain b where b: "Convert (m_Buffer ?q1) (?p + 4) ?m = Inr b"
      "mem_read b ?p (4 + ?m) = Inr (take 4 ?c @ convert_bytes (take (nat ?m) (drop 4 ?c)))"
      "ring_inv (?q1\<lparr>m_Buffer := b\<rparr>)" "contents (?q1\<lparr>m_Buffer := b\<rparr>) = drop (nat (4 + ?m)) ?c"
      using ring_packet [OF inv, of ?m] by auto
    have shrinks: "l - k < 4 * fuel" if "l < 4 * Suc fuel" "4 \<le> l" "4 \<le> k" for l k :: nat
      using that by auto
    have "4 \<le> nat (4 + ?m)" using packet(3) by auto
    with Suc.prems(2) packet(1) have "length (contents (?q1\<lparr>m_Buffer := b\<rparr>)) < 4 * fuel"
      unfolding b(4) length_drop by (rule shrinks)
    from Suc.IH [OF b(3) this] obtain q' ms st where ih: "parse_loop fuel (?q1\<lparr>m_Buffer := b\<rparr>) = (q', ms, st)"
      "ring_inv q'" "parse_bytes ((?p + 4 + ?m) mod 7000) (drop (nat (4 + ?m)) ?c) = (ms, contents q', st)"
      using next_packet_position [OF inv, of ?m b] packet b(4) by auto
    show ?thesis
      using packet unf ring_header [OF inv packet(1)] b(1,2) ih
      by (simp add: sz PACKET_HEADER_SIZE_def Let_def)
  qed
qed simp

lemma parse_loop_fuel:
  assumes "ring_inv q"
  shows "\<exists>q' ms st. parse_loop PARSE_FUEL q = (q', ms, st) \<and> ring_inv q' \<and>
    parse_bytes ((m_readPosition q + 1) mod 7000) (contents q) = (ms, contents q', st)"
  using parse_loop_refines [OF assms, of PARSE_FUEL] contents_bound [OF assms]
  by (simp add: PARSE_FUEL_def)

section \<open>The kernel's copy extends the contents\<close>

text \<open>Regions that follow each other around a ring of \<open>N\<close> places, from place \<open>e\<close> on.\<close>

fun regions_at :: "int \<Rightarrow> int \<Rightarrow> WSABUF list \<Rightarrow> bool" where
  "regions_at N e [] = True"
| "regions_at N e (w # ws) =
     (buf w mod N = e mod N \<and> 0 \<le> buf w \<and> 0 \<le> len w \<and> buf w + len w \<le> N \<and> regions_at N (e + len w) ws)"

lemma wsa_fill_Nil: "regions_at (int (length b)) e ws \<Longrightarrow> wsa_fill b ws [] = Inr b"
  by (induction ws arbitrary: e) (auto simp: mem_write_Nil)

lemma wsa_fill_extends:
  assumes "regions_at (int (length b)) e ws" "int (length data) \<le> sum_list (map len ws)"
    and "u + length data \<le> length b"
  shows "\<exists>b'. wsa_fill b ws data = Inr b' \<and> length b' = length b \<and>
    cslice b' (e - int u) (u + length data) = cslice b (e - int u) u @ data"
  using assms
proof (induction ws arbitrary: b e u data)
  case (Cons w ws)
  let ?d = "take (nat (len w)) data"
  from Cons.prems(1) have w: "buf w mod int (length b) = e mod int (length b)"
    "0 \<le> buf w" "0 \<le> len w" "buf w + len w \<le> int (length b)"
    and ws: "regions_at (int (length b)) (e + len w) ws" by auto
  have "int (length ?d) \<le> len w" using w(3) by simp
  then obtain b1 where b1: "mem_write b (buf w) ?d = Inr b1"
    using w by (simp add: mem_write_def)
  have l1: "length b1 = length b" using mem_write_length [OF b1] .
  have s1: "cslice b1 (e - int u) (u + length ?d) = cslice b (e - int u) u @ ?d"
    using cslice_mem_write [OF b1 _ w(1), of u] Cons.prems(3) by simp
  show ?case
  proof (cases "length data \<le> nat (len w)")
    case True
    then show ?thesis using b1 l1 s1 wsa_fill_Nil [of b1 "e + len w" ws] ws by simp
  next
    case False
    then have ld: "int (length ?d) = len w" using w(3) by simp
    have "\<exists>b'. wsa_fill b1 ws (drop (nat (len w)) data) = Inr b' \<and> length b' = length b1 \<and>
      cslice b' (e + len w - int (u + nat (len w))) (u + nat (len w) + length (drop (nat (len w)) data))
      = cslice b1 (e + len w - int (u + nat (len w))) (u + nat (len w)) @ drop (nat (len w)) data"
      using Cons.prems ws l1 False w(3) by (intro Cons.IH) auto
    moreover have "e + len w - int (u + nat (len w)) = e - int u" using w(3) by simp
    moreover have "u + nat (len w) + length (drop (nat (len w)) data) = u + length data"
      "length ?d = nat (len w)" using False by auto
    ultimately show ?thesis using b1 l1 s1 by auto
  qed
qed simp

lemma GetDirectEnQData_regions_at:
  assumes inv: "ring_inv q"
  shows "regions_at (int (length (m_Buffer q))) (m_writePosition q + 1) (GetDirectEnQData q [])"
proof -
  let ?p = "(m_writePosition q + 1) mod 7000" and ?n = "GetWriteSize q"
  note i = ring_invD [OF inv]
  have n: "0 \<le> ?n" "?n \<le> 6999"
    using GetWriteSize_contents [OF inv] contents_bound [OF inv] by simp_all
  have p: "0 \<le> ?p" "?p < 7000" by simp_all
  have "(m_writePosition q + 1 - ?p + 7000) mod 7000 = 0"
    by (simp add: minus_mod_eq_mult_div del: mod_diff_right_eq)
  moreover have "m_writePosition q + 1 + (7000 - ?p) = m_writePosition q + 1 - ?p + 7000" by simp
  ultimately have "(m_writePosition q + 1 + (7000 - ?p)) mod 7000 = 0" by (simp only:)
  moreover have "?n - (7000 - ?p) \<le> 7000" using n p by linarith
  ultimately show ?thesis
    using n p i by (auto simp: GetDirectEnQData_regions [OF inv] simp del: mod_diff_right_eq)
qed

lemma receive_correct:
  assumes inv: "ring_inv q" and d: "int (length data) \<le> GetWriteSize q"
  shows "\<exists>q' ms st. receive q data = (q', ms, st) \<and> ring_inv q' \<and>
    parse_bytes ((m_readPosition q + 1) mod 7000) (contents q @ data) = (ms, contents q', st)"
proof -
  let ?u = "length (contents q)"
  note i = ring_invD [OF inv]
  have "?u + length data \<le> length (m_Buffer q)"
    using d GetWriteSize_contents [OF inv] i by linarith
  then obtain b where b: "wsa_fill (m_Buffer q) (GetDirectEnQData q []) data = Inr b"
    "length b = length (m_Buffer q)"
    "cslice b (m_writePosition q + 1 - int ?u) (?u + length data) = contents q @ data"
    using wsa_fill_extends [OF GetDirectEnQData_regions_at [OF inv], of data ?u]
      GetDirectEnQData_correct(2) [OF inv] d contents_from_write [OF inv] by auto
  let ?q = "MoveWitePosition (q\<lparr>m_Buffer := b\<rparr>) (int (length data))"
  have q: "?q = q\<lparr>m_Buffer := b, m_writePosition := (m_writePosition q + int (length data)) mod 7000\<rparr>"
    using i by (simp add: MoveWitePosition_def crem_mod)
  have "ring_inv ?q \<and> contents ?q = contents q @ data"
    using d GetWriteSize_contents [OF inv] b(3)
    by (intro contents_extend [OF inv b(2) _ _ _ q]) simp_all
  with parse_loop_fuel [of ?q] b(1) q show ?thesis by (auto simp: receive_def)
qed

section \<open>Any segmentation of the stream\<close>

text \<open>What the parser says of a stream it says of every extension of it.\<close>

lemma parse_bytes_Parsed_append:
  assumes "parse_bytes p a = (ms, rest, Parsed)" "0 \<le> p" "p < 7000"
  shows "length rest \<le> length a \<and> parse_bytes p (a @ b) =
    (let (ms', rest', st) = parse_bytes ((p + int (length a) - int (length rest)) mod 7000) (rest @ b)
     in (ms @ ms', rest', st))"
  using assms
proof (induction p a arbitrary: ms rest rule: parse_bytes.induct)
  case (1 p bs)
  let ?m = "to_int32 (le_value (take 4 bs))"
  note unf = parse_bytes.simps [of p bs]
  show ?case
  proof (cases "4 \<le> length bs \<and> p + 4 \<le> 7000 \<and> 0 \<le> ?m \<and> ?m \<le> int (length bs) - 4")
    case False
    then have "ms = [] \<and> rest = bs"
      using 1(2) unf by (auto simp: Let_def split: if_splits prod.splits)
    with 1(3,4) show ?thesis by (simp add: split_beta)
  next
    case True
    then have fit: "p + 4 + ?m \<le> 7000" using 1(2) unf by (auto simp: Let_def split: if_splits)
    let ?p' = "(p + 4 + ?m) mod 7000" and ?d = "drop (nat (4 + ?m)) bs"
    obtain ms1 st1 where r: "parse_bytes ?p' ?d = (ms1, rest, st1)" and ms: "st1 = Parsed"
      "ms = (take 4 bs @ convert_bytes (take (nat ?m) (drop 4 bs))) # ms1"
      using 1(2) unf True fit by (auto simp: Let_def split: prod.splits)
    have k: "int (nat (4 + ?m)) = 4 + ?m" "nat (4 + ?m) \<le> length bs" using True by auto
    have ih: "length rest \<le> length ?d" "parse_bytes ?p' (?d @ b) =
      (let (ms', rest', st) = parse_bytes ((?p' + int (length ?d) - int (length rest)) mod 7000) (rest @ b)
       in (ms1 @ ms', rest', st))"
      using 1(1) [OF _ _ refl _ _ r [unfolded ms]] True fit by auto
    have "(?p' + (int (length ?d) - int (length rest))) mod 7000
        = (p + 4 + ?m + (int (length ?d) - int (length rest))) mod 7000"
      by (rule mod_add_left_eq)
    moreover have "p + 4 + ?m + (int (length ?d) - int (length rest)) = p + int (length bs) - int (length rest)"
      using k by simp
    ultimately have pos: "(?p' + int (length ?d) - int (length rest)) mod 7000
        = (p + int (length bs) - int (length rest)) mod 7000"
      by (simp only: add_diff_eq)
    have "nat (4 + ?m) - length bs = 0" "nat ?m + 4 - length bs = 0" using True by auto
    then have "parse_bytes p (bs @ b) = (let (ms', rest', st) = parse_bytes ?p' (?d @ b)
        in ((take 4 bs @ convert_bytes (take (nat ?m) (drop 4 bs))) # ms', rest', st))"
      using True fit by (subst parse_bytes.simps) (simp add: Let_def)
    then show ?thesis using ih pos ms by (simp add: split_beta Let_def)
  qed
qed

lemma parse_bytes_Fault_append:
  assumes "parse_bytes p a = (ms, rest, st)" "st \<noteq> Parsed"
  shows "\<exists>rest'. parse_bytes p (a @ b) = (ms, rest', st)"
  using assms
proof (induction p a arbitrary: ms rest rule: parse_bytes.induct)
  case (1 p bs)
  let ?m = "to_int32 (le_value (take 4 bs))"
  note unf = parse_bytes.simps [of p bs] and unf' = parse_bytes.simps [of p "bs @ b"]
  have l: "4 \<le> length bs" using 1(2,3) unf by (auto split: if_splits)
  show ?case
  proof (cases "p + 4 \<le> 7000")
    case False
    then show ?thesis using 1(2) l unf unf' by auto
  next
    case True
    then have m: "0 \<le> ?m" "?m \<le> int (length bs) - 4"
      using 1(2,3) l unf by (auto simp: Let_def split: if_splits)
    then have d: "drop (nat (4 + ?m)) (bs @ b) = drop (nat (4 + ?m)) bs @ b"
      "take (nat ?m) (drop 4 (bs @ b)) = take (nat ?m) (drop 4 bs)" using l by auto
    show ?thesis
    proof (cases "p + 4 + ?m \<le> 7000")
      case False
      then show ?thesis using 1(2) l m True unf unf' by (auto simp: Let_def)
    next
      case fit: True
      obtain ms1 where r: "parse_bytes ((p + 4 + ?m) mod 7000) (drop (nat (4 + ?m)) bs) = (ms1, rest, st)"
        "ms = (take 4 bs @ convert_bytes (take (nat ?m) (drop 4 bs))) # ms1"
        using 1(2) unf True fit l m by (auto simp: Let_def split: prod.splits)
      obtain rest' where "parse_bytes ((p + 4 + ?m) mod 7000) (drop (nat (4 + ?m)) bs @ b) = (ms1, rest', st)"
        using 1(1) [OF _ _ refl _ _ r(1) 1(3)] True fit l m by auto
      then show ?thesis using unf' True fit l m d r(2) by (auto simp: Let_def)
    qed
  qed
qed

text \<open>
  The whole receive path: provided the undelivered bytes never fill the ring, a long enough
  schedule delivers what the parser makes of the stream, however the stream is cut into
  completions.
\<close>

definition never_full :: "int \<Rightarrow> byte list \<Rightarrow> byte list \<Rightarrow> bool" where
  "never_full p c stream \<longleftrightarrow> (\<forall>k \<le> length stream. \<forall>ms rest.
     parse_bytes p (c @ take k stream) = (ms, rest, Parsed) \<longrightarrow> length rest < 6999)"

definition recv_status_of :: "parse_status \<Rightarrow> recv_status" where
  "recv_status_of st = (case st of Parsed \<Rightarrow> Waiting | _ \<Rightarrow> RecvFault st)"

lemma never_fullD: "never_full p c stream \<Longrightarrow> k \<le> length stream \<Longrightarrow>
    parse_bytes p (c @ take k stream) = (ms, rest, Parsed) \<Longrightarrow> length rest < 6999"
  by (simp add: never_full_def)

lemma never_full_step:
  assumes nf: "never_full p c stream" and k: "k \<le> length stream" and p: "0 \<le> p" "p < 7000"
    and r: "parse_bytes p (c @ take k stream) = (ms, rest, Parsed)"
  shows "never_full ((p + int (length c + k) - int (length rest)) mod 7000) rest (drop k stream)"
  unfolding never_full_def
proof (intro allI impI)
  fix j ms' rest' assume j: "j \<le> length (drop k stream)"
    and r': "parse_bytes ((p + int (length c + k) - int (length rest)) mod 7000) (rest @ take j (drop k stream))
      = (ms', rest', Parsed)"
  have "parse_bytes p ((c @ take k stream) @ take j (drop k stream)) = (ms @ ms', rest', Parsed)"
    using parse_bytes_Parsed_append [OF r p, of "take j (drop k stream)"] r' k by (simp add: split_beta min_absorb2)
  then have "parse_bytes p (c @ take (k + j) stream) = (ms @ ms', rest', Parsed)"
    by (simp add: take_add)
  then show "length rest' < 6999" using j k by (intro never_fullD [OF nf, of "k + j"]) auto
qed

lemma parse_loop_writePosition:
  "parse_loop fuel q = (q', ms, st) \<Longrightarrow> m_writePosition q' = m_writePosition q"
proof (induction fuel arbitrary: q q' ms st)
  case (Suc fuel)
  have "m_writePosition (MoveReadPosition q n\<lparr>m_Buffer := b\<rparr>) = m_writePosition q"
    "m_writePosition (MoveReadPosition q n) = m_writePosition q" for n b
    by (simp_all add: MoveReadPosition_def)
  with Suc show ?case
    by (auto simp: Let_def split: option.splits sum.splits if_splits prod.splits)
qed simp

lemma receive_writePosition:
  assumes "receive q data = (q', ms, Parsed)" "ring_inv q"
  shows "m_writePosition q' = (m_writePosition q + int (length data)) mod 7000"
  using assms(1) ring_invD [OF assms(2)]
  by (auto simp: receive_def MoveWitePosition_def crem_mod split: sum.splits
      dest: parse_loop_writePosition)

lemma parse_position:
  assumes inv: "ring_inv q" "ring_inv q'" and k: "int k \<le> GetWriteSize q"
    and w: "m_writePosition q' = (m_writePosition q + int k) mod 7000"
  shows "(m_readPosition q' + 1) mod 7000 =
    ((m_readPosition q + 1) mod 7000 + int (length (contents q) + k) - int (length (contents q'))) mod 7000"
proof -
  note i = ring_invD [OF inv(1)] ring_invD [OF inv(2)]
  let ?r = "m_readPosition q" and ?r' = "m_readPosition q'" and ?w = "m_writePosition q"
  let ?l = "int (length (contents q))" and ?l' = "int (length (contents q'))"
  have l: "?l = (?w - ?r) mod 7000" "?l' = (m_writePosition q' - ?r') mod 7000"
    using contents_length [OF inv(1)] contents_length [OF inv(2)] i
    by (simp_all add: GetReadSize_used GetUsedSize_mod)
  have "((?r + 1) mod 7000 + (?l + int k) - ?l') mod 7000
      = ((?r + 1) + ((?w - ?r) + int k) - ((?w + int k) - ?r')) mod 7000"
    unfolding l w by (intro mod_diff_cong mod_add_cong) (simp_all only: mod_mod_trivial mod_diff_left_eq)
  also have "\<dots> = (?r' + 1) mod 7000" by (rule arg_cong [where f = "\<lambda>x. x mod 7000"]) simp
  finally show ?thesis by simp
qed

lemma recv_loop_correct:
  assumes "ring_inv q" "never_full ((m_readPosition q + 1) mod 7000) (contents q) stream"
    and "\<forall>n \<in> set ns. 0 < n" "length stream \<le> length ns"
    and "parse_bytes ((m_readPosition q + 1) mod 7000) (contents q) = ([], contents q, Parsed)"
    and "parse_bytes ((m_readPosition q + 1) mod 7000) (contents q @ stream) = (ms, rest, st)"
  shows "\<exists>q'. recv_loop q stream ns = (q', ms, recv_status_of st) \<and>
    (st = Parsed \<longrightarrow> ring_inv q' \<and> contents q' = rest)"
  using assms
proof (induction ns arbitrary: q stream ms rest st)
  case Nil
  from never_fullD [OF Nil.prems(2), of 0] Nil.prems GetWriteSize_contents [OF Nil.prems(1)]
  show ?case by (auto simp: recv_status_of_def)
next
  case (Cons n ns)
  let ?p = "(m_readPosition q + 1) mod 7000" and ?k = "min n (nat (GetWriteSize q))"
  note inv = Cons.prems(1)
  have room: "0 < GetWriteSize q"
    using never_fullD [OF Cons.prems(2), of 0] Cons.prems(5) GetWriteSize_contents [OF inv] by simp
  show ?case
  proof (cases "stream = []")
    case True
    then show ?thesis using Cons.IH [OF inv Cons.prems(2) _ _ Cons.prems(5,6)] Cons.prems(3) room by simp
  next
    case False
    have k: "0 < ?k" "int (length (take ?k stream)) \<le> GetWriteSize q" using Cons.prems(3) room by auto
    obtain q1 ms1 st1 where r: "receive q (take ?k stream) = (q1, ms1, st1)" "ring_inv q1"
      "parse_bytes ?p (contents q @ take ?k stream) = (ms1, contents q1, st1)"
      using receive_correct [OF inv k(2)] by blast
    have loop: "recv_loop q stream (n # ns) =
      (case (q1, ms1, st1) of
           (q', ms, Parsed) \<Rightarrow>
             let (q'', ms', st) = recv_loop q' (drop ?k stream) ns in (q'', ms @ ms', st)
         | (q', ms, st) \<Rightarrow> (q', ms, RecvFault st))"
      using room False k(1) r(1) by (auto simp: Let_def min_def)
    have split: "contents q @ stream = (contents q @ take ?k stream) @ drop ?k stream" by simp
    show ?thesis
    proof (cases "st1 = Parsed")
      case False
      then have "ms = ms1 \<and> st = st1"
        using parse_bytes_Fault_append [OF r(3) False, of "drop ?k stream"] Cons.prems(6) by auto
      with loop False show ?thesis by (cases st1) (auto simp: recv_status_of_def)
    next
      case True
      let ?j = "min ?k (length stream)"
      let ?p1 = "(m_readPosition q1 + 1) mod 7000"
      have j: "take ?k stream = take ?j stream" "drop ?k stream = drop ?j stream" "?j \<le> length stream"
        "length (take ?k stream) = ?j" by (auto simp: min_def)
      note parsed = r(3) [unfolded True]
      have p1: "?p1 = (?p + int (length (contents q) + ?j) - int (length (contents q1))) mod 7000"
        using k(2) r(2) receive_writePosition [OF r(1) [unfolded True] inv]
        unfolding j(4) by (intro parse_position [OF inv]) simp_all
      have p1': "?p1 = (?p + int (length (contents q @ take ?k stream)) - int (length (contents q1))) mod 7000"
        unfolding p1 length_append j(4) ..
      have nf: "never_full ?p1 (contents q1) (drop ?k stream)"
        unfolding p1 j(2) using Cons.prems(2) j(3) parsed
        by (intro never_full_step) (simp_all add: j(1) [symmetric])
      have app: "parse_bytes ?p ((contents q @ take ?k stream) @ b) =
        (let (ms', rest', st) = parse_bytes ?p1 (contents q1 @ b) in (ms1 @ ms', rest', st))" for b
        unfolding p1' using parse_bytes_Parsed_append [OF parsed, of b] by simp
      have settled: "parse_bytes ?p1 (contents q1) = ([], contents q1, Parsed)"
        using app [of "[]"] parsed by (auto simp: split_beta prod_eq_iff)
      obtain ms2 where r2: "parse_bytes ?p1 (contents q1 @ drop ?k stream) = (ms2, rest, st)" "ms = ms1 @ ms2"
        using app [of "drop ?k stream"] Cons.prems(6) by (auto simp: split_beta prod_eq_iff)
      have len: "length (drop ?k stream) \<le> length ns" using Cons.prems(4) k(1) by auto
      from Cons.IH [OF r(2) nf _ len settled r2(1)] Cons.prems(3) loop True r2(2)
      show ?thesis by auto
    qed
  qed
qed

section \<open>Streams of packets\<close>

text \<open>
  \<open>frame pl\<close> is what \<open>Send\<close> puts on the wire for the payload \<open>pl\<close> (\<open>frame_packet_bytes\<close>).
  \<open>unsplit p pls\<close>: the payloads that come before the first packet that would cross the end of
  the array, when the first packet starts at place \<open>p\<close>.
\<close>

definition frame :: "byte list \<Rightarrow> byte list" where
  "frame pl = le_bytes 4 (int (length pl)) @ convert_bytes pl"

fun unsplit :: "int \<Rightarrow> byte list list \<Rightarrow> byte list list" where
  "unsplit p [] = []"
| "unsplit p (pl # pls) =
     (if p + 4 + int (length pl) \<le> 7000
      then pl # unsplit ((p + 4 + int (length pl)) mod 7000) pls else [])"

definition stream_status :: "int \<Rightarrow> byte list list \<Rightarrow> parse_status" where
  "stream_status p pls = (if unsplit p pls = pls then Parsed else Fault OutOfBounds)"

lemma frame_packet_bytes: "length pl < 2 ^ 31 \<Longrightarrow> packet_bytes pl = Inr (frame pl)"
  by (simp add: packet_bytes_eq frame_def)

lemma length_frame [simp]: "length (frame pl) = 4 + length pl"
  by (simp add: frame_def)

lemma frame_header:
  assumes "length pl < 2 ^ 31"
  shows "to_int32 (le_value (take 4 (frame pl @ s))) = int (length pl)"
  using assms by (simp add: frame_def le_value_le_bytes to_int32_small)

lemma parse_frame:
  assumes "length pl < 2 ^ 31"
  shows "p + 4 + int (length pl) \<le> 7000 \<Longrightarrow> parse_bytes p (frame pl @ s) =
      (let (ms, rest, st) = parse_bytes ((p + 4 + int (length pl)) mod 7000) s
       in (size_prefixed pl # ms, rest, st))"
    and "\<not> p + 4 + int (length pl) \<le> 7000 \<Longrightarrow>
      \<exists>rest. parse_bytes p (frame pl @ s) = ([], rest, Fault OutOfBounds)"
proof -
  let ?f = "frame pl @ s"
  have "take 4 ?f = le_bytes 4 (int (length pl))" "drop (4 + length pl) ?f = s"
    "convert_bytes (take (length pl) (drop 4 ?f)) = pl"
    by (simp_all add: frame_def)
  moreover have "nat (4 + int (length pl)) = 4 + length pl" by simp
  ultimately show "p + 4 + int (length pl) \<le> 7000 \<Longrightarrow> parse_bytes p ?f =
      (let (ms, rest, st) = parse_bytes ((p + 4 + int (length pl)) mod 7000) s
       in (size_prefixed pl # ms, rest, st))"
    "\<not> p + 4 + int (length pl) \<le> 7000 \<Longrightarrow> \<exists>rest. parse_bytes p ?f = ([], rest, Fault OutOfBounds)"
    using frame_header [OF assms, of s] parse_bytes.simps [of p ?f]
    by (simp_all add: Let_def size_prefixed_def)
qed

lemma parse_frame_prefix:
  assumes "length pl < 2 ^ 31" "k < length (frame pl)" "parse_bytes p (take k (frame pl)) = (ms, rest, Parsed)"
  shows "length rest = k"
proof (cases "k < 4")
  case True
  with assms show ?thesis by (subst (asm) parse_bytes.simps) auto
next
  case False
  then have "take 4 (take k (frame pl)) = take 4 (frame pl @ [])" by (simp add: min_def)
  note h = frame_header [OF assms(1), of "[]", folded this]
  from assms(2) have "\<not> int (length pl) \<le> int (length (take k (frame pl))) - 4" by simp
  with assms(2,3) False show ?thesis
    by (subst (asm) parse_bytes.simps) (auto simp: Let_def h simp del: take_take split: if_splits)
qed

text \<open>A stream of packets: what is delivered, how it ends, and that it never jams the ring.\<close>

lemma parse_frames:
  assumes "\<forall>pl \<in> set pls. length pl < 2 ^ 31"
  shows "\<exists>rest. parse_bytes p (concat (map frame pls)) = (map size_prefixed (unsplit p pls), rest, stream_status p pls)
    \<and> (stream_status p pls = Parsed \<longrightarrow> rest = [])"
  using assms
proof (induction pls arbitrary: p)
  case Nil
  then show ?case by (simp add: stream_status_def parse_bytes.simps)
next
  case (Cons pl pls)
  let ?p = "(p + 4 + int (length pl)) mod 7000" and ?s = "concat (map frame pls)"
  have pl: "length pl < 2 ^ 31" using Cons.prems by simp
  show ?case
  proof (cases "p + 4 + int (length pl) \<le> 7000")
    case False
    then show ?thesis using parse_frame(2) [OF pl False, of ?s] by (auto simp: stream_status_def)
  next
    case True
    obtain rest where ih: "parse_bytes ?p ?s = (map size_prefixed (unsplit ?p pls), rest, stream_status ?p pls)"
      "stream_status ?p pls = Parsed \<longrightarrow> rest = []"
      using Cons.IH [of ?p] Cons.prems by auto
    then show ?thesis using parse_frame(1) [OF pl True, of ?s] True by (auto simp: stream_status_def)
  qed
qed

lemma frames_never_full:
  assumes "\<forall>pl \<in> set pls. length pl \<le> 6995"
  shows "parse_bytes p (take k (concat (map frame pls))) = (ms, rest, Parsed) \<Longrightarrow> length rest < 6999"
  using assms
proof (induction pls arbitrary: p k ms)
  case Nil
  then show ?case by (simp add: parse_bytes.simps)
next
  case (Cons pl pls)
  let ?p = "(p + 4 + int (length pl)) mod 7000" and ?s = "concat (map frame pls)"
  have pl: "length pl < 2 ^ 31" "length pl \<le> 6995" using Cons.prems by auto
  show ?case
  proof (cases "k < length (frame pl)")
    case True
    with Cons.prems(1) have "parse_bytes p (take k (frame pl)) = (ms, rest, Parsed)" by simp
    from parse_frame_prefix [OF pl(1) True this] True pl(2) show ?thesis by simp
  next
    case False
    let ?t = "take (k - length (frame pl)) ?s"
    have "parse_bytes p (frame pl @ ?t) = (ms, rest, Parsed)" using Cons.prems(1) False by simp
    then obtain ms' where "parse_bytes ?p ?t = (ms', rest, Parsed)"
      using parse_frame(1) [OF pl(1), of p ?t] parse_frame(2) [OF pl(1), of p ?t]
      by (cases "p + 4 + int (length pl) \<le> 7000") (auto split: prod.splits)
    with Cons show ?thesis by auto
  qed
qed

lemma recv_loop_frames:
  assumes pls: "\<forall>pl \<in> set pls. length pl \<le> 6995"
    and ns: "\<forall>n \<in> set ns. 0 < n" "length (concat (map frame pls)) \<le> length ns"
  shows "\<exists>q'. recv_loop RingQ_new (concat (map frame pls)) ns =
      (q', map size_prefixed (unsplit 1 pls), recv_status_of (stream_status 1 pls)) \<and>
    (stream_status 1 pls = Parsed \<longrightarrow> ring_inv q' \<and> contents q' = [])"
proof -
  let ?s = "concat (map frame pls)"
  have p: "(m_readPosition RingQ_new + 1) mod 7000 = 1" by (simp add: RingQ_new_def)
  obtain rest where r: "parse_bytes 1 ?s = (map size_prefixed (unsplit 1 pls), rest, stream_status 1 pls)"
    "stream_status 1 pls = Parsed \<longrightarrow> rest = []"
    using parse_frames [of pls 1] pls by fastforce
  have "never_full 1 [] ?s" using frames_never_full [OF pls] by (auto simp: never_full_def)
  moreover have "parse_bytes 1 [] = ([], [], Parsed)" by (simp add: parse_bytes.simps)
  ultimately show ?thesis
    using recv_loop_correct [OF RingQ_new_inv(1), unfolded p RingQ_new_inv(2), OF _ ns, of "map size_prefixed (unsplit 1 pls)" rest "stream_status 1 pls"] r
    by fastforce
qed

lemma unsplit_all:
  "0 \<le> p \<Longrightarrow> p + int (length (concat (map frame pls))) \<le> 7000 \<Longrightarrow> unsplit p pls = pls"
proof (induction pls arbitrary: p)
  case (Cons pl pls)
  show ?case
  proof (cases "pls = []")
    case False
    then obtain x xs where "pls = x # xs" by (cases pls) auto
    with Cons.prems have "(p + 4 + int (length pl)) mod 7000 = p + 4 + int (length pl)" by simp
    with Cons show ?thesis by auto
  qed (use Cons.prems in simp)
qed simp

lemma unsplit_odd:
  "odd p \<Longrightarrow> 0 \<le> p \<Longrightarrow> p < 7000 \<Longrightarrow> \<forall>pl \<in> set pls. even (length pl) \<Longrightarrow>
    7000 < p + int (length (concat (map frame pls))) \<Longrightarrow> unsplit p pls \<noteq> pls"
proof (induction pls arbitrary: p)
  case (Cons pl pls)
  let ?p = "p + 4 + int (length pl)"
  have odd: "odd ?p" using Cons.prems(1,4) by simp
  show ?case
  proof (cases "?p \<le> 7000")
    case True
    with odd have p: "?p < 7000" by (cases "?p = 7000") auto
    then have "?p mod 7000 = ?p" using Cons.prems(2) by simp
    moreover have "unsplit ?p pls \<noteq> pls"
      using odd p Cons.prems(2,4,5) by (intro Cons.IH) auto
    ultimately show ?thesis by simp
  qed simp
qed simp

text \<open>
  C2. However the kernel cuts the byte stream into completions: as long as a session has sent
  at most 6999 bytes of well-formed packets, every packet is handed to the message handler,
  in order, with its payload decoded, exactly once; the ring is empty at the end and the
  session waits for more.
\<close>

theorem recv_delivers_every_packet:
  assumes "length (concat (map frame pls)) \<le> 6999"
    and "\<forall>n \<in> set ns. 0 < n" "length (concat (map frame pls)) \<le> length ns"
  shows "\<exists>q. recv_loop RingQ_new (concat (map frame pls)) ns = (q, map size_prefixed pls, Waiting) \<and>
    ring_inv q \<and> contents q = []"
proof -
  have "length pl \<le> 6995" if "pl \<in> set pls" for pl
    using that assms(1) by (auto dest!: split_list)
  moreover have "unsplit 1 pls = pls" using assms(1) by (intro unsplit_all) simp_all
  ultimately show ?thesis
    using recv_loop_frames [of pls, OF _ assms(2,3)] by (auto simp: stream_status_def recv_status_of_def)
qed

theorem recv_delivers_every_packet_witness:
  "\<exists>q. recv_loop RingQ_new (concat (map frame [[1, 2], [3]])) (replicate 11 2) =
     (q, map size_prefixed [[1, 2], [3]], Waiting) \<and> ring_inv q \<and> contents q = []"
  by (rule recv_delivers_every_packet) simp_all

text \<open>
  The receive path breaks when the ring wraps: if every payload has even length (as
  FlatBuffers payloads have), none exceeds the ring, and the packets of a session come to 7000
  bytes or more, then for every segmentation some packet lies across the end of
  \<^verbatim>\<open>m_Buffer\<close>, and the handler reads past the array: only packets before that one
  are delivered.
\<close>

theorem recv_faults_at_the_wrap:
  assumes "\<forall>pl \<in> set pls. length pl \<le> 6995 \<and> even (length pl)"
    and "7000 \<le> length (concat (map frame pls))"
    and "\<forall>n \<in> set ns. 0 < n" "length (concat (map frame pls)) \<le> length ns"
  shows "\<exists>q ms. recv_loop RingQ_new (concat (map frame pls)) ns =
    (q, ms, RecvFault (Fault OutOfBounds)) \<and> length ms < length pls"
proof -
  have ne: "unsplit 1 pls \<noteq> pls" using assms(1,2) by (intro unsplit_odd) auto
  have "length (unsplit p xs) < length xs \<or> unsplit p xs = xs" for p xs
    by (induction p xs rule: unsplit.induct) auto
  with ne have "length (unsplit 1 pls) < length pls" by blast
  then show ?thesis
    using recv_loop_frames [of pls, OF _ assms(3,4)] assms(1) ne
    by (auto simp: stream_status_def recv_status_of_def)
qed

theorem recv_faults_at_the_wrap_witness:
  "\<exists>q ms. recv_loop RingQ_new (concat (map frame (replicate 70 (replicate 96 0)))) (replicate 7000 1000) =
    (q, ms, RecvFault (Fault OutOfBounds)) \<and> length ms < length (replicate 70 (replicate 96 (0::byte)))"
  by (rule recv_faults_at_the_wrap) (simp_all add: length_concat sum_list_replicate)

end
