(* ===== verification/Job_System.thy ===== *)
theory Job_System
  imports MMO_Prelude
begin

text \<open>
  The job system (ServerCore/Network/JobQueue.cpp, JobDispatcher.cpp, MessageJob.h): every
  session owns a \<^verbatim>\<open>JobQueue\<close>; receiving threads push message jobs, the dispatcher's threads
  pop a queue with work, execute its jobs and put it back while jobs remain. The operations
  are modelled on the objects' fields and then interleaved by a step relation over any number
  of threads, with a step per access to shared state. Proved: a queue is never handled by two
  threads at once, jobs run in the order they were pushed and each once, no queue with jobs is
  forgotten, and a dispatcher whose threads all sleep has run everything.
\<close>

section \<open>Objects\<close>

record 'm MessageJob =
  m_message :: 'm
  m_sessionID :: session_id

text \<open>\<open>m_lock\<close> is the thread that holds the mutex, if any.\<close>

record 'm JobQueue =
  m_lock :: "nat option"
  m_dataQueue :: "'m MessageJob list"
  m_dbJobCount :: int

definition JobQueue_new :: "'m JobQueue" where
  "JobQueue_new = \<lparr>m_lock = None, m_dataQueue = [], m_dbJobCount = 0\<rparr>"

text \<open>
  \<open>JobQueue::Push\<close> consists of \<open>Push_emplace\<close> and \<open>Push_fetch_add\<close> (which returns the count before)
  under the lock, then possibly \<open>JobDispatcher::PushJobQueue\<close>.
\<close>

definition Push_emplace :: "'m MessageJob \<Rightarrow> 'm JobQueue \<Rightarrow> 'm JobQueue" where
  "Push_emplace job jq = jq\<lparr>m_dataQueue := m_dataQueue jq @ [job]\<rparr>"

definition Push_fetch_add :: "'m JobQueue \<Rightarrow> int \<times> 'm JobQueue" where
  "Push_fetch_add jq = (m_dbJobCount jq, jq\<lparr>m_dbJobCount := to_int32 (m_dbJobCount jq + 1)\<rparr>)"

definition Pop :: "'m MessageJob list \<Rightarrow> 'm JobQueue \<Rightarrow> bool \<times> 'm MessageJob list \<times> 'm JobQueue" where
  "Pop messages jq =
     (if m_dataQueue jq \<noteq> [] then (True, m_dataQueue jq, jq\<lparr>m_dataQueue := messages\<rparr>)
      else (False, messages, jq))"

definition Decrement :: "int \<Rightarrow> 'm JobQueue \<Rightarrow> int \<times> 'm JobQueue" where
  "Decrement n jq =
     (to_int32 (m_dbJobCount jq - n), jq\<lparr>m_dbJobCount := to_int32 (m_dbJobCount jq - n)\<rparr>)"

text \<open>\<open>Excute\<close> calls the dispatch function with the session and the message.\<close>

definition Excute :: "(session_id \<Rightarrow> 'm \<Rightarrow> 'r) \<Rightarrow> 'm MessageJob \<Rightarrow> 'r" where
  "Excute dispatch job = dispatch (m_sessionID job) (m_message job)"

section \<open>Threads\<close>

text \<open>
  Where a thread is. The first group runs \<open>JobQueue::Push\<close>: waiting for the queue's lock, inside
  it before and after the deque insertion, after a \<^verbatim>\<open>fetch_add\<close> that returned 0, before
  \<^verbatim>\<open>notify_one\<close>, before the unlock. The second group runs \<open>JobDispatcher::Run\<close>: at the loop
  head, about to take the dispatcher's lock in \<open>PopJobQueue\<close>, asleep on the condition variable,
  with a queue in hand, inside \<open>JobQueue::Pop\<close>, executing (the jobs left and the number taken),
  with a queue to put back, before \<^verbatim>\<open>notify_one\<close>, returned.
\<close>

datatype 'm pc =
    Client
  | PushEnter nat "'m MessageJob"
  | PushLocked nat "'m MessageJob"
  | PushStored nat
  | PushFirst nat
  | PushNotify nat
  | PushUnlock nat
  | RunLoop
  | RunEnter
  | RunWait
  | RunGot nat
  | RunPop nat
  | RunPopped nat "'m MessageJob list"
  | RunExcute nat "'m MessageJob list" nat
  | RunMore nat
  | RunNotify
  | RunExit

text \<open>
  The system. \<open>pushed\<close> and \<open>executed\<close> record, per queue, the jobs in the order of their
  insertion and of their execution; they do not influence the steps.
\<close>

record 'm sys =
  queue :: "nat \<Rightarrow> 'm JobQueue"
  m_activeJobQueue :: "nat list"
  m_running :: bool
  pcs :: "'m pc list"
  pushed :: "nat \<Rightarrow> 'm MessageJob list"
  executed :: "nat \<Rightarrow> 'm MessageJob list"

definition JobDispatcher_new :: "nat \<Rightarrow> nat \<Rightarrow> 'm sys" where
  "JobDispatcher_new clients threadCount =
     \<lparr>queue = (\<lambda>_. JobQueue_new), m_activeJobQueue = [], m_running = True,
      pcs = replicate clients Client @ replicate threadCount RunLoop,
      pushed = (\<lambda>_. []), executed = (\<lambda>_. [])\<rparr>"

definition at :: "nat \<Rightarrow> 'm pc \<Rightarrow> 'm sys \<Rightarrow> bool" where
  "at t pc s \<longleftrightarrow> t < length (pcs s) \<and> pcs s ! t = pc"

definition goto :: "nat \<Rightarrow> 'm pc \<Rightarrow> 'm sys \<Rightarrow> 'm sys" where
  "goto t pc s = s\<lparr>pcs := (pcs s)[t := pc]\<rparr>"

definition set_queue :: "nat \<Rightarrow> 'm JobQueue \<Rightarrow> 'm sys \<Rightarrow> 'm sys" where
  "set_queue q jq s = s\<lparr>queue := (queue s)(q := jq)\<rparr>"

definition acquire :: "nat \<Rightarrow> nat \<Rightarrow> 'm sys \<Rightarrow> 'm sys" where
  "acquire t q s = set_queue q ((queue s q)\<lparr>m_lock := Some t\<rparr>) s"

definition release :: "nat \<Rightarrow> 'm sys \<Rightarrow> 'm sys" where
  "release q s = set_queue q ((queue s q)\<lparr>m_lock := None\<rparr>) s"

text \<open>The locked parts of \<open>PushJobQueue\<close> and \<open>PopJobQueue\<close>; \<^verbatim>\<open>None\<close> is \<^verbatim>\<open>nullptr\<close>.\<close>

definition PushJobQueue :: "nat \<Rightarrow> 'm sys \<Rightarrow> 'm sys" where
  "PushJobQueue q s = s\<lparr>m_activeJobQueue := m_activeJobQueue s @ [q]\<rparr>"

definition PopJobQueue :: "'m sys \<Rightarrow> nat option \<times> 'm sys" where
  "PopJobQueue s = (case m_activeJobQueue s of
      [] \<Rightarrow> (None, s) | q # qs \<Rightarrow> (Some q, s\<lparr>m_activeJobQueue := qs\<rparr>))"

text \<open>\<^verbatim>\<open>notify_one\<close> wakes some sleeping thread, if there is one; \<^verbatim>\<open>notify_all\<close> all of them.\<close>

inductive notify_one :: "'m sys \<Rightarrow> 'm sys \<Rightarrow> bool" where
  wakes: "at i RunWait s \<Longrightarrow> notify_one s (goto i RunEnter s)"
| nobody: "RunWait \<notin> set (pcs s) \<Longrightarrow> notify_one s s"

definition notify_all :: "'m sys \<Rightarrow> 'm sys" where
  "notify_all s = s\<lparr>pcs := map (\<lambda>pc. case pc of RunWait \<Rightarrow> RunEnter | _ \<Rightarrow> pc) (pcs s)\<rparr>"

text \<open>The destructor: stop running under the lock, then wake everybody.\<close>

definition dispatcher_stop :: "'m sys \<Rightarrow> 'm sys" where
  "dispatcher_stop s = s\<lparr>m_running := False\<rparr>"

section \<open>Steps\<close>

text \<open>\<open>timeout\<close> is the argument of \<open>Run\<close>; a sleep can end by itself only when it is not 0.\<close>

inductive jstep :: "int \<Rightarrow> 'm sys \<Rightarrow> 'm sys \<Rightarrow> bool" for timeout :: int where
  push_call: "at t Client s \<Longrightarrow> jstep timeout s (goto t (PushEnter q job) s)"
| push_lock: "at t (PushEnter q job) s \<Longrightarrow> m_lock (queue s q) = None \<Longrightarrow>
    jstep timeout s (goto t (PushLocked q job) (acquire t q s))"
| push_store: "at t (PushLocked q job) s \<Longrightarrow>
    jstep timeout s (goto t (PushStored q)
      ((set_queue q (Push_emplace job (queue s q)) s)\<lparr>pushed := (pushed s)(q := pushed s q @ [job])\<rparr>))"
| push_count: "at t (PushStored q) s \<Longrightarrow> Push_fetch_add (queue s q) = (old, jq) \<Longrightarrow>
    jstep timeout s (goto t (if old = 0 then PushFirst q else PushUnlock q) (set_queue q jq s))"
| push_active: "at t (PushFirst q) s \<Longrightarrow> jstep timeout s (goto t (PushNotify q) (PushJobQueue q s))"
| push_notify: "at t (PushNotify q) s \<Longrightarrow> notify_one s s' \<Longrightarrow> jstep timeout s (goto t (PushUnlock q) s')"
| push_unlock: "at t (PushUnlock q) s \<Longrightarrow> jstep timeout s (goto t Client (release q s))"
| run_loop: "at t RunLoop s \<Longrightarrow>
    jstep timeout s (goto t (if m_running s then RunEnter else RunExit) s)"
| run_take: "at t RunEnter s \<Longrightarrow> PopJobQueue s = (Some q, s') \<Longrightarrow> jstep timeout s (goto t (RunGot q) s')"
| run_null: "at t RunEnter s \<Longrightarrow> \<not> m_running s \<Longrightarrow> PopJobQueue s = (None, s') \<Longrightarrow>
    jstep timeout s (goto t RunLoop s')"
| run_sleep: "at t RunEnter s \<Longrightarrow> m_running s \<Longrightarrow> m_activeJobQueue s = [] \<Longrightarrow>
    jstep timeout s (goto t RunWait s)"
| run_spurious: "at t RunWait s \<Longrightarrow> jstep timeout s (goto t RunEnter s)"
| run_timeout: "at t RunWait s \<Longrightarrow> timeout \<noteq> 0 \<Longrightarrow> PopJobQueue s = (None, s') \<Longrightarrow>
    jstep timeout s (goto t RunLoop s')"
| run_lock: "at t (RunGot q) s \<Longrightarrow> m_lock (queue s q) = None \<Longrightarrow>
    jstep timeout s (goto t (RunPop q) (acquire t q s))"
| run_pop: "at t (RunPop q) s \<Longrightarrow> Pop [] (queue s q) = (b, messages, jq) \<Longrightarrow>
    jstep timeout s (goto t (RunPopped q messages) (set_queue q jq s))"
| run_unlock: "at t (RunPopped q messages) s \<Longrightarrow>
    jstep timeout s (goto t (RunExcute q messages (length messages)) (release q s))"
| run_excute: "at t (RunExcute q (m # ms) n) s \<Longrightarrow>
    jstep timeout s (goto t (RunExcute q ms n) (s\<lparr>executed := (executed s)(q := executed s q @ [m])\<rparr>))"
| run_decrement: "at t (RunExcute q [] n) s \<Longrightarrow> Decrement (int n) (queue s q) = (left, jq) \<Longrightarrow>
    jstep timeout s (goto t (if 0 < left then RunMore q else RunLoop) (set_queue q jq s))"
| run_again: "at t (RunMore q) s \<Longrightarrow> jstep timeout s (goto t RunNotify (PushJobQueue q s))"
| run_notify: "at t RunNotify s \<Longrightarrow> notify_one s s' \<Longrightarrow> jstep timeout s (goto t RunLoop s')"
| stop: "jstep timeout s (dispatcher_stop s)"
| stop_notify: "\<not> m_running s \<Longrightarrow> jstep timeout s (notify_all s)"

text \<open>
  Reachable states of a dispatcher with \<open>clients\<close> pushing threads and \<open>threadCount\<close> of its own.
  The counters are 32 bits wide; the runs considered are those in which none comes to its
  largest value (more than two billion jobs waiting in one queue).
\<close>

definition no_overflow :: "'m sys \<Rightarrow> bool" where
  "no_overflow s \<longleftrightarrow> (\<forall>q. m_dbJobCount (queue s q) < 2 ^ 31 - 1)"

inductive jreach :: "int \<Rightarrow> nat \<Rightarrow> nat \<Rightarrow> 'm sys \<Rightarrow> bool" for timeout clients threadCount where
  start: "jreach timeout clients threadCount (JobDispatcher_new clients threadCount)"
| step: "jreach timeout clients threadCount s \<Longrightarrow> jstep timeout s s' \<Longrightarrow> no_overflow s' \<Longrightarrow>
    jreach timeout clients threadCount s'"

section \<open>Weights of a thread\<close>

text \<open>
  For a queue \<open>q\<close>: whether a thread holds its lock; whether it is the one entitled to put \<open>q\<close> on
  the active list or to work on it; how many jobs it has inserted but not counted; how many it
  has taken but not discounted; which jobs it has still to run.
\<close>

fun holds :: "nat \<Rightarrow> 'm pc \<Rightarrow> bool" where
  "holds q (PushLocked r _) = (r = q)"
| "holds q (PushStored r) = (r = q)"
| "holds q (PushFirst r) = (r = q)"
| "holds q (PushNotify r) = (r = q)"
| "holds q (PushUnlock r) = (r = q)"
| "holds q (RunPop r) = (r = q)"
| "holds q (RunPopped r _) = (r = q)"
| "holds q _ = False"

fun handles :: "nat \<Rightarrow> 'm pc \<Rightarrow> bool" where
  "handles q (RunGot r) = (r = q)"
| "handles q (RunPop r) = (r = q)"
| "handles q (RunPopped r _) = (r = q)"
| "handles q (RunExcute r _ _) = (r = q)"
| "handles q (RunMore r) = (r = q)"
| "handles q _ = False"

definition token :: "nat \<Rightarrow> 'm pc \<Rightarrow> int" where
  "token q pc = of_bool (handles q pc \<or> pc = PushFirst q)"

definition stored :: "nat \<Rightarrow> 'm pc \<Rightarrow> int" where
  "stored q pc = of_bool (pc = PushStored q)"

fun taken :: "nat \<Rightarrow> 'm pc \<Rightarrow> int" where
  "taken q (RunPopped r ms) = (if r = q then int (length ms) else 0)"
| "taken q (RunExcute r _ n) = (if r = q then int n else 0)"
| "taken q _ = 0"

fun unrun :: "nat \<Rightarrow> 'm pc \<Rightarrow> 'm MessageJob list" where
  "unrun q (RunPopped r ms) = (if r = q then ms else [])"
| "unrun q (RunExcute r ms _) = (if r = q then ms else [])"
| "unrun q _ = []"

definition entering :: "'m pc \<Rightarrow> int" where
  "entering pc = of_bool (pc = RunEnter)"

fun notifying :: "'m pc \<Rightarrow> int" where
  "notifying (PushNotify _) = 1"
| "notifying RunNotify = 1"
| "notifying _ = 0"

lemma weights_nonneg [simp]:
  "0 \<le> token q pc" "0 \<le> stored q pc" "0 \<le> taken q pc" "0 \<le> entering pc" "0 \<le> notifying pc"
  by (simp_all add: token_def stored_def entering_def) (cases pc; simp)+

section \<open>The invariant\<close>

definition lock_inv :: "'m sys \<Rightarrow> bool" where
  "lock_inv s \<longleftrightarrow> (\<forall>q t. m_lock (queue s q) = Some t \<longleftrightarrow> t < length (pcs s) \<and> holds q (pcs s ! t))"

definition token_ok :: "nat \<Rightarrow> 'm sys \<Rightarrow> bool" where
  "token_ok q s \<longleftrightarrow> int (count_list (m_activeJobQueue s) q) + wsum (token q) (pcs s)
      = of_bool (0 < m_dbJobCount (queue s q))"

definition token_inv :: "'m sys \<Rightarrow> bool" where
  "token_inv s \<longleftrightarrow> (\<forall>q. token_ok q s)"

definition count_ok :: "nat \<Rightarrow> 'm sys \<Rightarrow> bool" where
  "count_ok q s \<longleftrightarrow> 0 \<le> m_dbJobCount (queue s q) \<and>
     wsum (stored q) (pcs s) \<le> int (length (m_dataQueue (queue s q))) \<and>
     m_dbJobCount (queue s q) + wsum (stored q) (pcs s)
      = int (length (m_dataQueue (queue s q))) + wsum (taken q) (pcs s)"

definition count_inv :: "'m sys \<Rightarrow> bool" where
  "count_inv s \<longleftrightarrow> (\<forall>q. count_ok q s)"

definition order_inv :: "'m sys \<Rightarrow> bool" where
  "order_inv s \<longleftrightarrow> (\<forall>q. pushed s q =
     executed s q @ concat (map (unrun q) (pcs s)) @ m_dataQueue (queue s q))"

definition wake_inv :: "'m sys \<Rightarrow> bool" where
  "wake_inv s \<longleftrightarrow> (RunWait \<in> set (pcs s) \<longrightarrow>
     int (length (m_activeJobQueue s)) \<le> wsum entering (pcs s) + wsum notifying (pcs s))"

lemmas job_step_defs = at_def goto_def set_queue_def acquire_def release_def PushJobQueue_def
  PopJobQueue_def Push_emplace_def Push_fetch_add_def Pop_def Decrement_def notify_all_def
  dispatcher_stop_def

inductive_cases notify_oneE: "notify_one s s'"

lemma notify_one_frame:
  assumes "notify_one s s'"
  shows "queue s' = queue s" "m_activeJobQueue s' = m_activeJobQueue s" "pushed s' = pushed s"
    "executed s' = executed s" "m_running s' = m_running s" "length (pcs s') = length (pcs s)"
    "at t pc s \<Longrightarrow> pc \<noteq> RunWait \<Longrightarrow> at t pc s'"
  using assms by (auto elim!: notify_oneE simp: goto_def at_def nth_list_update)

lemma notify_one_holds: "notify_one s s' \<Longrightarrow> t < length (pcs s) \<Longrightarrow> holds q (pcs s' ! t) = holds q (pcs s ! t)"
  by (auto elim!: notify_oneE simp: goto_def at_def nth_list_update split: if_splits)

lemma lock_holds: "lock_inv s \<Longrightarrow> t < length (pcs s) \<Longrightarrow> holds q (pcs s ! t) \<Longrightarrow> m_lock (queue s q) = Some t"
  by (simp add: lock_inv_def)

lemma lock_unique:
  "lock_inv s \<Longrightarrow> t < length (pcs s) \<Longrightarrow> holds q (pcs s ! t) \<Longrightarrow> u < length (pcs s) \<Longrightarrow> holds q (pcs s ! u) \<Longrightarrow> u = t"
  using lock_holds [of s t q] lock_holds [of s u q] by simp

lemma notify_one_wsum:
  assumes "notify_one s s'"
  shows "wsum (token q) (pcs s') = wsum (token q) (pcs s)"
    "wsum (stored q) (pcs s') = wsum (stored q) (pcs s)"
    "wsum (taken q) (pcs s') = wsum (taken q) (pcs s)"
    "wsum notifying (pcs s') = wsum notifying (pcs s)"
    "concat (map (unrun q) (pcs s')) = concat (map (unrun q) (pcs s))"
proof -
  have u: "concat (map (unrun q) ((pcs s)[i := RunEnter])) = concat (map (unrun q) (pcs s))"
    if "pcs s ! i = RunWait" "i < length (pcs s)" for i
  proof -
    have "map (unrun q) ((pcs s)[i := RunEnter]) = map (unrun q) (pcs s)"
      using that by (intro nth_equalityI) (auto simp: nth_list_update)
    then show ?thesis by simp
  qed
  show "wsum (token q) (pcs s') = wsum (token q) (pcs s)"
    "wsum (stored q) (pcs s') = wsum (stored q) (pcs s)"
    "wsum (taken q) (pcs s') = wsum (taken q) (pcs s)"
    "wsum notifying (pcs s') = wsum notifying (pcs s)"
    "concat (map (unrun q) (pcs s')) = concat (map (unrun q) (pcs s))"
    using assms u by (auto elim!: notify_oneE simp: goto_def at_def wsum_update token_def stored_def)
qed

lemma lock_inv_step: "jstep timeout s s' \<Longrightarrow> lock_inv s \<Longrightarrow> lock_inv s'"
proof (induction rule: jstep.induct)
  case (push_notify t q s s')
  from notify_one_frame(7) [OF this(2,1)] notify_one_frame [OF this(2)] notify_one_holds [OF this(2)] push_notify
  show ?case by (auto simp: lock_inv_def goto_def at_def nth_list_update)
next
  case (run_notify t s s')
  from notify_one_frame(7) [OF this(2,1)] notify_one_frame [OF this(2)] notify_one_holds [OF this(2)] run_notify
  show ?case by (auto simp: lock_inv_def goto_def at_def nth_list_update)
next
  case (push_lock t q job s)
  with lock_holds [of s _ q] show ?case by (auto simp: lock_inv_def job_step_defs nth_list_update)
next
  case (push_unlock t q s)
  then have "u = t" if "u < length (pcs s)" "holds q (pcs s ! u)" for u
    using lock_unique [of s t q u] that by (simp add: at_def)
  with push_unlock show ?case by (auto simp: lock_inv_def job_step_defs nth_list_update)
next
  case (run_lock t q s)
  with lock_holds [of s _ q] show ?case by (auto simp: lock_inv_def job_step_defs nth_list_update)
next
  case (run_unlock t q messages s)
  then have "u = t" if "u < length (pcs s)" "holds q (pcs s ! u)" for u
    using lock_unique [of s t q u] that by (simp add: at_def)
  with run_unlock show ?case by (auto simp: lock_inv_def job_step_defs nth_list_update)
qed (auto simp: lock_inv_def job_step_defs nth_list_update split: if_splits list.splits pc.splits)

text \<open>The thread that holds a queue's token is the only one.\<close>

lemma token_unique:
  assumes "token_inv s" "t < length (pcs s)" "0 < token q (pcs s ! t)"
  shows "u < length (pcs s) \<Longrightarrow> u \<noteq> t \<Longrightarrow> token q (pcs s ! u) = 0"
    and "q \<notin> set (m_activeJobQueue s)" "0 < m_dbJobCount (queue s q)" "token q (pcs s ! t) = 1"
proof -
  have one: "token q (pcs s ! t) = 1" using assms(3) by (auto simp: token_def split: if_splits)
  have tot: "int (count_list (m_activeJobQueue s) q) + wsum (token q) (pcs s) \<le> 1"
    "0 < int (count_list (m_activeJobQueue s) q) + wsum (token q) (pcs s) \<longrightarrow> 0 < m_dbJobCount (queue s q)"
    using assms(1) by (auto simp: token_inv_def token_ok_def)
  have "1 \<le> wsum (token q) (pcs s)"
    using wsum_ge [of "token q" t "pcs s"] one assms(2) by simp
  with tot have "count_list (m_activeJobQueue s) q = 0" and pos: "0 < m_dbJobCount (queue s q)" by auto
  then show "q \<notin> set (m_activeJobQueue s)" "0 < m_dbJobCount (queue s q)" "token q (pcs s ! t) = 1"
    using one by (auto simp: count_list_0_iff)
  show "token q (pcs s ! u) = 0" if "u < length (pcs s)" "u \<noteq> t"
  proof -
    have "token q (pcs s ! t) + token q (pcs s ! u) \<le> wsum (token q) (pcs s)"
      using that assms(2) by (intro wsum_ge_two) auto
    with one tot(1) weights_nonneg(1) [of q "pcs s ! u"] show ?thesis by linarith
  qed
qed

lemma unrun_token: "unrun q pc \<noteq> [] \<Longrightarrow> 0 < token q pc"
  by (cases pc) (auto simp: token_def split: if_splits)

lemma taken_token: "taken q pc \<noteq> 0 \<Longrightarrow> 0 < token q pc"
  by (cases pc) (auto simp: token_def split: if_splits)

lemma stored_holds: "stored q pc = of_bool (pc = PushStored q)"
  by (simp add: stored_def)

text \<open>With one token holder, what is taken and what is still to run is what that thread has.\<close>

lemma wsum_single:
  assumes "t < length xs" "\<And>u. u < length xs \<Longrightarrow> u \<noteq> t \<Longrightarrow> w (xs ! u) = 0"
  shows "wsum w xs = w (xs ! t)"
  using assms
proof (induction xs arbitrary: t)
  case (Cons x xs)
  show ?case
  proof (cases t)
    case 0
    have "wsum w xs = 0"
      using Cons.prems(2) [of "Suc _"] 0 by (intro wsum_zero) (auto simp: in_set_conv_nth)
    with 0 show ?thesis by simp
  next
    case (Suc k)
    have "w (xs ! u) = 0" if "u < length xs" "u \<noteq> k" for u using Cons.prems(2) [of "Suc u"] that Suc by simp
    with Suc Cons.IH [of k] Cons.prems(1) Cons.prems(2) [of 0] show ?thesis by simp
  qed
qed simp

lemma token_sums:
  assumes "token_inv s" "t < length (pcs s)" "0 < token q (pcs s ! t)"
  shows "wsum (taken q) (pcs s) = taken q (pcs s ! t)"
    and "wsum (token q) (pcs s) = 1"
    and "concat (map (unrun q) ((pcs s)[t := pc])) = unrun q pc"
proof -
  note u = token_unique [OF assms]
  have z: "taken q (pcs s ! i) = 0" "unrun q (pcs s ! i) = []" if "i < length (pcs s)" "i \<noteq> t" for i
    using u(1) [OF that] taken_token [of q "pcs s ! i"] unrun_token [of q "pcs s ! i"] by auto
  show "wsum (taken q) (pcs s) = taken q (pcs s ! t)" "wsum (token q) (pcs s) = 1"
    using wsum_single [OF assms(2), of "taken q"] wsum_single [OF assms(2), of "token q"] z u by auto
  show "concat (map (unrun q) ((pcs s)[t := pc])) = unrun q pc"
    using z by (intro concat_map_update [OF assms(2)])
qed

lemma stored_none:
  assumes "lock_inv s" "t < length (pcs s)" "holds q (pcs s ! t)" "pcs s ! t \<noteq> PushStored q"
  shows "wsum (stored q) (pcs s) = 0"
proof (rule wsum_zero)
  fix pc assume "pc \<in> set (pcs s)"
  then obtain u where u: "u < length (pcs s)" "pcs s ! u = pc" by (auto simp: in_set_conv_nth)
  show "stored q pc = 0"
  proof (cases "pc = PushStored q")
    case True
    then have "u = t" using lock_unique [OF assms(1-3), of u] u by simp
    with True u assms(4) show ?thesis by simp
  qed (simp add: stored_def)
qed

lemma notify_all_wsum:
  "wsum (token q) (pcs (notify_all s)) = wsum (token q) (pcs s)"
  "wsum (stored q) (pcs (notify_all s)) = wsum (stored q) (pcs s)"
  "wsum (taken q) (pcs (notify_all s)) = wsum (taken q) (pcs s)"
  "concat (map (unrun q) (pcs (notify_all s))) = concat (map (unrun q) (pcs s))"
proof -
  have "token q (case pc of RunWait \<Rightarrow> RunEnter | _ \<Rightarrow> pc) = token q pc"
    "stored q (case pc of RunWait \<Rightarrow> RunEnter | _ \<Rightarrow> pc) = stored q pc"
    "taken q (case pc of RunWait \<Rightarrow> RunEnter | _ \<Rightarrow> pc) = taken q pc"
    "unrun q (case pc of RunWait \<Rightarrow> RunEnter | _ \<Rightarrow> pc) = unrun q pc" for pc :: "'a pc"
    by (cases pc; simp add: token_def stored_def)+
  then show "wsum (token q) (pcs (notify_all s)) = wsum (token q) (pcs s)"
    "wsum (stored q) (pcs (notify_all s)) = wsum (stored q) (pcs s)"
    "wsum (taken q) (pcs (notify_all s)) = wsum (taken q) (pcs s)"
    "concat (map (unrun q) (pcs (notify_all s))) = concat (map (unrun q) (pcs s))"
    by (simp_all add: notify_all_def wsum_def comp_def)
qed

lemma count_invD:
  assumes "count_inv s"
  shows "0 \<le> m_dbJobCount (queue s q)"
    "wsum (stored q) (pcs s) \<le> int (length (m_dataQueue (queue s q)))"
    "m_dbJobCount (queue s q) + wsum (stored q) (pcs s)
      = int (length (m_dataQueue (queue s q))) + wsum (taken q) (pcs s)"
  using assms by (auto simp: count_inv_def count_ok_def)

lemma fetch_add_exact:
  "count_inv s \<Longrightarrow> no_overflow s \<Longrightarrow> to_int32 (m_dbJobCount (queue s q) + 1) = m_dbJobCount (queue s q) + 1"
  by (intro to_int32_small) (auto simp: count_inv_def count_ok_def no_overflow_def add.commute)

text \<open>A thread that finishes its batch of \<open>n\<close> jobs finds all of them counted.\<close>

lemma fetch_sub_exact:
  assumes inv: "token_inv s" "count_inv s" "no_overflow s" and t: "at t (RunExcute q ms n) s"
  shows "int n \<le> m_dbJobCount (queue s q)"
    "to_int32 (m_dbJobCount (queue s q) - int n) = m_dbJobCount (queue s q) - int n"
proof -
  have "wsum (taken q) (pcs s) = int n"
    using token_sums(1) [of s t q] inv(1) t by (simp add: token_def at_def)
  with count_invD [OF inv(2), of q] show le: "int n \<le> m_dbJobCount (queue s q)" by linarith
  have "m_dbJobCount (queue s q) < 2 ^ 31 - 1" using inv(3) by (simp add: no_overflow_def)
  with le show "to_int32 (m_dbJobCount (queue s q) - int n) = m_dbJobCount (queue s q) - int n"
    by (intro to_int32_small) simp_all
qed

lemma count_ok_step:
  assumes "jstep timeout s s'" "lock_inv s" "token_inv s" "count_inv s" "no_overflow s" "count_ok r s"
  shows "count_ok r s'"
  using assms
proof (induction rule: jstep.induct)
  case (push_notify t q s s')
  from notify_one_frame(7) [OF this(2,1)] notify_one_frame [OF this(2)] notify_one_wsum [OF this(2)] push_notify
  show ?case by (auto simp: count_ok_def goto_def at_def wsum_update stored_def)
next
  case (run_notify t s s')
  from notify_one_frame(7) [OF this(2,1)] notify_one_frame [OF this(2)] notify_one_wsum [OF this(2)] run_notify
  show ?case by (auto simp: count_ok_def goto_def at_def wsum_update stored_def)
next
  case (stop_notify s)
  then show ?case by (simp add: count_ok_def notify_all_wsum) (simp add: notify_all_def)
next
  case (push_count t q s old jq)
  with fetch_add_exact [of s q] show ?case
    by (auto simp: count_ok_def job_step_defs wsum_update stored_def)
next
  case (run_pop t q s b messages jq)
  then have t: "t < length (pcs s)" "pcs s ! t = RunPop q" by (auto simp: at_def)
  have "wsum (stored q) (pcs s) = 0" using stored_none [of s t q] run_pop t by simp
  moreover have "wsum (taken q) (pcs s) = 0" using token_sums(1) [of s t q] run_pop t by (simp add: token_def)
  ultimately show ?case using run_pop t
    by (auto simp: count_ok_def job_step_defs wsum_update stored_def split: if_splits)
next
  case (run_decrement t q n s left jq)
  with fetch_sub_exact [of s t q "[]" n] show ?case
    by (auto simp: count_ok_def job_step_defs wsum_update stored_def)
qed (auto simp: count_ok_def job_step_defs wsum_update stored_def split: if_splits list.splits)

lemma token_ok_step:
  assumes "jstep timeout s s'" "count_inv s" "token_inv s" "no_overflow s" "token_ok r s"
  shows "token_ok r s'"
  using assms
proof (induction rule: jstep.induct)
  case (push_notify t q s s')
  from notify_one_frame(7) [OF this(2,1)] notify_one_frame [OF this(2)] notify_one_wsum [OF this(2)] push_notify
  show ?case by (auto simp: token_ok_def goto_def at_def wsum_update token_def)
next
  case (run_notify t s s')
  from notify_one_frame(7) [OF this(2,1)] notify_one_frame [OF this(2)] notify_one_wsum [OF this(2)] run_notify
  show ?case by (auto simp: token_ok_def goto_def at_def wsum_update token_def)
next
  case (stop_notify s)
  then show ?case by (simp add: token_ok_def notify_all_wsum) (simp add: notify_all_def)
next
  case (push_count t q s old jq)
  with fetch_add_exact [of s q] count_invD(1) [of s q] show ?case
    by (auto simp: token_ok_def job_step_defs wsum_update token_def)
next
  case (run_decrement t q n s left jq)
  with fetch_sub_exact [of s t q "[]" n] token_sums(2) [of s t q] token_unique(2,3) [of s t q] show ?case
    by (auto simp: token_ok_def job_step_defs wsum_update token_def count_list_0_iff)
qed (auto simp: token_ok_def job_step_defs wsum_update token_def split: if_splits list.splits)

lemma concat_map_update_same:
  "i < length xs \<Longrightarrow> f y = f (xs ! i) \<Longrightarrow> concat (map f (xs[i := y])) = concat (map f xs)"
  by (metis list_update_id map_update)

lemma order_inv_step:
  assumes "jstep timeout s s'" "token_inv s" "order_inv s"
  shows "order_inv s'"
  using assms
proof (induction rule: jstep.induct)
  case (push_notify t q s s')
  from notify_one_frame(7) [OF this(2,1)] notify_one_frame [OF this(2)] notify_one_wsum [OF this(2)] push_notify
  show ?case by (auto simp: order_inv_def goto_def at_def concat_map_update_same)
next
  case (run_notify t s s')
  from notify_one_frame(7) [OF this(2,1)] notify_one_frame [OF this(2)] notify_one_wsum [OF this(2)] run_notify
  show ?case by (auto simp: order_inv_def goto_def at_def concat_map_update_same)
next
  case (stop_notify s)
  then show ?case by (simp add: order_inv_def notify_all_wsum) (simp add: notify_all_def)
next
  case (run_pop t q s b messages jq)
  then have t: "t < length (pcs s)" "pcs s ! t = RunPop q" "0 < token q (pcs s ! t)"
    by (auto simp: at_def token_def)
  note c = token_sums(3) [OF run_pop.prems(1) t(1,3)]
  have "concat (map (unrun q) (pcs s)) = []" using c [of "pcs s ! t", unfolded list_update_id] t by (simp del: concat_eq_Nil_conv)
  with run_pop t c [of "RunPopped q messages"] show ?case
    by (auto simp: order_inv_def job_step_defs concat_map_update_same split: if_splits)
next
  case (run_excute t q m ms n s)
  then have t: "t < length (pcs s)" "pcs s ! t = RunExcute q (m # ms) n" "0 < token q (pcs s ! t)"
    by (auto simp: at_def token_def)
  note c = token_sums(3) [OF run_excute.prems(1) t(1,3)]
  have "concat (map (unrun q) (pcs s)) = m # ms" using c [of "pcs s ! t", unfolded list_update_id] t by (simp del: concat_eq_Nil_conv)
  with run_excute t c [of "RunExcute q ms n"] show ?case
    by (auto simp: order_inv_def job_step_defs concat_map_update_same split: if_splits)
qed (auto simp: order_inv_def job_step_defs concat_map_update_same split: if_splits list.splits)

lemma RunWait_update: "RunWait \<in> set (xs[t := pc]) \<Longrightarrow> pc \<noteq> RunWait \<Longrightarrow> RunWait \<in> set xs"
  using set_update_subset_insert [of xs t pc] by auto

lemma wake_inv_notify:
  assumes s: "notify_one s s'" and t: "at t pc s" "notifying pc = 1" and inv: "wake_inv s"
    and pc': "pc' \<noteq> RunWait" "notifying pc' = 0" "pc' \<noteq> RunEnter"
  shows "wake_inv (goto t pc' s')"
  using s
proof (cases rule: notify_one.cases)
  case (wakes i)
  have i: "i < length (pcs s)" "pcs s ! i = RunWait" "i \<noteq> t" using wakes t by (auto simp: at_def)
  have t': "t < length (pcs s)" "pcs s ! t = pc" "pc \<noteq> RunEnter" using t by (auto simp: at_def)
  have "RunWait \<in> set (pcs s)" using i by (auto simp: in_set_conv_nth)
  then have "int (length (m_activeJobQueue s)) \<le> wsum entering (pcs s) + wsum notifying (pcs s)"
    using inv by (simp add: wake_inv_def)
  then show ?thesis using wakes i t' t pc'
    by (simp add: wake_inv_def goto_def wsum_update entering_def)
next
  case nobody
  then show ?thesis using pc' RunWait_update [of "pcs s" t pc'] by (auto simp: wake_inv_def goto_def)
qed

lemma wake_inv_step:
  assumes "jstep timeout s s'" "wake_inv s"
  shows "wake_inv s'"
  using assms
proof (induction rule: jstep.induct)
  case (push_notify t q s s')
  then show ?case by (intro wake_inv_notify [OF push_notify(2,1)]) simp_all
next
  case (run_notify t s s')
  then show ?case by (intro wake_inv_notify [OF run_notify(2,1)]) simp_all
next
  case (stop_notify s)
  have "RunWait \<notin> set (pcs (notify_all s))" by (auto simp: notify_all_def split: pc.splits)
  then show ?case by (simp add: wake_inv_def)
next
  case (run_sleep t s)
  then show ?case by (simp add: wake_inv_def goto_def wsum_nonneg)
next
  case (run_null t s s')
  then show ?case by (simp add: wake_inv_def job_step_defs wsum_nonneg split: list.splits)
next
  case (run_timeout t s s')
  then show ?case by (simp add: wake_inv_def job_step_defs wsum_nonneg split: list.splits)
qed (auto simp: wake_inv_def job_step_defs wsum_update entering_def dest!: RunWait_update split: if_splits list.splits)

definition job_inv :: "'m sys \<Rightarrow> bool" where
  "job_inv s \<longleftrightarrow> lock_inv s \<and> token_inv s \<and> count_inv s \<and> order_inv s \<and> wake_inv s \<and> no_overflow s"

lemma job_inv_start: "job_inv (JobDispatcher_new clients threadCount)"
  unfolding job_inv_def
proof (intro conjI)
  let ?s = "JobDispatcher_new clients threadCount"
  have "\<not> holds q (pcs ?s ! t)" if "t < length (pcs ?s)" for q t
    using that by (auto simp: JobDispatcher_new_def nth_append)
  then show "lock_inv ?s" by (auto simp: lock_inv_def JobDispatcher_new_def JobQueue_new_def)
qed (auto simp: JobDispatcher_new_def JobQueue_new_def token_inv_def token_ok_def count_inv_def count_ok_def
    order_inv_def wake_inv_def no_overflow_def token_def stored_def entering_def)

theorem job_inv_reach: "jreach timeout clients threadCount s \<Longrightarrow> job_inv s"
proof (induction rule: jreach.induct)
  case start
  show ?case by (rule job_inv_start)
next
  case (step s s')
  then show ?case
    using lock_inv_step [OF step(2)] count_ok_step [OF step(2)] token_ok_step [OF step(2)]
      order_inv_step [OF step(2)] wake_inv_step [OF step(2)]
    unfolding job_inv_def by (simp add: token_inv_def count_inv_def)
qed

section \<open>Properties\<close>

text \<open>
  C7. Two threads never work on the same queue: whatever the interleaving of pushes and of the
  dispatcher's threads, at most one thread is between \<open>PopJobQueue\<close> of a queue and its
  \<open>Decrement\<close> or re-push. The jobs of a session are therefore executed one after the other.
\<close>

theorem queue_handled_by_one_thread:
  assumes "jreach timeout clients threadCount s"
  shows "card {t. t < length (pcs s) \<and> handles q (pcs s ! t)} \<le> 1"
proof -
  have inv: "token_inv s" using job_inv_reach [OF assms(1)] by (simp add: job_inv_def)
  have "t = u" if "t < length (pcs s)" "handles q (pcs s ! t)" "u < length (pcs s)" "handles q (pcs s ! u)" for t u
    using token_unique(1) [OF inv, of t q u] that by (auto simp: token_def)
  then show ?thesis by (subst card_le_Suc0_iff_eq [unfolded One_nat_def [symmetric]]) auto
qed

text \<open>
  C9. The jobs of a queue are executed in the order they were pushed, none twice and none
  skipped: the executed jobs followed by those in the hands of its thread and those in the
  deque are exactly the pushed jobs.
\<close>

theorem jobs_run_once_in_push_order:
  assumes "jreach timeout clients threadCount s"
  shows "pushed s q = executed s q @ concat (map (unrun q) (pcs s)) @ m_dataQueue (queue s q)"
  using job_inv_reach [OF assms] by (simp add: job_inv_def order_inv_def)

text \<open>
  C11. No queue is forgotten: when jobs wait in a queue whose lock is free, the queue is on the
  dispatcher's active list, exactly once, or a thread is at work on it.
\<close>

theorem waiting_queue_is_active:
  assumes r: "jreach timeout clients threadCount s"
    and q: "m_dataQueue (queue s q) \<noteq> []" "m_lock (queue s q) = None"
  shows "count_list (m_activeJobQueue s) q = 1 \<or> (\<exists>t < length (pcs s). handles q (pcs s ! t))"
proof (rule disjCI)
  assume none: "\<not> (\<exists>t < length (pcs s). handles q (pcs s ! t))"
  note inv = job_inv_reach [OF r, unfolded job_inv_def]
  have free: "\<not> holds q (pcs s ! t)" if "t < length (pcs s)" for t
    using lock_holds [of s t q] inv that q(2) by auto
  have "pc \<noteq> PushStored q \<and> token q pc = 0" if "pc \<in> set (pcs s)" for pc
    using that free none by (fastforce simp: in_set_conv_nth token_def)
  then have "wsum (stored q) (pcs s) = 0" "wsum (token q) (pcs s) = 0"
    by (auto intro!: wsum_zero simp: stored_def)
  moreover have "0 \<le> wsum (taken q) (pcs s)" by (simp add: wsum_nonneg)
  moreover have "0 < int (length (m_dataQueue (queue s q)))" using q(1) by simp
  ultimately have "0 < m_dbJobCount (queue s q)" using count_invD(3) [of s q] inv by linarith
  moreover have "token_ok q s" using inv by (simp add: token_inv_def)
  ultimately show "count_list (m_activeJobQueue s) q = 1"
    using \<open>wsum (token q) (pcs s) = 0\<close> by (simp add: token_ok_def)
qed

text \<open>
  C15. No lost wake-up and no lost job: when no push is under way and every thread of the
  dispatcher sleeps on the condition variable (at least one does), every job ever pushed to any
  queue has been executed.
\<close>

theorem sleeping_dispatcher_ran_everything:
  assumes r: "jreach timeout clients threadCount s"
    and quiet: "\<forall>pc \<in> set (pcs s). pc = Client \<or> pc = RunWait" and sleeper: "RunWait \<in> set (pcs s)"
  shows "executed s q = pushed s q"
proof -
  note inv = job_inv_reach [OF r, unfolded job_inv_def]
  have z: "wsum w (pcs s) = 0" if "w Client = 0" "w RunWait = 0" for w
    using quiet that by (intro wsum_zero) auto
  have "m_activeJobQueue s = []"
    using inv sleeper z [of entering] z [of notifying] by (simp add: wake_inv_def entering_def)
  then have "\<not> 0 < m_dbJobCount (queue s q)"
    using inv z [of "token q"] by (simp add: token_inv_def token_ok_def token_def)
  then have "m_dataQueue (queue s q) = []"
    using inv count_invD [of s q] z [of "stored q"] z [of "taken q"] by (simp add: stored_def)
  moreover have "concat (map (unrun q) (pcs s)) = []" using quiet by auto
  ultimately show ?thesis using inv by (simp add: order_inv_def)
qed

text \<open>
  A run of one pushing thread and one dispatcher thread, for the witnesses: one job is pushed
  to queue 0, executed, and the dispatcher goes to sleep.
\<close>

definition demo :: "nat option \<Rightarrow> nat MessageJob list \<Rightarrow> int \<Rightarrow> nat list \<Rightarrow> nat pc \<Rightarrow> nat pc \<Rightarrow>
    nat MessageJob list \<Rightarrow> nat MessageJob list \<Rightarrow> nat sys" where
  "demo l d c act pc0 pc1 pu ex =
     \<lparr>queue = (\<lambda>_. JobQueue_new)(0 := \<lparr>m_lock = l, m_dataQueue = d, m_dbJobCount = c\<rparr>),
      m_activeJobQueue = act, m_running = True, pcs = [pc0, pc1],
      pushed = (\<lambda>_. [])(0 := pu), executed = (\<lambda>_. [])(0 := ex)\<rparr>"

definition demo_job :: "nat MessageJob" where
  "demo_job = \<lparr>m_message = 7, m_sessionID = 42\<rparr>"

lemma demo_pushed: "jreach 0 1 1 (demo None [demo_job] 1 [0] Client RunLoop [demo_job] [])"
proof -
  have r0: "jreach 0 1 1 (demo None [] 0 [] Client RunLoop [] [])"
    using jreach.start [of 0 1 1] by (simp add: demo_def JobDispatcher_new_def JobQueue_new_def fun_upd_def)
  have "jstep 0 (demo None [] 0 [] Client RunLoop [] []) (demo None [] 0 [] (PushEnter 0 demo_job) RunLoop [] [])"
    using jstep.push_call [of 0 "demo None [] 0 [] Client RunLoop [] []" 0 0 demo_job] by (simp add: demo_def job_step_defs to_int32_def)
  from jreach.step [OF r0 this] have r1: "jreach 0 1 1 (demo None [] 0 [] (PushEnter 0 demo_job) RunLoop [] [])" by (simp add: demo_def no_overflow_def JobQueue_new_def)
  have "jstep 0 (demo None [] 0 [] (PushEnter 0 demo_job) RunLoop [] []) (demo (Some 0) [] 0 [] (PushLocked 0 demo_job) RunLoop [] [])"
    using jstep.push_lock [where s = "demo None [] 0 [] (PushEnter 0 demo_job) RunLoop [] []" and t = 0 and q = 0 and job = demo_job] by (simp add: demo_def job_step_defs to_int32_def)
  from jreach.step [OF r1 this] have r2: "jreach 0 1 1 (demo (Some 0) [] 0 [] (PushLocked 0 demo_job) RunLoop [] [])" by (simp add: demo_def no_overflow_def JobQueue_new_def)
  have "jstep 0 (demo (Some 0) [] 0 [] (PushLocked 0 demo_job) RunLoop [] []) (demo (Some 0) [demo_job] 0 [] (PushStored 0) RunLoop [demo_job] [])"
    using jstep.push_store [where s = "demo (Some 0) [] 0 [] (PushLocked 0 demo_job) RunLoop [] []" and t = 0 and q = 0 and job = demo_job] by (simp add: demo_def job_step_defs to_int32_def)
  from jreach.step [OF r2 this] have r3: "jreach 0 1 1 (demo (Some 0) [demo_job] 0 [] (PushStored 0) RunLoop [demo_job] [])" by (simp add: demo_def no_overflow_def JobQueue_new_def)
  have "jstep 0 (demo (Some 0) [demo_job] 0 [] (PushStored 0) RunLoop [demo_job] []) (demo (Some 0) [demo_job] 1 [] (PushFirst 0) RunLoop [demo_job] [])"
    using jstep.push_count [where s = "demo (Some 0) [demo_job] 0 [] (PushStored 0) RunLoop [demo_job] []" and t = 0 and q = 0] by (simp add: demo_def job_step_defs to_int32_def)
  from jreach.step [OF r3 this] have r4: "jreach 0 1 1 (demo (Some 0) [demo_job] 1 [] (PushFirst 0) RunLoop [demo_job] [])" by (simp add: demo_def no_overflow_def JobQueue_new_def)
  have "jstep 0 (demo (Some 0) [demo_job] 1 [] (PushFirst 0) RunLoop [demo_job] []) (demo (Some 0) [demo_job] 1 [0] (PushNotify 0) RunLoop [demo_job] [])"
    using jstep.push_active [where s = "demo (Some 0) [demo_job] 1 [] (PushFirst 0) RunLoop [demo_job] []" and t = 0 and q = 0] by (simp add: demo_def job_step_defs to_int32_def)
  from jreach.step [OF r4 this] have r5: "jreach 0 1 1 (demo (Some 0) [demo_job] 1 [0] (PushNotify 0) RunLoop [demo_job] [])" by (simp add: demo_def no_overflow_def JobQueue_new_def)
  have "jstep 0 (demo (Some 0) [demo_job] 1 [0] (PushNotify 0) RunLoop [demo_job] []) (demo (Some 0) [demo_job] 1 [0] (PushUnlock 0) RunLoop [demo_job] [])"
    using jstep.push_notify [where s = "demo (Some 0) [demo_job] 1 [0] (PushNotify 0) RunLoop [demo_job] []" and t = 0 and q = 0 and s' = "demo (Some 0) [demo_job] 1 [0] (PushNotify 0) RunLoop [demo_job] []"] notify_one.nobody [of "demo (Some 0) [demo_job] 1 [0] (PushNotify 0) RunLoop [demo_job] []"] by (simp add: demo_def job_step_defs to_int32_def)
  from jreach.step [OF r5 this] have r6: "jreach 0 1 1 (demo (Some 0) [demo_job] 1 [0] (PushUnlock 0) RunLoop [demo_job] [])" by (simp add: demo_def no_overflow_def JobQueue_new_def)
  have "jstep 0 (demo (Some 0) [demo_job] 1 [0] (PushUnlock 0) RunLoop [demo_job] []) (demo None [demo_job] 1 [0] Client RunLoop [demo_job] [])"
    using jstep.push_unlock [where s = "demo (Some 0) [demo_job] 1 [0] (PushUnlock 0) RunLoop [demo_job] []" and t = 0 and q = 0] by (simp add: demo_def job_step_defs to_int32_def)
  from jreach.step [OF r6 this] have r7: "jreach 0 1 1 (demo None [demo_job] 1 [0] Client RunLoop [demo_job] [])" by (simp add: demo_def no_overflow_def JobQueue_new_def)
  show ?thesis by (rule r7)
qed

lemma demo_ran: "jreach 0 1 1 (demo None [] 1 [] Client (RunExcute 0 [] 1) [demo_job] [demo_job])"
proof -
  note r7 = demo_pushed
  have "jstep 0 (demo None [demo_job] 1 [0] Client RunLoop [demo_job] []) (demo None [demo_job] 1 [0] Client RunEnter [demo_job] [])"
    using jstep.run_loop [where s = "demo None [demo_job] 1 [0] Client RunLoop [demo_job] []" and t = 1] by (simp add: demo_def job_step_defs to_int32_def)
  from jreach.step [OF r7 this] have r8: "jreach 0 1 1 (demo None [demo_job] 1 [0] Client RunEnter [demo_job] [])" by (simp add: demo_def no_overflow_def JobQueue_new_def)
  have "jstep 0 (demo None [demo_job] 1 [0] Client RunEnter [demo_job] []) (demo None [demo_job] 1 [] Client (RunGot 0) [demo_job] [])"
    using jstep.run_take [where s = "demo None [demo_job] 1 [0] Client RunEnter [demo_job] []" and t = 1] by (simp add: demo_def job_step_defs to_int32_def)
  from jreach.step [OF r8 this] have r9: "jreach 0 1 1 (demo None [demo_job] 1 [] Client (RunGot 0) [demo_job] [])" by (simp add: demo_def no_overflow_def JobQueue_new_def)
  have "jstep 0 (demo None [demo_job] 1 [] Client (RunGot 0) [demo_job] []) (demo (Some 1) [demo_job] 1 [] Client (RunPop 0) [demo_job] [])"
    using jstep.run_lock [where s = "demo None [demo_job] 1 [] Client (RunGot 0) [demo_job] []" and t = 1 and q = 0] by (simp add: demo_def job_step_defs to_int32_def)
  from jreach.step [OF r9 this] have r10: "jreach 0 1 1 (demo (Some 1) [demo_job] 1 [] Client (RunPop 0) [demo_job] [])" by (simp add: demo_def no_overflow_def JobQueue_new_def)
  have "jstep 0 (demo (Some 1) [demo_job] 1 [] Client (RunPop 0) [demo_job] []) (demo (Some 1) [] 1 [] Client (RunPopped 0 [demo_job]) [demo_job] [])"
    using jstep.run_pop [where s = "demo (Some 1) [demo_job] 1 [] Client (RunPop 0) [demo_job] []" and t = 1 and q = 0] by (simp add: demo_def job_step_defs to_int32_def)
  from jreach.step [OF r10 this] have r11: "jreach 0 1 1 (demo (Some 1) [] 1 [] Client (RunPopped 0 [demo_job]) [demo_job] [])" by (simp add: demo_def no_overflow_def JobQueue_new_def)
  have "jstep 0 (demo (Some 1) [] 1 [] Client (RunPopped 0 [demo_job]) [demo_job] []) (demo None [] 1 [] Client (RunExcute 0 [demo_job] 1) [demo_job] [])"
    using jstep.run_unlock [where s = "demo (Some 1) [] 1 [] Client (RunPopped 0 [demo_job]) [demo_job] []" and t = 1 and q = 0 and messages = "[demo_job]"] by (simp add: demo_def job_step_defs to_int32_def)
  from jreach.step [OF r11 this] have r12: "jreach 0 1 1 (demo None [] 1 [] Client (RunExcute 0 [demo_job] 1) [demo_job] [])" by (simp add: demo_def no_overflow_def JobQueue_new_def)
  have "jstep 0 (demo None [] 1 [] Client (RunExcute 0 [demo_job] 1) [demo_job] []) (demo None [] 1 [] Client (RunExcute 0 [] 1) [demo_job] [demo_job])"
    using jstep.run_excute [where s = "demo None [] 1 [] Client (RunExcute 0 [demo_job] 1) [demo_job] []" and t = 1 and q = 0 and m = demo_job and ms = "[]" and n = 1] by (simp add: demo_def job_step_defs to_int32_def)
  from jreach.step [OF r12 this] have r13: "jreach 0 1 1 (demo None [] 1 [] Client (RunExcute 0 [] 1) [demo_job] [demo_job])" by (simp add: demo_def no_overflow_def JobQueue_new_def)
  show ?thesis by (rule r13)
qed

lemma demo_asleep: "jreach 0 1 1 (demo None [] 0 [] Client RunWait [demo_job] [demo_job])"
proof -
  note r13 = demo_ran
  have "jstep 0 (demo None [] 1 [] Client (RunExcute 0 [] 1) [demo_job] [demo_job]) (demo None [] 0 [] Client RunLoop [demo_job] [demo_job])"
    using jstep.run_decrement [where s = "demo None [] 1 [] Client (RunExcute 0 [] 1) [demo_job] [demo_job]" and t = 1 and q = 0 and n = 1] by (simp add: demo_def job_step_defs to_int32_def)
  from jreach.step [OF r13 this] have r14: "jreach 0 1 1 (demo None [] 0 [] Client RunLoop [demo_job] [demo_job])" by (simp add: demo_def no_overflow_def JobQueue_new_def)
  have "jstep 0 (demo None [] 0 [] Client RunLoop [demo_job] [demo_job]) (demo None [] 0 [] Client RunEnter [demo_job] [demo_job])"
    using jstep.run_loop [where s = "demo None [] 0 [] Client RunLoop [demo_job] [demo_job]" and t = 1] by (simp add: demo_def job_step_defs to_int32_def)
  from jreach.step [OF r14 this] have r15: "jreach 0 1 1 (demo None [] 0 [] Client RunEnter [demo_job] [demo_job])" by (simp add: demo_def no_overflow_def JobQueue_new_def)
  have "jstep 0 (demo None [] 0 [] Client RunEnter [demo_job] [demo_job]) (demo None [] 0 [] Client RunWait [demo_job] [demo_job])"
    using jstep.run_sleep [where s = "demo None [] 0 [] Client RunEnter [demo_job] [demo_job]" and t = 1] by (simp add: demo_def job_step_defs to_int32_def)
  from jreach.step [OF r15 this] have r16: "jreach 0 1 1 (demo None [] 0 [] Client RunWait [demo_job] [demo_job])" by (simp add: demo_def no_overflow_def JobQueue_new_def)
  show ?thesis by (rule r16)
qed

theorem queue_handled_by_one_thread_witness:
  "card {t. t < length (pcs (demo None [] 1 [] Client (RunExcute 0 [] 1) [demo_job] [demo_job])) \<and> handles 0 (pcs (demo None [] 1 [] Client (RunExcute 0 [] 1) [demo_job] [demo_job]) ! t)} \<le> 1"
  by (rule queue_handled_by_one_thread [OF demo_ran])

theorem jobs_run_once_in_push_order_witness:
  "pushed (demo None [demo_job] 1 [0] Client RunLoop [demo_job] []) 0 = [demo_job] \<and> executed (demo None [demo_job] 1 [0] Client RunLoop [demo_job] []) 0 @ concat (map (unrun 0) (pcs (demo None [demo_job] 1 [0] Client RunLoop [demo_job] []))) @
     m_dataQueue (queue (demo None [demo_job] 1 [0] Client RunLoop [demo_job] []) 0) = [demo_job]"
  using jobs_run_once_in_push_order [OF demo_pushed, of 0] by (simp add: demo_def)

theorem waiting_queue_is_active_witness:
  "count_list (m_activeJobQueue (demo None [demo_job] 1 [0] Client RunLoop [demo_job] [])) 0 = 1 \<or>
    (\<exists>t. t < 2 \<and> handles 0 (pcs (demo None [demo_job] 1 [0] Client RunLoop [demo_job] []) ! t))"
  using waiting_queue_is_active [OF demo_pushed, of 0] by (simp add: demo_def)

theorem sleeping_dispatcher_ran_everything_witness:
  "executed (demo None [] 0 [] Client RunWait [demo_job] [demo_job]) 0 = pushed (demo None [] 0 [] Client RunWait [demo_job] [demo_job]) 0 \<and> pushed (demo None [] 0 [] Client RunWait [demo_job] [demo_job]) 0 = [demo_job]"
  using sleeping_dispatcher_ran_everything [OF demo_asleep, of 0] by (simp add: demo_def)

end
