(* ===== verification/Free_List.thy ===== *)
theory Free_List
  imports MMO_Prelude
begin

text \<open>
  \<^verbatim>\<open>FreeList<T>\<close> (ServerCore/Memory/FreeList.h): a lock-free stack of returned blocks behind
  the node-based containers. Every block carries a header with the list's identity, a mark and
  a flag that says whether it has been returned; the top of the stack is a pointer and a
  counter exchanged together by a 128-bit compare-and-swap. \<open>fl_step\<close> is one access to shared
  memory of a thread inside \<open>Free\<close> or \<open>Alloc\<close>; \<open>fstep\<close> interleaves any number of threads.
  Proved: no block is ever in two places, none is lost, \<open>Alloc\<close> never returns a block somebody
  still holds, and a client that returns only blocks it holds never sees an exception.
\<close>

section \<open>Memory\<close>

record MemHeader =
  m_markID :: int
  m_markValue :: int
  m_freeFlag :: bool
  m_size :: nat

text \<open>
  A block: the header and the node. The node's payload belongs to the client while it holds the
  block and is not modelled. Addresses are numbers; \<open>None\<close> is the null pointer. The heap maps
  the addresses of blocks obtained from the C heap.
\<close>

record AllocMemory =
  m_frontMark :: MemHeader
  m_next :: "nat option"

record FreeList =
  heap :: "nat \<Rightarrow> AllocMemory option"
  m_topPtr :: "nat option"
  m_checkID :: int
  m_freeListUID :: int
  m_poolCount :: int
  m_useCount :: int
  m_allocCount :: int

definition FreeList_new :: "int \<Rightarrow> FreeList" where
  "FreeList_new uid = \<lparr>heap = (\<lambda>_. None), m_topPtr = None, m_checkID = 0, m_freeListUID = uid,
     m_poolCount = 0, m_useCount = 0, m_allocCount = 0\<rparr>"

definition GetFreeListUID :: "FreeList \<Rightarrow> int" where
  "GetFreeListUID fl = m_freeListUID fl"

definition GetPoolCount :: "FreeList \<Rightarrow> int" where
  "GetPoolCount fl = m_poolCount fl"

definition GetUseCount :: "FreeList \<Rightarrow> int" where
  "GetUseCount fl = m_useCount fl"

definition GetAllocCount :: "FreeList \<Rightarrow> int" where
  "GetAllocCount fl = m_allocCount fl"

section \<open>The operations, one shared access at a time\<close>

text \<open>A fresh block, its header filled in and its node constructed.\<close>

definition AllocateMemoryFromHeap :: "nat \<Rightarrow> nat \<Rightarrow> FreeList \<Rightarrow> FreeList" where
  "AllocateMemoryFromHeap a sz fl =
     fl\<lparr>heap := (heap fl)(a \<mapsto>
        \<lparr>m_frontMark = \<lparr>m_markID = m_freeListUID fl, m_markValue = MARK_FRONT, m_freeFlag = False, m_size = sz\<rparr>,
         m_next = None\<rparr>)\<rparr>"

definition set_flag :: "bool \<Rightarrow> AllocMemory \<Rightarrow> AllocMemory" where
  "set_flag v m = m\<lparr>m_frontMark := (m_frontMark m)\<lparr>m_freeFlag := v\<rparr>\<rparr>"

definition put_block :: "nat \<Rightarrow> AllocMemory \<Rightarrow> FreeList \<Rightarrow> FreeList" where
  "put_block a m fl = fl\<lparr>heap := (heap fl)(a \<mapsto> m)\<rparr>"

text \<open>
  \<^verbatim>\<open>InterlockedCompareExchange128\<close> on the top: compares with (\<open>p\<close>, \<open>n\<close>); on success stores
  (\<open>p'\<close>, \<open>n + 1\<close>), on failure returns the current value in the comparand.
\<close>

definition cas_top :: "nat option \<Rightarrow> nat option \<Rightarrow> int \<Rightarrow> FreeList \<Rightarrow> bool \<times> (nat option \<times> int) \<times> FreeList" where
  "cas_top p' p n fl =
     (if m_topPtr fl = p \<and> m_checkID fl = n
      then (True, (p, n), fl\<lparr>m_topPtr := p', m_checkID := n + 1\<rparr>)
      else (False, (m_topPtr fl, m_checkID fl), fl))"

text \<open>
  Where a thread is: in \<open>Free\<close>, before the mark check, the flag exchange, the two reads of the
  top, the link of the node, the compare-and-swap; in \<open>Alloc\<close>, before the two reads of the top,
  the null test, the compare-and-swap, the flag reset, the construction; returned; or left by
  an exception. The two operations spin without touching shared memory between attempts.
\<close>

datatype fpc =
    Idle
  | FreeMarks nat
  | FreeFlag nat
  | FreeTop nat
  | FreeID nat "nat option"
  | FreeLink nat "nat option" int
  | FreeCas nat "nat option" int
  | Freed
  | AllocTop nat
  | AllocID nat "nat option"
  | AllocTest nat "nat option" int
  | AllocCas nat nat int "nat option"
  | AllocUnflag nat
  | AllocConstruct nat
  | Returned nat
  | Thrown error

text \<open>\<open>malloc\<close> is what \<^verbatim>\<open>_aligned_malloc\<close> would return at this moment.\<close>

fun fl_step :: "nat option \<Rightarrow> fpc \<Rightarrow> FreeList \<Rightarrow> fpc \<times> FreeList" where
  "fl_step malloc (FreeMarks d) fl =
     (case heap fl d of
        None \<Rightarrow> (Thrown OutOfBounds, fl)
      | Some m \<Rightarrow>
          if m_markID (m_frontMark m) \<noteq> m_freeListUID fl \<or> m_markValue (m_frontMark m) \<noteq> MARK_FRONT
          then (Thrown Underflow_Violation, fl) else (FreeFlag d, fl))"
| "fl_step malloc (FreeFlag d) fl =
     (case heap fl d of
        None \<Rightarrow> (Thrown OutOfBounds, fl)
      | Some m \<Rightarrow>
          (if m_freeFlag (m_frontMark m) then Thrown Twice_Free else FreeTop d,
           put_block d (set_flag True m) fl))"
| "fl_step malloc (FreeTop d) fl = (FreeID d (m_topPtr fl), fl)"
| "fl_step malloc (FreeID d p) fl = (FreeLink d p (m_checkID fl), fl)"
| "fl_step malloc (FreeLink d p n) fl =
     (case heap fl d of
        None \<Rightarrow> (Thrown OutOfBounds, fl)
      | Some m \<Rightarrow> (FreeCas d p n, put_block d (m\<lparr>m_next := p\<rparr>) fl))"
| "fl_step malloc (FreeCas d p n) fl =
     (let (ok, (p', n'), fl') = cas_top (Some d) p n fl
      in if ok then (Freed, fl') else (FreeLink d p' n', fl'))"
| "fl_step malloc (AllocTop sz) fl = (AllocID sz (m_topPtr fl), fl)"
| "fl_step malloc (AllocID sz p) fl = (AllocTest sz p (m_checkID fl), fl)"
| "fl_step malloc (AllocTest sz p n) fl =
     (case p of
        None \<Rightarrow>
          (case malloc of
             None \<Rightarrow> (Thrown NullDeref, fl)
           | Some a \<Rightarrow> (Returned a, AllocateMemoryFromHeap a sz fl))
      | Some a \<Rightarrow>
          (case heap fl a of
             None \<Rightarrow> (Thrown OutOfBounds, fl)
           | Some m \<Rightarrow> (AllocCas sz a n (m_next m), fl)))"
| "fl_step malloc (AllocCas sz a n nxt) fl =
     (let (ok, (p', n'), fl') = cas_top nxt (Some a) n fl
      in if ok then (AllocUnflag a, fl') else (AllocTest sz p' n', fl'))"
| "fl_step malloc (AllocUnflag a) fl =
     (case heap fl a of
        None \<Rightarrow> (Thrown OutOfBounds, fl)
      | Some m \<Rightarrow> (AllocConstruct a, put_block a (set_flag False m) fl))"
| "fl_step malloc (AllocConstruct a) fl =
     (case heap fl a of
        None \<Rightarrow> (Thrown OutOfBounds, fl)
      | Some m \<Rightarrow> (Returned a, put_block a (m\<lparr>m_next := None\<rparr>) fl))"
| "fl_step malloc pc fl = (pc, fl)"

text \<open>
  One operation run alone, to its end: at most \<open>fuel\<close> steps of the thread. \<open>seq_Free\<close> and
  \<open>seq_Alloc\<close> need seven and six.
\<close>

fun fl_run :: "nat \<Rightarrow> nat option \<Rightarrow> fpc \<Rightarrow> FreeList \<Rightarrow> fpc \<times> FreeList" where
  "fl_run 0 malloc pc fl = (pc, fl)"
| "fl_run (Suc fuel) malloc pc fl =
     (case fl_step malloc pc fl of (pc', fl') \<Rightarrow> fl_run fuel malloc pc' fl')"

definition Free :: "nat \<Rightarrow> FreeList \<Rightarrow> fpc \<times> FreeList" where
  "Free d fl = fl_run 7 None (FreeMarks d) fl"

definition Alloc :: "nat option \<Rightarrow> nat \<Rightarrow> FreeList \<Rightarrow> fpc \<times> FreeList" where
  "Alloc malloc sz fl = fl_run 7 malloc (AllocTop sz) fl"

text \<open>\<^verbatim>\<open>AllocMem\<close> and \<^verbatim>\<open>FreeMem\<close> only convert the pointer types.\<close>

definition AllocMem :: "nat option \<Rightarrow> nat \<Rightarrow> FreeList \<Rightarrow> fpc \<times> FreeList" where
  "AllocMem malloc sz fl = Alloc malloc sz fl"

definition FreeMem :: "nat \<Rightarrow> FreeList \<Rightarrow> fpc \<times> FreeList" where
  "FreeMem ptr fl = Free ptr fl"

text \<open>
  The constructor with \<open>blockNum\<close>: that many blocks from the heap, each returned at once. The
  list \<open>as\<close> holds what \<^verbatim>\<open>_aligned_malloc\<close> returns.
\<close>

fun FreeList_prefill :: "nat list \<Rightarrow> FreeList \<Rightarrow> FreeList" where
  "FreeList_prefill [] fl = fl"
| "FreeList_prefill (a # as) fl = FreeList_prefill as (snd (Free a (AllocateMemoryFromHeap a 0 fl)))"

section \<open>Interleavings\<close>

text \<open>
  \<open>held\<close>: the blocks clients hold. A client may return only such a block, and gives it up by
  calling \<open>Free\<close>.
\<close>

record fsys =
  flist :: FreeList
  fpcs :: "fpc list"
  held :: "nat set"

fun busy :: "fpc \<Rightarrow> bool" where
  "busy Idle = False"
| "busy Freed = False"
| "busy (Returned _) = False"
| "busy (Thrown _) = False"
| "busy _ = True"

inductive fstep :: "fsys \<Rightarrow> fsys \<Rightarrow> bool" where
  call_free: "t < length (fpcs s) \<Longrightarrow> fpcs s ! t = Idle \<Longrightarrow> d \<in> held s \<Longrightarrow>
    fstep s (s\<lparr>fpcs := (fpcs s)[t := FreeMarks d], held := held s - {d}\<rparr>)"
| call_alloc: "t < length (fpcs s) \<Longrightarrow> fpcs s ! t = Idle \<Longrightarrow>
    fstep s (s\<lparr>fpcs := (fpcs s)[t := AllocTop sz]\<rparr>)"
| inside: "t < length (fpcs s) \<Longrightarrow> busy (fpcs s ! t) \<Longrightarrow> (\<And>a. malloc = Some a \<Longrightarrow> heap (flist s) a = None) \<Longrightarrow>
    fl_step malloc (fpcs s ! t) (flist s) = (pc, fl) \<Longrightarrow>
    fstep s (s\<lparr>flist := fl, fpcs := (fpcs s)[t := pc]\<rparr>)"
| ret_free: "t < length (fpcs s) \<Longrightarrow> fpcs s ! t = Freed \<Longrightarrow> fstep s (s\<lparr>fpcs := (fpcs s)[t := Idle]\<rparr>)"
| ret_alloc: "t < length (fpcs s) \<Longrightarrow> fpcs s ! t = Returned a \<Longrightarrow>
    fstep s (s\<lparr>fpcs := (fpcs s)[t := Idle], held := insert a (held s)\<rparr>)"

text \<open>
  Reachable states of \<open>n\<close> threads. The counter of the top is 64 bits wide; the runs considered
  are those in which it does not come to its largest value.
\<close>

inductive freach :: "int \<Rightarrow> nat \<Rightarrow> fsys \<Rightarrow> bool" for uid n where
  start: "freach uid n \<lparr>flist = FreeList_new uid, fpcs = replicate n Idle, held = {}\<rparr>"
| step: "freach uid n s \<Longrightarrow> fstep s s' \<Longrightarrow> m_checkID (flist s') < 2 ^ 63 - 1 \<Longrightarrow> freach uid n s'"

section \<open>The stack in memory\<close>

definition nexts :: "(nat \<Rightarrow> AllocMemory option) \<Rightarrow> nat \<Rightarrow> nat option option" where
  "nexts h a = map_option m_next (h a)"

lemma nexts_update [simp]: "nexts (h(a \<mapsto> m)) = (nexts h)(a := Some (m_next m))"
  by (auto simp: nexts_def)

lemma nexts_eq_None [simp]: "nexts h a = None \<longleftrightarrow> h a = None"
  by (simp add: nexts_def)

lemma nexts_eq_Some [simp]: "nexts h a = Some q \<longleftrightarrow> (\<exists>m. h a = Some m \<and> q = m_next m)"
  by (auto simp: nexts_def)

section \<open>The invariant\<close>

text \<open>The block a thread has in its hands.\<close>

fun poss :: "fpc \<Rightarrow> nat option" where
  "poss (FreeMarks d) = Some d"
| "poss (FreeFlag d) = Some d"
| "poss (FreeTop d) = Some d"
| "poss (FreeID d _) = Some d"
| "poss (FreeLink d _ _) = Some d"
| "poss (FreeCas d _ _) = Some d"
| "poss (AllocUnflag a) = Some a"
| "poss (AllocConstruct a) = Some a"
| "poss (Returned a) = Some a"
| "poss _ = None"

definition hand :: "nat \<Rightarrow> fpc \<Rightarrow> int" where
  "hand a pc = of_bool (poss pc = Some a)"

definition flagged :: "FreeList \<Rightarrow> nat \<Rightarrow> bool \<Rightarrow> bool" where
  "flagged fl a v \<longleftrightarrow> (\<exists>m. heap fl a = Some m \<and> m_freeFlag (m_frontMark m) = v)"

definition allocated :: "FreeList \<Rightarrow> nat option \<Rightarrow> bool" where
  "allocated fl p \<longleftrightarrow> (case p of None \<Rightarrow> True | Some a \<Rightarrow> heap fl a \<noteq> None)"

text \<open>
  What a thread knows at each point. In \<open>AllocCas\<close>: if the top still is what the thread has
  read, the successor it has read is the top's successor.
\<close>

fun pc_ok :: "FreeList \<Rightarrow> fpc \<Rightarrow> bool" where
  "pc_ok fl (FreeMarks d) = flagged fl d False"
| "pc_ok fl (FreeFlag d) = flagged fl d False"
| "pc_ok fl (FreeTop d) = flagged fl d True"
| "pc_ok fl (FreeID d p) = (flagged fl d True \<and> allocated fl p)"
| "pc_ok fl (FreeLink d p n) = (flagged fl d True \<and> allocated fl p)"
| "pc_ok fl (FreeCas d p n) = (flagged fl d True \<and> allocated fl p \<and> map_option m_next (heap fl d) = Some p)"
| "pc_ok fl (AllocID sz p) = allocated fl p"
| "pc_ok fl (AllocTest sz p n) = (allocated fl p \<and> n \<le> m_checkID fl)"
| "pc_ok fl (AllocCas sz a n nxt) = (heap fl a \<noteq> None \<and> n \<le> m_checkID fl \<and>
     (n = m_checkID fl \<and> m_topPtr fl = Some a \<longrightarrow> map_option m_next (heap fl a) = Some nxt))"
| "pc_ok fl (AllocUnflag a) = flagged fl a True"
| "pc_ok fl (AllocConstruct a) = flagged fl a False"
| "pc_ok fl (Returned a) = flagged fl a False"
| "pc_ok fl (Thrown e) = (e = NullDeref)"
| "pc_ok fl _ = True"

definition marks_ok :: "FreeList \<Rightarrow> bool" where
  "marks_ok fl \<longleftrightarrow> (\<forall>a m. heap fl a = Some m \<longrightarrow>
     m_markID (m_frontMark m) = m_freeListUID fl \<and> m_markValue (m_frontMark m) = MARK_FRONT)"

text \<open>
  Every block obtained from the heap is in exactly one place: on the stack, held by a client, or
  in the hands of a thread.
\<close>

definition placed :: "fsys \<Rightarrow> nat list \<Rightarrow> bool" where
  "placed s xs \<longleftrightarrow> (\<forall>a. int (count_list xs a) + of_bool (a \<in> held s) + wsum (hand a) (fpcs s)
     = of_bool (heap (flist s) a \<noteq> None))"

definition fl_inv :: "fsys \<Rightarrow> nat list \<Rightarrow> bool" where
  "fl_inv s xs \<longleftrightarrow> chain (nexts (heap (flist s))) (m_topPtr (flist s)) xs \<and> placed s xs \<and>
     (\<forall>a \<in> set xs. flagged (flist s) a True) \<and> (\<forall>a \<in> held s. flagged (flist s) a False) \<and>
     (\<forall>t < length (fpcs s). pc_ok (flist s) (fpcs s ! t)) \<and> marks_ok (flist s)"

lemma fl_invD:
  assumes "fl_inv s xs"
  shows "chain (nexts (heap (flist s))) (m_topPtr (flist s)) xs" "placed s xs"
    "a \<in> set xs \<Longrightarrow> flagged (flist s) a True" "a \<in> held s \<Longrightarrow> flagged (flist s) a False"
    "t < length (fpcs s) \<Longrightarrow> pc_ok (flist s) (fpcs s ! t)" "marks_ok (flist s)"
  using assms by (auto simp: fl_inv_def)

lemma hand_nonneg [simp]: "0 \<le> hand a pc"
  by (simp add: hand_def)

lemma placedD:
  assumes "placed s xs" "t < length (fpcs s)" "poss (fpcs s ! t) = Some d"
  shows "d \<notin> set xs" "d \<notin> held s" "heap (flist s) d \<noteq> None"
    and "u < length (fpcs s) \<Longrightarrow> u \<noteq> t \<Longrightarrow> poss (fpcs s ! u) \<noteq> Some d"
proof -
  have tot: "int (count_list xs d) + of_bool (d \<in> held s) + wsum (hand d) (fpcs s)
      = of_bool (heap (flist s) d \<noteq> None)" using assms(1) by (simp add: placed_def)
  have one: "hand d (fpcs s ! t) = 1" using assms(3) by (simp add: hand_def)
  then have ge: "1 \<le> wsum (hand d) (fpcs s)" using wsum_ge [of "hand d" t "fpcs s"] assms(2) by simp
  with tot have "count_list xs d = 0" and r: "d \<notin> held s" "heap (flist s) d \<noteq> None" "wsum (hand d) (fpcs s) \<le> 1"
    by (auto simp: of_bool_def split: if_splits)
  then show "d \<notin> set xs" "d \<notin> held s" "heap (flist s) d \<noteq> None" by (auto simp: count_list_0_iff)
  show "poss (fpcs s ! u) \<noteq> Some d" if "u < length (fpcs s)" "u \<noteq> t"
  proof
    assume "poss (fpcs s ! u) = Some d"
    then have "hand d (fpcs s ! u) = 1" by (simp add: hand_def)
    with wsum_ge_two [of "hand d" t "fpcs s" u] assms(2) that one r(3) show False by simp
  qed
qed

text \<open>What a thread knows survives steps of others that leave its block and the top alone.\<close>

lemma pc_ok_frame:
  assumes "pc_ok fl pc"
    and "\<And>a. poss pc = Some a \<Longrightarrow> heap fl' a = heap fl a"
    and "\<And>a. heap fl a \<noteq> None \<Longrightarrow> heap fl' a \<noteq> None"
    and "m_checkID fl' = m_checkID fl \<and> m_topPtr fl' = m_topPtr fl \<and>
        (\<forall>a. m_topPtr fl = Some a \<longrightarrow> map_option m_next (heap fl' a) = map_option m_next (heap fl a))
      \<or> m_checkID fl < m_checkID fl'"
  shows "pc_ok fl' pc"
proof (cases pc)
  case (AllocCas sz a n nxt)
  have "map_option m_next (heap fl' a) = Some nxt" if "n = m_checkID fl'" "m_topPtr fl' = Some a"
    using assms(1,4) AllocCas that by auto
  moreover have "heap fl' a \<noteq> None" "n \<le> m_checkID fl'" using assms(1,3,4) AllocCas by auto
  ultimately show ?thesis using AllocCas by simp
qed (use assms in \<open>auto simp: flagged_def allocated_def split: option.splits\<close>)

text \<open>Steps that only read, steps on the thread's own block, and the rest.\<close>

lemma placed_same_hand:
  assumes "placed s xs" "t < length (fpcs s)" "poss pc = poss (fpcs s ! t)"
    "\<And>a. heap fl a = None \<longleftrightarrow> heap (flist s) a = None"
  shows "placed (s\<lparr>flist := fl, fpcs := (fpcs s)[t := pc]\<rparr>) xs"
  using assms by (simp add: placed_def wsum_update hand_def)

lemma fl_inv_read:
  assumes inv: "fl_inv s xs" and t: "t < length (fpcs s)"
    and pc: "poss pc = poss (fpcs s ! t)" "pc_ok (flist s) pc"
  shows "fl_inv (s\<lparr>flist := flist s, fpcs := (fpcs s)[t := pc]\<rparr>) xs"
  using inv pc(2) placed_same_hand [OF _ t pc(1), of xs "flist s"]
  by (auto simp: fl_inv_def intro: nth_update_all [where P = "pc_ok (flist s)"])

lemma fl_inv_own:
  assumes inv: "fl_inv s xs" and t: "t < length (fpcs s)" "poss (fpcs s ! t) = Some d"
    and m: "heap (flist s) d = Some m" "m_markID (m_frontMark m') = m_markID (m_frontMark m)"
      "m_markValue (m_frontMark m') = m_markValue (m_frontMark m)"
    and pc: "poss pc = Some d" "pc_ok (put_block d m' (flist s)) pc"
  shows "fl_inv (s\<lparr>flist := put_block d m' (flist s), fpcs := (fpcs s)[t := pc]\<rparr>) xs"
proof -
  let ?fl = "flist s" and ?fl' = "put_block d m' (flist s)"
  have pl: "placed s xs" using inv by (simp add: fl_inv_def)
  note own = placedD [OF pl t]
  have same: "heap ?fl' a = heap ?fl a" if "a \<noteq> d" for a using that by (simp add: put_block_def)
  have ch: "chain (nexts (heap ?fl')) (m_topPtr ?fl) xs"
    using inv own(1) by (simp add: fl_inv_def put_block_def chain_update)
  have top: "a \<noteq> d" if "m_topPtr ?fl = Some a" for a
    using that inv own(1) chain_Some [of "nexts (heap ?fl)" a xs] by (auto simp: fl_inv_def)
  have others: "pc_ok ?fl' (fpcs s ! u)" if "u < length (fpcs s)" "u \<noteq> t" for u
  proof (rule pc_ok_frame)
    show "pc_ok ?fl (fpcs s ! u)" using inv that by (simp add: fl_inv_def)
  qed (use own(4) [OF that] top same in \<open>auto simp: put_block_def\<close>)
  have "flagged ?fl' a v = flagged ?fl a v" if "a \<in> set xs \<or> a \<in> held s" for a v
    using that own(1,2) by (auto simp: flagged_def put_block_def)
  moreover have "placed (s\<lparr>flist := ?fl', fpcs := (fpcs s)[t := pc]\<rparr>) xs"
    using pl t pc(1) m(1) by (intro placed_same_hand) (auto simp: put_block_def)
  moreover have "marks_ok ?fl'" using inv m by (auto simp: fl_inv_def marks_ok_def put_block_def)
  moreover have "pc_ok ?fl' ((fpcs s)[t := pc] ! u)" if "u < length (fpcs s)" for u
    using that pc(2) others [OF that] by (rule nth_update_all [where P = "pc_ok ?fl'"])
  moreover have "m_topPtr ?fl' = m_topPtr ?fl" by (simp add: put_block_def)
  ultimately show ?thesis using ch fl_invD [OF inv] by (simp add: fl_inv_def)
qed

text \<open>A successful compare-and-swap: the counter moves on, so what others have read is stale.\<close>

lemma fl_inv_cas:
  assumes inv: "fl_inv s xs" and t: "t < length (fpcs s)"
    and top: "chain (nexts (heap (flist s))) p' ys" "\<forall>a \<in> set ys. flagged (flist s) a True"
    and pc: "pc_ok (flist s\<lparr>m_topPtr := p', m_checkID := m_checkID (flist s) + 1\<rparr>) pc"
    and moved: "\<And>a. int (count_list ys a) + hand a pc = int (count_list xs a) + hand a (fpcs s ! t)"
  shows "fl_inv (s\<lparr>flist := flist s\<lparr>m_topPtr := p', m_checkID := m_checkID (flist s) + 1\<rparr>,
    fpcs := (fpcs s)[t := pc]\<rparr>) ys"
proof -
  let ?fl' = "flist s\<lparr>m_topPtr := p', m_checkID := m_checkID (flist s) + 1\<rparr>"
  have others: "pc_ok ?fl' (fpcs s ! u)" if "u < length (fpcs s)" for u
    by (rule pc_ok_frame [OF fl_invD(5) [OF inv that]]) simp_all
  have "placed (s\<lparr>flist := ?fl', fpcs := (fpcs s)[t := pc]\<rparr>) ys"
    unfolding placed_def
  proof (intro allI)
    fix a
    have "int (count_list xs a) + of_bool (a \<in> held s) + wsum (hand a) (fpcs s) = of_bool (heap (flist s) a \<noteq> None)"
      using inv by (simp add: fl_inv_def placed_def)
    with moved [of a] t show "int (count_list ys a) + of_bool (a \<in> held (s\<lparr>flist := ?fl', fpcs := (fpcs s)[t := pc]\<rparr>)) +
        wsum (hand a) (fpcs (s\<lparr>flist := ?fl', fpcs := (fpcs s)[t := pc]\<rparr>))
        = of_bool (heap (flist (s\<lparr>flist := ?fl', fpcs := (fpcs s)[t := pc]\<rparr>)) a \<noteq> None)"
      by (simp add: wsum_update)
  qed
  moreover have "pc_ok ?fl' ((fpcs s)[t := pc] ! u)" if "u < length (fpcs s)" for u
    using that pc others [OF that] by (rule nth_update_all [where P = "pc_ok ?fl'"])
  moreover have "flagged ?fl' a v = flagged (flist s) a v" "marks_ok ?fl' = marks_ok (flist s)" for a v
    by (simp_all add: flagged_def marks_ok_def)
  ultimately show ?thesis using top fl_invD [OF inv] by (simp add: fl_inv_def)
qed

lemma fl_inv_malloc:
  assumes inv: "fl_inv s xs" and t: "t < length (fpcs s)" "poss (fpcs s ! t) = None"
    and a: "heap (flist s) a = None"
  shows "fl_inv (s\<lparr>flist := AllocateMemoryFromHeap a sz (flist s), fpcs := (fpcs s)[t := Returned a]\<rparr>) xs"
proof -
  let ?fl = "flist s" and ?fl' = "AllocateMemoryFromHeap a sz (flist s)"
  note i = fl_invD [OF inv]
  have xs: "a \<notin> set xs" using chain_member [OF i(1), of a] a by auto
  have ah: "a \<notin> held s" using i(4) [of a] a by (auto simp: flagged_def)
  have same: "heap ?fl' b = heap ?fl b" if "b \<noteq> a" for b using that by (simp add: AllocateMemoryFromHeap_def)
  have z: "int (count_list xs a) + of_bool (a \<in> held s) + wsum (hand a) (fpcs s) = 0"
    using i(2) a by (simp add: placed_def)
  have own: "poss (fpcs s ! u) \<noteq> Some a" if "u < length (fpcs s)" for u
    using placedD(3) [OF i(2) that, of a] a by auto
  have "pc_ok ?fl' (fpcs s ! u)" if u: "u < length (fpcs s)" for u
    by (rule pc_ok_frame [OF i(5) [OF u]]) (use own [OF u] a i(1) in
      \<open>auto simp: AllocateMemoryFromHeap_def dest!: chain_Some\<close>)
  then have "pc_ok ?fl' ((fpcs s)[t := Returned a] ! u)" if "u < length (fpcs s)" for u
    using that by (rule_tac nth_update_all [where P = "pc_ok ?fl'"])
      (auto simp: flagged_def AllocateMemoryFromHeap_def)
  moreover have "placed (s\<lparr>flist := ?fl', fpcs := (fpcs s)[t := Returned a]\<rparr>) xs"
    using i(2) t a z ah by (auto simp: placed_def wsum_update hand_def AllocateMemoryFromHeap_def)
  moreover have "chain (nexts (heap ?fl')) (m_topPtr ?fl') xs" "marks_ok ?fl'"
    using i(1,6) xs by (auto simp: AllocateMemoryFromHeap_def chain_update marks_ok_def)
  moreover have "flagged ?fl' b v = flagged ?fl b v" if "b \<in> set xs \<or> b \<in> held s" for b v
  proof -
    have "b \<noteq> a" using that xs ah by auto
    then show ?thesis by (simp add: flagged_def same)
  qed
  ultimately show ?thesis using i by (simp add: fl_inv_def)
qed

lemma top_allocated: "fl_inv s xs \<Longrightarrow> allocated (flist s) (m_topPtr (flist s))"
  by (auto simp: fl_inv_def allocated_def split: option.split dest!: chain_Some)

lemma fl_inv_FreeCas:
  assumes inv: "fl_inv s xs" and t: "t < length (fpcs s)" "fpcs s ! t = FreeCas d p n"
    and step: "fl_step malloc (FreeCas d p n) (flist s) = (pc, fl)"
  shows "\<exists>ys. fl_inv (s\<lparr>flist := fl, fpcs := (fpcs s)[t := pc]\<rparr>) ys"
proof -
  let ?fl = "flist s"
  note i = fl_invD [OF inv] and ok = fl_invD(5) [OF inv t(1), unfolded t(2)]
  from ok obtain m where m: "heap ?fl d = Some m" "m_freeFlag (m_frontMark m)" "m_next m = p"
    by (auto simp: flagged_def)
  show ?thesis
  proof (cases "m_topPtr ?fl = p \<and> m_checkID ?fl = n")
    case True
    with m i(1) have "chain (nexts (heap ?fl)) (Some d) (d # xs)" by (simp add: nexts_def)
    moreover have "\<forall>a \<in> set (d # xs). flagged ?fl a True" using i(3) m by (auto simp: flagged_def)
    ultimately have "fl_inv (s\<lparr>flist := ?fl\<lparr>m_topPtr := Some d, m_checkID := m_checkID ?fl + 1\<rparr>,
        fpcs := (fpcs s)[t := Freed]\<rparr>) (d # xs)"
      using t by (intro fl_inv_cas [OF inv t(1)]) (auto simp: hand_def)
    with True step show ?thesis by (auto simp: cas_top_def)
  next
    case False
    then show ?thesis
      using ok top_allocated [OF inv] t step fl_inv_read [OF inv t(1), of "FreeLink d (m_topPtr ?fl) (m_checkID ?fl)"]
      by (auto simp: cas_top_def split: if_splits)
  qed
qed

lemma fl_inv_AllocCas:
  assumes inv: "fl_inv s xs" and t: "t < length (fpcs s)" "fpcs s ! t = AllocCas sz a n nxt"
    and step: "fl_step malloc (AllocCas sz a n nxt) (flist s) = (pc, fl)"
  shows "\<exists>ys. fl_inv (s\<lparr>flist := fl, fpcs := (fpcs s)[t := pc]\<rparr>) ys"
proof -
  let ?fl = "flist s"
  note i = fl_invD [OF inv] and ok = fl_invD(5) [OF inv t(1), unfolded t(2)]
  show ?thesis
  proof (cases "m_topPtr ?fl = Some a \<and> m_checkID ?fl = n")
    case True
    then obtain m ys where m: "heap ?fl a = Some m" "xs = a # ys" "chain (nexts (heap ?fl)) (m_next m) ys"
      using i(1) chain_Some [of "nexts (heap ?fl)" a xs] by auto
    have "m_next m = nxt" using ok True m(1) by auto
    with m i(3) [of a] i(3) t have "fl_inv (s\<lparr>flist := ?fl\<lparr>m_topPtr := nxt, m_checkID := m_checkID ?fl + 1\<rparr>,
        fpcs := (fpcs s)[t := AllocUnflag a]\<rparr>) ys"
      by (intro fl_inv_cas [OF inv t(1)]) (auto simp: hand_def flagged_def)
    with True step show ?thesis by (auto simp: cas_top_def)
  next
    case False
    then show ?thesis
      using top_allocated [OF inv] t step fl_inv_read [OF inv t(1), of "AllocTest sz (m_topPtr ?fl) (m_checkID ?fl)"]
      by (auto simp: cas_top_def split: if_splits)
  qed
qed

lemma fl_inv_inside:
  assumes inv: "fl_inv s xs" and t: "t < length (fpcs s)" "busy (fpcs s ! t)"
    and malloc: "\<And>a. malloc = Some a \<Longrightarrow> heap (flist s) a = None"
    and step: "fl_step malloc (fpcs s ! t) (flist s) = (pc, fl)"
  shows "\<exists>ys. fl_inv (s\<lparr>flist := fl, fpcs := (fpcs s)[t := pc]\<rparr>) ys"
proof -
  let ?fl = "flist s"
  note ok = fl_invD(5) [OF inv t(1)] and topa = top_allocated [OF inv]
  note read = fl_inv_read [OF inv t(1)] and own = fl_inv_own [OF inv t(1)]
  show ?thesis
  proof (cases "fpcs s ! t")
    case (FreeMarks d)
    with ok fl_invD(6) [OF inv] step read [of "FreeFlag d"] show ?thesis
      by (intro exI [of _ xs]) (auto simp: flagged_def marks_ok_def)
  next
    case (FreeFlag d)
    with ok obtain m where "heap ?fl d = Some m" "\<not> m_freeFlag (m_frontMark m)" by (auto simp: flagged_def)
    with FreeFlag step own [of d m "set_flag True m" "FreeTop d"] show ?thesis
      by (auto simp: flagged_def set_flag_def put_block_def)
  next
    case (FreeTop d)
    with ok topa step read [of "FreeID d (m_topPtr ?fl)"] show ?thesis by auto
  next
    case (FreeID d p)
    with ok step read [of "FreeLink d p (m_checkID ?fl)"] show ?thesis by auto
  next
    case (FreeLink d p n)
    with ok obtain m where m: "heap ?fl d = Some m" "m_freeFlag (m_frontMark m)" by (auto simp: flagged_def)
    have "pc_ok (put_block d (m\<lparr>m_next := p\<rparr>) ?fl) (FreeCas d p n)"
      using ok FreeLink m by (auto simp: flagged_def put_block_def allocated_def split: option.splits)
    with FreeLink step m own [of d m "m\<lparr>m_next := p\<rparr>" "FreeCas d p n"] show ?thesis by auto
  next
    case (FreeCas d p n)
    with step show ?thesis by (intro fl_inv_FreeCas [OF inv t(1)]) simp_all
  next
    case (AllocTop sz)
    with topa step read [of "AllocID sz (m_topPtr ?fl)"] show ?thesis by auto
  next
    case (AllocID sz p)
    with ok step read [of "AllocTest sz p (m_checkID ?fl)"] show ?thesis by auto
  next
    case (AllocTest sz p n)
    with ok step malloc fl_inv_malloc [OF inv t(1)] read [of "Thrown NullDeref"]
      read [of "AllocCas sz (the p) n (m_next (the (heap ?fl (the p))))"]
    show ?thesis by (auto simp: allocated_def split: option.splits)
  next
    case (AllocCas sz a n nxt)
    with step show ?thesis by (intro fl_inv_AllocCas [OF inv t(1)]) simp_all
  next
    case (AllocUnflag a)
    with ok obtain m where "heap ?fl a = Some m" by (auto simp: flagged_def)
    with AllocUnflag step own [of a m "set_flag False m" "AllocConstruct a"] show ?thesis
      by (auto simp: flagged_def set_flag_def put_block_def)
  next
    case (AllocConstruct a)
    with ok obtain m where "heap ?fl a = Some m" "\<not> m_freeFlag (m_frontMark m)" by (auto simp: flagged_def)
    with AllocConstruct step own [of a m "m\<lparr>m_next := None\<rparr>" "Returned a"] show ?thesis
      by (auto simp: flagged_def put_block_def)
  qed (use t(2) in auto)
qed

lemma placed_handover:
  assumes "placed s xs" "t < length (fpcs s)"
    and "\<And>a. of_bool (a \<in> H) + hand a pc = of_bool (a \<in> held s) + hand a (fpcs s ! t)"
  shows "placed (s\<lparr>fpcs := (fpcs s)[t := pc], held := H\<rparr>) xs"
  unfolding placed_def
proof (intro allI)
  fix a
  have "int (count_list xs a) + of_bool (a \<in> held s) + wsum (hand a) (fpcs s) = of_bool (heap (flist s) a \<noteq> None)"
    using assms(1) by (simp add: placed_def)
  with assms(2) assms(3) [of a]
  show "int (count_list xs a) + of_bool (a \<in> held (s\<lparr>fpcs := (fpcs s)[t := pc], held := H\<rparr>)) +
      wsum (hand a) (fpcs (s\<lparr>fpcs := (fpcs s)[t := pc], held := H\<rparr>))
      = of_bool (heap (flist (s\<lparr>fpcs := (fpcs s)[t := pc], held := H\<rparr>)) a \<noteq> None)"
    by (simp add: wsum_update)
qed

lemma fl_inv_step: "fstep s s' \<Longrightarrow> fl_inv s xs \<Longrightarrow> \<exists>ys. fl_inv s' ys"
proof (induction rule: fstep.induct)
  case (call_free t s d)
  note i = fl_invD [OF call_free(4)]
  have "placed (s\<lparr>fpcs := (fpcs s)[t := FreeMarks d], held := held s - {d}\<rparr>) xs"
    using call_free(1-3) by (intro placed_handover [OF i(2)]) (auto simp: hand_def)
  moreover have "pc_ok (flist s) ((fpcs s)[t := FreeMarks d] ! u)" if "u < length (fpcs s)" for u
    using that i(4) [OF call_free(3)] i(5) [OF that]
    by (intro nth_update_all [where P = "pc_ok (flist s)"]) simp_all
  ultimately show ?case using i by (auto simp: fl_inv_def)
next
  case (call_alloc t s sz)
  then show ?case using fl_inv_read [of s xs t "AllocTop sz"] by auto
next
  case (inside t s malloc pc fl)
  then show ?case by (intro fl_inv_inside) auto
next
  case (ret_free t s)
  then show ?case using fl_inv_read [of s xs t Idle] by auto
next
  case (ret_alloc t s a)
  note i = fl_invD [OF ret_alloc(3)]
  have "a \<notin> held s" "flagged (flist s) a False"
    using placedD(2) [OF i(2) ret_alloc(1), of a] i(5) [OF ret_alloc(1)] ret_alloc(2) by auto
  moreover from this(1) have "placed (s\<lparr>fpcs := (fpcs s)[t := Idle], held := insert a (held s)\<rparr>) xs"
    using ret_alloc(1,2) by (intro placed_handover [OF i(2)]) (auto simp: hand_def)
  moreover have "pc_ok (flist s) ((fpcs s)[t := Idle] ! u)" if "u < length (fpcs s)" for u
    using that i(5) [OF that] by (intro nth_update_all [where P = "pc_ok (flist s)"]) simp_all
  ultimately show ?case using i by (auto simp: fl_inv_def)
qed

lemma fl_inv_reach: "freach uid n s \<Longrightarrow> \<exists>xs. fl_inv s xs"
proof (induction rule: freach.induct)
  case start
  show ?case by (rule exI [of _ "[]"])
    (simp add: fl_inv_def placed_def hand_def FreeList_new_def marks_ok_def)
next
  case (step s s')
  then show ?case using fl_inv_step by blast
qed

section \<open>Properties\<close>

text \<open>
  C17. No block is lost and none is in two places, under every interleaving of \<open>Alloc\<close> and \<open>Free\<close>:
  the next pointers from the top form a null-terminated list, and every block ever obtained
  from the heap is either once on that list, or held by a client, or in the hands of exactly
  one thread. In particular the compare-and-swap on pointer and counter rules out the ABA
  problem.
\<close>

theorem every_block_in_one_place:
  assumes "freach uid n s"
  shows "\<exists>xs. chain (nexts (heap (flist s))) (m_topPtr (flist s)) xs \<and>
    (\<forall>a. count_list xs a + of_bool (a \<in> held s) + card {t. t < length (fpcs s) \<and> poss (fpcs s ! t) = Some a}
      = of_bool (heap (flist s) a \<noteq> None))"
proof -
  obtain xs where inv: "fl_inv s xs" using fl_inv_reach [OF assms] by blast
  have "count_list xs a + of_bool (a \<in> held s) + card {t. t < length (fpcs s) \<and> poss (fpcs s ! t) = Some a}
      = of_bool (heap (flist s) a \<noteq> None)" for a
  proof -
    have "wsum (hand a) (fpcs s) = int (card {t. t < length (fpcs s) \<and> poss (fpcs s ! t) = Some a})"
      using wsum_card [of "\<lambda>pc. poss pc = Some a"] by (simp add: hand_def [abs_def])
    moreover have "int (count_list xs a) + of_bool (a \<in> held s) + wsum (hand a) (fpcs s)
        = of_bool (heap (flist s) a \<noteq> None)"
      using fl_invD(2) [OF inv] by (simp add: placed_def)
    ultimately have "int (count_list xs a + of_bool (a \<in> held s) +
        card {t. t < length (fpcs s) \<and> poss (fpcs s ! t) = Some a}) = int (of_bool (heap (flist s) a \<noteq> None))"
      by simp
    then show ?thesis by (simp only: of_nat_eq_iff)
  qed
  with fl_invD(1) [OF inv] show ?thesis by blast
qed

text \<open>
  \<open>Alloc\<close> never hands out a block that is in use: a block about to be returned is held by no
  client, is in no other thread's hands, and its flag says it is not on the list.
\<close>

theorem alloc_returns_exclusive_block:
  assumes r: "freach uid n s" and t: "t < length (fpcs s)" "fpcs s ! t = Returned a"
  shows "a \<notin> held s \<and> {u. u < length (fpcs s) \<and> poss (fpcs s ! u) = Some a} = {t} \<and> flagged (flist s) a False"
proof -
  obtain xs where inv: "fl_inv s xs" using fl_inv_reach [OF r] by blast
  note own = placedD [OF fl_invD(2) [OF inv] t(1), of a]
  have "{u. u < length (fpcs s) \<and> poss (fpcs s ! u) = Some a} = {t}" using own(4) t by auto
  with own(2) t fl_invD(5) [OF inv t(1)] show ?thesis by simp
qed

text \<open>
  C31. A client that returns only blocks it holds, each once, never sees an exception: the only
  way a thread leaves \<open>Alloc\<close> or \<open>Free\<close> abnormally is that the C heap returned null.
\<close>

theorem disciplined_clients_never_throw:
  assumes "freach uid n s" "t < length (fpcs s)" "fpcs s ! t = Thrown e"
  shows "e = NullDeref"
  using fl_inv_reach [OF assms(1)] fl_invD(5) [of s _ t] assms(2,3) by auto

text \<open>
  What a single call of \<open>Free\<close> does, on every branch: a block with another list's identity or
  a damaged mark is refused as underflow, a block already returned is refused as returned
  twice and both leave the list unchanged; otherwise the block is the new top, linked to the
  old one.
\<close>

theorem Free_every_branch:
  assumes "heap fl d = Some m"
  shows "Free d fl =
    (if m_markID (m_frontMark m) \<noteq> m_freeListUID fl \<or> m_markValue (m_frontMark m) \<noteq> MARK_FRONT
     then (Thrown Underflow_Violation, fl)
     else if m_freeFlag (m_frontMark m) then (Thrown Twice_Free, fl)
     else (Freed, fl\<lparr>heap := (heap fl)(d \<mapsto> (set_flag True m)\<lparr>m_next := m_topPtr fl\<rparr>),
             m_topPtr := Some d, m_checkID := m_checkID fl + 1\<rparr>))"
proof -
  have "set_flag True m = m" if "m_freeFlag (m_frontMark m)"
    using that by (cases m; cases "m_frontMark m") (simp add: set_flag_def)
  then show ?thesis using assms
    by (auto simp: Free_def numeral_eq_Suc cas_top_def put_block_def fun_upd_idem)
qed

text \<open>
  \<open>Alloc\<close> after \<open>Free\<close> returns the block just returned, ready for use (flag clear, node
  constructed anew), and restores the top; on an empty list it takes a new block from the heap.
\<close>

theorem Alloc_after_Free:
  assumes "heap fl d = Some m" "m_markID (m_frontMark m) = m_freeListUID fl"
    "m_markValue (m_frontMark m) = MARK_FRONT" "\<not> m_freeFlag (m_frontMark m)"
  shows "case Free d fl of (r1, fl1) \<Rightarrow> case Alloc malloc sz fl1 of (r2, fl2) \<Rightarrow>
    r1 = Freed \<and> r2 = Returned d \<and> m_topPtr fl2 = m_topPtr fl \<and> m_checkID fl2 = m_checkID fl + 2 \<and>
    heap fl2 = (heap fl)(d \<mapsto> m\<lparr>m_next := None\<rparr>)"
proof -
  have "set_flag False ((set_flag True m)\<lparr>m_next := p\<rparr>) = m\<lparr>m_next := p\<rparr>" for p
    using assms(4) by (cases m; cases "m_frontMark m") (simp add: set_flag_def)
  then show ?thesis using assms
    by (simp add: Free_def Alloc_def numeral_eq_Suc cas_top_def put_block_def)
qed

text \<open>Runs of one thread, for the witnesses: its first \<open>Alloc\<close>, with and without memory.\<close>

definition one_thread :: "FreeList \<Rightarrow> fpc \<Rightarrow> fsys" where
  "one_thread fl pc = \<lparr>flist = fl, fpcs = [pc], held = {}\<rparr>"

lemma one_thread_step:
  assumes "freach uid 1 (one_thread fl pc)" "busy pc" "\<And>a. malloc = Some a \<Longrightarrow> heap fl a = None"
    "fl_step malloc pc fl = (pc', fl')" "m_checkID fl' < 2 ^ 63 - 1"
  shows "freach uid 1 (one_thread fl' pc')"
  using freach.step [OF assms(1) fstep.inside [of 0 _ malloc pc' fl']] assms(2-5)
  by (simp add: one_thread_def)

lemma first_alloc_test: "freach 2 1 (one_thread (FreeList_new 2) (AllocTest 0 None 0))"
proof -
  let ?fl = "FreeList_new 2"
  have "freach 2 1 (one_thread ?fl Idle)" using freach.start [of 2 1] by (simp add: one_thread_def)
  from freach.step [OF this fstep.call_alloc [of 0 _ 0]] have "freach 2 1 (one_thread ?fl (AllocTop 0))"
    by (simp add: one_thread_def FreeList_new_def)
  from one_thread_step [OF this, of None "AllocID 0 None" ?fl] have "freach 2 1 (one_thread ?fl (AllocID 0 None))"
    by (simp add: FreeList_new_def)
  from one_thread_step [OF this, of None "AllocTest 0 None 0" ?fl] show ?thesis by (simp add: FreeList_new_def)
qed

lemma first_alloc: "freach 2 1 (one_thread (AllocateMemoryFromHeap 5 0 (FreeList_new 2)) (Returned 5))"
  using one_thread_step [OF first_alloc_test, of "Some 5" "Returned 5" "AllocateMemoryFromHeap 5 0 (FreeList_new 2)"]
  by (simp add: FreeList_new_def AllocateMemoryFromHeap_def)

lemma first_alloc_no_memory: "freach 2 1 (one_thread (FreeList_new 2) (Thrown NullDeref))"
  using one_thread_step [OF first_alloc_test, of None "Thrown NullDeref" "FreeList_new 2"]
  by (simp add: FreeList_new_def)

theorem every_block_in_one_place_witness:
  "\<exists>xs. chain (nexts (heap (AllocateMemoryFromHeap 5 0 (FreeList_new 2)))) None xs \<and>
    count_list xs 5 + card {t :: nat. t < 1 \<and> poss ([Returned 5] ! t) = Some 5} = 1"
proof -
  let ?s = "one_thread (AllocateMemoryFromHeap 5 0 (FreeList_new 2)) (Returned 5)"
  obtain xs where xs: "chain (nexts (heap (flist ?s))) (m_topPtr (flist ?s)) xs"
    "count_list xs 5 + of_bool (5 \<in> held ?s) + card {t. t < length (fpcs ?s) \<and> poss (fpcs ?s ! t) = Some 5}
      = of_bool (heap (flist ?s) 5 \<noteq> None)"
    using every_block_in_one_place [OF first_alloc] by blast
  have f: "flist ?s = AllocateMemoryFromHeap 5 0 (FreeList_new 2)" "fpcs ?s = [Returned 5]" "held ?s = {}"
    "m_topPtr (flist ?s) = None" "heap (flist ?s) 5 \<noteq> None"
    by (simp_all add: one_thread_def AllocateMemoryFromHeap_def FreeList_new_def)
  have "length [Returned 5] = 1" by simp
  with xs f show ?thesis by (intro exI [of _ xs]) (simp only: of_bool_eq empty_iff add_0_right not_False_eq_True simp_thms)
qed

theorem alloc_returns_exclusive_block_witness:
  "5 \<notin> held (one_thread (AllocateMemoryFromHeap 5 0 (FreeList_new 2)) (Returned 5)) \<and>
    flagged (AllocateMemoryFromHeap 5 0 (FreeList_new 2)) 5 False"
  using alloc_returns_exclusive_block [OF first_alloc, of 0 5] by (simp add: one_thread_def)

theorem disciplined_clients_never_throw_witness:
  "fpcs (one_thread (FreeList_new 2) (Thrown NullDeref)) ! 0 = Thrown NullDeref"
  using disciplined_clients_never_throw [OF first_alloc_no_memory, of 0 NullDeref] by (simp add: one_thread_def)

theorem Free_every_branch_witness:
  "fst (Free 5 (AllocateMemoryFromHeap 5 0 (FreeList_new 2))) = Freed \<and>
    fst (Free 5 (AllocateMemoryFromHeap 5 0 (FreeList_new 2)\<lparr>m_freeListUID := 3\<rparr>)) = Thrown Underflow_Violation"
proof -
  let ?m = "\<lparr>m_frontMark = \<lparr>m_markID = 2, m_markValue = MARK_FRONT, m_freeFlag = False, m_size = 0\<rparr>, m_next = None\<rparr>"
  have h: "heap (AllocateMemoryFromHeap 5 0 (FreeList_new 2)) 5 = Some ?m"
    "heap (AllocateMemoryFromHeap 5 0 (FreeList_new 2)\<lparr>m_freeListUID := 3\<rparr>) 5 = Some ?m"
    "m_freeListUID (AllocateMemoryFromHeap 5 0 (FreeList_new 2)) = 2"
    by (simp_all add: AllocateMemoryFromHeap_def FreeList_new_def)
  show ?thesis using Free_every_branch [OF h(1)] Free_every_branch [OF h(2)] h(3) by simp
qed

theorem Alloc_after_Free_witness:
  "case Free 5 (AllocateMemoryFromHeap 5 0 (FreeList_new 2)) of (r1, fl1) \<Rightarrow> case Alloc None 0 fl1 of (r2, fl2) \<Rightarrow>
    r1 = Freed \<and> r2 = Returned 5 \<and> m_topPtr fl2 = None"
  using Alloc_after_Free [of "AllocateMemoryFromHeap 5 0 (FreeList_new 2)" 5 _ None 0]
  by (auto simp: AllocateMemoryFromHeap_def FreeList_new_def split: prod.splits)

end
