(* ===== verification/Lock_Free_Stack.thy ===== *)
theory Lock_Free_Stack
  imports MMO_Prelude
begin

text \<open>
  \<^verbatim>\<open>LockFreeStack<T>\<close> (ServerCore/Memory/LockFreeStack.h). \<open>Pop\<close> first reserves an element by
  decrementing \<^verbatim>\<open>m_count\<close> and then takes one off the top without a null test. The nodes come
  from a \<open>FreeList\<close>: its \<open>Alloc\<close> returns a node nobody uses (\<open>every_block_in_one_place\<close>,
  \<open>alloc_returns_exclusive_block\<close> of \<open>Free_List\<close>), freshly constructed, and \<open>Free\<close> gives it back;
  both are single steps here. Proved for any number of threads: the reservation makes the
  missing null test safe, the steps refine an abstract stack (every push adds its value, every
  pop removes the newest one and returns exactly that), and the count is right when the
  stack is quiet. A \<open>Pop\<close> can fail although the stack holds an element nobody else is after;
  \<open>pop_fails_on_nonempty_stack\<close> is such a run.
\<close>

section \<open>State\<close>

record 'a SNode =
  m_data :: "'a option"
  m_next :: "nat option"

text \<open>
  \<open>nodes\<close>: the nodes the pool has handed out at some time, by address; \<open>used\<close>: those it has
  handed out and not got back. A constructed node has no data (\<open>None\<close>).
\<close>

record 'a stack =
  nodes :: "nat \<Rightarrow> 'a SNode option"
  used :: "nat set"
  m_topPtr :: "nat option"
  m_checkID :: int
  m_count :: int

definition LockFreeStack_new :: "'a stack" where
  "LockFreeStack_new = \<lparr>nodes = (\<lambda>_. None), used = {}, m_topPtr = None, m_checkID = - 1, m_count = 0\<rparr>"

definition GetStackCount :: "'a stack \<Rightarrow> int" where
  "GetStackCount st = m_count st"

section \<open>The operations, one shared access at a time\<close>

definition pool_alloc :: "nat \<Rightarrow> 'a stack \<Rightarrow> 'a stack" where
  "pool_alloc a st = st\<lparr>nodes := (nodes st)(a \<mapsto> \<lparr>m_data = None, m_next = None\<rparr>), used := insert a (used st)\<rparr>"

definition pool_free :: "nat \<Rightarrow> 'a stack \<Rightarrow> 'a stack" where
  "pool_free a st = st\<lparr>used := used st - {a}\<rparr>"

definition put_node :: "nat \<Rightarrow> 'a SNode \<Rightarrow> 'a stack \<Rightarrow> 'a stack" where
  "put_node a nd st = st\<lparr>nodes := (nodes st)(a \<mapsto> nd)\<rparr>"

definition cas_top :: "nat option \<Rightarrow> nat option \<Rightarrow> int \<Rightarrow> 'a stack \<Rightarrow> bool \<times> (nat option \<times> int) \<times> 'a stack" where
  "cas_top p' p n st =
     (if m_topPtr st = p \<and> m_checkID st = n
      then (True, (p, n), st\<lparr>m_topPtr := p', m_checkID := n + 1\<rparr>)
      else (False, (m_topPtr st, m_checkID st), st))"

datatype 'a spc =
    Idle
  | PushAlloc 'a
  | PushFill nat 'a
  | PushTop nat
  | PushID nat "nat option"
  | PushLink nat "nat option" int
  | PushCas nat "nat option" int
  | PushCount
  | PushDone
  | PopReserve
  | PopUndo
  | PopFailed
  | PopTop
  | PopID "nat option"
  | PopNext "nat option" int
  | PopCas nat int "nat option"
  | PopData nat
  | PopFree nat "'a option"
  | PopDone "'a option"
  | Fault error

text \<open>\<open>malloc\<close> is the node the pool hands out at this moment.\<close>

fun ss_step :: "nat \<Rightarrow> 'a spc \<Rightarrow> 'a stack \<Rightarrow> 'a spc \<times> 'a stack" where
  "ss_step malloc (PushAlloc x) st = (PushFill malloc x, pool_alloc malloc st)"
| "ss_step malloc (PushFill a x) st = (PushTop a, put_node a \<lparr>m_data = Some x, m_next = None\<rparr> st)"
| "ss_step malloc (PushTop a) st = (PushID a (m_topPtr st), st)"
| "ss_step malloc (PushID a p) st = (PushLink a p (m_checkID st), st)"
| "ss_step malloc (PushLink a p n) st =
     (case nodes st a of
        None \<Rightarrow> (Fault OutOfBounds, st)
      | Some nd \<Rightarrow> (PushCas a p n, put_node a (nd\<lparr>m_next := p\<rparr>) st))"
| "ss_step malloc (PushCas a p n) st =
     (let (ok, (p', n'), st') = cas_top (Some a) p n st
      in if ok then (PushCount, st') else (PushLink a p' n', st'))"
| "ss_step malloc PushCount st = (PushDone, st\<lparr>m_count := to_int32 (m_count st + 1)\<rparr>)"
| "ss_step malloc PopReserve st =
     (let c = to_int32 (m_count st - 1)
      in (if c < 0 then PopUndo else PopTop, st\<lparr>m_count := c\<rparr>))"
| "ss_step malloc PopUndo st = (PopFailed, st\<lparr>m_count := to_int32 (m_count st + 1)\<rparr>)"
| "ss_step malloc PopTop st = (PopID (m_topPtr st), st)"
| "ss_step malloc (PopID p) st = (PopNext p (m_checkID st), st)"
| "ss_step malloc (PopNext p n) st =
     (case p of
        None \<Rightarrow> (Fault NullDeref, st)
      | Some a \<Rightarrow>
          (case nodes st a of
             None \<Rightarrow> (Fault OutOfBounds, st)
           | Some nd \<Rightarrow> (PopCas a n (m_next nd), st)))"
| "ss_step malloc (PopCas a n nxt) st =
     (let (ok, (p', n'), st') = cas_top nxt (Some a) n st
      in if ok then (PopData a, st') else (PopNext p' n', st'))"
| "ss_step malloc (PopData a) st =
     (case nodes st a of
        None \<Rightarrow> (Fault OutOfBounds, st)
      | Some nd \<Rightarrow> (PopFree a (m_data nd), st))"
| "ss_step malloc (PopFree a x) st = (PopDone x, pool_free a st)"
| "ss_step malloc pc st = (pc, st)"

section \<open>Interleavings\<close>

record 'a ssys =
  stk :: "'a stack"
  spcs :: "'a spc list"

fun busy :: "'a spc \<Rightarrow> bool" where
  "busy Idle = False"
| "busy PushDone = False"
| "busy PopFailed = False"
| "busy (PopDone _) = False"
| "busy (Fault _) = False"
| "busy _ = True"

fun returned :: "'a spc \<Rightarrow> bool" where
  "returned PushDone = True"
| "returned PopFailed = True"
| "returned (PopDone _) = True"
| "returned _ = False"

inductive sstep :: "'a ssys \<Rightarrow> 'a ssys \<Rightarrow> bool" where
  call_push: "t < length (spcs s) \<Longrightarrow> spcs s ! t = Idle \<Longrightarrow> sstep s (s\<lparr>spcs := (spcs s)[t := PushAlloc x]\<rparr>)"
| call_pop: "t < length (spcs s) \<Longrightarrow> spcs s ! t = Idle \<Longrightarrow> sstep s (s\<lparr>spcs := (spcs s)[t := PopReserve]\<rparr>)"
| inside: "t < length (spcs s) \<Longrightarrow> busy (spcs s ! t) \<Longrightarrow> malloc \<notin> used (stk s) \<Longrightarrow>
    ss_step malloc (spcs s ! t) (stk s) = (pc, st) \<Longrightarrow> sstep s (s\<lparr>stk := st, spcs := (spcs s)[t := pc]\<rparr>)"
| ret: "t < length (spcs s) \<Longrightarrow> returned (spcs s ! t) \<Longrightarrow> sstep s (s\<lparr>spcs := (spcs s)[t := Idle]\<rparr>)"

text \<open>
  Reachable states of \<open>n\<close> threads; the runs considered are those in which the counter of the
  top (64 bits) and the element count (32 bits) stay inside their range.
\<close>

definition in_range :: "'a ssys \<Rightarrow> bool" where
  "in_range s \<longleftrightarrow> m_checkID (stk s) < 2 ^ 63 - 1 \<and> - (2 ^ 31) < m_count (stk s) \<and> m_count (stk s) < 2 ^ 31 - 1"

inductive sreach :: "nat \<Rightarrow> 'a ssys \<Rightarrow> bool" for n where
  start: "sreach n \<lparr>stk = LockFreeStack_new, spcs = replicate n Idle\<rparr>"
| step: "sreach n s \<Longrightarrow> sstep s s' \<Longrightarrow> in_range s' \<Longrightarrow> sreach n s'"

section \<open>The invariant\<close>

definition snexts :: "'a stack \<Rightarrow> nat \<Rightarrow> nat option option" where
  "snexts st a = map_option m_next (nodes st a)"

fun sposs :: "'a spc \<Rightarrow> nat option" where
  "sposs (PushFill a _) = Some a"
| "sposs (PushTop a) = Some a"
| "sposs (PushID a _) = Some a"
| "sposs (PushLink a _ _) = Some a"
| "sposs (PushCas a _ _) = Some a"
| "sposs (PopData a) = Some a"
| "sposs (PopFree a _) = Some a"
| "sposs _ = None"

definition shand :: "nat \<Rightarrow> 'a spc \<Rightarrow> int" where
  "shand a pc = of_bool (sposs pc = Some a)"

text \<open>Threads that pushed but have not counted, that undo a decrement, that hold a reservation.\<close>

definition uncounted :: "'a spc \<Rightarrow> int" where
  "uncounted pc = of_bool (pc = PushCount)"

definition undoing :: "'a spc \<Rightarrow> int" where
  "undoing pc = of_bool (pc = PopUndo)"

fun reserved :: "'a spc \<Rightarrow> int" where
  "reserved PopTop = 1"
| "reserved (PopID _) = 1"
| "reserved (PopNext _ _) = 1"
| "reserved (PopCas _ _ _) = 1"
| "reserved _ = 0"

definition known :: "'a stack \<Rightarrow> nat option \<Rightarrow> bool" where
  "known st p \<longleftrightarrow> (\<exists>a nd. p = Some a \<and> nodes st a = Some nd)"

definition filled :: "'a stack \<Rightarrow> nat \<Rightarrow> bool" where
  "filled st a \<longleftrightarrow> (\<exists>nd. nodes st a = Some nd \<and> m_data nd \<noteq> None)"

fun spc_ok :: "'a stack \<Rightarrow> 'a spc \<Rightarrow> bool" where
  "spc_ok st (PushFill a x) = (nodes st a \<noteq> None)"
| "spc_ok st (PushTop a) = filled st a"
| "spc_ok st (PushID a p) = filled st a"
| "spc_ok st (PushLink a p n) = filled st a"
| "spc_ok st (PushCas a p n) = (filled st a \<and> snexts st a = Some p)"
| "spc_ok st (PopID p) = known st p"
| "spc_ok st (PopNext p n) = (known st p \<and> n \<le> m_checkID st)"
| "spc_ok st (PopCas a n nxt) = (nodes st a \<noteq> None \<and> n \<le> m_checkID st \<and>
     (n = m_checkID st \<and> m_topPtr st = Some a \<longrightarrow> snexts st a = Some nxt))"
| "spc_ok st (PopData a) = filled st a"
| "spc_ok st (PopFree a x) = (x \<noteq> None)"
| "spc_ok st (PopDone x) = (x \<noteq> None)"
| "spc_ok st (Fault e) = False"
| "spc_ok st _ = True"

definition splaced :: "'a ssys \<Rightarrow> nat list \<Rightarrow> bool" where
  "splaced s xs \<longleftrightarrow> (\<forall>a. int (count_list xs a) + wsum (shand a) (spcs s) = of_bool (a \<in> used (stk s)))"

definition count_ok :: "'a ssys \<Rightarrow> nat list \<Rightarrow> bool" where
  "count_ok s xs \<longleftrightarrow>
     int (length xs) = m_count (stk s) + wsum uncounted (spcs s) + wsum undoing (spcs s) + wsum reserved (spcs s) \<and>
     0 \<le> m_count (stk s) + wsum undoing (spcs s)"

definition stack_inv :: "'a ssys \<Rightarrow> nat list \<Rightarrow> bool" where
  "stack_inv s xs \<longleftrightarrow> chain (snexts (stk s)) (m_topPtr (stk s)) xs \<and> splaced s xs \<and> count_ok s xs \<and>
     (\<forall>a \<in> set xs. filled (stk s) a) \<and> (\<forall>t < length (spcs s). spc_ok (stk s) (spcs s ! t)) \<and> in_range s"

lemma stack_invD:
  assumes "stack_inv s xs"
  shows "chain (snexts (stk s)) (m_topPtr (stk s)) xs" "splaced s xs" "count_ok s xs"
    "a \<in> set xs \<Longrightarrow> filled (stk s) a" "t < length (spcs s) \<Longrightarrow> spc_ok (stk s) (spcs s ! t)" "in_range s"
  using assms by (auto simp: stack_inv_def)

lemma sweights_nonneg [simp]: "0 \<le> shand a pc" "0 \<le> uncounted pc" "0 \<le> undoing pc" "0 \<le> reserved pc"
  by (simp_all add: shand_def uncounted_def undoing_def) (cases pc; simp)

lemma snexts_put [simp]: "snexts (put_node a nd st) = (snexts st)(a := Some (m_next nd))"
  by (auto simp: snexts_def put_node_def)

lemma put_node_frame [simp]:
  "m_topPtr (put_node a nd st) = m_topPtr st" "m_checkID (put_node a nd st) = m_checkID st"
  "m_count (put_node a nd st) = m_count st" "used (put_node a nd st) = used st"
  by (simp_all add: put_node_def)

lemma snexts_count [simp]: "snexts (st\<lparr>m_count := c\<rparr>) = snexts st"
  by (auto simp: snexts_def)

lemma snexts_eq_Some [simp]: "snexts st a = Some q \<longleftrightarrow> (\<exists>nd. nodes st a = Some nd \<and> q = m_next nd)"
  by (auto simp: snexts_def)

lemma snexts_eq_None [simp]: "snexts st a = None \<longleftrightarrow> nodes st a = None"
  by (simp add: snexts_def)

lemma splacedD:
  assumes "splaced s xs" "t < length (spcs s)" "sposs (spcs s ! t) = Some d"
  shows "d \<notin> set xs" "d \<in> used (stk s)"
    and "u < length (spcs s) \<Longrightarrow> u \<noteq> t \<Longrightarrow> sposs (spcs s ! u) \<noteq> Some d"
proof -
  have tot: "int (count_list xs d) + wsum (shand d) (spcs s) = of_bool (d \<in> used (stk s))"
    using assms(1) by (simp add: splaced_def)
  have one: "shand d (spcs s ! t) = 1" using assms(3) by (simp add: shand_def)
  then have "1 \<le> wsum (shand d) (spcs s)" using wsum_ge [of "shand d" t "spcs s"] assms(2) by simp
  with tot have "count_list xs d = 0" and r: "d \<in> used (stk s)" "wsum (shand d) (spcs s) \<le> 1"
    by (auto simp: of_bool_def split: if_splits)
  then show "d \<notin> set xs" "d \<in> used (stk s)" by (auto simp: count_list_0_iff)
  show "sposs (spcs s ! u) \<noteq> Some d" if "u < length (spcs s)" "u \<noteq> t"
  proof
    assume "sposs (spcs s ! u) = Some d"
    then have "shand d (spcs s ! u) = 1" by (simp add: shand_def)
    with wsum_ge_two [of "shand d" t "spcs s" u] assms(2) that one r(2) show False by simp
  qed
qed

text \<open>A thread that holds a reservation finds the stack non-empty.\<close>

lemma reserved_nonempty:
  assumes "stack_inv s xs" "t < length (spcs s)" "reserved (spcs s ! t) = 1"
  shows "xs \<noteq> []" "known (stk s) (m_topPtr (stk s))"
proof -
  have "1 \<le> wsum reserved (spcs s)" using wsum_ge [of reserved t "spcs s"] assms(2,3) by simp
  moreover have "0 \<le> wsum uncounted (spcs s)" by (simp add: wsum_nonneg)
  ultimately have "0 < int (length xs)" using stack_invD(3) [OF assms(1)] by (auto simp: count_ok_def)
  then show xs: "xs \<noteq> []" by auto
  then obtain a ys where "xs = a # ys" by (cases xs) auto
  with stack_invD(1) [OF assms(1)] show "known (stk s) (m_topPtr (stk s))"
    by (auto simp: known_def split: option.splits)
qed

lemma spc_ok_frame:
  assumes "spc_ok st pc"
    and "\<And>a. sposs pc = Some a \<Longrightarrow> nodes st' a = nodes st a"
    and "\<And>a. nodes st a \<noteq> None \<Longrightarrow> nodes st' a \<noteq> None"
    and "m_checkID st' = m_checkID st \<and> m_topPtr st' = m_topPtr st \<and>
        (\<forall>a. m_topPtr st = Some a \<longrightarrow> snexts st' a = snexts st a)
      \<or> m_checkID st < m_checkID st'"
  shows "spc_ok st' pc"
proof (cases pc)
  case (PopCas a n nxt)
  have "snexts st' a = Some nxt" if "n = m_checkID st'" "m_topPtr st' = Some a"
    using assms(1,4) PopCas that by auto
  moreover have "nodes st' a \<noteq> None" "n \<le> m_checkID st'" using assms(1,3,4) PopCas by auto
  ultimately show ?thesis using PopCas by simp
next
  case (PopID p)
  then show ?thesis using assms(1,3) by (fastforce simp: known_def)
next
  case (PopNext p n)
  then have "\<exists>a. p = Some a \<and> nodes st' a \<noteq> None" "n \<le> m_checkID st'"
    using assms(1,3,4) by (auto simp: known_def)
  with PopNext show ?thesis by (auto simp: known_def)
qed (use assms in \<open>auto simp: filled_def\<close>)

text \<open>What a step of thread \<open>t\<close> has to establish.\<close>

lemma stack_inv_move:
  assumes inv: "stack_inv s xs" and t: "t < length (spcs s)"
    and ch: "chain (snexts st) (m_topPtr st) ys" and fill: "\<And>a. a \<in> set ys \<Longrightarrow> filled st a"
    and pl: "\<And>a. int (count_list ys a) + shand a pc - of_bool (a \<in> used st)
      = int (count_list xs a) + shand a (spcs s ! t) - of_bool (a \<in> used (stk s))"
    and cnt: "int (length ys) - m_count st - uncounted pc - undoing pc - reserved pc
      = int (length xs) - m_count (stk s) - uncounted (spcs s ! t) - undoing (spcs s ! t) - reserved (spcs s ! t)"
    and low: "0 \<le> m_count st \<or> m_count (stk s) + undoing (spcs s ! t) \<le> m_count st + undoing pc"
    and pc: "spc_ok st pc" and others: "\<And>u. u < length (spcs s) \<Longrightarrow> u \<noteq> t \<Longrightarrow> spc_ok st (spcs s ! u)"
    and rng: "in_range (s\<lparr>stk := st, spcs := (spcs s)[t := pc]\<rparr>)"
  shows "stack_inv (s\<lparr>stk := st, spcs := (spcs s)[t := pc]\<rparr>) ys"
proof -
  note i = stack_invD [OF inv]
  have "splaced (s\<lparr>stk := st, spcs := (spcs s)[t := pc]\<rparr>) ys"
    unfolding splaced_def
  proof (intro allI)
    fix a
    have "int (count_list xs a) + wsum (shand a) (spcs s) = of_bool (a \<in> used (stk s))"
      using i(2) by (simp add: splaced_def)
    with pl [of a] t show "int (count_list ys a) + wsum (shand a) (spcs (s\<lparr>stk := st, spcs := (spcs s)[t := pc]\<rparr>))
        = of_bool (a \<in> used (stk (s\<lparr>stk := st, spcs := (spcs s)[t := pc]\<rparr>)))"
      by (simp add: wsum_update)
  qed
  moreover have "count_ok (s\<lparr>stk := st, spcs := (spcs s)[t := pc]\<rparr>) ys"
  proof -
    have "0 \<le> wsum undoing ((spcs s)[t := pc])" by (simp add: wsum_nonneg)
    with i(3) cnt low t show ?thesis by (auto simp: count_ok_def wsum_update)
  qed
  moreover have "spc_ok st ((spcs s)[t := pc] ! u)" if "u < length (spcs s)" for u
    using that pc others [OF that] by (rule nth_update_all [where P = "spc_ok st"])
  ultimately show ?thesis using ch fill rng by (simp add: stack_inv_def)
qed

lemma others_frame:
  assumes inv: "stack_inv s xs" and u: "u < length (spcs s)" "u \<noteq> t"
    and nodes: "\<And>a. sposs (spcs s ! u) = Some a \<Longrightarrow> nodes st a = nodes (stk s) a"
      "\<And>a. nodes (stk s) a \<noteq> None \<Longrightarrow> nodes st a \<noteq> None"
    and top: "m_checkID st = m_checkID (stk s) \<and> m_topPtr st = m_topPtr (stk s) \<and>
        (\<forall>a \<in> set xs. snexts st a = snexts (stk s) a) \<or> m_checkID (stk s) < m_checkID st"
  shows "spc_ok st (spcs s ! u)"
proof (rule spc_ok_frame [OF stack_invD(5) [OF inv u(1)] nodes])
  have "a \<in> set xs" if "m_topPtr (stk s) = Some a" for a
    using stack_invD(1) [OF inv] that by (auto dest!: chain_Some)
  with top show "m_checkID st = m_checkID (stk s) \<and> m_topPtr st = m_topPtr (stk s) \<and>
      (\<forall>a. m_topPtr (stk s) = Some a \<longrightarrow> snexts st a = snexts (stk s) a) \<or> m_checkID (stk s) < m_checkID st"
    by auto
qed

text \<open>The kinds of steps.\<close>

lemma stack_inv_read:
  assumes inv: "stack_inv s xs" and t: "t < length (spcs s)" and pc: "spc_ok (stk s) pc"
    and same: "sposs pc = sposs (spcs s ! t)" "uncounted pc = uncounted (spcs s ! t)"
      "undoing pc = undoing (spcs s ! t)" "reserved pc = reserved (spcs s ! t)"
  shows "stack_inv (s\<lparr>stk := stk s, spcs := (spcs s)[t := pc]\<rparr>) xs"
  using stack_invD [OF inv] pc same
  by (intro stack_inv_move [OF inv t]) (auto simp: shand_def in_range_def)

lemma stack_inv_own:
  assumes inv: "stack_inv s xs" and t: "t < length (spcs s)" "sposs (spcs s ! t) = Some d"
    and pc: "spc_ok (put_node d nd (stk s)) pc" "sposs pc = Some d"
    and same: "uncounted pc = uncounted (spcs s ! t)" "undoing pc = undoing (spcs s ! t)"
      "reserved pc = reserved (spcs s ! t)"
  shows "stack_inv (s\<lparr>stk := put_node d nd (stk s), spcs := (spcs s)[t := pc]\<rparr>) xs"
proof (rule stack_inv_move [OF inv t(1)])
  note i = stack_invD [OF inv] and own = splacedD [OF stack_invD(2) [OF inv] t]
  show "chain (snexts (put_node d nd (stk s))) (m_topPtr (put_node d nd (stk s))) xs"
    using i(1) own(1) by (simp add: chain_update)
  show "spc_ok (put_node d nd (stk s)) (spcs s ! u)" if "u < length (spcs s)" "u \<noteq> t" for u
    using own(3) [OF that] own(1) by (intro others_frame [OF inv that]) (auto simp: put_node_def snexts_def)
  show "filled (put_node d nd (stk s)) a" if "a \<in> set xs" for a
    using i(4) [OF that] own(1) that by (auto simp: filled_def put_node_def)
qed (use same pc t stack_invD(6) [OF inv] in \<open>auto simp: put_node_def shand_def in_range_def\<close>)

lemma stack_inv_cas:
  assumes inv: "stack_inv s xs" and t: "t < length (spcs s)"
    and top: "chain (snexts (stk s)) p' ys" "\<And>a. a \<in> set ys \<Longrightarrow> filled (stk s) a"
    and moved: "\<And>a. int (count_list ys a) + shand a pc = int (count_list xs a) + shand a (spcs s ! t)"
    and cnt: "int (length ys) - uncounted pc - reserved pc = int (length xs) - reserved (spcs s ! t)"
      "undoing pc = 0" "undoing (spcs s ! t) = 0" "uncounted (spcs s ! t) = 0"
    and pc: "spc_ok (stk s\<lparr>m_topPtr := p', m_checkID := m_checkID (stk s) + 1\<rparr>) pc"
    and rng: "in_range (s\<lparr>stk := stk s\<lparr>m_topPtr := p', m_checkID := m_checkID (stk s) + 1\<rparr>, spcs := (spcs s)[t := pc]\<rparr>)"
  shows "stack_inv (s\<lparr>stk := stk s\<lparr>m_topPtr := p', m_checkID := m_checkID (stk s) + 1\<rparr>, spcs := (spcs s)[t := pc]\<rparr>) ys"
proof (rule stack_inv_move [OF inv t])
  let ?st = "stk s\<lparr>m_topPtr := p', m_checkID := m_checkID (stk s) + 1\<rparr>"
  have sn: "snexts ?st = snexts (stk s)" by (auto simp: snexts_def)
  show "chain (snexts ?st) (m_topPtr ?st) ys" using top(1) by (simp add: sn)
  show "filled ?st a" if "a \<in> set ys" for a using top(2) [OF that] by (simp add: filled_def)
  show "spc_ok ?st (spcs s ! u)" if "u < length (spcs s)" "u \<noteq> t" for u
    by (intro others_frame [OF inv that]) auto
  show "int (count_list ys a) + shand a pc - of_bool (a \<in> used ?st)
      = int (count_list xs a) + shand a (spcs s ! t) - of_bool (a \<in> used (stk s))" for a
    using moved [of a] by simp
qed (use cnt pc rng in simp_all)

lemma stack_inv_alloc:
  assumes inv: "stack_inv s xs" and t: "t < length (spcs s)" "spcs s ! t = PushAlloc x" and a: "a \<notin> used (stk s)"
  shows "stack_inv (s\<lparr>stk := pool_alloc a (stk s), spcs := (spcs s)[t := PushFill a x]\<rparr>) xs"
proof (rule stack_inv_move [OF inv t(1)])
  note i = stack_invD [OF inv]
  let ?st = "pool_alloc a (stk s)"
  have "0 \<le> wsum (shand a) (spcs s)" by (simp add: wsum_nonneg)
  moreover have "int (count_list xs a) + wsum (shand a) (spcs s) = 0" using i(2) a by (simp add: splaced_def)
  ultimately have "count_list xs a = 0" by linarith
  then have xs: "a \<notin> set xs" by (simp add: count_list_0_iff)
  have other: "b \<noteq> a" if "u < length (spcs s)" "sposs (spcs s ! u) = Some b" for u b
    using splacedD(2) [OF i(2) that] a by auto
  have sn: "snexts ?st = (snexts (stk s))(a := Some None)" by (auto simp: snexts_def pool_alloc_def)
  show "chain (snexts ?st) (m_topPtr ?st) xs" using i(1) xs chain_update unfolding sn by (simp add: pool_alloc_def)
  show "filled ?st b" if "b \<in> set xs" for b
    using i(4) [OF that] xs that by (auto simp: filled_def pool_alloc_def)
  show "spc_ok ?st (spcs s ! u)" if "u < length (spcs s)" "u \<noteq> t" for u
    using other [OF that(1)] xs by (intro others_frame [OF inv that]) (auto simp: pool_alloc_def snexts_def)
qed (use t a stack_invD(6) [OF inv] in \<open>auto simp: pool_alloc_def shand_def in_range_def uncounted_def undoing_def\<close>)

lemma stack_inv_free:
  assumes inv: "stack_inv s xs" and t: "t < length (spcs s)" "spcs s ! t = PopFree a x"
  shows "stack_inv (s\<lparr>stk := pool_free a (stk s), spcs := (spcs s)[t := PopDone x]\<rparr>) xs"
proof (rule stack_inv_move [OF inv t(1)])
  note i = stack_invD [OF inv]
  have sn: "snexts (pool_free a (stk s)) = snexts (stk s)" by (auto simp: snexts_def pool_free_def)
  show "chain (snexts (pool_free a (stk s))) (m_topPtr (pool_free a (stk s))) xs"
    using i(1) unfolding sn by (simp add: pool_free_def)
  show "spc_ok (pool_free a (stk s)) (spcs s ! u)" if "u < length (spcs s)" "u \<noteq> t" for u
    by (intro others_frame [OF inv that]) (auto simp: pool_free_def snexts_def)
qed (use t splacedD(2) [OF stack_invD(2) [OF inv] t(1), of a] stack_invD(4,6) [OF inv] stack_invD(5) [OF inv t(1)] in
    \<open>auto simp: pool_free_def shand_def in_range_def uncounted_def undoing_def filled_def\<close>)

text \<open>The three changes of the count.\<close>

lemma stack_inv_count:
  assumes inv: "stack_inv s xs" and t: "t < length (spcs s)"
    and step: "ss_step malloc (spcs s ! t) (stk s) = (pc, st)"
    and pc: "spcs s ! t = PushCount \<or> spcs s ! t = PopReserve \<or> spcs s ! t = PopUndo"
    and rng: "in_range (s\<lparr>stk := st, spcs := (spcs s)[t := pc]\<rparr>)"
  shows "stack_inv (s\<lparr>stk := st, spcs := (spcs s)[t := pc]\<rparr>) xs"
proof -
  note i = stack_invD [OF inv]
  have exact: "to_int32 (m_count (stk s) + 1) = m_count (stk s) + 1" "to_int32 (m_count (stk s) - 1) = m_count (stk s) - 1"
    using i(6) by (auto simp: in_range_def intro!: to_int32_id)
  have same: "chain (snexts (stk s\<lparr>m_count := c\<rparr>)) (m_topPtr (stk s\<lparr>m_count := c\<rparr>)) xs"
    "a \<in> set xs \<Longrightarrow> filled (stk s\<lparr>m_count := c\<rparr>) a" for c a
    using i(1) i(4) [of a] by (simp_all add: filled_def)
  have others: "spc_ok (stk s\<lparr>m_count := c\<rparr>) (spcs s ! u)" if "u < length (spcs s)" "u \<noteq> t" for c u
    by (intro others_frame [OF inv that]) (auto simp: snexts_def)
  show ?thesis
    using pc
  proof (elim disjE)
    assume "spcs s ! t = PushCount"
    with step rng exact show ?thesis
      by (intro stack_inv_move [OF inv t]) (auto simp: i(1) same others shand_def uncounted_def undoing_def)
  next
    assume "spcs s ! t = PopReserve"
    with step rng exact show ?thesis
      by (intro stack_inv_move [OF inv t])
        (auto simp: i(1) same others shand_def uncounted_def undoing_def Let_def split: if_splits)
  next
    assume "spcs s ! t = PopUndo"
    with step rng exact show ?thesis
      by (intro stack_inv_move [OF inv t]) (auto simp: i(1) same others shand_def uncounted_def undoing_def)
  qed
qed

section \<open>Refinement of an abstract stack\<close>

text \<open>
  The abstract state: the values on the stack, newest first; for every thread the value it is
  pushing and has not yet pushed, and the value it has popped and not yet returned.
\<close>

type_synonym 'a astack = "'a list \<times> (nat \<Rightarrow> 'a option) \<times> (nat \<Rightarrow> 'a option)"

inductive astep :: "'a astack \<Rightarrow> 'a astack \<Rightarrow> bool" where
  internal: "astep S S"
| invoke: "f t = None \<Longrightarrow> astep (zs, f, g) (zs, f(t := Some x), g)"
| push: "f t = Some x \<Longrightarrow> astep (zs, f, g) (x # zs, f(t := None), g)"
| pop: "g t = None \<Longrightarrow> astep (x # zs, f, g) (zs, f, g(t := Some x))"
| return: "astep (zs, f, g) (zs, f, g(t := None))"

definition sdata :: "'a stack \<Rightarrow> nat \<Rightarrow> 'a option" where
  "sdata st a = (case nodes st a of None \<Rightarrow> None | Some nd \<Rightarrow> m_data nd)"

fun arg :: "'a stack \<Rightarrow> 'a spc \<Rightarrow> 'a option" where
  "arg st (PushAlloc x) = Some x"
| "arg st (PushFill a x) = Some x"
| "arg st (PushTop a) = sdata st a"
| "arg st (PushID a p) = sdata st a"
| "arg st (PushLink a p n) = sdata st a"
| "arg st (PushCas a p n) = sdata st a"
| "arg st _ = None"

fun res :: "'a stack \<Rightarrow> 'a spc \<Rightarrow> 'a option" where
  "res st (PopData a) = sdata st a"
| "res st (PopFree a x) = x"
| "res st (PopDone x) = x"
| "res st _ = None"

definition args :: "'a ssys \<Rightarrow> nat \<Rightarrow> 'a option" where
  "args s t = (if t < length (spcs s) then arg (stk s) (spcs s ! t) else None)"

definition results :: "'a ssys \<Rightarrow> nat \<Rightarrow> 'a option" where
  "results s t = (if t < length (spcs s) then res (stk s) (spcs s ! t) else None)"

definition values_of :: "'a stack \<Rightarrow> nat list \<Rightarrow> 'a list" where
  "values_of st xs = map (\<lambda>a. the (sdata st a)) xs"

definition abs :: "'a ssys \<Rightarrow> nat list \<Rightarrow> 'a astack" where
  "abs s xs = (values_of (stk s) xs, args s, results s)"

lemma filled_sdata: "filled st a \<Longrightarrow> sdata st a = Some (the (sdata st a))"
  by (auto simp: filled_def sdata_def)

lemma sdata_same: "nodes st a = nodes st' a \<Longrightarrow> sdata st a = sdata st' a"
  by (simp add: sdata_def)

lemma abs_move:
  assumes t: "t < length (spcs s)"
    and others: "\<And>u a. u < length (spcs s) \<Longrightarrow> u \<noteq> t \<Longrightarrow> sposs (spcs s ! u) = Some a \<Longrightarrow> nodes st a = nodes (stk s) a"
  shows "args (s\<lparr>stk := st, spcs := (spcs s)[t := pc]\<rparr>) = (args s)(t := arg st pc)"
    and "results (s\<lparr>stk := st, spcs := (spcs s)[t := pc]\<rparr>) = (results s)(t := res st pc)"
proof -
  have "arg st (spcs s ! u) = arg (stk s) (spcs s ! u)" "res st (spcs s ! u) = res (stk s) (spcs s ! u)"
    if "u < length (spcs s)" "u \<noteq> t" for u
    using others [OF that] by (cases "spcs s ! u"; simp add: sdata_def)+
  with t show "args (s\<lparr>stk := st, spcs := (spcs s)[t := pc]\<rparr>) = (args s)(t := arg st pc)"
    "results (s\<lparr>stk := st, spcs := (spcs s)[t := pc]\<rparr>) = (results s)(t := res st pc)"
    by (auto simp: args_def results_def)
qed

text \<open>A step that keeps what its thread pushes and returns, and the values on the stack.\<close>

lemma abs_internal:
  assumes t: "t < length (spcs s)"
    and others: "\<And>u a. u < length (spcs s) \<Longrightarrow> u \<noteq> t \<Longrightarrow> sposs (spcs s ! u) = Some a \<Longrightarrow> nodes st a = nodes (stk s) a"
    and same: "arg st pc = arg (stk s) (spcs s ! t)" "res st pc = res (stk s) (spcs s ! t)"
      "\<And>a. a \<in> set xs \<Longrightarrow> nodes st a = nodes (stk s) a"
  shows "astep (abs s xs) (abs (s\<lparr>stk := st, spcs := (spcs s)[t := pc]\<rparr>) xs)"
proof -
  have "(args s)(t := arg st pc) = args s" "(results s)(t := res st pc) = results s"
    using same(1,2) t by (auto simp: args_def results_def)
  moreover have "values_of st xs = values_of (stk s) xs"
    using same(3) by (auto simp: values_of_def sdata_def)
  ultimately have "abs (s\<lparr>stk := st, spcs := (spcs s)[t := pc]\<rparr>) xs = abs s xs"
    using abs_move [OF t others] by (simp add: abs_def)
  then show ?thesis by (simp add: astep.internal)
qed

definition sim_to :: "'a ssys \<Rightarrow> nat list \<Rightarrow> 'a ssys \<Rightarrow> bool" where
  "sim_to s xs s' \<longleftrightarrow> (\<exists>ys. stack_inv s' ys \<and> astep (abs s xs) (abs s' ys))"

lemma sim_read:
  assumes inv: "stack_inv s xs" and t: "t < length (spcs s)" and pc: "spc_ok (stk s) pc"
    and same: "sposs pc = sposs (spcs s ! t)" "uncounted pc = uncounted (spcs s ! t)"
      "undoing pc = undoing (spcs s ! t)" "reserved pc = reserved (spcs s ! t)"
      "arg (stk s) pc = arg (stk s) (spcs s ! t)" "res (stk s) pc = res (stk s) (spcs s ! t)"
  shows "sim_to s xs (s\<lparr>stk := stk s, spcs := (spcs s)[t := pc]\<rparr>)"
  unfolding sim_to_def using stack_inv_read [OF inv t pc same(1-4)] abs_internal [OF t _ same(5,6), of xs] by blast

lemma sim_own:
  assumes inv: "stack_inv s xs" and t: "t < length (spcs s)" "sposs (spcs s ! t) = Some d"
    and pc: "spc_ok (put_node d nd (stk s)) pc" "sposs pc = Some d"
    and same: "uncounted pc = uncounted (spcs s ! t)" "undoing pc = undoing (spcs s ! t)"
      "reserved pc = reserved (spcs s ! t)"
      "arg (put_node d nd (stk s)) pc = arg (stk s) (spcs s ! t)"
      "res (put_node d nd (stk s)) pc = res (stk s) (spcs s ! t)"
  shows "sim_to s xs (s\<lparr>stk := put_node d nd (stk s), spcs := (spcs s)[t := pc]\<rparr>)"
proof -
  note own = splacedD [OF stack_invD(2) [OF inv] t]
  have "nodes (put_node d nd (stk s)) a = nodes (stk s) a"
    if "u < length (spcs s)" "u \<noteq> t" "sposs (spcs s ! u) = Some a" for u a
    using own(3) [OF that(1,2)] that(3) by (auto simp: put_node_def)
  moreover have "nodes (put_node d nd (stk s)) a = nodes (stk s) a" if "a \<in> set xs" for a
    using own(1) that by (auto simp: put_node_def)
  ultimately have "astep (abs s xs) (abs (s\<lparr>stk := put_node d nd (stk s), spcs := (spcs s)[t := pc]\<rparr>) xs)"
    using same(4,5) by (intro abs_internal [OF t(1)]) auto
  with stack_inv_own [OF inv t pc same(1-3)] show ?thesis unfolding sim_to_def by blast
qed

lemma sim_PushCas:
  assumes inv: "stack_inv s xs" and t: "t < length (spcs s)" "spcs s ! t = PushCas a p n"
    and step: "ss_step malloc (PushCas a p n) (stk s) = (pc, st)"
    and rng: "in_range (s\<lparr>stk := st, spcs := (spcs s)[t := pc]\<rparr>)"
  shows "sim_to s xs (s\<lparr>stk := st, spcs := (spcs s)[t := pc]\<rparr>)"
proof (cases "m_topPtr (stk s) = p \<and> m_checkID (stk s) = n")
  case True
  let ?st = "stk s\<lparr>m_topPtr := Some a, m_checkID := m_checkID (stk s) + 1\<rparr>"
  note i = stack_invD [OF inv] and ok = stack_invD(5) [OF inv t(1), unfolded t(2)]
  have st: "st = ?st" "pc = PushCount" using step True by (auto simp: cas_top_def)
  have "chain (snexts (stk s)) (Some a) (a # xs)" using ok i(1) True by (auto simp: snexts_def)
  moreover have "filled (stk s) b" if "b \<in> set (a # xs)" for b using that ok i(4) by auto
  ultimately have inv': "stack_inv (s\<lparr>stk := ?st, spcs := (spcs s)[t := PushCount]\<rparr>) (a # xs)"
    using rng t unfolding st by (intro stack_inv_cas [OF inv t(1)]) (auto simp: shand_def uncounted_def undoing_def)
  have d: "sdata (stk s) a = Some (the (sdata (stk s) a))" using ok by (intro filled_sdata) simp
  have "args s t = Some (the (sdata (stk s) a))" using t d by (simp add: args_def)
  from astep.push [of "args s" t, OF this, of "values_of (stk s) xs" "results s"]
  have "astep (abs s xs) (abs (s\<lparr>stk := ?st, spcs := (spcs s)[t := PushCount]\<rparr>) (a # xs))"
    using abs_move [OF t(1), of ?st PushCount] t by (simp add: abs_def values_of_def sdata_def results_def fun_upd_idem)
  with inv' show ?thesis unfolding sim_to_def st by blast
next
  case False
  then have "st = stk s" "pc = PushLink a (m_topPtr (stk s)) (m_checkID (stk s))"
    using step by (auto simp: cas_top_def split: if_splits)
  then show ?thesis using sim_read [OF inv t(1), of pc] t stack_invD(5) [OF inv t(1)]
    by (simp add: uncounted_def undoing_def)
qed

lemma sim_PopCas:
  assumes inv: "stack_inv s xs" and t: "t < length (spcs s)" "spcs s ! t = PopCas a n nxt"
    and step: "ss_step malloc (PopCas a n nxt) (stk s) = (pc, st)"
    and rng: "in_range (s\<lparr>stk := st, spcs := (spcs s)[t := pc]\<rparr>)"
  shows "sim_to s xs (s\<lparr>stk := st, spcs := (spcs s)[t := pc]\<rparr>)"
proof (cases "m_topPtr (stk s) = Some a \<and> m_checkID (stk s) = n")
  case True
  let ?st = "stk s\<lparr>m_topPtr := nxt, m_checkID := m_checkID (stk s) + 1\<rparr>"
  note i = stack_invD [OF inv] and ok = stack_invD(5) [OF inv t(1), unfolded t(2)]
  have st: "st = ?st" "pc = PopData a" using step True by (auto simp: cas_top_def)
  obtain q ys where xs: "snexts (stk s) a = Some q" "xs = a # ys" "chain (snexts (stk s)) q ys"
    using i(1) True chain_Some [of "snexts (stk s)" a xs] by auto
  have q: "q = nxt" using ok xs(1) True by auto
  have f: "filled (stk s) a" using i(4) xs(2) by simp
  have inv': "stack_inv (s\<lparr>stk := ?st, spcs := (spcs s)[t := PopData a]\<rparr>) ys"
    using rng t xs q i(4) f unfolding st
    by (intro stack_inv_cas [OF inv t(1)]) (auto simp: shand_def uncounted_def undoing_def filled_def)
  have "results s t = None" using t by (simp add: results_def)
  from astep.pop [of "results s" t, OF this, of "the (sdata (stk s) a)" "values_of (stk s) ys" "args s"]
  have "astep (abs s xs) (abs (s\<lparr>stk := ?st, spcs := (spcs s)[t := PopData a]\<rparr>) ys)"
    using abs_move [OF t(1), of ?st "PopData a"] t filled_sdata [OF f] xs(2)
    by (simp add: abs_def values_of_def sdata_def args_def fun_upd_idem)
  with inv' show ?thesis unfolding sim_to_def st by blast
next
  case False
  then have "st = stk s" "pc = PopNext (m_topPtr (stk s)) (m_checkID (stk s))"
    using step by (auto simp: cas_top_def split: if_splits)
  moreover have "known (stk s) (m_topPtr (stk s))" using reserved_nonempty(2) [OF inv t(1)] t by simp
  ultimately show ?thesis using sim_read [OF inv t(1), of pc] t by (simp add: uncounted_def undoing_def)
qed

lemma sim_PushAlloc:
  assumes inv: "stack_inv s xs" and t: "t < length (spcs s)" "spcs s ! t = PushAlloc x" and a: "a \<notin> used (stk s)"
  shows "sim_to s xs (s\<lparr>stk := pool_alloc a (stk s), spcs := (spcs s)[t := PushFill a x]\<rparr>)"
proof -
  have same: "nodes (pool_alloc a (stk s)) b = nodes (stk s) b" if "b \<in> used (stk s)" for b
    using that a by (auto simp: pool_alloc_def)
  have "b \<in> used (stk s)" if "b \<in> set xs" for b
  proof -
    have "0 \<le> wsum (shand b) (spcs s)" by (simp add: wsum_nonneg)
    moreover have "0 < int (count_list xs b)" using that count_list_0_iff [of xs b] by simp
    moreover have "int (count_list xs b) + wsum (shand b) (spcs s) = of_bool (b \<in> used (stk s))"
      using stack_invD(2) [OF inv] by (simp add: splaced_def)
    ultimately show ?thesis by (cases "b \<in> used (stk s)") auto
  qed
  then have "astep (abs s xs) (abs (s\<lparr>stk := pool_alloc a (stk s), spcs := (spcs s)[t := PushFill a x]\<rparr>) xs)"
    using t same splacedD(2) [OF stack_invD(2) [OF inv]] by (intro abs_internal [OF t(1)]) auto
  with stack_inv_alloc [OF inv t a] show ?thesis unfolding sim_to_def by blast
qed

lemma sim_count:
  assumes inv: "stack_inv s xs" and t: "t < length (spcs s)"
    and pc: "spcs s ! t = PushCount \<or> spcs s ! t = PopReserve \<or> spcs s ! t = PopUndo"
    and step: "ss_step malloc (spcs s ! t) (stk s) = (pc, st)"
    and rng: "in_range (s\<lparr>stk := st, spcs := (spcs s)[t := pc]\<rparr>)"
  shows "sim_to s xs (s\<lparr>stk := st, spcs := (spcs s)[t := pc]\<rparr>)"
proof -
  have "astep (abs s xs) (abs (s\<lparr>stk := st, spcs := (spcs s)[t := pc]\<rparr>) xs)"
    using pc step by (intro abs_internal [OF t]) (auto simp: Let_def split: if_splits)
  with stack_inv_count [OF inv t step pc rng] show ?thesis unfolding sim_to_def by blast
qed

lemma sim_inside:
  assumes inv: "stack_inv s xs" and t: "t < length (spcs s)" "busy (spcs s ! t)"
    and malloc: "malloc \<notin> used (stk s)"
    and step: "ss_step malloc (spcs s ! t) (stk s) = (pc, st)"
    and rng: "in_range (s\<lparr>stk := st, spcs := (spcs s)[t := pc]\<rparr>)"
  shows "sim_to s xs (s\<lparr>stk := st, spcs := (spcs s)[t := pc]\<rparr>)"
proof -
  note ok = stack_invD(5) [OF inv t(1)] and read = sim_read [OF inv t(1)] and own = sim_own [OF inv t(1)]
  note w = uncounted_def undoing_def
  show ?thesis
  proof (cases "spcs s ! t")
    case (PushAlloc x)
    then show ?thesis using sim_PushAlloc [OF inv t(1) _ malloc] step by auto
  next
    case (PushFill a x)
    with step own [of a "\<lparr>m_data = Some x, m_next = None\<rparr>" "PushTop a"] show ?thesis
      by (auto simp: w filled_def put_node_def sdata_def)
  next
    case (PushTop a)
    with ok step read [of "PushID a (m_topPtr (stk s))"] show ?thesis by (auto simp: w)
  next
    case (PushID a p)
    with ok step read [of "PushLink a p (m_checkID (stk s))"] show ?thesis by (auto simp: w)
  next
    case (PushLink a p n)
    with ok obtain nd where "nodes (stk s) a = Some nd" "m_data nd \<noteq> None" by (auto simp: filled_def)
    with PushLink step own [of a "nd\<lparr>m_next := p\<rparr>" "PushCas a p n"] show ?thesis
      by (auto simp: w filled_def put_node_def sdata_def snexts_def)
  next
    case (PopNext p n)
    with ok obtain a nd where "p = Some a" "nodes (stk s) a = Some nd" by (auto simp: known_def)
    with PopNext ok step read [of "PopCas a n (m_next nd)"] show ?thesis by (auto simp: w)
  next
    case (PopData a)
    with ok obtain nd where "nodes (stk s) a = Some nd" "m_data nd \<noteq> None" by (auto simp: filled_def)
    with PopData step read [of "PopFree a (m_data nd)"] show ?thesis by (auto simp: w sdata_def)
  next
    case (PopFree a x)
    have "astep (abs s xs) (abs (s\<lparr>stk := pool_free a (stk s), spcs := (spcs s)[t := PopDone x]\<rparr>) xs)"
      using PopFree by (intro abs_internal [OF t(1)]) (auto simp: pool_free_def)
    then show ?thesis using stack_inv_free [OF inv t(1) PopFree] step PopFree unfolding sim_to_def by auto
  next
    case PopTop
    with step read [of "PopID (m_topPtr (stk s))"] reserved_nonempty(2) [OF inv t(1)] show ?thesis by (auto simp: w)
  next
    case (PopID p)
    with ok step read [of "PopNext p (m_checkID (stk s))"] show ?thesis by (auto simp: w)
  qed (use t(2) step rng sim_PushCas [OF inv t(1)] sim_PopCas [OF inv t(1)] sim_count [OF inv t(1) _ step] in simp_all)
qed

lemma sim_step:
  assumes "sstep s s'" "stack_inv s xs" "in_range s'"
  shows "sim_to s xs s'"
  using assms
proof (induction rule: sstep.induct)
  case (call_push t s x)
  let ?s = "s\<lparr>stk := stk s, spcs := (spcs s)[t := PushAlloc x]\<rparr>"
  have "args s t = None" "(results s)(t := None) = results s" using call_push by (auto simp: args_def results_def)
  from astep.invoke [of "args s" t "values_of (stk s) xs" "results s" x, OF this(1)] this(2)
  have "astep (abs s xs) (abs ?s xs)" using abs_move [OF call_push(1), of "stk s" "PushAlloc x"] by (simp add: abs_def)
  moreover have "stack_inv ?s xs"
    using call_push by (intro stack_inv_read) (auto simp: uncounted_def undoing_def)
  ultimately show ?case unfolding sim_to_def by auto
next
  case (call_pop t s)
  then show ?case using sim_read [of s xs t PopReserve] by (simp add: uncounted_def undoing_def)
next
  case (inside t s malloc pc st)
  then show ?case by (intro sim_inside)
next
  case (ret t s)
  let ?s = "s\<lparr>stk := stk s, spcs := (spcs s)[t := Idle]\<rparr>"
  have "(args s)(t := None) = args s" using ret by (cases "spcs s ! t") (auto simp: args_def)
  with astep.return [of "values_of (stk s) xs" "args s" "results s" t]
  have "astep (abs s xs) (abs ?s xs)" using abs_move [OF ret(1), of "stk s" Idle] by (simp add: abs_def)
  moreover have "stack_inv ?s xs"
    using ret by (intro stack_inv_read) (cases "spcs s ! t"; auto simp: uncounted_def undoing_def)+
  ultimately show ?case unfolding sim_to_def by auto
qed

lemma stack_inv_reach: "sreach n s \<Longrightarrow> \<exists>xs. stack_inv s xs"
proof (induction rule: sreach.induct)
  case start
  show ?case
    by (rule exI [of _ "[]"]) (simp add: stack_inv_def LockFreeStack_new_def splaced_def count_ok_def in_range_def
        shand_def uncounted_def undoing_def)
next
  case (step s s')
  then show ?case using sim_step unfolding sim_to_def by blast
qed

section \<open>Properties\<close>

text \<open>
  C20. The lock-free stack refines an abstract stack: every step of every reachable state either
  leaves the abstract state alone, starts or ends a call, or is the one atomic moment at which
  a \<open>Push\<close> puts its value on top or a \<open>Pop\<close> removes the newest value, and that value is the one it
  returns.
\<close>

theorem stack_steps_refine:
  assumes "sreach n s" "sstep s s'" "in_range s'"
  shows "\<exists>xs ys. chain (snexts (stk s)) (m_topPtr (stk s)) xs \<and> chain (snexts (stk s')) (m_topPtr (stk s')) ys \<and>
    astep (abs s xs) (abs s' ys)"
  using stack_inv_reach [OF assms(1)] sim_step [OF assms(2) _ assms(3)] stack_invD(1)
  unfolding sim_to_def by blast

text \<open>
  C21. \<open>Pop\<close> dereferences the top without a null test; the reservation by \<^verbatim>\<open>m_count\<close> makes that
  safe: no thread ever reads through a null or dangling pointer.
\<close>

theorem stack_never_faults:
  assumes "sreach n s" "t < length (spcs s)"
  shows "spcs s ! t \<noteq> Fault e"
  using stack_inv_reach [OF assms(1)] stack_invD(5) [of s _ t] assms(2) by auto

text \<open>
  When no call is under way, \<open>GetStackCount\<close> is the number of elements on the stack.
\<close>

theorem stack_count_exact_when_quiet:
  assumes "sreach n s" "\<forall>pc \<in> set (spcs s). pc = Idle"
  shows "\<exists>xs. chain (snexts (stk s)) (m_topPtr (stk s)) xs \<and> GetStackCount (stk s) = int (length xs)"
proof -
  obtain xs where inv: "stack_inv s xs" using stack_inv_reach [OF assms(1)] by blast
  have "wsum w (spcs s) = 0" if "w Idle = 0" for w using assms(2) that by (intro wsum_zero) auto
  then have "GetStackCount (stk s) = int (length xs)"
    using stack_invD(3) [OF inv] by (simp add: count_ok_def GetStackCount_def uncounted_def undoing_def)
  with stack_invD(1) [OF inv] show ?thesis by blast
qed

section \<open>Schedules\<close>

text \<open>
  An interleaving given explicitly: which thread does what next. \<open>sched\<close> runs it and fails if a
  step is not possible.
\<close>

datatype 'a act = CallPush nat 'a | CallPop nat | Run nat nat | Return nat

fun sched_step :: "'a act \<Rightarrow> 'a ssys \<Rightarrow> 'a ssys option" where
  "sched_step (CallPush t x) s =
     (if t < length (spcs s) \<and> (case spcs s ! t of Idle \<Rightarrow> True | _ \<Rightarrow> False) \<and> in_range s
      then Some (s\<lparr>spcs := (spcs s)[t := PushAlloc x]\<rparr>) else None)"
| "sched_step (CallPop t) s =
     (if t < length (spcs s) \<and> (case spcs s ! t of Idle \<Rightarrow> True | _ \<Rightarrow> False) \<and> in_range s
      then Some (s\<lparr>spcs := (spcs s)[t := PopReserve]\<rparr>) else None)"
| "sched_step (Run t malloc) s =
     (if t < length (spcs s) \<and> busy (spcs s ! t) \<and> malloc \<notin> used (stk s) then
        (case ss_step malloc (spcs s ! t) (stk s) of (pc, st) \<Rightarrow>
           let s' = s\<lparr>stk := st, spcs := (spcs s)[t := pc]\<rparr> in if in_range s' then Some s' else None)
      else None)"
| "sched_step (Return t) s =
     (if t < length (spcs s) \<and> returned (spcs s ! t) \<and> in_range s
      then Some (s\<lparr>spcs := (spcs s)[t := Idle]\<rparr>) else None)"

fun sched :: "'a act list \<Rightarrow> 'a ssys \<Rightarrow> 'a ssys option" where
  "sched [] s = Some s"
| "sched (a # as) s = (case sched_step a s of None \<Rightarrow> None | Some s' \<Rightarrow> sched as s')"

lemma sched_step_sound:
  assumes "sched_step a s = Some s'" "sreach n s"
  shows "sreach n s'"
proof -
  have "sstep s s' \<and> in_range s'"
    using assms(1)
    by (cases a) (auto simp: Let_def in_range_def split: if_splits spc.splits prod.splits intro: sstep.intros)
  with assms(2) show ?thesis by (auto intro: sreach.step)
qed

lemma sched_sound: "sched as s = Some s' \<Longrightarrow> sreach n s \<Longrightarrow> sreach n s'"
  by (induction as arbitrary: s) (auto split: option.splits dest: sched_step_sound)

lemmas sched_simps = LockFreeStack_new_def in_range_def pool_alloc_def pool_free_def put_node_def cas_top_def
  to_int32_def snexts_def sdata_def numeral_2_eq_2 numeral_3_eq_3 nth_Cons' Let_def

text \<open>
  A \<open>Pop\<close> can fail on a stack that holds an element: thread 0's failed \<open>Pop\<close> has decremented
  \<^verbatim>\<open>m_count\<close> and not yet restored it, thread 1 pushes 7 and returns, and thread 2's \<open>Pop\<close> then
  returns false although 7 is on the stack and no thread holds a reservation for it.
\<close>

theorem pop_fails_on_nonempty_stack:
  "\<exists>s. sreach 3 s \<and> spcs s ! 2 = PopFailed \<and> wsum reserved (spcs s) = 0 \<and>
    (\<exists>xs. chain (snexts (stk s)) (m_topPtr (stk s)) xs \<and> values_of (stk s) xs = [7 :: nat])"
proof -
  let ?acts = "[CallPop 0, Run 0 1, CallPush 1 7, Run 1 5, Run 1 1, Run 1 1, Run 1 1, Run 1 1, Run 1 1, Run 1 1, Return 1,
    CallPop 2, Run 2 1, Run 2 1] :: nat act list"
  let ?s = "\<lparr>stk = \<lparr>nodes = [5 \<mapsto> \<lparr>m_data = Some (7 :: nat), m_next = None\<rparr>], used = {5}, m_topPtr = Some 5, m_checkID = 0, m_count = 0\<rparr>,
    spcs = [PopUndo, Idle, PopFailed]\<rparr>"
  have "sched ?acts \<lparr>stk = LockFreeStack_new, spcs = replicate 3 Idle\<rparr> = Some ?s"
    by (simp add: sched_simps)
  from sched_sound [OF this sreach.start] have "sreach 3 ?s" .
  moreover have "chain (snexts (stk ?s)) (m_topPtr (stk ?s)) [5]" "values_of (stk ?s) [5] = [7]"
    by (simp_all add: snexts_def values_of_def sdata_def)
  then have "\<exists>xs. chain (snexts (stk ?s)) (m_topPtr (stk ?s)) xs \<and> values_of (stk ?s) xs = [7]" by blast
  ultimately show ?thesis by (intro exI [of _ ?s] conjI) simp_all
qed

text \<open>A run for the witnesses: one thread pushes 7 and returns.\<close>

definition pushed_seven :: "nat ssys" where
  "pushed_seven = \<lparr>stk = \<lparr>nodes = [5 \<mapsto> \<lparr>m_data = Some 7, m_next = None\<rparr>], used = {5}, m_topPtr = Some 5,
     m_checkID = 0, m_count = 1\<rparr>, spcs = [Idle]\<rparr>"

lemma pushed_seven_reach: "sreach 1 pushed_seven"
proof -
  have "sched [CallPush 0 7, Run 0 5, Run 0 1, Run 0 1, Run 0 1, Run 0 1, Run 0 1, Run 0 1, Return 0]
      \<lparr>stk = LockFreeStack_new, spcs = replicate 1 Idle\<rparr> = Some pushed_seven"
    by (simp add: sched_simps pushed_seven_def)
  from sched_sound [OF this sreach.start] show ?thesis .
qed

theorem stack_steps_refine_witness:
  "\<exists>xs ys. chain (snexts (stk pushed_seven)) (m_topPtr (stk pushed_seven)) xs \<and>
    chain (snexts (stk pushed_seven)) (m_topPtr (stk pushed_seven)) ys \<and>
    astep (abs pushed_seven xs) (abs (pushed_seven\<lparr>spcs := [PopReserve]\<rparr>) ys)"
  using stack_steps_refine [OF pushed_seven_reach sstep.call_pop [of 0]]
  by (simp add: pushed_seven_def in_range_def)

theorem stack_never_faults_witness: "spcs pushed_seven ! 0 \<noteq> Fault NullDeref"
  by (rule stack_never_faults [OF pushed_seven_reach]) (simp add: pushed_seven_def)

theorem stack_count_exact_when_quiet_witness:
  "\<exists>xs. chain (snexts (stk pushed_seven)) (m_topPtr (stk pushed_seven)) xs \<and>
    GetStackCount (stk pushed_seven) = int (length xs)"
  by (rule stack_count_exact_when_quiet [OF pushed_seven_reach]) (simp add: pushed_seven_def)

end
