(* ===== verification/Lock_Free_Queue.thy ===== *)
theory Lock_Free_Queue
  imports MMO_Prelude
begin

text \<open>
  \<^verbatim>\<open>LockFreeQ<T>\<close> (ServerCore/Memory/LockFreeQ.h), the send queue of a session: a linked list
  with a dummy node whose last next pointer holds a unique number above the user address
  space instead of null. Pointers and those numbers are 64-bit values (the counters wrap); node
  addresses lie strictly between 0 (null) and \<open>KERNEL_ADDRESS\<close>. The nodes come from a \<open>FreeList\<close>,
  whose \<open>Alloc\<close> constructs the node again (data and next pointer null). Proved: a thread alone
  sees a first-in first-out queue, with every branch of both operations; with several threads,
  a node that is recycled while another thread still looks at it makes \<open>EnQ\<close> and \<open>DeQ\<close> read
  through null, in runs given explicitly.
\<close>

section \<open>State\<close>

definition KERNEL_ADDRESS :: int where
  "KERNEL_ADDRESS = 0x80000000000"

record 'a QNode =
  m_data :: "'a option"
  m_next :: int

record QCheck =
  m_nodePtr :: int
  m_checkID :: int

record 'a lfq =
  qnodes :: "int \<Rightarrow> 'a QNode option"
  qused :: "int set"
  m_frontCheck :: QCheck
  m_rearCheck :: QCheck
  m_rearID :: int
  m_count :: int
  m_maxQCount :: int
  m_deQTPS :: int

definition pool_alloc :: "int \<Rightarrow> 'a lfq \<Rightarrow> 'a lfq" where
  "pool_alloc a q = q\<lparr>qnodes := (qnodes q)(a \<mapsto> \<lparr>m_data = None, m_next = 0\<rparr>), qused := insert a (qused q)\<rparr>"

definition pool_free :: "int \<Rightarrow> 'a lfq \<Rightarrow> 'a lfq" where
  "pool_free a q = q\<lparr>qused := qused q - {a}\<rparr>"

text \<open>The constructor, with the dummy node at address \<open>a\<close>.\<close>

definition LockFreeQ_new :: "int \<Rightarrow> int \<Rightarrow> 'a lfq" where
  "LockFreeQ_new a maxQCount =
     \<lparr>qnodes = [a \<mapsto> \<lparr>m_data = None, m_next = KERNEL_ADDRESS\<rparr>], qused = {a},
      m_frontCheck = \<lparr>m_nodePtr = a, m_checkID = 0\<rparr>,
      m_rearCheck = \<lparr>m_nodePtr = a, m_checkID = KERNEL_ADDRESS\<rparr>,
      m_rearID = KERNEL_ADDRESS, m_count = 0, m_maxQCount = to_int32 maxQCount, m_deQTPS = 0\<rparr>"

definition GetQCount :: "'a lfq \<Rightarrow> int" where
  "GetQCount q = m_count q"

section \<open>The operations, one shared access at a time\<close>

datatype 'a qpc =
    Idle
  | EnqCheck 'a
  | EnqAlloc 'a
  | EnqData int 'a
  | EnqTicket int
  | EnqMark int int
  | EnqRearPtr int
  | EnqRearID int int
  | EnqCas1 int int int
  | EnqHelp int int int
  | EnqHelpNext int int int int
  | EnqHelpCas int int int int int
  | EnqReadNext int int int
  | EnqCas2 int int int int
  | EnqCount
  | EnqDone
  | DeqReserve
  | DeqUndo
  | DeqFailed
  | DeqFrontPtr
  | DeqFrontID int
  | DeqNext int int
  | DeqData int int int
  | DeqCas int int int "'a option"
  | DeqTPS int "'a option"
  | DeqFree int "'a option"
  | DeqDone "'a option"
  | Fault error

text \<open>A read through a pointer: null and addresses without a node are faults.\<close>

definition deref :: "'a lfq \<Rightarrow> int \<Rightarrow> 'a QNode result" where
  "deref q p = (if p = 0 then Inl NullDeref else case qnodes q p of None \<Rightarrow> Inl OutOfBounds | Some nd \<Rightarrow> Inr nd)"

definition put_node :: "int \<Rightarrow> 'a QNode \<Rightarrow> 'a lfq \<Rightarrow> 'a lfq" where
  "put_node a nd q = q\<lparr>qnodes := (qnodes q)(a \<mapsto> nd)\<rparr>"

text \<open>\<^verbatim>\<open>InterlockedCompareExchange128\<close> on a \<^verbatim>\<open>QCheck\<close>.\<close>

definition cas128 :: "QCheck \<Rightarrow> QCheck \<Rightarrow> QCheck \<Rightarrow> bool \<times> QCheck \<times> QCheck" where
  "cas128 new expected cur = (if cur = expected then (True, expected, new) else (False, cur, cur))"

fun q_step :: "int \<Rightarrow> 'a qpc \<Rightarrow> 'a lfq \<Rightarrow> 'a qpc \<times> 'a lfq" where
  "q_step malloc (EnqCheck x) q = (if m_maxQCount q < m_count q then Fault CrashCall else EnqAlloc x, q)"
| "q_step malloc (EnqAlloc x) q = (EnqData malloc x, pool_alloc malloc q)"
| "q_step malloc (EnqData a x) q =
     (case deref q a of Inl e \<Rightarrow> (Fault e, q) | Inr nd \<Rightarrow> (EnqTicket a, put_node a (nd\<lparr>m_data := Some x\<rparr>) q))"
| "q_step malloc (EnqTicket a) q = (let v = to_int64 (m_rearID q + 1) in (EnqMark a v, q\<lparr>m_rearID := v\<rparr>))"
| "q_step malloc (EnqMark a v) q =
     (case deref q a of Inl e \<Rightarrow> (Fault e, q) | Inr nd \<Rightarrow> (EnqRearPtr a, put_node a (nd\<lparr>m_next := v\<rparr>) q))"
| "q_step malloc (EnqRearPtr a) q = (EnqRearID a (m_nodePtr (m_rearCheck q)), q)"
| "q_step malloc (EnqRearID a p) q = (EnqCas1 a p (m_checkID (m_rearCheck q)), q)"
| "q_step malloc (EnqCas1 a p n) q =
     (case deref q p of
        Inl e \<Rightarrow> (Fault e, q)
      | Inr nd \<Rightarrow> if m_next nd = n then (EnqReadNext a p n, put_node p (nd\<lparr>m_next := a\<rparr>) q)
                 else (EnqHelp a p n, q))"
| "q_step malloc (EnqHelp a p n) q =
     (case deref q p of
        Inl e \<Rightarrow> (Fault e, q)
      | Inr nd \<Rightarrow> (if m_next nd \<ge> KERNEL_ADDRESS then EnqRearPtr a else EnqHelpNext a p n (m_next nd), q))"
| "q_step malloc (EnqHelpNext a p n c) q =
     (case deref q c of Inl e \<Rightarrow> (Fault e, q) | Inr nd \<Rightarrow> (EnqHelpCas a p n c (m_next nd), q))"
| "q_step malloc (EnqHelpCas a p n c d) q =
     (let (ok, old, cur) = cas128 \<lparr>m_nodePtr = c, m_checkID = d\<rparr> \<lparr>m_nodePtr = p, m_checkID = n\<rparr> (m_rearCheck q)
      in (EnqRearPtr a, q\<lparr>m_rearCheck := cur\<rparr>))"
| "q_step malloc (EnqReadNext a p n) q =
     (case deref q a of Inl e \<Rightarrow> (Fault e, q) | Inr nd \<Rightarrow> (EnqCas2 a p n (m_next nd), q))"
| "q_step malloc (EnqCas2 a p n v) q =
     (let (ok, old, cur) = cas128 \<lparr>m_nodePtr = a, m_checkID = v\<rparr> \<lparr>m_nodePtr = p, m_checkID = n\<rparr> (m_rearCheck q)
      in (EnqCount, q\<lparr>m_rearCheck := cur\<rparr>))"
| "q_step malloc EnqCount q = (EnqDone, q\<lparr>m_count := to_int32 (m_count q + 1)\<rparr>)"
| "q_step malloc DeqReserve q =
     (let c = to_int32 (m_count q - 1) in (if c < 0 then DeqUndo else DeqFrontPtr, q\<lparr>m_count := c\<rparr>))"
| "q_step malloc DeqUndo q = (DeqFailed, q\<lparr>m_count := to_int32 (m_count q + 1)\<rparr>)"
| "q_step malloc DeqFrontPtr q = (DeqFrontID (m_nodePtr (m_frontCheck q)), q)"
| "q_step malloc (DeqFrontID p) q = (DeqNext p (m_checkID (m_frontCheck q)), q)"
| "q_step malloc (DeqNext p n) q =
     (case deref q p of
        Inl e \<Rightarrow> (Fault e, q)
      | Inr nd \<Rightarrow> (if m_next nd \<ge> KERNEL_ADDRESS then DeqNext p n else DeqData p n (m_next nd), q))"
| "q_step malloc (DeqData p n c) q =
     (case deref q c of Inl e \<Rightarrow> (Fault e, q) | Inr nd \<Rightarrow> (DeqCas p n c (m_data nd), q))"
| "q_step malloc (DeqCas p n c x) q =
     (let (ok, old, cur) = cas128 \<lparr>m_nodePtr = c, m_checkID = to_int64 (n + 1)\<rparr> \<lparr>m_nodePtr = p, m_checkID = n\<rparr> (m_frontCheck q)
      in (if ok then DeqTPS p x else DeqNext (m_nodePtr old) (m_checkID old), q\<lparr>m_frontCheck := cur\<rparr>))"
| "q_step malloc (DeqTPS p x) q = (DeqFree p x, q\<lparr>m_deQTPS := to_int32 (m_deQTPS q + 1)\<rparr>)"
| "q_step malloc (DeqFree p x) q = (DeqDone x, pool_free p q)"
| "q_step malloc pc q = (pc, q)"

section \<open>A thread alone\<close>

fun q_run :: "nat \<Rightarrow> int \<Rightarrow> 'a qpc \<Rightarrow> 'a lfq \<Rightarrow> 'a qpc \<times> 'a lfq" where
  "q_run 0 malloc pc q = (pc, q)"
| "q_run (Suc fuel) malloc pc q = (case q_step malloc pc q of (pc', q') \<Rightarrow> q_run fuel malloc pc' q')"

text \<open>Eleven steps of \<open>EnQ\<close> and eight of \<open>DeQ\<close> are enough (\<open>EnQ_alone\<close>, \<open>DeQ_alone\<close>).\<close>

definition EnQ :: "int \<Rightarrow> 'a \<Rightarrow> 'a lfq \<Rightarrow> 'a qpc \<times> 'a lfq" where
  "EnQ malloc x q = q_run 12 malloc (EnqCheck x) q"

definition DeQ :: "'a lfq \<Rightarrow> 'a qpc \<times> 'a lfq" where
  "DeQ q = q_run 12 0 DeqReserve q"

text \<open>
  The list in memory: from the front (the dummy) \<open>p\<close> over the nodes \<open>ps\<close> to the rear, whose next
  pointer is the number kept beside the rear pointer.
\<close>

fun linked :: "'a lfq \<Rightarrow> int \<Rightarrow> int list \<Rightarrow> bool" where
  "linked q p [] = (m_nodePtr (m_rearCheck q) = p \<and>
     (\<exists>nd. qnodes q p = Some nd \<and> m_next nd = m_checkID (m_rearCheck q)))"
| "linked q p (p' # ps) = ((\<exists>nd. qnodes q p = Some nd \<and> m_next nd = p') \<and> linked q p' ps)"

definition node_data :: "'a lfq \<Rightarrow> int \<Rightarrow> 'a option" where
  "node_data q p = (case qnodes q p of None \<Rightarrow> None | Some nd \<Rightarrow> m_data nd)"

definition queue_inv :: "'a lfq \<Rightarrow> int list \<Rightarrow> bool" where
  "queue_inv q ps \<longleftrightarrow> linked q (m_nodePtr (m_frontCheck q)) ps \<and>
     distinct (m_nodePtr (m_frontCheck q) # ps) \<and> set (m_nodePtr (m_frontCheck q) # ps) = qused q \<and>
     (\<forall>p \<in> qused q. 0 < p \<and> p < KERNEL_ADDRESS) \<and> (\<forall>p \<in> set ps. node_data q p \<noteq> None) \<and>
     KERNEL_ADDRESS \<le> m_checkID (m_rearCheck q) \<and> KERNEL_ADDRESS \<le> m_rearID q \<and> m_rearID q < 2 ^ 63 \<and>
     m_count q = int (length ps) \<and> m_count q \<le> m_maxQCount q \<and> m_count q < 2 ^ 31 - 1"

definition contents :: "'a lfq \<Rightarrow> int list \<Rightarrow> 'a list" where
  "contents q ps = map (\<lambda>p. the (node_data q p)) ps"

lemma queue_invD:
  assumes "queue_inv q ps"
  shows "linked q (m_nodePtr (m_frontCheck q)) ps" "distinct (m_nodePtr (m_frontCheck q) # ps)"
    "set (m_nodePtr (m_frontCheck q) # ps) = qused q" "p \<in> qused q \<Longrightarrow> 0 < p \<and> p < KERNEL_ADDRESS"
    "p \<in> set ps \<Longrightarrow> node_data q p \<noteq> None" "KERNEL_ADDRESS \<le> m_checkID (m_rearCheck q)"
    "KERNEL_ADDRESS \<le> m_rearID q" "m_count q = int (length ps)" "m_count q \<le> m_maxQCount q"
    "m_count q < 2 ^ 31 - 1" "m_rearID q < 2 ^ 63"
  using assms by (auto simp: queue_inv_def)

lemma linked_rear:
  "linked q p ps \<Longrightarrow> m_nodePtr (m_rearCheck q) \<in> set (p # ps) \<and>
    (\<exists>nd. qnodes q (m_nodePtr (m_rearCheck q)) = Some nd \<and> m_next nd = m_checkID (m_rearCheck q))"
  by (induction ps arbitrary: p) auto

lemma linked_cong:
  "linked q p ps \<Longrightarrow> m_rearCheck q' = m_rearCheck q \<Longrightarrow> (\<And>x. x \<in> set (p # ps) \<Longrightarrow> qnodes q' x = qnodes q x) \<Longrightarrow>
    linked q' p ps"
  by (induction ps arbitrary: p) auto

lemma linked_snoc:
  assumes "linked q p ps" "distinct (p # ps)" "r = m_nodePtr (m_rearCheck q)"
    and "\<And>x. x \<in> set (p # ps) \<Longrightarrow> x \<noteq> r \<Longrightarrow> qnodes q' x = qnodes q x"
    and "qnodes q' r = Some nd" "m_next nd = a"
    and "m_nodePtr (m_rearCheck q') = a" "qnodes q' a = Some nda" "m_next nda = m_checkID (m_rearCheck q')"
  shows "linked q' p (ps @ [a])"
  using assms
proof (induction ps arbitrary: p)
  case (Cons p' ps)
  have r: "r \<in> set (p' # ps)" using linked_rear [of q p' ps] Cons.prems(1,3) by simp
  then have "p \<noteq> r" using Cons.prems(2) by auto
  moreover have "linked q' p' (ps @ [a])"
    using Cons.prems by (intro Cons.IH) auto
  ultimately show ?case using Cons.prems(1,4) by auto
qed auto

lemma deref_node: "0 < p \<Longrightarrow> qnodes q p = Some nd \<Longrightarrow> deref q p = Inr nd"
  by (simp add: deref_def)

text \<open>\<open>EnQ\<close> alone, as one update of the state.\<close>

lemma EnQ_alone:
  assumes inv: "queue_inv q ps" and a: "a \<notin> qused q" "0 < a" and ticket: "m_rearID q < 2 ^ 63 - 1"
  shows "\<exists>nd. qnodes q (m_nodePtr (m_rearCheck q)) = Some nd \<and> EnQ a x q = (EnqDone,
    q\<lparr>qnodes := (qnodes q)(a \<mapsto> \<lparr>m_data = Some x, m_next = m_rearID q + 1\<rparr>,
        m_nodePtr (m_rearCheck q) \<mapsto> nd\<lparr>m_next := a\<rparr>), qused := insert a (qused q), m_rearID := m_rearID q + 1,
      m_rearCheck := \<lparr>m_nodePtr = a, m_checkID = m_rearID q + 1\<rparr>, m_count := m_count q + 1\<rparr>)"
proof -
  let ?r = "m_nodePtr (m_rearCheck q)" and ?n = "m_checkID (m_rearCheck q)"
  note i = queue_invD [OF inv]
  obtain nd where nd: "qnodes q ?r = Some nd" "m_next nd = ?n" and r: "?r \<in> qused q"
    using linked_rear [OF i(1)] unfolding i(3) by blast
  have ra: "?r \<noteq> a" "0 < ?r" using r a i(4) by auto
  have c: "to_int32 (m_count q + 1) = m_count q + 1" "\<not> m_maxQCount q < m_count q"
    using i(8-10) by (auto intro!: to_int32_id)
  have v: "to_int64 (m_rearID q + 1) = m_rearID q + 1"
    using i(7) ticket by (intro to_int64_id) (simp_all add: KERNEL_ADDRESS_def)
  have "m_rearCheck q = \<lparr>m_nodePtr = ?r, m_checkID = ?n\<rparr>" by simp
  then show ?thesis
    using nd ra a c
    by (intro exI [of _ nd]) (simp add: v Let_def EnQ_def numeral_eq_Suc pool_alloc_def put_node_def deref_def cas128_def fun_upd_twist)
qed

lemma queue_invI:
  assumes "m_nodePtr (m_frontCheck q) = f" "linked q f ps" "distinct (f # ps)" "set (f # ps) = U" "qused q = U"
    and "\<And>p. p \<in> U \<Longrightarrow> 0 < p \<and> p < KERNEL_ADDRESS" "\<And>p. p \<in> set ps \<Longrightarrow> node_data q p \<noteq> None"
    and "KERNEL_ADDRESS \<le> m_checkID (m_rearCheck q)" "KERNEL_ADDRESS \<le> m_rearID q" "m_count q = int (length ps)"
    and "m_count q \<le> m_maxQCount q" "m_count q < 2 ^ 31 - 1" "m_rearID q < 2 ^ 63"
  shows "queue_inv q ps"
  unfolding queue_inv_def using assms by (intro conjI ballI) simp_all

lemma EnQ_keeps:
  assumes inv: "queue_inv q ps" and a: "a \<notin> qused q" "0 < a" "a < KERNEL_ADDRESS"
    and room: "m_count q < m_maxQCount q" "m_count q < 2 ^ 31 - 2" "m_rearID q < 2 ^ 63 - 1"
  shows "\<exists>q'. EnQ a x q = (EnqDone, q') \<and> queue_inv q' (ps @ [a]) \<and> contents q' (ps @ [a]) = contents q ps @ [x] \<and>
    m_maxQCount q' = m_maxQCount q"
proof -
  let ?f = "m_nodePtr (m_frontCheck q)" and ?r = "m_nodePtr (m_rearCheck q)"
  note i = queue_invD [OF inv]
  obtain nd where nd: "qnodes q ?r = Some nd" and run: "EnQ a x q = (EnqDone,
    q\<lparr>qnodes := (qnodes q)(a \<mapsto> \<lparr>m_data = Some x, m_next = m_rearID q + 1\<rparr>, ?r \<mapsto> nd\<lparr>m_next := a\<rparr>),
      qused := insert a (qused q), m_rearID := m_rearID q + 1,
      m_rearCheck := \<lparr>m_nodePtr = a, m_checkID = m_rearID q + 1\<rparr>, m_count := m_count q + 1\<rparr>)" (is "_ = (_, ?q)")
    using EnQ_alone [OF inv a(1,2) room(3)] by blast
  have r: "?r \<in> qused q" using linked_rear [OF i(1)] unfolding i(3) by blast
  have out: "a \<notin> set (?f # ps)" "?r \<noteq> a" using a(1) r unfolding i(3) by auto
  have data: "node_data ?q p = (if p = a then Some x else node_data q p)" for p
    using nd out by (auto simp: node_data_def)
  have "queue_inv ?q (ps @ [a])"
  proof (rule queue_invI [where f = ?f and U = "insert a (qused q)"])
    show "linked ?q ?f (ps @ [a])"
      using out by (intro linked_snoc [OF i(1,2) refl, where nd = "nd\<lparr>m_next := a\<rparr>"]) auto
    show "set (?f # ps @ [a]) = insert a (qused q)" unfolding i(3) [symmetric] by auto
    show "distinct (?f # ps @ [a])" using i(2) out by auto
    show "0 < p \<and> p < KERNEL_ADDRESS" if "p \<in> insert a (qused q)" for p using that i(4) a by auto
    show "node_data ?q p \<noteq> None" if "p \<in> set (ps @ [a])" for p using that data i(5) by auto
  qed (use i(7,8) room in simp_all)
  moreover have "contents ?q (ps @ [a]) = contents q ps @ [x]"
    using out data by (auto simp: contents_def)
  ultimately show ?thesis using run by (intro exI [of _ ?q]) simp
qed

lemma DeQ_keeps:
  assumes inv: "queue_inv q (c # ps)"
  shows "\<exists>q'. DeQ q = (DeqDone (node_data q c), q') \<and> queue_inv q' ps \<and>
    contents q (c # ps) = the (node_data q c) # contents q' ps \<and> m_maxQCount q' = m_maxQCount q"
proof -
  let ?f = "m_nodePtr (m_frontCheck q)" and ?n = "m_checkID (m_frontCheck q)"
  note i = queue_invD [OF inv]
  have f: "0 < ?f" "0 < c" "c < KERNEL_ADDRESS" using i(4) [of ?f] i(4) [of c] unfolding i(3) [symmetric] by auto
  obtain nd ndc where nd: "qnodes q ?f = Some nd" "m_next nd = c" "qnodes q c = Some ndc"
    using i(1) by (cases ps) auto
  have c: "to_int32 (m_count q - 1) = m_count q - 1" "\<not> m_count q - 1 < 0"
    using i(8,10) by (auto intro!: to_int32_id)
  let ?q = "q\<lparr>qused := qused q - {?f}, m_frontCheck := \<lparr>m_nodePtr = c, m_checkID = to_int64 (?n + 1)\<rparr>, m_count := m_count q - 1,
    m_deQTPS := to_int32 (m_deQTPS q + 1)\<rparr>"
  have "m_frontCheck q = \<lparr>m_nodePtr = ?f, m_checkID = ?n\<rparr>" by simp
  then have run: "DeQ q = (DeqDone (node_data q c), ?q)"
    using f nd c by (simp add: DeQ_def numeral_eq_Suc deref_def cas128_def pool_free_def node_data_def Let_def)
  have d: "node_data ?q p = node_data q p" for p by (simp add: node_data_def)
  have "queue_inv ?q ps"
  proof (rule queue_invI [where f = c and U = "qused q - {?f}"])
    show "linked ?q c ps" by (rule linked_cong [of q]) (use i(1) in auto)
    show "set (c # ps) = qused q - {?f}" using i(2) unfolding i(3) [symmetric] by auto
    show "0 < p \<and> p < KERNEL_ADDRESS" if "p \<in> qused q - {?f}" for p using that i(4) by auto
    show "node_data ?q p \<noteq> None" if "p \<in> set ps" for p using that i(5) d by auto
  qed (use i(2,6-11) in simp_all)
  moreover have "contents q (c # ps) = the (node_data q c) # contents ?q ps" by (simp add: contents_def d)
  ultimately show ?thesis using run by (intro exI [of _ ?q]) simp
qed

lemma DeQ_empty:
  assumes "queue_inv q []"
  shows "DeQ q = (DeqFailed, q)"
proof -
  have "m_count q = 0" using queue_invD(8) [OF assms] by simp
  then have "q\<lparr>m_count := 0\<rparr> = q" by simp
  with \<open>m_count q = 0\<close> show ?thesis by (simp add: DeQ_def numeral_eq_Suc Let_def to_int32_def)
qed

text \<open>
  Sequences of operations by one thread: \<open>Inl (a, x)\<close> enqueues \<open>x\<close> (with the node address the pool
  would return), \<open>Inr ()\<close> dequeues. \<open>queue_run\<close> gives for every call the place where it ended:
  \<open>EnqDone\<close>, \<open>DeqDone\<close> with what was dequeued and \<open>DeqFailed\<close> are the returns of the code, a fault or a
  place inside the code (a call that has not ended) would show as such.
\<close>

fun queue_run :: "(int \<times> 'a + unit) list \<Rightarrow> 'a lfq \<Rightarrow> 'a qpc list \<times> 'a lfq" where
  "queue_run [] q = ([], q)"
| "queue_run (op # ops) q =
     (case (case op of Inl (a, x) \<Rightarrow> EnQ a x q | Inr _ \<Rightarrow> DeQ q) of (pc, q') \<Rightarrow>
        case queue_run ops q' of (pcs, q'') \<Rightarrow> (pc # pcs, q''))"

text \<open>The specification, a plain list: every enqueue returns, a dequeue fails on the empty list only.\<close>

fun list_run :: "(int \<times> 'a + unit) list \<Rightarrow> 'a list \<Rightarrow> 'a qpc list \<times> 'a list" where
  "list_run [] xs = ([], xs)"
| "list_run (Inl (a, x) # ops) xs = (case list_run ops (xs @ [x]) of (pcs, ys) \<Rightarrow> (EnqDone # pcs, ys))"
| "list_run (Inr _ # ops) xs =
     (case xs of [] \<Rightarrow> (case list_run ops [] of (pcs, ys) \<Rightarrow> (DeqFailed # pcs, ys))
      | x # xs' \<Rightarrow> (case list_run ops xs' of (pcs, ys) \<Rightarrow> (DeqDone (Some x) # pcs, ys)))"

text \<open>
  What the pool and the bounds have to allow for a sequence: fresh node addresses, room, and
  numbers that have not run through 63 bits.
\<close>

fun fresh_ops :: "(int \<times> 'a + unit) list \<Rightarrow> 'a lfq \<Rightarrow> bool" where
  "fresh_ops [] q = True"
| "fresh_ops (Inl (a, x) # ops) q =
     (a \<notin> qused q \<and> 0 < a \<and> a < KERNEL_ADDRESS \<and> m_count q < m_maxQCount q \<and> m_count q < 2 ^ 31 - 2 \<and>
      m_rearID q < 2 ^ 63 - 1 \<and> fresh_ops ops (snd (EnQ a x q)))"
| "fresh_ops (Inr _ # ops) q = fresh_ops ops (snd (DeQ q))"

lemma queue_run_list:
  assumes "queue_inv q ps" "fresh_ops ops q"
  shows "\<exists>q' ps'. queue_run ops q = (fst (list_run ops (contents q ps)), q') \<and> queue_inv q' ps' \<and>
    contents q' ps' = snd (list_run ops (contents q ps))"
  using assms
proof (induction ops arbitrary: q ps)
  case (Cons op ops)
  show ?case
  proof (cases op)
    case (Inl ax)
    obtain a x where ax: "ax = (a, x)" by (cases ax)
    from Cons.prems(2) Inl ax have f: "a \<notin> qused q" "0 < a" "a < KERNEL_ADDRESS" "m_count q < m_maxQCount q"
      "m_count q < 2 ^ 31 - 2" "m_rearID q < 2 ^ 63 - 1" "fresh_ops ops (snd (EnQ a x q))" by simp_all
    obtain q1 where q1: "EnQ a x q = (EnqDone, q1)" "queue_inv q1 (ps @ [a])" "contents q1 (ps @ [a]) = contents q ps @ [x]"
      using EnQ_keeps [OF Cons.prems(1) f(1-6)] by blast
    from Cons.IH [OF q1(2)] f(7) q1(1,3) show ?thesis by (auto simp: Inl ax split: prod.splits)
  next
    case (Inr u)
    show ?thesis
    proof (cases ps)
      case Nil
      then have "DeQ q = (DeqFailed, q)" using DeQ_empty Cons.prems(1) by simp
      with Cons.IH [OF Cons.prems(1)] Cons.prems(2) Inr Nil show ?thesis
        by (auto simp: contents_def split: prod.splits)
    next
      case (Cons c ps')
      obtain q1 where q1: "DeQ q = (DeqDone (node_data q c), q1)" "queue_inv q1 ps'"
        "contents q ps = the (node_data q c) # contents q1 ps'"
        using DeQ_keeps [of q c ps'] Cons.prems(1) Cons by blast
      have "node_data q c = Some (the (node_data q c))"
        using queue_invD(5) [OF Cons.prems(1), of c] Cons by auto
      with Cons.IH [OF q1(2)] Cons.prems(2) Inr q1 show ?thesis
        by (auto split: prod.splits)
    qed
  qed
qed auto

section \<open>Interleavings\<close>

record 'a qsys =
  que :: "'a lfq"
  qpcs :: "'a qpc list"

fun busy :: "'a qpc \<Rightarrow> bool" where
  "busy Idle = False"
| "busy EnqDone = False"
| "busy DeqFailed = False"
| "busy (DeqDone _) = False"
| "busy (Fault _) = False"
| "busy _ = True"

fun returned :: "'a qpc \<Rightarrow> bool" where
  "returned EnqDone = True"
| "returned DeqFailed = True"
| "returned (DeqDone _) = True"
| "returned _ = False"

inductive qstep :: "'a qsys \<Rightarrow> 'a qsys \<Rightarrow> bool" where
  call_enq: "t < length (qpcs s) \<Longrightarrow> qpcs s ! t = Idle \<Longrightarrow> qstep s (s\<lparr>qpcs := (qpcs s)[t := EnqCheck x]\<rparr>)"
| call_deq: "t < length (qpcs s) \<Longrightarrow> qpcs s ! t = Idle \<Longrightarrow> qstep s (s\<lparr>qpcs := (qpcs s)[t := DeqReserve]\<rparr>)"
| inside: "t < length (qpcs s) \<Longrightarrow> busy (qpcs s ! t) \<Longrightarrow> malloc \<notin> qused (que s) \<Longrightarrow> 0 < malloc \<Longrightarrow>
    malloc < KERNEL_ADDRESS \<Longrightarrow> q_step malloc (qpcs s ! t) (que s) = (pc, q) \<Longrightarrow>
    qstep s (s\<lparr>que := q, qpcs := (qpcs s)[t := pc]\<rparr>)"
| ret: "t < length (qpcs s) \<Longrightarrow> returned (qpcs s ! t) \<Longrightarrow> qstep s (s\<lparr>qpcs := (qpcs s)[t := Idle]\<rparr>)"

inductive qreach :: "nat \<Rightarrow> 'a qsys \<Rightarrow> bool" for n where
  start: "0 < a \<Longrightarrow> a < KERNEL_ADDRESS \<Longrightarrow>
    qreach n \<lparr>que = LockFreeQ_new a (2 ^ 31 - 1), qpcs = replicate n Idle\<rparr>"
| step: "qreach n s \<Longrightarrow> qstep s s' \<Longrightarrow> qreach n s'"

datatype 'a act = CallEnq nat 'a | CallDeq nat | Run nat int | Return nat

fun sched_step :: "'a act \<Rightarrow> 'a qsys \<Rightarrow> 'a qsys option" where
  "sched_step (CallEnq t x) s =
     (if t < length (qpcs s) \<and> (case qpcs s ! t of Idle \<Rightarrow> True | _ \<Rightarrow> False)
      then Some (s\<lparr>qpcs := (qpcs s)[t := EnqCheck x]\<rparr>) else None)"
| "sched_step (CallDeq t) s =
     (if t < length (qpcs s) \<and> (case qpcs s ! t of Idle \<Rightarrow> True | _ \<Rightarrow> False)
      then Some (s\<lparr>qpcs := (qpcs s)[t := DeqReserve]\<rparr>) else None)"
| "sched_step (Run t malloc) s =
     (if t < length (qpcs s) \<and> busy (qpcs s ! t) \<and> malloc \<notin> qused (que s) \<and> 0 < malloc \<and> malloc < KERNEL_ADDRESS
      then (case q_step malloc (qpcs s ! t) (que s) of (pc, q) \<Rightarrow> Some (s\<lparr>que := q, qpcs := (qpcs s)[t := pc]\<rparr>))
      else None)"
| "sched_step (Return t) s =
     (if t < length (qpcs s) \<and> returned (qpcs s ! t) then Some (s\<lparr>qpcs := (qpcs s)[t := Idle]\<rparr>) else None)"

fun sched :: "'a act list \<Rightarrow> 'a qsys \<Rightarrow> 'a qsys option" where
  "sched [] s = Some s"
| "sched (a # as) s = (case sched_step a s of None \<Rightarrow> None | Some s' \<Rightarrow> sched as s')"

lemma sched_append: "sched (as @ bs) s = (case sched as s of None \<Rightarrow> None | Some s' \<Rightarrow> sched bs s')"
  by (induction as arbitrary: s) (auto split: option.split)

lemma queue_sched_step_sound: "sched_step a s = Some s' \<Longrightarrow> qstep s s'"
  by (cases a) (auto split: if_splits qpc.splits prod.splits intro: qstep.intros)

lemma queue_sched_sound: "sched as s = Some s' \<Longrightarrow> qreach n s \<Longrightarrow> qreach n s'"
  by (induction as arbitrary: s) (auto split: option.splits intro: qreach.step dest: queue_sched_step_sound)

lemmas queue_sched_simps = LockFreeQ_new_def KERNEL_ADDRESS_def pool_alloc_def pool_free_def put_node_def deref_def
  cas128_def to_int32_def to_int64_def Let_def nth_Cons' numeral_eq_Suc

text \<open>A whole \<open>EnQ\<close> of thread \<open>t\<close> with node \<open>a\<close>, and a whole \<open>DeQ\<close>.\<close>

definition enq_acts :: "nat \<Rightarrow> int \<Rightarrow> 'a \<Rightarrow> 'a act list" where
  "enq_acts t a x = [CallEnq t x, Run t 9, Run t a, Run t 9, Run t 9, Run t 9, Run t 9, Run t 9, Run t 9, Run t 9, Run t 9,
     Run t 9, Return t]"

definition deq_acts :: "nat \<Rightarrow> 'a act list" where
  "deq_acts t = [CallDeq t, Run t 9, Run t 9, Run t 9, Run t 9, Run t 9, Run t 9, Run t 9, Run t 9, Return t]"

lemma deq_race:
  "\<exists>q. sched (enq_acts 1 2 x @ enq_acts 1 3 y @ [CallDeq 0, Run 0 9, Run 0 9, Run 0 9] @ deq_acts 1 @
      [CallEnq 1 z, Run 1 9, Run 1 1, Run 0 9, Run 0 9])
    \<lparr>que = LockFreeQ_new 1 (2 ^ 31 - 1), qpcs = replicate 2 Idle\<rparr> = Some \<lparr>que = q, qpcs = [Fault NullDeref, EnqData 1 z]\<rparr>"
  by (simp add: sched_append enq_acts_def deq_acts_def queue_sched_simps)

lemma enq_race:
  "\<exists>q. sched ([CallEnq 0 x, Run 0 9, Run 0 2, Run 0 9, Run 0 9, Run 0 9, Run 0 9, Run 0 9] @ enq_acts 1 3 y @ deq_acts 2 @
      [CallEnq 1 z, Run 1 9, Run 1 1, Run 0 9, Run 0 9, Run 0 9])
    \<lparr>que = LockFreeQ_new 1 (2 ^ 31 - 1), qpcs = replicate 3 Idle\<rparr>
    = Some \<lparr>que = q, qpcs = [Fault NullDeref, EnqData 1 z, Idle]\<rparr>"
  by (simp add: sched_append enq_acts_def deq_acts_def queue_sched_simps)

section \<open>Properties\<close>

text \<open>
  C24. For a thread alone, \<open>LockFreeQ\<close> is a first-in first-out queue: over any sequence of \<open>EnQ\<close> and
  \<open>DeQ\<close> calls (fresh nodes, room below the bound) every call ends within twelve accesses and
  without a fault; every \<open>EnQ\<close> returns, every \<open>DeQ\<close> on a queue that is not empty returns the oldest
  element, on the empty queue it fails, and the elements left are those of the list.
\<close>

theorem lone_thread_sees_a_fifo:
  assumes "0 < a" "a < KERNEL_ADDRESS" "fresh_ops ops (LockFreeQ_new a (2 ^ 31 - 1))"
  shows "\<exists>q ps. queue_run ops (LockFreeQ_new a (2 ^ 31 - 1)) = (fst (list_run ops []), q) \<and> queue_inv q ps \<and>
    contents q ps = snd (list_run ops [])"
proof -
  have "queue_inv (LockFreeQ_new a (2 ^ 31 - 1)) []"
    using assms(1,2) by (simp add: queue_inv_def LockFreeQ_new_def to_int32_def KERNEL_ADDRESS_def)
  from queue_run_list [OF this assms(3)] show ?thesis by (simp add: contents_def)
qed

theorem lone_thread_sees_a_fifo_witness:
  "\<exists>q ps. queue_run [Inl (2, CHR ''a''), Inl (3, CHR ''b''), Inr (), Inr (), Inr ()] (LockFreeQ_new 1 (2 ^ 31 - 1)) =
    ([EnqDone, EnqDone, DeqDone (Some (CHR ''a'')), DeqDone (Some (CHR ''b'')), DeqFailed], q) \<and> queue_inv q ps \<and>
    contents q ps = []"
  using lone_thread_sees_a_fifo [of 1 "[Inl (2, CHR ''a''), Inl (3, CHR ''b''), Inr (), Inr (), Inr ()]"]
  by (simp add: LockFreeQ_new_def KERNEL_ADDRESS_def EnQ_def numeral_eq_Suc pool_alloc_def put_node_def deref_def
      cas128_def to_int32_def to_int64_def Let_def)

text \<open>
  C39. \<open>DeQ\<close> can read through a null pointer: while a consumer holds a stale front pointer, another
  consumer dequeues that node, the pool hands it to a producer, and its constructor sets the
  next pointer to null, which the first consumer takes for a node.
\<close>

theorem DeQ_null_dereference:
  "\<exists>acts (s :: nat qsys). sched acts \<lparr>que = LockFreeQ_new 1 (2 ^ 31 - 1), qpcs = replicate 2 Idle\<rparr> = Some s \<and> qreach 2 s \<and>
    list_all (\<lambda>a. case a of CallEnq t x \<Rightarrow> t = 1 | _ \<Rightarrow> True) acts \<and> qpcs s ! 0 = Fault NullDeref"
proof -
  let ?acts = "enq_acts 1 2 0 @ enq_acts 1 3 0 @ [CallDeq 0, Run 0 9, Run 0 9, Run 0 9] @ deq_acts 1 @
      [CallEnq 1 0, Run 1 9, Run 1 1, Run 0 9, Run 0 9] :: nat act list"
  have r: "qreach 2 (\<lparr>que = LockFreeQ_new 1 (2 ^ 31 - 1), qpcs = replicate 2 Idle\<rparr> :: nat qsys)"
    by (rule qreach.start) (simp_all add: KERNEL_ADDRESS_def)
  obtain q where "sched ?acts \<lparr>que = LockFreeQ_new 1 (2 ^ 31 - 1), qpcs = replicate 2 Idle\<rparr>
      = Some \<lparr>que = q, qpcs = [Fault NullDeref, EnqData 1 0]\<rparr>"
    using deq_race [of "0 :: nat" 0 0] by (elim exE)
  with queue_sched_sound [OF this r] show ?thesis
    by (intro exI [of _ ?acts] exI conjI) (assumption | simp add: enq_acts_def deq_acts_def)+
qed

text \<open>
  \<open>EnQ\<close> has the same defect with a single consumer, as the send queue of a session is used: a
  producer with a stale rear pointer fails its first exchange because the node was dequeued
  and is being constructed for another producer, reads null as its successor, and reads
  through it.
\<close>

theorem EnQ_null_dereference:
  "\<exists>acts (s :: nat qsys). sched acts \<lparr>que = LockFreeQ_new 1 (2 ^ 31 - 1), qpcs = replicate 3 Idle\<rparr> = Some s \<and> qreach 3 s \<and>
    list_all (\<lambda>a. case a of CallDeq t \<Rightarrow> t = 2 | CallEnq t x \<Rightarrow> t < 2 | _ \<Rightarrow> True) acts \<and> qpcs s ! 0 = Fault NullDeref"
proof -
  let ?acts = "[CallEnq 0 0, Run 0 9, Run 0 2, Run 0 9, Run 0 9, Run 0 9, Run 0 9, Run 0 9] @ enq_acts 1 3 0 @ deq_acts 2 @
      [CallEnq 1 0, Run 1 9, Run 1 1, Run 0 9, Run 0 9, Run 0 9] :: nat act list"
  have r: "qreach 3 (\<lparr>que = LockFreeQ_new 1 (2 ^ 31 - 1), qpcs = replicate 3 Idle\<rparr> :: nat qsys)"
    by (rule qreach.start) (simp_all add: KERNEL_ADDRESS_def)
  obtain q where "sched ?acts \<lparr>que = LockFreeQ_new 1 (2 ^ 31 - 1), qpcs = replicate 3 Idle\<rparr>
      = Some \<lparr>que = q, qpcs = [Fault NullDeref, EnqData 1 0, Idle]\<rparr>"
    using enq_race [of "0 :: nat" 0 0] by (elim exE)
  with queue_sched_sound [OF this r] show ?thesis
    by (intro exI [of _ ?acts] exI conjI) (assumption | simp add: enq_acts_def deq_acts_def)+
qed

end
