(* ===== verification/Memory_Pool.thy ===== *)
theory Memory_Pool
  imports MMO_Prelude "HOL-Library.Multiset"
begin

text \<open>
  The pooled allocator: \<^verbatim>\<open>PointerStack\<close> (ServerCore/Utill/PointerStack.h), \<^verbatim>\<open>ChunkPage\<close> and
  \<^verbatim>\<open>CalcSlotCount\<close> (ServerCore/Memory/Chunk.h), \<^verbatim>\<open>ObjectPool\<close> (ObjectPool.h), \<^verbatim>\<open>MemoryPool\<close> and
  \<^verbatim>\<open>MyAllocator\<close> (MemoryPool.h and .cpp). A thread allocates from its own chunk and falls back to
  slots it recycled, to a batch from the global stack and to a new chunk; a slot goes back to
  its chunk when the thread that allocated it frees it and to the freeing thread's recycle
  stack otherwise. Here the calls come one at a time, each by any thread; \<open>Pool_Threads\<close> is the
  model of calls that overlap. Proved, for calls that do not overlap: a slot is never handed out
  twice, what the stack and the size classes do on every input, and the leaks and the
  unsynchronised access the design has.
\<close>

section \<open>PointerStack\<close>

record 'a PointerStack =
  m_top :: int
  m_stack :: "'a list"

definition PointerStack_new :: "nat \<Rightarrow> 'a \<Rightarrow> 'a PointerStack" where
  "PointerStack_new n x = \<lparr>m_top = 0, m_stack = replicate n x\<rparr>"

definition Empty :: "'a PointerStack \<Rightarrow> bool" where
  "Empty ps \<longleftrightarrow> m_top ps = 0"

definition Full :: "'a PointerStack \<Rightarrow> bool" where
  "Full ps \<longleftrightarrow> m_top ps > int (length (m_stack ps)) - 1"

definition Size :: "'a PointerStack \<Rightarrow> int" where
  "Size ps = m_top ps"

definition Push :: "'a \<Rightarrow> 'a PointerStack \<Rightarrow> bool \<times> 'a PointerStack" where
  "Push x ps =
     (if Full ps then (False, ps)
      else (True, ps\<lparr>m_stack := (m_stack ps)[nat (m_top ps) := x], m_top := m_top ps + 1\<rparr>))"

definition Pop :: "'a PointerStack \<Rightarrow> 'a option \<times> 'a PointerStack" where
  "Pop ps =
     (if m_top ps - 1 < 0 then (None, ps)
      else (Some (m_stack ps ! nat (m_top ps - 1)), ps\<lparr>m_top := m_top ps - 1\<rparr>))"

text \<open>The elements, oldest first, and the invariant.\<close>

definition items :: "'a PointerStack \<Rightarrow> 'a list" where
  "items ps = take (nat (m_top ps)) (m_stack ps)"

definition ps_inv :: "nat \<Rightarrow> 'a PointerStack \<Rightarrow> bool" where
  "ps_inv n ps \<longleftrightarrow> length (m_stack ps) = n \<and> 0 \<le> m_top ps \<and> m_top ps \<le> int n"

lemma PointerStack_new_items [simp]: "items (PointerStack_new n x) = []" "ps_inv n (PointerStack_new n x)"
  by (simp_all add: PointerStack_new_def items_def ps_inv_def)

lemma Push_items:
  assumes "ps_inv n ps"
  shows "Push x ps = (length (items ps) < n, snd (Push x ps))" "ps_inv n (snd (Push x ps))"
    "items (snd (Push x ps)) = (if length (items ps) < n then items ps @ [x] else items ps)"
proof -
  have l: "length (items ps) = nat (m_top ps)" using assms by (auto simp: items_def ps_inv_def)
  have "Full ps \<longleftrightarrow> \<not> length (items ps) < n" using assms by (auto simp: l Full_def ps_inv_def)
  then show "Push x ps = (length (items ps) < n, snd (Push x ps))" "ps_inv n (snd (Push x ps))"
    "items (snd (Push x ps)) = (if length (items ps) < n then items ps @ [x] else items ps)"
    using assms by (auto simp: Push_def l ps_inv_def items_def nat_add_distrib take_Suc_conv_app_nth)
qed

lemma Pop_items:
  assumes "ps_inv n ps"
  shows "Pop ps = (if items ps = [] then None else Some (last (items ps)), snd (Pop ps))"
    "ps_inv n (snd (Pop ps))" "items (snd (Pop ps)) = butlast (items ps)"
proof -
  have l: "length (items ps) = nat (m_top ps)" using assms by (auto simp: items_def ps_inv_def)
  then have e: "items ps = [] \<longleftrightarrow> m_top ps \<le> 0" by (metis length_0_conv nat_0_iff)
  have "Pop ps = (if items ps = [] then None else Some (last (items ps)), snd (Pop ps)) \<and>
    ps_inv n (snd (Pop ps)) \<and> items (snd (Pop ps)) = butlast (items ps)"
  proof (cases "m_top ps \<le> 0")
    case False
    then have "last (items ps) = m_stack ps ! nat (m_top ps - 1)" "butlast (items ps) = take (nat (m_top ps - 1)) (m_stack ps)"
      using assms l e by (auto simp: last_conv_nth items_def ps_inv_def butlast_take nat_diff_distrib)
    with False e assms show ?thesis by (auto simp: Pop_def ps_inv_def items_def)
  qed (use assms e in \<open>auto simp: Pop_def ps_inv_def items_def\<close>)
  then show "Pop ps = (if items ps = [] then None else Some (last (items ps)), snd (Pop ps))"
    "ps_inv n (snd (Pop ps))" "items (snd (Pop ps)) = butlast (items ps)" by blast+
qed

lemma Empty_items: "ps_inv n ps \<Longrightarrow> Empty ps \<longleftrightarrow> items ps = []"
  by (auto simp: Empty_def items_def ps_inv_def)

lemma Full_items: "ps_inv n ps \<Longrightarrow> Full ps \<longleftrightarrow> length (items ps) = n"
  by (auto simp: Full_def items_def ps_inv_def)

section \<open>Chunks and object pools\<close>

text \<open>
  A slot is named by the chunk whose array \<^verbatim>\<open>m_data\<close> holds it and its index there; a chunk by
  its number in the order the pool made them. \<open>m_recycledStackPool\<close> counts the stacks in the
  chunk's free list of stacks (\<^verbatim>\<open>FreeList::Alloc\<close> constructs what it returns, so their
  content does not matter); a thread is named by its \<^verbatim>\<open>m_cachedThreadID\<close>.
\<close>

type_synonym slot = "nat \<times> nat"

record ChunkMetadata =
  m_chunkOwner :: nat
  m_markValue :: int
  m_size :: nat
  m_allocThread :: nat

record ChunkPage =
  m_owner :: nat
  m_freshSlots :: "slot PointerStack"
  m_recycledSlots :: "slot PointerStack"
  m_recycledStackPool :: nat

record ObjectPool =
  SLOT_COUNT :: nat
  m_uid :: nat
  m_chunks :: "ChunkPage list"
  m_chunkPool :: "nat list"
  m_metaData :: "slot \<Rightarrow> ChunkMetadata"
  m_globalBatchStack :: "(nat \<times> slot PointerStack) list"
  m_TLSChunk :: "nat \<Rightarrow> nat option"

definition upd_chunk :: "nat \<Rightarrow> (ChunkPage \<Rightarrow> ChunkPage) \<Rightarrow> ObjectPool \<Rightarrow> ObjectPool" where
  "upd_chunk c f p = p\<lparr>m_chunks := (m_chunks p)[c := f (m_chunks p ! c)]\<rparr>"

text \<open>The constructor of \<^verbatim>\<open>ChunkPage\<close>, run by thread \<open>t\<close> at address \<open>c\<close>.\<close>

fun chunk_fill :: "nat \<Rightarrow> nat \<Rightarrow> nat list \<Rightarrow> slot PointerStack \<Rightarrow> (slot \<Rightarrow> ChunkMetadata) \<Rightarrow>
    slot PointerStack \<times> (slot \<Rightarrow> ChunkMetadata)" where
  "chunk_fill c t [] ps md = (ps, md)"
| "chunk_fill c t (i # is) ps md =
     chunk_fill c t is (snd (Push (c, i) ps))
       (md((c, i) := (md (c, i))\<lparr>m_allocThread := t, m_chunkOwner := c, m_markValue := MARK_FRONT\<rparr>))"

definition ChunkPage_new :: "nat \<Rightarrow> nat \<Rightarrow> nat \<Rightarrow> (slot \<Rightarrow> ChunkMetadata) \<Rightarrow>
    ChunkPage \<times> (slot \<Rightarrow> ChunkMetadata)" where
  "ChunkPage_new n c t md =
     (let fresh = PointerStack_new n (0, 0);
          (fresh1, md1) = (if Empty fresh then chunk_fill c t [0..<n] fresh md else (fresh, md))
      in (\<lparr>m_owner = 0, m_freshSlots = fresh1, m_recycledSlots = PointerStack_new n (0, 0),
           m_recycledStackPool = 0\<rparr>, md1))"

definition SetOwner :: "nat \<Rightarrow> ChunkPage \<Rightarrow> ChunkPage" where
  "SetOwner center page = page\<lparr>m_owner := center\<rparr>"

text \<open>
  \<^verbatim>\<open>m_chunkPool.Alloc()\<close>: the top of the free list of chunks if there is one, a chunk from the
  heap otherwise; constructed in both cases.
\<close>

definition ChunkAlloc :: "nat \<Rightarrow> ObjectPool \<Rightarrow> nat \<times> ObjectPool" where
  "ChunkAlloc t p =
     (let c = (case m_chunkPool p of [] \<Rightarrow> length (m_chunks p) | c # _ \<Rightarrow> c);
          (page, md) = ChunkPage_new (SLOT_COUNT p) c t (m_metaData p);
          page = SetOwner (m_uid p) page
      in (c, p\<lparr>m_chunks := (if c < length (m_chunks p) then (m_chunks p)[c := page] else m_chunks p @ [page]),
               m_chunkPool := tl (m_chunkPool p), m_metaData := md, m_TLSChunk := (m_TLSChunk p)(t \<mapsto> c)\<rparr>))"

definition ChunkFree :: "nat \<Rightarrow> ObjectPool \<Rightarrow> ObjectPool" where
  "ChunkFree c p = p\<lparr>m_chunkPool := c # m_chunkPool p\<rparr>"

definition GetCurrentTLSChunk :: "nat \<Rightarrow> ObjectPool \<Rightarrow> nat option" where
  "GetCurrentTLSChunk t p = m_TLSChunk p t"

definition ObjectPool_new :: "nat \<Rightarrow> nat \<Rightarrow> nat \<Rightarrow> ObjectPool" where
  "ObjectPool_new n uid t =
     snd (ChunkAlloc t \<lparr>SLOT_COUNT = n, m_uid = uid, m_chunks = [], m_chunkPool = [],
            m_metaData = (\<lambda>_. \<lparr>m_chunkOwner = 0, m_markValue = 0, m_size = 0, m_allocThread = 0\<rparr>),
            m_globalBatchStack = [], m_TLSChunk = (\<lambda>_. None)\<rparr>)"

definition TryStealFromGlobal :: "nat \<Rightarrow> ObjectPool \<Rightarrow> bool \<times> ObjectPool" where
  "TryStealFromGlobal c p =
     (case m_globalBatchStack p of
        [] \<Rightarrow> (False, p)
      | (q, batch) # rest \<Rightarrow>
          (True, upd_chunk q (\<lambda>pg. pg\<lparr>m_recycledStackPool := m_recycledStackPool pg + 1\<rparr>)
                   (upd_chunk c (\<lambda>pg. pg\<lparr>m_freshSlots := batch\<rparr>) (p\<lparr>m_globalBatchStack := rest\<rparr>))))"

definition RecycledToMyLocalPool :: "nat \<Rightarrow> slot \<Rightarrow> ObjectPool \<Rightarrow> ObjectPool" where
  "RecycledToMyLocalPool t s p =
     (let (c, p1) = (case GetCurrentTLSChunk t p of None \<Rightarrow> ChunkAlloc t p | Some c \<Rightarrow> (c, p));
          r = snd (Push s (m_recycledSlots (m_chunks p1 ! c)))
      in if Full r
         then upd_chunk c (\<lambda>pg. pg\<lparr>m_recycledSlots := PointerStack_new (SLOT_COUNT p1) (0, 0),
                                    m_recycledStackPool := m_recycledStackPool pg - 1\<rparr>)
                (p1\<lparr>m_globalBatchStack := (c, r) # m_globalBatchStack p1\<rparr>)
         else upd_chunk c (\<lambda>pg. pg\<lparr>m_recycledSlots := r\<rparr>) p1)"

text \<open>Handing out a slot writes the size and the allocating thread into its header.\<close>

definition hand_out :: "nat \<Rightarrow> nat \<Rightarrow> slot \<Rightarrow> ObjectPool \<Rightarrow> ObjectPool" where
  "hand_out t sz s p =
     p\<lparr>m_metaData := (m_metaData p)(s := (m_metaData p s)\<lparr>m_size := sz, m_allocThread := t\<rparr>)\<rparr>"

definition PopFromFreshSlot :: "nat \<Rightarrow> nat \<Rightarrow> nat \<Rightarrow> ObjectPool \<Rightarrow> (slot option \<times> ObjectPool) result" where
  "PopFromFreshSlot c t sz p =
     (if Empty (m_freshSlots (m_chunks p ! c)) then Inr (None, p)
      else case Pop (m_freshSlots (m_chunks p ! c)) of
        (None, _) \<Rightarrow> Inl NullDeref
      | (Some s, ps) \<Rightarrow> Inr (Some s, hand_out t sz s (upd_chunk c (\<lambda>pg. pg\<lparr>m_freshSlots := ps\<rparr>) p)))"

definition PopFromRecyledSlots :: "nat \<Rightarrow> nat \<Rightarrow> nat \<Rightarrow> ObjectPool \<Rightarrow> (slot option \<times> ObjectPool) result" where
  "PopFromRecyledSlots c t sz p =
     (if Empty (m_recycledSlots (m_chunks p ! c)) then Inr (None, p)
      else case Pop (m_recycledSlots (m_chunks p ! c)) of
        (None, _) \<Rightarrow> Inl NullDeref
      | (Some s, ps) \<Rightarrow> Inr (Some s, hand_out t sz s (upd_chunk c (\<lambda>pg. pg\<lparr>m_recycledSlots := ps\<rparr>) p)))"

text \<open>
  \<^verbatim>\<open>ChunkPage::Alloc\<close> calls itself on the new chunk it makes; the first argument bounds the
  depth of that recursion.
\<close>

fun ChunkPage_Alloc :: "nat \<Rightarrow> nat \<Rightarrow> nat \<Rightarrow> nat \<Rightarrow> ObjectPool \<Rightarrow> (slot \<times> ObjectPool) result" where
  "ChunkPage_Alloc 0 c t sz p = Inl StackOverflow"
| "ChunkPage_Alloc (Suc depth) c t sz p =
     ebind (PopFromFreshSlot c t sz p) (\<lambda>(r1, p1).
     case r1 of Some s \<Rightarrow> Inr (s, p1) | None \<Rightarrow>
     ebind (PopFromRecyledSlots c t sz p1) (\<lambda>(r2, p2).
     case r2 of Some s \<Rightarrow> Inr (s, p2) | None \<Rightarrow>
     let (stolen, p3) = TryStealFromGlobal c p2 in
     ebind (if stolen then PopFromFreshSlot c t sz p3 else Inr (None, p3)) (\<lambda>(r4, p4).
     case r4 of Some s \<Rightarrow> Inr (s, p4) | None \<Rightarrow>
     let (c', p5) = ChunkAlloc t p4 in ChunkPage_Alloc depth c' t sz p5)))"

definition ChunkPage_Free :: "nat \<Rightarrow> nat \<Rightarrow> slot \<Rightarrow> ObjectPool \<Rightarrow> ObjectPool result" where
  "ChunkPage_Free c t s p =
     (let md = m_metaData p s in
      if m_markValue md \<noteq> MARK_FRONT \<or> m_chunkOwner md \<noteq> c then Inl Underflow_Violation
      else if m_allocThread md = t
           then Inr (upd_chunk c (\<lambda>pg. pg\<lparr>m_freshSlots := snd (Push s (m_freshSlots pg))\<rparr>) p)
           else Inr (RecycledToMyLocalPool t s p))"

text \<open>\<^verbatim>\<open>Alloc\<close> and \<^verbatim>\<open>AllocFromChunk\<close>, \<^verbatim>\<open>Free\<close> and \<^verbatim>\<open>FreeToChunk\<close> have the same bodies.\<close>

definition ObjectPool_Alloc :: "nat \<Rightarrow> nat \<Rightarrow> nat \<Rightarrow> ObjectPool \<Rightarrow> (slot \<times> ObjectPool) result" where
  "ObjectPool_Alloc depth t sz p =
     (let (c, p1) = (case m_TLSChunk p t of None \<Rightarrow> ChunkAlloc t p | Some c \<Rightarrow> (c, p))
      in ChunkPage_Alloc depth c t sz p1)"

definition AllocFromChunk :: "nat \<Rightarrow> nat \<Rightarrow> nat \<Rightarrow> ObjectPool \<Rightarrow> (slot \<times> ObjectPool) result" where
  "AllocFromChunk depth t sz p =
     (let (c, p1) = (case GetCurrentTLSChunk t p of None \<Rightarrow> ChunkAlloc t p | Some c \<Rightarrow> (c, p))
      in ChunkPage_Alloc depth c t sz p1)"

definition ObjectPool_Free :: "nat \<Rightarrow> slot \<Rightarrow> ObjectPool \<Rightarrow> ObjectPool result" where
  "ObjectPool_Free t s p = ChunkPage_Free (m_chunkOwner (m_metaData p s)) t s p"

definition FreeToChunk :: "nat \<Rightarrow> slot \<Rightarrow> ObjectPool \<Rightarrow> ObjectPool result" where
  "FreeToChunk t s p = ChunkPage_Free (m_chunkOwner (m_metaData p s)) t s p"

section \<open>Where the slots are\<close>

text \<open>
  The slots a pool holds, with multiplicity: on the fresh and recycle stacks of its chunks and
  in the batches of the global stack.
\<close>

definition page_slots :: "ChunkPage \<Rightarrow> slot multiset" where
  "page_slots pg = mset (items (m_freshSlots pg)) + mset (items (m_recycledSlots pg))"

definition stored :: "ObjectPool \<Rightarrow> slot multiset" where
  "stored p = sum_list (map page_slots (m_chunks p)) +
     sum_list (map (\<lambda>b. mset (items (snd b))) (m_globalBatchStack p))"

definition page_ok :: "nat \<Rightarrow> ChunkPage \<Rightarrow> bool" where
  "page_ok n pg \<longleftrightarrow> ps_inv n (m_freshSlots pg) \<and> ps_inv n (m_recycledSlots pg) \<and>
     length (items (m_recycledSlots pg)) < n"

definition meta_ok :: "ObjectPool \<Rightarrow> slot \<Rightarrow> bool" where
  "meta_ok p s \<longleftrightarrow> m_chunkOwner (m_metaData p s) = fst s \<and> m_markValue (m_metaData p s) = MARK_FRONT"

definition slot_ok :: "ObjectPool \<Rightarrow> slot \<Rightarrow> bool" where
  "slot_ok p s \<longleftrightarrow> fst s < length (m_chunks p) \<and> snd s < SLOT_COUNT p"

text \<open>
  The invariant of a pool whose clients hold the slots \<open>live\<close>: the stacks are well formed, every
  header is intact, no slot is in two places, every thread's chunk exists and is its own.
\<close>

definition pool_inv :: "ObjectPool \<Rightarrow> slot multiset \<Rightarrow> bool" where
  "pool_inv p live \<longleftrightarrow>
     0 < SLOT_COUNT p \<and> m_chunkPool p = [] \<and>
     (\<forall>pg \<in> set (m_chunks p). page_ok (SLOT_COUNT p) pg) \<and>
     (\<forall>b \<in> set (m_globalBatchStack p). ps_inv (SLOT_COUNT p) (snd b) \<and>
        length (items (snd b)) = SLOT_COUNT p \<and> fst b < length (m_chunks p)) \<and>
     (\<forall>s. slot_ok p s \<longrightarrow> meta_ok p s) \<and>
     (\<forall>s \<in># stored p + live. slot_ok p s) \<and>
     (\<forall>s. count (stored p + live) s \<le> 1) \<and>
     (\<forall>t c. m_TLSChunk p t = Some c \<longrightarrow> c < length (m_chunks p)) \<and>
     (\<forall>t t' c. m_TLSChunk p t = Some c \<longrightarrow> m_TLSChunk p t' = Some c \<longrightarrow> t = t')"

lemma sum_list_map_update:
  fixes f :: "'b \<Rightarrow> 'a multiset"
  shows "i < length xs \<Longrightarrow> sum_list (map f (xs[i := y])) + f (xs ! i) = sum_list (map f xs) + f y"
  by (induction xs arbitrary: i) (auto simp: nth_Cons' split: nat.split)

lemma upd_chunk_simps [simp]:
  "SLOT_COUNT (upd_chunk c f p) = SLOT_COUNT p" "m_chunkPool (upd_chunk c f p) = m_chunkPool p"
  "m_metaData (upd_chunk c f p) = m_metaData p" "m_TLSChunk (upd_chunk c f p) = m_TLSChunk p"
  "m_globalBatchStack (upd_chunk c f p) = m_globalBatchStack p"
  "length (m_chunks (upd_chunk c f p)) = length (m_chunks p)" "m_uid (upd_chunk c f p) = m_uid p"
  by (simp_all add: upd_chunk_def)

lemma upd_chunk_nth [simp]:
  "c < length (m_chunks p) \<Longrightarrow> m_chunks (upd_chunk c f p) ! i = (if i = c then f (m_chunks p ! c) else m_chunks p ! i)"
  by (simp add: upd_chunk_def)

lemma upd_chunk_pages:
  "c < length (m_chunks p) \<Longrightarrow> \<forall>pg \<in> set (m_chunks p). Q pg \<Longrightarrow> Q (f (m_chunks p ! c)) \<Longrightarrow>
    \<forall>pg \<in> set (m_chunks (upd_chunk c f p)). Q pg"
  by (auto simp: upd_chunk_def dest: set_update_subset_insert [THEN subsetD])

lemma stored_upd_chunk:
  "c < length (m_chunks p) \<Longrightarrow>
    stored (upd_chunk c f p) + page_slots (m_chunks p ! c) = stored p + page_slots (f (m_chunks p ! c))"
  using sum_list_map_update [of c "m_chunks p" page_slots "f (m_chunks p ! c)"]
  by (simp add: stored_def upd_chunk_def ac_simps)

lemma stored_upd_remove:
  assumes "c < length (m_chunks p)" "add_mset s (page_slots (f (m_chunks p ! c))) = page_slots (m_chunks p ! c)"
  shows "add_mset s (stored (upd_chunk c f p)) = stored p"
  using stored_upd_chunk [OF assms(1), of f] by (simp add: assms(2) [symmetric])

lemma stored_upd_add:
  assumes "c < length (m_chunks p)" "page_slots (f (m_chunks p ! c)) = page_slots (m_chunks p ! c) + M"
  shows "stored (upd_chunk c f p) = stored p + M"
  using stored_upd_chunk [OF assms(1), of f] by (simp add: assms(2) union_assoc [symmetric])

lemma slot_ok_upd [simp]: "slot_ok (upd_chunk c f p) s = slot_ok p s" "slot_ok (hand_out t sz x p) s = slot_ok p s"
  by (simp_all add: slot_ok_def hand_out_def)

lemma meta_ok_upd [simp]: "meta_ok (upd_chunk c f p) s = meta_ok p s" "meta_ok (hand_out t sz x p) s = meta_ok p s"
  by (simp_all add: meta_ok_def hand_out_def)

lemma hand_out_simps [simp]:
  "SLOT_COUNT (hand_out t sz s p) = SLOT_COUNT p" "m_chunkPool (hand_out t sz s p) = m_chunkPool p"
  "m_chunks (hand_out t sz s p) = m_chunks p" "m_TLSChunk (hand_out t sz s p) = m_TLSChunk p"
  "m_globalBatchStack (hand_out t sz s p) = m_globalBatchStack p" "stored (hand_out t sz s p) = stored p"
  "m_allocThread (m_metaData (hand_out t sz s p) s) = t" "m_size (m_metaData (hand_out t sz s p) s) = sz"
  by (simp_all add: hand_out_def stored_def)

lemma pool_inv_hand_out [simp]: "pool_inv (hand_out t sz s p) live = pool_inv p live"
  by (simp add: pool_inv_def)

lemma pool_inv_page: "pool_inv p live \<Longrightarrow> c < length (m_chunks p) \<Longrightarrow> page_ok (SLOT_COUNT p) (m_chunks p ! c)"
  by (simp add: pool_inv_def)

lemma pool_inv_count: "pool_inv p live \<Longrightarrow> count (stored p + live) s \<le> 1"
  unfolding pool_inv_def by blast

lemma pool_inv_slot: "pool_inv p live \<Longrightarrow> s \<in># stored p + live \<Longrightarrow> slot_ok p s"
  unfolding pool_inv_def by blast

lemma pool_inv_meta: "pool_inv p live \<Longrightarrow> slot_ok p s \<Longrightarrow> meta_ok p s"
  unfolding pool_inv_def by blast

lemma pool_inv_upd_chunk:
  assumes "pool_inv p live" "c < length (m_chunks p)" "page_ok (SLOT_COUNT p) (f (m_chunks p ! c))"
    "stored (upd_chunk c f p) + live' \<subseteq># stored p + live"
  shows "pool_inv (upd_chunk c f p) live'"
proof -
  have "count (stored (upd_chunk c f p) + live') s \<le> 1" for s
    using order_trans [OF mset_subset_eq_count [OF assms(4)] pool_inv_count [OF assms(1)]] .
  moreover have "\<forall>s \<in># stored (upd_chunk c f p) + live'. slot_ok p s"
    using assms(1) mset_subset_eqD [OF assms(4)] by (auto simp: pool_inv_def)
  ultimately show ?thesis
    using assms(1) upd_chunk_pages [of c p "page_ok (SLOT_COUNT p)" f] assms(2,3)
    by (simp add: pool_inv_def)
qed

lemma mset_butlast: "xs \<noteq> [] \<Longrightarrow> add_mset (last xs) (mset (butlast xs)) = mset xs"
  by (metis append_butlast_last_id mset.simps(2) mset_append add_mset_add_single mset.simps(1))

lemma length_butlast_less: "length xs < n \<Longrightarrow> length (butlast xs) < n"
  by simp

lemma PopFromFreshSlot_ok:
  assumes "pool_inv p live" "c < length (m_chunks p)"
  shows "items (m_freshSlots (m_chunks p ! c)) = [] \<Longrightarrow> PopFromFreshSlot c t sz p = Inr (None, p)"
    "items (m_freshSlots (m_chunks p ! c)) \<noteq> [] \<Longrightarrow>
     \<exists>s p'. PopFromFreshSlot c t sz p = Inr (Some s, p') \<and> add_mset s (stored p') = stored p \<and>
       pool_inv p' (add_mset s live) \<and> m_allocThread (m_metaData p' s) = t \<and> m_TLSChunk p' = m_TLSChunk p \<and>
       SLOT_COUNT p' = SLOT_COUNT p \<and> length (m_chunks p') = length (m_chunks p)"
proof -
  let ?pg = "m_chunks p ! c" and ?ps = "snd (Pop (m_freshSlots (m_chunks p ! c)))"
  let ?f = "\<lambda>pg. pg\<lparr>m_freshSlots := ?ps\<rparr>"
  have ok: "ps_inv (SLOT_COUNT p) (m_freshSlots ?pg)" using pool_inv_page [OF assms] by (simp add: page_ok_def)
  note pop = Pop_items [OF ok] and em = Empty_items [OF ok]
  show "items (m_freshSlots ?pg) = [] \<Longrightarrow> PopFromFreshSlot c t sz p = Inr (None, p)"
    by (simp add: PopFromFreshSlot_def em)
  assume ne: "items (m_freshSlots ?pg) \<noteq> []"
  have st: "add_mset (last (items (m_freshSlots ?pg))) (stored (upd_chunk c ?f p)) = stored p"
    by (rule stored_upd_remove [OF assms(2)]) (simp add: page_slots_def pop(3) mset_butlast [OF ne, symmetric])
  have "pool_inv (upd_chunk c ?f p) (add_mset (last (items (m_freshSlots ?pg))) live)"
    by (rule pool_inv_upd_chunk [OF assms]) (use pool_inv_page [OF assms] pop(2) st in \<open>auto simp: page_ok_def\<close>)
  then show "\<exists>s p'. PopFromFreshSlot c t sz p = Inr (Some s, p') \<and> add_mset s (stored p') = stored p \<and>
       pool_inv p' (add_mset s live) \<and> m_allocThread (m_metaData p' s) = t \<and> m_TLSChunk p' = m_TLSChunk p \<and>
       SLOT_COUNT p' = SLOT_COUNT p \<and> length (m_chunks p') = length (m_chunks p)"
    using st ne by (subst PopFromFreshSlot_def, subst pop(1)) (simp add: em)
qed

lemma PopFromRecyledSlots_ok:
  assumes "pool_inv p live" "c < length (m_chunks p)"
  shows "items (m_recycledSlots (m_chunks p ! c)) = [] \<Longrightarrow> PopFromRecyledSlots c t sz p = Inr (None, p)"
    "items (m_recycledSlots (m_chunks p ! c)) \<noteq> [] \<Longrightarrow>
     \<exists>s p'. PopFromRecyledSlots c t sz p = Inr (Some s, p') \<and> add_mset s (stored p') = stored p \<and>
       pool_inv p' (add_mset s live) \<and> m_allocThread (m_metaData p' s) = t \<and> m_TLSChunk p' = m_TLSChunk p \<and>
       SLOT_COUNT p' = SLOT_COUNT p \<and> length (m_chunks p') = length (m_chunks p)"
proof -
  let ?pg = "m_chunks p ! c" and ?ps = "snd (Pop (m_recycledSlots (m_chunks p ! c)))"
  let ?f = "\<lambda>pg. pg\<lparr>m_recycledSlots := ?ps\<rparr>"
  have ok: "ps_inv (SLOT_COUNT p) (m_recycledSlots ?pg)" using pool_inv_page [OF assms] by (simp add: page_ok_def)
  note pop = Pop_items [OF ok] and em = Empty_items [OF ok]
  show "items (m_recycledSlots ?pg) = [] \<Longrightarrow> PopFromRecyledSlots c t sz p = Inr (None, p)"
    by (simp add: PopFromRecyledSlots_def em)
  assume ne: "items (m_recycledSlots ?pg) \<noteq> []"
  have st: "add_mset (last (items (m_recycledSlots ?pg))) (stored (upd_chunk c ?f p)) = stored p"
    by (rule stored_upd_remove [OF assms(2)]) (simp add: page_slots_def pop(3) mset_butlast [OF ne, symmetric])
  have "length (butlast (items (m_recycledSlots ?pg))) < SLOT_COUNT p"
    using pool_inv_page [OF assms] by (simp only: page_ok_def length_butlast_less)
  then have "pool_inv (upd_chunk c ?f p) (add_mset (last (items (m_recycledSlots ?pg))) live)"
    by (intro pool_inv_upd_chunk [OF assms]) (use pool_inv_page [OF assms] pop(2,3) st in \<open>auto simp: page_ok_def\<close>)
  then show "\<exists>s p'. PopFromRecyledSlots c t sz p = Inr (Some s, p') \<and> add_mset s (stored p') = stored p \<and>
       pool_inv p' (add_mset s live) \<and> m_allocThread (m_metaData p' s) = t \<and> m_TLSChunk p' = m_TLSChunk p \<and>
       SLOT_COUNT p' = SLOT_COUNT p \<and> length (m_chunks p') = length (m_chunks p)"
    using st ne by (subst PopFromRecyledSlots_def, subst pop(1)) (simp add: em)
qed

lemma chunk_fill_items:
  "ps_inv n ps \<Longrightarrow> length (items ps) + length is \<le> n \<Longrightarrow>
    ps_inv n (fst (chunk_fill c t is ps md)) \<and> items (fst (chunk_fill c t is ps md)) = items ps @ map (Pair c) is"
proof (induction "is" arbitrary: ps md)
  case (Cons i "is")
  have "ps_inv n (snd (Push (c, i) ps))" "items (snd (Push (c, i) ps)) = items ps @ [(c, i)]"
    using Push_items [OF Cons.prems(1), of "(c, i)"] Cons.prems(2) by simp_all
  then show ?case using Cons.IH [of "snd (Push (c, i) ps)"] Cons.prems(2) by simp
qed simp

lemma chunk_fill_meta:
  "snd (chunk_fill c t is ps md) s =
    (if fst s = c \<and> snd s \<in> set is
     then (md s)\<lparr>m_allocThread := t, m_chunkOwner := c, m_markValue := MARK_FRONT\<rparr> else md s)"
  by (induction "is" arbitrary: ps md) (auto simp: prod_eq_iff)

lemma ChunkPage_new_page:
  assumes "ChunkPage_new n c t md = (pg, md')" "0 < n"
  shows "page_ok n pg" "items (m_freshSlots pg) = map (Pair c) [0..<n]" "items (m_recycledSlots pg) = []"
    "md' = snd (chunk_fill c t [0..<n] (PointerStack_new n (0, 0)) md)"
proof -
  have "Empty (PointerStack_new n (0, 0) :: slot PointerStack)" by (simp add: Empty_def PointerStack_new_def)
  with assms(1) have "m_freshSlots pg = fst (chunk_fill c t [0..<n] (PointerStack_new n (0, 0)) md)"
    "md' = snd (chunk_fill c t [0..<n] (PointerStack_new n (0, 0)) md)" "m_recycledSlots pg = PointerStack_new n (0, 0)"
    by (auto simp: ChunkPage_new_def Let_def split: prod.splits)
  with chunk_fill_items [of n "PointerStack_new n (0, 0)" "[0..<n]" c t md] assms(2)
  show "page_ok n pg" "items (m_freshSlots pg) = map (Pair c) [0..<n]" "items (m_recycledSlots pg) = []"
    "md' = snd (chunk_fill c t [0..<n] (PointerStack_new n (0, 0)) md)"
    by (simp_all add: page_ok_def)
qed

lemma SetOwner_simps [simp]:
  "m_freshSlots (SetOwner u pg) = m_freshSlots pg" "m_recycledSlots (SetOwner u pg) = m_recycledSlots pg"
  "page_ok n (SetOwner u pg) = page_ok n pg" "page_slots (SetOwner u pg) = page_slots pg"
  by (simp_all add: SetOwner_def page_ok_def page_slots_def)

text \<open>What \<open>ChunkAlloc\<close> does to the parts of a pool from which no chunk was freed.\<close>

lemma ChunkAlloc_parts:
  assumes "m_chunkPool p = []" "0 < SLOT_COUNT p" "ChunkAlloc t p = (c, p')"
  shows "c = length (m_chunks p)" "SLOT_COUNT p' = SLOT_COUNT p" "m_chunkPool p' = []"
    "m_globalBatchStack p' = m_globalBatchStack p" "m_TLSChunk p' = (m_TLSChunk p)(t \<mapsto> c)"
    "\<exists>pg. m_chunks p' = m_chunks p @ [pg] \<and> page_ok (SLOT_COUNT p) pg \<and>
       items (m_freshSlots pg) = map (Pair c) [0..<SLOT_COUNT p] \<and> items (m_recycledSlots pg) = []"
    "stored p' = stored p + mset (map (Pair c) [0..<SLOT_COUNT p])"
    "m_metaData p' s = (if fst s = c \<and> snd s < SLOT_COUNT p
      then (m_metaData p s)\<lparr>m_allocThread := t, m_chunkOwner := c, m_markValue := MARK_FRONT\<rparr> else m_metaData p s)"
proof -
  obtain pg md where n: "ChunkPage_new (SLOT_COUNT p) (length (m_chunks p)) t (m_metaData p) = (pg, md)"
    by (cases "ChunkPage_new (SLOT_COUNT p) (length (m_chunks p)) t (m_metaData p)")
  note new = ChunkPage_new_page [OF n assms(2)]
  have c: "c = length (m_chunks p)" and p': "p' = p\<lparr>m_chunks := m_chunks p @ [SetOwner (m_uid p) pg],
      m_chunkPool := [], m_metaData := md, m_TLSChunk := (m_TLSChunk p)(t \<mapsto> c)\<rparr>"
    using assms(1,3) n by (auto simp: ChunkAlloc_def Let_def)
  show "c = length (m_chunks p)" by (fact c)
  show "SLOT_COUNT p' = SLOT_COUNT p" "m_chunkPool p' = []"
    "m_globalBatchStack p' = m_globalBatchStack p" "m_TLSChunk p' = (m_TLSChunk p)(t \<mapsto> c)" by (simp_all add: p')
  show "\<exists>pg. m_chunks p' = m_chunks p @ [pg] \<and> page_ok (SLOT_COUNT p) pg \<and>
       items (m_freshSlots pg) = map (Pair c) [0..<SLOT_COUNT p] \<and> items (m_recycledSlots pg) = []"
    using new c by (intro exI [of _ "SetOwner (m_uid p) pg"]) (simp add: p')
  show "stored p' = stored p + mset (map (Pair c) [0..<SLOT_COUNT p])"
    using new c by (simp add: p' stored_def page_slots_def ac_simps)
  show "m_metaData p' s = (if fst s = c \<and> snd s < SLOT_COUNT p
      then (m_metaData p s)\<lparr>m_allocThread := t, m_chunkOwner := c, m_markValue := MARK_FRONT\<rparr> else m_metaData p s)"
    using new(4) c by (simp add: p' chunk_fill_meta)
qed

lemma mset_pairs_count: "count (mset (map (Pair c) [0..<n])) s = (if fst s = c \<and> snd s < n then 1 else 0)"
proof -
  have "distinct (map (Pair c) [0..<n])" by (simp add: distinct_map inj_on_def)
  then show ?thesis by (subst distinct_count_atmost_1 [THEN iffD1, rule_format]) (auto simp: prod_eq_iff image_iff)
qed

lemma ChunkAlloc_inv:
  assumes "pool_inv p live" "ChunkAlloc t p = (c, p')"
  shows "pool_inv p' live"
proof -
  have "m_chunkPool p = []" "0 < SLOT_COUNT p" using assms(1) by (auto simp: pool_inv_def)
  note parts = ChunkAlloc_parts [OF this assms(2)]
  from parts(6) obtain pg where pg: "m_chunks p' = m_chunks p @ [pg]" "page_ok (SLOT_COUNT p) pg" by blast
  have ok: "slot_ok p' s \<longleftrightarrow> slot_ok p s \<or> fst s = c \<and> snd s < SLOT_COUNT p" for s
    using parts(1,2) pg(1) by (auto simp: slot_ok_def)
  have sl: "\<forall>s \<in># stored p + live. slot_ok p s" using assms(1) unfolding pool_inv_def by blast
  have "count (stored p' + live) s \<le> 1" for s
  proof (cases "fst s = c \<and> snd s < SLOT_COUNT p")
    case True
    then have "\<not> slot_ok p s" using parts(1) by (simp add: slot_ok_def)
    then have "s \<notin># stored p + live" using sl by blast
    then have "count (stored p + live) s = 0" by (simp only: not_in_iff)
    with True show ?thesis by (simp add: parts(7) mset_pairs_count del: mset_map)
  next
    case False
    with pool_inv_count [OF assms(1), of s] show ?thesis by (auto simp: parts(7) mset_pairs_count simp del: mset_map)
  qed
  moreover have "\<forall>s \<in># stored p' + live. slot_ok p' s" using sl by (auto simp: parts(7) ok)
  moreover have "meta_ok p' s" if "slot_ok p' s" for s
    using that pool_inv_meta [OF assms(1), of s] parts(8) [of s] by (auto simp: ok meta_ok_def)
  moreover have "\<forall>t c. m_TLSChunk p' t = Some c \<longrightarrow> c < length (m_chunks p')"
    using assms(1) by (auto simp: parts(1,5) pg(1) pool_inv_def less_Suc_eq)
  moreover have "\<forall>t t' c. m_TLSChunk p' t = Some c \<longrightarrow> m_TLSChunk p' t' = Some c \<longrightarrow> t = t'"
    using assms(1) by (auto simp: parts(1,5) pool_inv_def)
  ultimately show ?thesis
    using assms(1) pg by (auto simp: pool_inv_def parts(2,3,4))
qed

lemma TryStealFromGlobal_ok:
  assumes "pool_inv p live" "c < length (m_chunks p)" "items (m_freshSlots (m_chunks p ! c)) = []"
    "TryStealFromGlobal c p = (b, p')"
  shows "pool_inv p' live" "stored p' = stored p" "b \<Longrightarrow> items (m_freshSlots (m_chunks p' ! c)) \<noteq> []"
    "length (m_chunks p') = length (m_chunks p)" "SLOT_COUNT p' = SLOT_COUNT p" "m_TLSChunk p' = m_TLSChunk p"
    "\<not> b \<Longrightarrow> p' = p"
proof -
  have "pool_inv p' live \<and> stored p' = stored p \<and> (b \<longrightarrow> items (m_freshSlots (m_chunks p' ! c)) \<noteq> []) \<and>
    length (m_chunks p') = length (m_chunks p) \<and> SLOT_COUNT p' = SLOT_COUNT p \<and> m_TLSChunk p' = m_TLSChunk p \<and>
    (\<not> b \<longrightarrow> p' = p)"
  proof (cases "m_globalBatchStack p")
    case Nil
    with assms show ?thesis by (auto simp: TryStealFromGlobal_def)
  next
    case (Cons qb rest)
    obtain q bt where qb: "qb = (q, bt)" by (cases qb)
    let ?p1 = "p\<lparr>m_globalBatchStack := rest\<rparr>" and ?f = "\<lambda>pg. pg\<lparr>m_freshSlots := bt\<rparr>"
    let ?g = "\<lambda>pg. pg\<lparr>m_recycledStackPool := m_recycledStackPool pg + 1\<rparr>"
    let ?p2 = "upd_chunk c ?f ?p1"
    have bt: "ps_inv (SLOT_COUNT p) bt" "length (items bt) = SLOT_COUNT p" "q < length (m_chunks p)" "0 < SLOT_COUNT p"
      using assms(1) Cons qb by (auto simp: pool_inv_def)
    have st: "stored p = stored ?p1 + mset (items bt)" using Cons qb by (simp add: stored_def ac_simps)
    have i1: "pool_inv ?p1 (live + mset (items bt))"
      using assms(1) unfolding pool_inv_def st by (simp add: slot_ok_def meta_ok_def Cons ac_simps)
    have s2: "stored ?p2 = stored p"
      unfolding st by (rule stored_upd_add) (use assms(2,3) in \<open>simp_all add: page_slots_def\<close>)
    have pg: "page_ok (SLOT_COUNT p) (m_chunks p ! c)" by (rule pool_inv_page [OF assms(1,2)])
    have i2: "pool_inv ?p2 live"
      by (rule pool_inv_upd_chunk [OF i1]) (use assms(2) pg bt s2 st in \<open>simp_all add: page_ok_def ac_simps\<close>)
    have s3: "stored (upd_chunk q ?g ?p2) = stored p"
      using stored_upd_add [of q ?p2 ?g "{#}"] bt(3) s2 by (simp add: page_slots_def)
    have pg2: "page_ok (SLOT_COUNT p) (m_chunks ?p2 ! q)" using pool_inv_page [OF i2, of q] bt(3) by simp
    have "pool_inv (upd_chunk q ?g ?p2) live"
      by (rule pool_inv_upd_chunk [OF i2]) (use bt(3) pg2 s2 s3 in \<open>simp_all add: page_ok_def\<close>)
    moreover have "items (m_freshSlots (m_chunks (upd_chunk q ?g ?p2) ! c)) = items bt"
      using assms(2) bt(3) by (cases "c = q") simp_all
    moreover have "b" "p' = upd_chunk q ?g ?p2" using assms(4) Cons qb by (auto simp: TryStealFromGlobal_def)
    ultimately show ?thesis using bt(2,4) s3 by auto
  qed
  then show "pool_inv p' live" "stored p' = stored p" "b \<Longrightarrow> items (m_freshSlots (m_chunks p' ! c)) \<noteq> []"
    "length (m_chunks p') = length (m_chunks p)" "SLOT_COUNT p' = SLOT_COUNT p" "m_TLSChunk p' = m_TLSChunk p"
    "\<not> b \<Longrightarrow> p' = p" by blast+
qed

text \<open>
  With a stack two calls deep \<^verbatim>\<open>ChunkPage::Alloc\<close> always returns a slot: a new chunk's fresh
  stack is not empty, so the recursive call returns at its first test.
\<close>

definition alloc_ok :: "nat \<Rightarrow> ObjectPool \<Rightarrow> slot multiset \<Rightarrow> slot \<Rightarrow> ObjectPool \<Rightarrow> bool" where
  "alloc_ok t p live s p' \<longleftrightarrow> pool_inv p' (add_mset s live) \<and> m_allocThread (m_metaData p' s) = t \<and>
     SLOT_COUNT p' = SLOT_COUNT p \<and> stored p \<subseteq># add_mset s (stored p') \<and> length (m_chunks p) \<le> length (m_chunks p') \<and>
     (\<forall>x \<in># add_mset s (stored p'). x \<in># stored p \<or> length (m_chunks p) \<le> fst x)"

lemma alloc_ok_ChunkAlloc:
  assumes "pool_inv p live" "ChunkAlloc t p = (c, p1)" "alloc_ok t p1 live s p'"
  shows "alloc_ok t p live s p'"
proof -
  have "m_chunkPool p = []" "0 < SLOT_COUNT p" using assms(1) by (auto simp: pool_inv_def)
  note parts = ChunkAlloc_parts [OF this assms(2)]
  have len: "length (m_chunks p) \<le> length (m_chunks p1)" using parts(6) by auto
  have "x \<in># stored p \<or> length (m_chunks p) \<le> fst x" if "x \<in># add_mset s (stored p')" for x
  proof -
    have "x \<in># stored p1 \<or> length (m_chunks p1) \<le> fst x" using assms(3) that unfolding alloc_ok_def by blast
    then show ?thesis using parts(1,7) len by auto
  qed
  moreover have "stored p \<subseteq># add_mset s (stored p')"
    using assms(3) parts(7) by (metis alloc_ok_def mset_subset_eq_add_left subset_mset.order_trans)
  ultimately show ?thesis using assms(3) parts(2) len unfolding alloc_ok_def by auto
qed

lemma ChunkPage_Alloc_fresh:
  assumes "pool_inv p live" "c < length (m_chunks p)" "items (m_freshSlots (m_chunks p ! c)) \<noteq> []"
  shows "\<exists>s p'. ChunkPage_Alloc (Suc d) c t sz p = Inr (s, p') \<and> alloc_ok t p live s p'"
proof -
  from PopFromFreshSlot_ok(2) [OF assms, of t sz] obtain s p' where "PopFromFreshSlot c t sz p = Inr (Some s, p')"
    "add_mset s (stored p') = stored p" "pool_inv p' (add_mset s live)" "m_allocThread (m_metaData p' s) = t"
    "SLOT_COUNT p' = SLOT_COUNT p" "length (m_chunks p') = length (m_chunks p)" by blast
  then show ?thesis by (intro exI [of _ s] exI [of _ p']) (simp add: alloc_ok_def)
qed

lemma ChunkPage_Alloc_ok:
  assumes "pool_inv p live" "c < length (m_chunks p)"
  shows "\<exists>s p'. ChunkPage_Alloc (Suc (Suc d)) c t sz p = Inr (s, p') \<and> alloc_ok t p live s p'"
proof (cases "items (m_freshSlots (m_chunks p ! c)) = []")
  case False
  with ChunkPage_Alloc_fresh [OF assms] show ?thesis by blast
next
  case fresh: True
  note f = PopFromFreshSlot_ok(1) [OF assms fresh]
  show ?thesis
  proof (cases "items (m_recycledSlots (m_chunks p ! c)) = []")
    case False
    from PopFromRecyledSlots_ok(2) [OF assms False, of t sz] obtain s p' where
      "PopFromRecyledSlots c t sz p = Inr (Some s, p')"
      "add_mset s (stored p') = stored p" "pool_inv p' (add_mset s live)" "m_allocThread (m_metaData p' s) = t"
      "SLOT_COUNT p' = SLOT_COUNT p" "length (m_chunks p') = length (m_chunks p)" by blast
    then show ?thesis by (intro exI [of _ s] exI [of _ p']) (simp add: f alloc_ok_def)
  next
    case True
    note r = PopFromRecyledSlots_ok(1) [OF assms True]
    obtain b p3 where st: "TryStealFromGlobal c p = (b, p3)" by (cases "TryStealFromGlobal c p")
    note steal = TryStealFromGlobal_ok [OF assms fresh st]
    show ?thesis
    proof (cases b)
      case True
      have c3: "c < length (m_chunks p3)" using assms(2) steal(4) by simp
      from PopFromFreshSlot_ok(2) [OF steal(1) c3 steal(3) [OF True], of t sz] obtain s p' where
        "PopFromFreshSlot c t sz p3 = Inr (Some s, p')"
        "add_mset s (stored p') = stored p3" "pool_inv p' (add_mset s live)" "m_allocThread (m_metaData p' s) = t"
        "SLOT_COUNT p' = SLOT_COUNT p3" "length (m_chunks p') = length (m_chunks p3)" by blast
      with True steal show ?thesis by (intro exI [of _ s] exI [of _ p']) (simp add: f r st alloc_ok_def)
    next
      case False
      obtain c' p5 where ca: "ChunkAlloc t p = (c', p5)" by (cases "ChunkAlloc t p")
      have n: "m_chunkPool p = []" "0 < SLOT_COUNT p" using assms(1) by (auto simp: pool_inv_def)
      note parts = ChunkAlloc_parts [OF n ca]
      from parts(1,6) n(2) have "c' < length (m_chunks p5)" "items (m_freshSlots (m_chunks p5 ! c')) \<noteq> []" by auto
      from ChunkPage_Alloc_fresh [OF ChunkAlloc_inv [OF assms(1) ca] this] obtain s p' where
        "ChunkPage_Alloc (Suc d) c' t sz p5 = Inr (s, p')" "alloc_ok t p5 live s p'" by blast
      then have "alloc_ok t p live s p'"
        using alloc_ok_ChunkAlloc [OF assms(1) ca] by blast
      moreover have "ChunkPage_Alloc (Suc (Suc d)) c t sz p = ChunkPage_Alloc (Suc d) c' t sz p5"
        using steal(7) [OF False] False
        by (subst ChunkPage_Alloc.simps(2)) (simp add: f r st ca del: ChunkPage_Alloc.simps(2))
      ultimately show ?thesis using \<open>ChunkPage_Alloc (Suc d) c' t sz p5 = Inr (s, p')\<close> by metis
    qed
  qed
qed

lemma ObjectPool_Alloc_ok:
  assumes "pool_inv p live" "2 \<le> d"
  shows "\<exists>s p'. ObjectPool_Alloc d t sz p = Inr (s, p') \<and> alloc_ok t p live s p'"
proof -
  obtain d' where d: "d = Suc (Suc d')" using assms(2) by (metis Suc_le_D Suc_le_mono numeral_2_eq_2)
  have n: "m_chunkPool p = []" "0 < SLOT_COUNT p" using assms(1) by (auto simp: pool_inv_def)
  show ?thesis
  proof (cases "m_TLSChunk p t")
    case (Some c)
    then have "c < length (m_chunks p)" using assms(1) by (simp add: pool_inv_def)
    with ChunkPage_Alloc_ok [OF assms(1) this, of d'] Some d show ?thesis by (simp add: ObjectPool_Alloc_def del: ChunkPage_Alloc.simps)
  next
    case None
    obtain c p1 where ca: "ChunkAlloc t p = (c, p1)" by (cases "ChunkAlloc t p")
    note parts = ChunkAlloc_parts [OF n ca]
    have "c < length (m_chunks p1)" using parts(1,6) by auto
    from ChunkPage_Alloc_ok [OF ChunkAlloc_inv [OF assms(1) ca] this, of d' t sz] obtain s p' where
      "ChunkPage_Alloc d c t sz p1 = Inr (s, p')" "alloc_ok t p1 live s p'" unfolding d by blast
    then have "alloc_ok t p live s p'"
      using alloc_ok_ChunkAlloc [OF assms(1) ca] by blast
    with \<open>ChunkPage_Alloc d c t sz p1 = Inr (s, p')\<close> show ?thesis using None ca
      by (intro exI [of _ s] exI [of _ p']) (simp add: ObjectPool_Alloc_def)
  qed
qed

text \<open>The fresh stack of a slot's own chunk when it is full: a slot pushed there is dropped.\<close>

definition drops :: "nat \<Rightarrow> slot \<Rightarrow> ObjectPool \<Rightarrow> bool" where
  "drops t s p \<longleftrightarrow> m_allocThread (m_metaData p s) = t \<and> Full (m_freshSlots (m_chunks p ! fst s))"

definition new_chunk :: "nat \<Rightarrow> slot \<Rightarrow> ObjectPool \<Rightarrow> slot multiset" where
  "new_chunk t s p = (if m_allocThread (m_metaData p s) \<noteq> t \<and> m_TLSChunk p t = None
     then mset (map (Pair (length (m_chunks p))) [0..<SLOT_COUNT p]) else {#})"

lemma push_own_ok:
  assumes "pool_inv p (add_mset s live)" "fst s < length (m_chunks p)"
    and "p' = upd_chunk (fst s) (\<lambda>pg. pg\<lparr>m_freshSlots := snd (Push s (m_freshSlots pg))\<rparr>) p"
  shows "pool_inv p' live"
    "stored p' = (if Full (m_freshSlots (m_chunks p ! fst s)) then stored p else add_mset s (stored p))"
proof -
  let ?f = "\<lambda>pg. pg\<lparr>m_freshSlots := snd (Push s (m_freshSlots pg))\<rparr>" and ?pg = "m_chunks p ! fst s"
  have pg: "page_ok (SLOT_COUNT p) ?pg" by (rule pool_inv_page [OF assms(1,2)])
  then have ok: "ps_inv (SLOT_COUNT p) (m_freshSlots ?pg)" by (simp add: page_ok_def)
  have le: "length (items (m_freshSlots ?pg)) \<le> SLOT_COUNT p" using ok by (auto simp: ps_inv_def items_def)
  note push = Push_items [OF ok, of s] and full = Full_items [OF ok]
  have "page_slots (?f ?pg) = page_slots ?pg + (if Full (m_freshSlots ?pg) then {#} else {#s#})"
    using push(3) full le by (simp add: page_slots_def)
  from stored_upd_add [of "fst s" p ?f, OF assms(2) this]
  show st: "stored p' = (if Full (m_freshSlots ?pg) then stored p else add_mset s (stored p))"
    by (simp add: assms(3))
  show "pool_inv p' live" unfolding assms(3)
    by (rule pool_inv_upd_chunk [OF assms(1,2)]) (use pg push(2) st assms(3) in \<open>auto simp: page_ok_def\<close>)
qed

lemma push_recycled_ok:
  assumes "pool_inv p (add_mset s live)" "c < length (m_chunks p)" "r = snd (Push s (m_recycledSlots (m_chunks p ! c)))"
    and "p' = (if Full r
         then upd_chunk c (\<lambda>pg. pg\<lparr>m_recycledSlots := PointerStack_new (SLOT_COUNT p) (0, 0),
                                    m_recycledStackPool := m_recycledStackPool pg - 1\<rparr>)
                (p\<lparr>m_globalBatchStack := (c, r) # m_globalBatchStack p\<rparr>)
         else upd_chunk c (\<lambda>pg. pg\<lparr>m_recycledSlots := r\<rparr>) p)"
  shows "pool_inv p' live \<and> stored p' = add_mset s (stored p)"
proof -
  let ?pg = "m_chunks p ! c"
  have pg: "page_ok (SLOT_COUNT p) ?pg" by (rule pool_inv_page [OF assms(1,2)])
  then have ok: "ps_inv (SLOT_COUNT p) (m_recycledSlots ?pg)" "length (items (m_recycledSlots ?pg)) < SLOT_COUNT p"
    by (simp_all add: page_ok_def)
  have r: "ps_inv (SLOT_COUNT p) r" "items r = items (m_recycledSlots ?pg) @ [s]"
    using Push_items [OF ok(1), of s] ok(2) assms(3) by auto
  note full = Full_items [OF r(1)]
  show ?thesis
  proof (cases "Full r")
    case False
    let ?f = "\<lambda>pg. pg\<lparr>m_recycledSlots := r\<rparr>"
    have p': "p' = upd_chunk c ?f p" using False assms(4) by simp
    have st: "stored p' = add_mset s (stored p)"
      using stored_upd_add [OF assms(2), of ?f "{#s#}"] r(2) by (simp add: p' page_slots_def)
    have "pool_inv p' live" unfolding p'
      by (rule pool_inv_upd_chunk [OF assms(1,2)]) (use pg r ok full False st p' in \<open>auto simp: page_ok_def\<close>)
    with st show ?thesis by simp
  next
    case True
    let ?f = "\<lambda>pg. pg\<lparr>m_recycledSlots := PointerStack_new (SLOT_COUNT p) (0, 0),
                         m_recycledStackPool := m_recycledStackPool pg - 1\<rparr>"
    let ?g = "p\<lparr>m_globalBatchStack := (c, r) # m_globalBatchStack p\<rparr>"
    let ?q = "upd_chunk c ?f p"
    have p': "p' = upd_chunk c ?f ?g" using True assms(4) by simp
    have "page_slots ?pg = page_slots (?f ?pg) + mset (items (m_recycledSlots ?pg))" by (simp add: page_slots_def)
    with stored_upd_chunk [OF assms(2), of ?f]
    have sq: "stored p = stored ?q + mset (items (m_recycledSlots ?pg))" by (simp add: union_assoc [symmetric])
    have st: "stored p' = stored ?q + mset (items r)" by (simp add: p' stored_def upd_chunk_def ac_simps)
    have iq: "pool_inv ?q (add_mset s (live + mset (items (m_recycledSlots ?pg))))"
      by (rule pool_inv_upd_chunk [OF assms(1,2)]) (use pg ok(2) sq in \<open>auto simp: page_ok_def\<close>)
    have "pool_inv p' live"
      using iq full True r assms(2) unfolding pool_inv_def st
      by (simp add: p' slot_ok_def meta_ok_def upd_chunk_def ac_simps)
    with st sq r(2) show ?thesis by simp
  qed
qed

lemma ObjectPool_Free_ok:
  assumes "pool_inv p (add_mset s live)"
  shows "\<exists>p'. ObjectPool_Free t s p = Inr p' \<and> pool_inv p' live \<and>
    stored p' = (if drops t s p then stored p else add_mset s (stored p)) + new_chunk t s p"
proof -
  have sl: "slot_ok p s" by (rule pool_inv_slot [OF assms]) simp
  then have c: "fst s < length (m_chunks p)" by (simp add: slot_ok_def)
  have md: "m_chunkOwner (m_metaData p s) = fst s" "m_markValue (m_metaData p s) = MARK_FRONT"
    using pool_inv_meta [OF assms sl] by (simp_all add: meta_ok_def)
  show ?thesis
  proof (cases "m_allocThread (m_metaData p s) = t")
    case True
    with push_own_ok [OF assms c refl] md show ?thesis
      by (simp add: ObjectPool_Free_def ChunkPage_Free_def drops_def new_chunk_def)
  next
    case other: False
    then have f: "ObjectPool_Free t s p = Inr (RecycledToMyLocalPool t s p)" "\<not> drops t s p"
      using md by (simp_all add: ObjectPool_Free_def ChunkPage_Free_def drops_def)
    show ?thesis
    proof (cases "m_TLSChunk p t")
      case (Some tc)
      have "tc < length (m_chunks p)" using assms Some by (simp add: pool_inv_def)
      from push_recycled_ok [OF assms this refl refl] Some f show ?thesis
        by (auto simp: RecycledToMyLocalPool_def GetCurrentTLSChunk_def new_chunk_def Let_def)
    next
      case None
      obtain tc p1 where ca: "ChunkAlloc t p = (tc, p1)" by (cases "ChunkAlloc t p")
      have n: "m_chunkPool p = []" "0 < SLOT_COUNT p" using assms by (auto simp: pool_inv_def)
      note parts = ChunkAlloc_parts [OF n ca]
      have tc: "tc < length (m_chunks p1)" using parts(1,6) by auto
      have "stored p1 = stored p + new_chunk t s p" using parts(1,7) None other by (simp add: new_chunk_def)
      with push_recycled_ok [OF ChunkAlloc_inv [OF assms ca] tc refl refl] None f ca show ?thesis
        by (auto simp: RecycledToMyLocalPool_def GetCurrentTLSChunk_def Let_def)
    qed
  qed
qed

section \<open>Clients\<close>

text \<open>
  Threads allocate and free in any order; a client frees only slots that are live: it names one
  by its position in the list of live slots, the newest first, and a free of a position that
  does not exist is not issued.
\<close>

datatype pool_op = PAlloc nat nat | PFree nat nat

fun pool_step :: "pool_op \<Rightarrow> ObjectPool \<times> slot list \<Rightarrow> (ObjectPool \<times> slot list) result" where
  "pool_step (PAlloc t sz) (p, live) = ebind (ObjectPool_Alloc 2 t sz p) (\<lambda>(s, p'). Inr (p', s # live))"
| "pool_step (PFree t i) (p, live) =
     (if i < length live
      then ebind (ObjectPool_Free t (live ! i) p) (\<lambda>p'. Inr (p', take i live @ drop (Suc i) live))
      else Inr (p, live))"

fun pool_run :: "pool_op list \<Rightarrow> ObjectPool \<times> slot list \<Rightarrow> (ObjectPool \<times> slot list) result" where
  "pool_run [] st = Inr st"
| "pool_run (a # as) st = ebind (pool_step a st) (pool_run as)"

lemma pool_run_append [simp]: "pool_run (as @ bs) st = ebind (pool_run as st) (pool_run bs)"
  by (induction as arbitrary: st) (auto simp: ebind_def split: sum.splits)

definition pool_start :: "nat \<Rightarrow> nat \<Rightarrow> nat \<Rightarrow> ObjectPool \<times> slot list" where
  "pool_start n uid t = (ObjectPool_new n uid t, [])"

lemma pool_start_inv: "0 < n \<Longrightarrow> pool_inv (fst (pool_start n uid t)) {#}"
proof -
  assume n: "0 < n"
  let ?p = "\<lparr>SLOT_COUNT = n, m_uid = uid, m_chunks = [], m_chunkPool = [],
            m_metaData = (\<lambda>_. \<lparr>m_chunkOwner = 0, m_markValue = 0, m_size = 0, m_allocThread = 0\<rparr>),
            m_globalBatchStack = [], m_TLSChunk = (\<lambda>_. None)\<rparr>"
  have "pool_inv ?p {#}" using n by (simp add: pool_inv_def stored_def slot_ok_def)
  from ChunkAlloc_inv [OF this, of t] show ?thesis
    by (cases "ChunkAlloc t ?p") (simp add: pool_start_def ObjectPool_new_def)
qed

lemma mset_remove_nth: "i < length xs \<Longrightarrow> add_mset (xs ! i) (mset (take i xs @ drop (Suc i) xs)) = mset xs"
  by (metis id_take_nth_drop mset.simps(2) mset_append union_mset_add_mset_right)

lemma pool_step_ok:
  assumes "pool_inv p (mset live)"
  shows "\<exists>p' live'. pool_step a (p, live) = Inr (p', live') \<and> pool_inv p' (mset live')"
proof (cases a)
  case (PAlloc t sz)
  from ObjectPool_Alloc_ok [OF assms, of 2 t sz] obtain s p' where
    "ObjectPool_Alloc 2 t sz p = Inr (s, p')" "alloc_ok t p (mset live) s p'" by auto
  then show ?thesis using PAlloc by (intro exI [of _ p'] exI [of _ "s # live"]) (simp add: alloc_ok_def)
next
  case (PFree t i)
  show ?thesis
  proof (cases "i < length live")
    case True
    let ?l = "take i live @ drop (Suc i) live"
    have "pool_inv p (add_mset (live ! i) (mset ?l))" using assms by (simp only: mset_remove_nth [OF True])
    from ObjectPool_Free_ok [OF this, of t] obtain p' where "ObjectPool_Free t (live ! i) p = Inr p'" "pool_inv p' (mset ?l)"
      by blast
    then show ?thesis using PFree True by simp
  qed (use PFree assms in simp)
qed

lemma pool_run_ok:
  "pool_inv (fst st) (mset (snd st)) \<Longrightarrow>
    \<exists>p' live'. pool_run as st = Inr (p', live') \<and> pool_inv p' (mset live')"
proof (induction as arbitrary: st)
  case (Cons a as)
  from pool_step_ok [OF Cons.prems, of a] obtain p' live' where
    "pool_step a st = Inr (p', live')" "pool_inv p' (mset live')" by (cases st) auto
  with Cons.IH [of "(p', live')"] show ?case by auto
next
  case (Nil st)
  then show ?case by (cases st) simp
qed

lemma pool_run_inv:
  assumes "0 < n" "pool_run as (pool_start n uid t) = Inr (p, live)"
  shows "pool_inv p (mset live)"
  using pool_run_ok [of "pool_start n uid t" as] pool_start_inv [OF assms(1), of uid t] assms(2)
  by (auto simp: pool_start_def)

text \<open>
  Over any sequence of allocations and frees, one call at a time and each by any thread, no call
  fails (no exception, no endless recursion) and no slot is ever in two places: the slots in use are pairwise distinct,
  none of them is also stored for reuse, and no slot is stored twice.
\<close>

theorem slots_are_never_shared:
  assumes "0 < n"
  shows "\<exists>p live. pool_run as (pool_start n uid t) = Inr (p, live) \<and> distinct live \<and>
    set live \<inter> set_mset (stored p) = {} \<and> (\<forall>s. count (stored p) s \<le> 1)"
proof -
  from pool_run_ok [of "pool_start n uid t" as] pool_start_inv [OF assms, of uid t]
  obtain p live where r: "pool_run as (pool_start n uid t) = Inr (p, live)" and i: "pool_inv p (mset live)"
    by (auto simp: pool_start_def)
  have c: "count (stored p) s + count (mset live) s \<le> 1" for s using pool_inv_count [OF i, of s] by simp
  have "distinct live" unfolding distinct_count_atmost_1
    using c by (metis add_leE count_mset_0_iff le_neq_implies_less less_one)
  moreover have "s \<notin># stored p" if "s \<in> set live" for s
    using c [of s] that by (metis add_is_1 count_greater_zero_iff count_mset_0_iff le_antisym less_eq_Suc_le not_in_iff add_le_same_cancel2 add_leE One_nat_def)
  moreover have "count (stored p) s \<le> 1" for s using c [of s] by (rule add_leD1)
  ultimately show ?thesis using r by blast
qed

theorem slots_are_never_shared_witness:
  "0 < (2::nat) \<and> (\<exists>p live. pool_run [PAlloc 1 8, PAlloc 1 8, PFree 2 0, PAlloc 2 8, PFree 2 0] (pool_start 2 7 1) = Inr (p, live) \<and>
    distinct live \<and> set live \<inter> set_mset (stored p) = {} \<and> (\<forall>s. count (stored p) s \<le> 1))"
  using slots_are_never_shared [of 2 "[PAlloc 1 8, PAlloc 1 8, PFree 2 0, PAlloc 2 8, PFree 2 0]" 7 1] by simp

text \<open>
  What a free of a live slot does to the store, exactly: the slot becomes available again,
  except when the thread that allocated it frees it while the fresh stack of its chunk is full;
  then the push is refused, the result is ignored and the slot is lost. A thread without a chunk
  that frees somebody else's slot also makes itself a chunk.
\<close>

theorem free_stores_or_drops:
  assumes "0 < n" "pool_run as (pool_start n uid t0) = Inr (p, s # live)"
  shows "\<exists>p'. pool_step (PFree t 0) (p, s # live) = Inr (p', live) \<and>
    stored p' = (if drops t s p then stored p else add_mset s (stored p)) + new_chunk t s p"
  using ObjectPool_Free_ok [of p s "mset live" t] pool_run_inv [OF assms] by auto

theorem free_stores_or_drops_witness:
  "\<exists>p s live p'. pool_run [PAlloc 1 8, PAlloc 1 8, PFree 2 0] (pool_start 2 7 1) = Inr (p, s # live) \<and>
     pool_step (PFree 2 0) (p, s # live) = Inr (p', live) \<and> \<not> drops 2 s p \<and>
     stored p' = (if drops 2 s p then stored p else add_mset s (stored p)) + new_chunk 2 s p"
proof -
  let ?ops = "[PAlloc 1 8, PAlloc 1 8, PFree 2 0]"
  obtain p s live where r: "pool_run ?ops (pool_start 2 7 1) = Inr (p, s # live)" "\<not> drops 2 s p"
  proof -
    have "case pool_run ?ops (pool_start 2 7 1) of Inr (p, s # live) \<Rightarrow> \<not> drops 2 s p | _ \<Rightarrow> False" by code_simp
    then show thesis using that by (auto split: sum.splits prod.splits list.splits)
  qed
  from free_stores_or_drops [OF _ r(1), of 2] obtain p' where "pool_step (PFree 2 0) (p, s # live) = Inr (p', live)"
    "stored p' = (if drops 2 s p then stored p else add_mset s (stored p)) + new_chunk 2 s p" by auto
  with r show ?thesis by blast
qed

lemma case_Inr_pair:
  "(case r of Inl e \<Rightarrow> False | Inr ab \<Rightarrow> (case ab of (a, b) \<Rightarrow> P a b)) \<longleftrightarrow> (\<exists>a b. r = Inr (a, b) \<and> P a b)"
  by (auto split: sum.splits)

lemma chunks_grow_ChunkAlloc: "ChunkAlloc t p = (c, q) \<Longrightarrow> length (m_chunks p) \<le> length (m_chunks q) \<and> SLOT_COUNT q = SLOT_COUNT p"
  by (auto simp: ChunkAlloc_def Let_def split: prod.splits)

lemma chunks_grow_Free:
  "ObjectPool_Free t s p = Inr q \<Longrightarrow> length (m_chunks p) \<le> length (m_chunks q) \<and> SLOT_COUNT q = SLOT_COUNT p"
  by (auto simp: ObjectPool_Free_def ChunkPage_Free_def RecycledToMyLocalPool_def Let_def
      split: if_splits prod.splits option.splits dest: chunks_grow_ChunkAlloc)

lemma lost_step:
  assumes "pool_inv p (mset live)" "slot_ok p s" "s \<notin># stored p + mset live" "pool_step a (p, live) = Inr (p', live')"
  shows "slot_ok p' s \<and> s \<notin># stored p' + mset live'"
proof (cases a)
  case (PAlloc t sz)
  from ObjectPool_Alloc_ok [OF assms(1), of 2 t sz] obtain x q where
    x: "ObjectPool_Alloc 2 t sz p = Inr (x, q)" "alloc_ok t p (mset live) x q" by auto
  then have "p' = q" "live' = x # live" using assms(4) PAlloc by auto
  moreover have "s \<notin># add_mset x (stored q)" using x(2) assms(2,3) by (auto simp: alloc_ok_def slot_ok_def)
  ultimately show ?thesis using x(2) assms(2,3) by (auto simp: alloc_ok_def slot_ok_def)
next
  case (PFree t i)
  show ?thesis
  proof (cases "i < length live")
    case True
    let ?x = "live ! i" and ?l = "take i live @ drop (Suc i) live"
    have m: "mset live = add_mset ?x (mset ?l)" by (simp only: mset_remove_nth [OF True])
    have "pool_inv p (add_mset ?x (mset ?l))" using assms(1) by (simp only: m [symmetric])
    from ObjectPool_Free_ok [OF this, of t] obtain q where q: "ObjectPool_Free t ?x p = Inr q"
      "stored q = (if drops t ?x p then stored p else add_mset ?x (stored p)) + new_chunk t ?x p" by blast
    have "s \<notin># new_chunk t ?x p" using assms(2) by (auto simp: new_chunk_def slot_ok_def)
    moreover have "s \<noteq> ?x" "s \<notin># stored p" "s \<notin># mset ?l" using assms(3) by (auto simp: m)
    moreover have "p' = q" "live' = ?l" using assms(4) PFree True q(1) by auto
    moreover have "slot_ok q s" using chunks_grow_Free [OF q(1)] assms(2) by (auto simp: slot_ok_def)
    ultimately show ?thesis using q(2) by auto
  qed (use PFree assms in simp)
qed

text \<open>
  A slot that is neither stored nor live is lost for good: no later sequence of operations
  hands it out or stores it again. (The witness loses one: a thread whose fresh stack was
  refilled from a global batch frees two slots of that chunk, and the second push is refused.)
\<close>

theorem dropped_slot_is_lost:
  assumes "0 < n" "pool_run as (pool_start n uid t) = Inr (p, live)"
    and "slot_ok p s" "s \<notin># stored p" "s \<notin> set live"
    and "pool_run bs (p, live) = Inr (p', live')"
  shows "s \<notin># stored p' \<and> s \<notin> set live'"
proof -
  have "pool_inv p (mset live)" by (rule pool_run_inv [OF assms(1,2)])
  moreover have "s \<notin># stored p + mset live" using assms(4,5) by simp
  ultimately have "s \<notin># stored p' + mset live'" using assms(3,6)
  proof (induction bs arbitrary: p live)
    case (Cons b bs)
    obtain q l where q: "pool_step b (p, live) = Inr (q, l)" using Cons.prems(4) by auto
    have "pool_inv q (mset l)" using pool_step_ok [OF Cons.prems(1), of b] q by auto
    moreover have "slot_ok q s \<and> s \<notin># stored q + mset l" by (rule lost_step [OF Cons.prems(1,3,2) q])
    ultimately show ?case using Cons.IH [of q l] Cons.prems(4) q by simp
  qed simp
  then show ?thesis by simp
qed

theorem dropped_slot_is_lost_witness:
  "\<exists>p live p' live'.
     pool_run [PAlloc 1 8, PAlloc 1 8, PAlloc 1 8, PAlloc 1 8, PFree 2 2, PFree 2 2, PAlloc 1 8, PFree 1 1, PFree 1 1]
       (pool_start 2 7 1) = Inr (p, live) \<and>
     slot_ok p (1, 1) \<and> (1, 1) \<notin># stored p \<and> (1, 1) \<notin> set live \<and>
     pool_run [PFree 1 0, PAlloc 1 8, PAlloc 1 8, PAlloc 1 8] (p, live) = Inr (p', live') \<and>
     (1, 1) \<notin># stored p' \<and> (1, 1) \<notin> set live' \<and> length (m_chunks p') = 4"
proof -
  let ?as = "[PAlloc 1 8, PAlloc 1 8, PAlloc 1 8, PAlloc 1 8, PFree 2 2, PFree 2 2, PAlloc 1 8, PFree 1 1, PFree 1 1]"
  let ?bs = "[PFree 1 0, PAlloc 1 8, PAlloc 1 8, PAlloc 1 8]"
  have "case pool_run ?as (pool_start 2 7 1) of Inr (p, live) \<Rightarrow>
      slot_ok p (1, 1) \<and> (1, 1) \<notin># stored p \<and> (1, 1) \<notin> set live \<and>
      (case pool_run ?bs (p, live) of Inr (p', live') \<Rightarrow> length (m_chunks p') = 4 | _ \<Rightarrow> False) | _ \<Rightarrow> False"
    by code_simp
  then obtain p live p' live' where r: "pool_run ?as (pool_start 2 7 1) = Inr (p, live)"
    "slot_ok p (1, 1)" "(1, 1) \<notin># stored p" "(1, 1) \<notin> set live"
    "pool_run ?bs (p, live) = Inr (p', live')" "length (m_chunks p') = 4"
    unfolding case_Inr_pair by blast
  from dropped_slot_is_lost [OF _ r(1-5)] have "(1, 1) \<notin># stored p'" "(1, 1) \<notin> set live'" by simp_all
  with r show ?thesis by blast
qed

text \<open>
  A thread pushes on the fresh stack of another thread's current chunk: if thread \<open>t\<close> frees a
  live slot that it allocated itself and whose chunk is the current chunk of thread \<open>t'\<close>, the
  free succeeds and the slot lies on the stack from which \<open>t'\<close> allocates, and no lock is taken
  on the way. (The slot reaches \<open>t\<close> after \<open>t\<close> recycled it once, as in the witness.)
\<close>

theorem foreign_thread_pushes_on_fresh_stack:
  assumes "0 < n" "pool_run as (pool_start n uid t0) = Inr (p, s # live)"
    and "m_allocThread (m_metaData p s) = t" "m_TLSChunk p t' = Some (fst s)" "t' \<noteq> t"
    and "\<not> Full (m_freshSlots (m_chunks p ! fst s))"
  shows "\<exists>p'. pool_step (PFree t 0) (p, s # live) = Inr (p', live) \<and> m_TLSChunk p' t' = Some (fst s) \<and>
    items (m_freshSlots (m_chunks p' ! fst s)) = items (m_freshSlots (m_chunks p ! fst s)) @ [s]"
proof -
  have i: "pool_inv p (add_mset s (mset live))" using pool_run_inv [OF assms(1,2)] by simp
  have sl: "slot_ok p s" by (rule pool_inv_slot [OF i]) simp
  then have c: "fst s < length (m_chunks p)" by (simp add: slot_ok_def)
  have ok: "ps_inv (SLOT_COUNT p) (m_freshSlots (m_chunks p ! fst s))"
    using pool_inv_page [OF i c] by (simp add: page_ok_def)
  have "length (items (m_freshSlots (m_chunks p ! fst s))) < SLOT_COUNT p"
    using Full_items [OF ok] assms(6) ok by (auto simp: ps_inv_def items_def)
  then show ?thesis using pool_inv_meta [OF i sl] assms(3,4) c Push_items(3) [OF ok, of s]
    by (simp add: ObjectPool_Free_def ChunkPage_Free_def meta_ok_def)
qed

theorem foreign_thread_pushes_on_fresh_stack_witness:
  "\<exists>p live p'.
     pool_run [PAlloc 1 8, PFree 2 0, PAlloc 2 8, PAlloc 2 8, PAlloc 2 8] (pool_start 2 7 1) = Inr (p, (0, 1) # live) \<and>
     m_TLSChunk p 1 = Some 0 \<and> m_allocThread (m_metaData p (0, 1)) = 2 \<and>
     pool_step (PFree 2 0) (p, (0, 1) # live) = Inr (p', live) \<and>
     items (m_freshSlots (m_chunks p' ! 0)) = items (m_freshSlots (m_chunks p ! 0)) @ [(0, 1)]"
proof -
  let ?as = "[PAlloc 1 8, PFree 2 0, PAlloc 2 8, PAlloc 2 8, PAlloc 2 8]"
  have "case pool_run ?as (pool_start 2 7 1) of Inl _ \<Rightarrow> False | Inr (p, live) \<Rightarrow>
      live = (0, 1) # tl live \<and> m_TLSChunk p 1 = Some 0 \<and> m_allocThread (m_metaData p (0, 1)) = 2 \<and>
      \<not> Full (m_freshSlots (m_chunks p ! 0))"
    by code_simp
  then obtain p live where r: "pool_run ?as (pool_start 2 7 1) = Inr (p, (0, 1) # live)" "m_TLSChunk p 1 = Some 0"
    "m_allocThread (m_metaData p (0, 1)) = 2" "\<not> Full (m_freshSlots (m_chunks p ! 0))"
    unfolding case_Inr_pair by metis
  from foreign_thread_pushes_on_fresh_stack [OF _ r(1,3), of 1] r(2,4) obtain p' where
    "pool_step (PFree 2 0) (p, (0, 1) # live) = Inr (p', live)"
    "items (m_freshSlots (m_chunks p' ! 0)) = items (m_freshSlots (m_chunks p ! 0)) @ [(0, 1)]" by auto
  with r show ?thesis by blast
qed

text \<open>
  A chunk no thread allocates from any more: its fresh stack is not touched by an allocation.
\<close>

definition fresh_of :: "nat \<Rightarrow> ObjectPool \<Rightarrow> slot list" where
  "fresh_of c p = items (m_freshSlots (m_chunks p ! c))"

definition abandoned :: "nat \<Rightarrow> ObjectPool \<Rightarrow> bool" where
  "abandoned c p \<longleftrightarrow> c < length (m_chunks p) \<and> (\<forall>t. m_TLSChunk p t \<noteq> Some c)"

definition untouched :: "nat \<Rightarrow> ObjectPool \<Rightarrow> ObjectPool \<Rightarrow> bool" where
  "untouched c p p' \<longleftrightarrow> m_chunkPool p' = [] \<and> SLOT_COUNT p' = SLOT_COUNT p \<and>
     length (m_chunks p) \<le> length (m_chunks p') \<and> (abandoned c p \<longrightarrow> abandoned c p' \<and> fresh_of c p' = fresh_of c p)"

lemma untouched_refl: "m_chunkPool p = [] \<Longrightarrow> untouched c p p"
  by (simp add: untouched_def)

lemma untouched_trans: "untouched c p q \<Longrightarrow> untouched c q r \<Longrightarrow> untouched c p r"
  by (simp add: untouched_def)

lemma untouched_upd_chunk:
  "m_chunkPool p = [] \<Longrightarrow> c' \<noteq> c \<or> m_freshSlots (f (m_chunks p ! c)) = m_freshSlots (m_chunks p ! c) \<Longrightarrow>
    untouched c p (upd_chunk c' f p)"
  by (cases "c' < length (m_chunks p)") (auto simp: untouched_def abandoned_def fresh_of_def upd_chunk_def nth_list_update)

lemma untouched_hand_out: "m_chunkPool p = [] \<Longrightarrow> untouched c p (hand_out t sz s p)"
  by (simp add: untouched_def abandoned_def fresh_of_def)

lemma untouched_PopFromFreshSlot:
  "m_chunkPool p = [] \<Longrightarrow> c' \<noteq> c \<Longrightarrow> PopFromFreshSlot c' t sz p = Inr (r, p') \<Longrightarrow> untouched c p p'"
  by (auto simp: PopFromFreshSlot_def intro!: untouched_refl untouched_trans [OF untouched_upd_chunk untouched_hand_out]
      split: if_splits prod.splits option.splits)

lemma untouched_PopFromRecyledSlots:
  "m_chunkPool p = [] \<Longrightarrow> c' \<noteq> c \<Longrightarrow> PopFromRecyledSlots c' t sz p = Inr (r, p') \<Longrightarrow> untouched c p p'"
  by (auto simp: PopFromRecyledSlots_def intro!: untouched_refl untouched_trans [OF untouched_upd_chunk untouched_hand_out]
      split: if_splits prod.splits option.splits)

lemma untouched_TryStealFromGlobal:
  assumes "m_chunkPool p = []" "c' \<noteq> c" "TryStealFromGlobal c' p = (b, p')"
  shows "untouched c p p'"
proof (cases "m_globalBatchStack p")
  case Nil
  with assms show ?thesis by (auto simp: TryStealFromGlobal_def untouched_refl)
next
  case (Cons qb rest)
  let ?p1 = "p\<lparr>m_globalBatchStack := rest\<rparr>"
  have "untouched c p ?p1" using assms(1) by (simp add: untouched_def abandoned_def fresh_of_def)
  moreover have "untouched c ?p1 (upd_chunk c' (\<lambda>pg. pg\<lparr>m_freshSlots := snd qb\<rparr>) ?p1)"
    by (rule untouched_upd_chunk) (use assms in simp_all)
  ultimately show ?thesis using assms Cons
    by (cases qb) (auto simp: TryStealFromGlobal_def intro!: untouched_upd_chunk
        intro: untouched_trans [OF untouched_trans])
qed

lemma untouched_ChunkAlloc:
  assumes "m_chunkPool p = []" "0 < SLOT_COUNT p" "ChunkAlloc t p = (c', p')"
  shows "untouched c p p'" "c < length (m_chunks p) \<Longrightarrow> c' \<noteq> c"
  using ChunkAlloc_parts(1,2,3,5,6) [OF assms] by (auto simp: untouched_def abandoned_def fresh_of_def nth_append)

lemma untouched_chunkPool: "untouched c p p' \<Longrightarrow> m_chunkPool p' = [] \<and> SLOT_COUNT p' = SLOT_COUNT p \<and> length (m_chunks p) \<le> length (m_chunks p')"
  by (simp add: untouched_def)

lemma untouched_ChunkPage_Alloc:
  "m_chunkPool p = [] \<Longrightarrow> 0 < SLOT_COUNT p \<Longrightarrow> c < length (m_chunks p) \<Longrightarrow> c' \<noteq> c \<Longrightarrow>
    ChunkPage_Alloc d c' t sz p = Inr (s, p') \<Longrightarrow> untouched c p p'"
proof (induction d arbitrary: c' p)
  case (Suc d)
  from Suc.prems(5) obtain r1 p1 where 1: "PopFromFreshSlot c' t sz p = Inr (r1, p1)" by auto
  have u1: "untouched c p p1" by (rule untouched_PopFromFreshSlot [OF Suc.prems(1,4) 1])
  show ?case
  proof (cases r1)
    case (Some x)
    then show ?thesis using Suc.prems(5) 1 u1 by simp
  next
    case None1: None
    with Suc.prems(5) 1 obtain r2 p2 where 2: "PopFromRecyledSlots c' t sz p1 = Inr (r2, p2)" by auto
    have u2: "untouched c p p2"
      using untouched_trans [OF u1 untouched_PopFromRecyledSlots [OF _ Suc.prems(4) 2]] untouched_chunkPool [OF u1] by simp
    show ?thesis
    proof (cases r2)
      case (Some x)
      then show ?thesis using Suc.prems(5) 1 2 None1 u2 by simp
    next
      case None2: None
      obtain b p3 where 3: "TryStealFromGlobal c' p2 = (b, p3)" by (cases "TryStealFromGlobal c' p2")
      have u3: "untouched c p p3"
        using untouched_trans [OF u2 untouched_TryStealFromGlobal [OF _ Suc.prems(4) 3]] untouched_chunkPool [OF u2] by simp
      from Suc.prems(5) 1 2 3 None1 None2 obtain r4 p4 where
        4: "(if b then PopFromFreshSlot c' t sz p3 else Inr (None, p3)) = Inr (r4, p4)" by auto
      have u4: "untouched c p p4"
        using untouched_trans [OF u3 untouched_PopFromFreshSlot [OF _ Suc.prems(4)]] untouched_chunkPool [OF u3] 4 u3
        by (auto split: if_splits)
      show ?thesis
      proof (cases r4)
        case (Some x)
        then show ?thesis using Suc.prems(5) 1 2 3 4 None1 None2 u4 by simp
      next
        case None4: None
        obtain c5 p5 where 5: "ChunkAlloc t p4 = (c5, p5)" by (cases "ChunkAlloc t p4")
        have n4: "m_chunkPool p4 = []" "0 < SLOT_COUNT p4" "c < length (m_chunks p4)"
          using untouched_chunkPool [OF u4] Suc.prems(2,3) by auto
        note u5 = untouched_ChunkAlloc [OF n4(1,2) 5, of c]
        have "ChunkPage_Alloc d c5 t sz p5 = Inr (s, p')" using Suc.prems(5) 1 2 3 4 5 None1 None2 None4 by simp
        with Suc.IH [of p5 c5] u5 untouched_chunkPool [OF u5(1)] n4
        show ?thesis using untouched_trans [OF u4 untouched_trans [OF u5(1)]] by auto
      qed
    qed
  qed
qed simp

lemma untouched_ObjectPool_Alloc:
  assumes "m_chunkPool p = []" "0 < SLOT_COUNT p" "abandoned c p" "ObjectPool_Alloc d t sz p = Inr (s, p')"
  shows "untouched c p p'"
proof (cases "m_TLSChunk p t")
  case (Some c')
  then have "c' \<noteq> c" "c < length (m_chunks p)" using assms(3) by (auto simp: abandoned_def)
  with untouched_ChunkPage_Alloc [OF assms(1,2)] Some assms(4) show ?thesis
    by (simp add: ObjectPool_Alloc_def)
next
  case None
  obtain c' p1 where ca: "ChunkAlloc t p = (c', p1)" by (cases "ChunkAlloc t p")
  note u = untouched_ChunkAlloc [OF assms(1,2) ca, of c]
  have "ChunkPage_Alloc d c' t sz p1 = Inr (s, p')" using None ca assms(4) by (simp add: ObjectPool_Alloc_def)
  moreover have "m_chunkPool p1 = []" "0 < SLOT_COUNT p1" "c < length (m_chunks p1)" "c' \<noteq> c"
    using untouched_chunkPool [OF u(1)] u(2) assms(2,3) by (auto simp: abandoned_def)
  ultimately show ?thesis by (intro untouched_trans [OF u(1)] untouched_ChunkPage_Alloc)
qed

lemma RecycledToMyLocalPool_untouched:
  assumes "m_chunkPool p = []" "0 < SLOT_COUNT p"
  shows "untouched c p (RecycledToMyLocalPool t s p)"
proof -
  have upd: "untouched c q (RecycledToMyLocalPool t s p)"
    if "RecycledToMyLocalPool t s p = (let r = snd (Push s (m_recycledSlots (m_chunks q ! c')))
      in if Full r
         then upd_chunk c' (\<lambda>pg. pg\<lparr>m_recycledSlots := PointerStack_new (SLOT_COUNT q) (0, 0),
                                    m_recycledStackPool := m_recycledStackPool pg - 1\<rparr>)
                (q\<lparr>m_globalBatchStack := (c', r) # m_globalBatchStack q\<rparr>)
         else upd_chunk c' (\<lambda>pg. pg\<lparr>m_recycledSlots := r\<rparr>) q)" "m_chunkPool q = []" for q c'
    using that by (cases "c' = c") (auto simp: Let_def untouched_def abandoned_def fresh_of_def upd_chunk_def)
  show ?thesis
  proof (cases "m_TLSChunk p t")
    case (Some c')
    then show ?thesis by (intro upd [of p c']) (simp_all add: RecycledToMyLocalPool_def GetCurrentTLSChunk_def assms)
  next
    case None
    obtain c' p1 where ca: "ChunkAlloc t p = (c', p1)" by (cases "ChunkAlloc t p")
    note u = untouched_ChunkAlloc(1) [OF assms ca, of c]
    show ?thesis
      by (rule untouched_trans [OF u], rule upd [of p1 c'])
        (use None ca untouched_chunkPool [OF u] in \<open>simp_all add: RecycledToMyLocalPool_def GetCurrentTLSChunk_def\<close>)
  qed
qed

lemma abandoned_step:
  assumes "pool_inv p (mset live)" "abandoned c p" "pool_step a (p, live) = Inr (p', live')"
  shows "abandoned c p' \<and> (\<exists>zs. fresh_of c p' = fresh_of c p @ zs)"
proof -
  have n: "m_chunkPool p = []" "0 < SLOT_COUNT p" using assms(1) by (auto simp: pool_inv_def)
  show ?thesis
  proof (cases a)
    case (PAlloc t sz)
    then obtain x where "ObjectPool_Alloc 2 t sz p = Inr (x, p')" using assms(3) by auto
    from untouched_ObjectPool_Alloc [OF n assms(2) this] show ?thesis using assms(2) by (simp add: untouched_def)
  next
    case (PFree t i)
    show ?thesis
    proof (cases "i < length live")
      case True
      let ?s = "live ! i"
      have sl: "slot_ok p ?s" by (rule pool_inv_slot [OF assms(1)]) (use True in simp)
      have md: "m_chunkOwner (m_metaData p ?s) = fst ?s" "m_markValue (m_metaData p ?s) = MARK_FRONT"
        using pool_inv_meta [OF assms(1) sl] by (simp_all add: meta_ok_def)
      have c: "fst ?s < length (m_chunks p)" using sl by (simp add: slot_ok_def)
      have ok: "ps_inv (SLOT_COUNT p) (m_freshSlots (m_chunks p ! fst ?s))"
        using pool_inv_page [OF assms(1) c] by (simp add: page_ok_def)
      have f: "ObjectPool_Free t ?s p = Inr p'" using assms(3) PFree True by auto
      show ?thesis
      proof (cases "m_allocThread (m_metaData p ?s) = t")
        case True
        then have "p' = upd_chunk (fst ?s) (\<lambda>pg. pg\<lparr>m_freshSlots := snd (Push ?s (m_freshSlots pg))\<rparr>) p"
          using f md by (simp add: ObjectPool_Free_def ChunkPage_Free_def)
        then show ?thesis using assms(2) c Push_items(3) [OF ok, of ?s] by (simp add: abandoned_def fresh_of_def)
      next
        case False
        then have "p' = RecycledToMyLocalPool t ?s p" using f md by (simp add: ObjectPool_Free_def ChunkPage_Free_def)
        then show ?thesis using RecycledToMyLocalPool_untouched [OF n, of c t ?s] assms(2) by (simp add: untouched_def)
      qed
    qed (use PFree assms in simp)
  qed
qed

text \<open>
  Memory held by a chunk that is no thread's current chunk is never used again: whatever
  the clients do, its fresh stack only grows. A thread leaves its chunk behind each time it has
  more than \<open>SLOT_COUNT\<close> slots in use, and its own frees put the slots back into that chunk,
  so the same sequence of allocations and frees needs a new chunk every time (as in the
  witness, where with one slot per chunk three rounds of two allocations and two frees leave
  four chunks and all their slots free).
\<close>

theorem abandoned_chunk_is_never_reused:
  assumes "0 < n" "pool_run as (pool_start n uid t) = Inr (p, live)" "abandoned c p"
    and "pool_run bs (p, live) = Inr (p', live')"
  shows "abandoned c p' \<and> (\<exists>zs. fresh_of c p' = fresh_of c p @ zs)"
  using pool_run_inv [OF assms(1,2)] assms(3,4)
proof (induction bs arbitrary: p live)
  case (Cons b bs)
  obtain q l where q: "pool_step b (p, live) = Inr (q, l)" using Cons.prems(3) by auto
  have "pool_inv q (mset l)" using pool_step_ok [OF Cons.prems(1), of b] q by auto
  with Cons.IH [of q l] abandoned_step [OF Cons.prems(1,2) q] Cons.prems(3) q show ?case by auto
qed simp

lemmas pool_eval = pool_start_def ObjectPool_new_def ChunkAlloc_def ChunkPage_new_def PointerStack_new_def
  Push_def Pop_def Full_def Empty_def items_def Let_def SetOwner_def ObjectPool_Alloc_def PopFromFreshSlot_def
  PopFromRecyledSlots_def hand_out_def upd_chunk_def TryStealFromGlobal_def ObjectPool_Free_def ChunkPage_Free_def
  abandoned_def fresh_of_def stored_def page_slots_def numeral_2_eq_2

theorem abandoned_chunk_is_never_reused_witness:
  "\<exists>p p'. let rnd = [PAlloc 1 8, PAlloc 1 8, PFree 1 0, PFree 1 0] in
     pool_run rnd (pool_start 1 7 1) = Inr (p, []) \<and> abandoned 0 p \<and> fresh_of 0 p = [(0, 0)] \<and>
     pool_run (rnd @ rnd) (p, []) = Inr (p', []) \<and> abandoned 0 p' \<and>
     (\<exists>zs. fresh_of 0 p' = fresh_of 0 p @ zs) \<and> length (m_chunks p') = 4 \<and> size (stored p') = 4"
proof -
  let ?as = "[PAlloc 1 8, PAlloc 1 8, PFree 1 0, PFree 1 0]"
  have "case pool_run ?as (pool_start 1 7 1) of Inl _ \<Rightarrow> False | Inr (p, live) \<Rightarrow>
      live = [] \<and> abandoned 0 p \<and> fresh_of 0 p = [(0, 0)] \<and>
      (case pool_run (?as @ ?as) (p, live) of Inl _ \<Rightarrow> False | Inr (p', live') \<Rightarrow>
         live' = [] \<and> length (m_chunks p') = 4 \<and> size (stored p') = 4)"
    by (simp add: pool_eval)
  then obtain p p' where r: "pool_run ?as (pool_start 1 7 1) = Inr (p, [])" "abandoned 0 p" "fresh_of 0 p = [(0, 0)]"
    "pool_run (?as @ ?as) (p, []) = Inr (p', [])" "length (m_chunks p') = 4" "size (stored p') = 4"
    unfolding case_Inr_pair by blast
  from abandoned_chunk_is_never_reused [OF _ r(1,2,4)] have "abandoned 0 p'" "\<exists>zs. fresh_of 0 p' = fresh_of 0 p @ zs" by simp_all
  with r show ?thesis unfolding Let_def by blast
qed

section \<open>Size classes\<close>

abbreviation KB :: nat where "KB \<equiv> 1024"
abbreviation MB :: nat where "MB \<equiv> 1024 * 1024"

definition CalcSlotCount :: "nat \<Rightarrow> nat" where
  "CalcSlotCount s =
     (if s \<le> 64 then (256 * KB) div s
      else if s \<le> 128 then (1 * MB) div s
      else if s \<le> 256 then (1 * MB) div s
      else if s \<le> 512 then (2 * MB) div s
      else if s \<le> 1024 then (2 * MB) div s
      else let n = (2 * MB) div s in if n \<ge> 64 then n else 64)"

text \<open>
  \<open>m_memory\<close> maps a size to one of the seven pools; the array belongs to the global
  \<^verbatim>\<open>gMemoryPool\<close> and starts zeroed. \<open>m_heap\<close> numbers the blocks \<^verbatim>\<open>_aligned_malloc\<close> has
  returned. A pointer is into a pool or to such a block.
\<close>

definition PAGE_SIZE :: nat where
  "PAGE_SIZE = 4096"

datatype mem_ptr = PoolPtr nat slot | HeapPtr nat

record MemoryPool =
  m_memory :: "nat option list"
  m_pools :: "ObjectPool list"
  m_heap :: nat

function size_loop :: "nat \<Rightarrow> nat \<Rightarrow> nat \<Rightarrow> nat option list \<Rightarrow> nat \<times> nat option list" where
  "size_loop k lim memorySize m =
     (if memorySize \<le> lim then size_loop k lim (memorySize + 1) (m[memorySize := Some k]) else (memorySize, m))"
  by auto
termination by (relation "measure (\<lambda>(k, lim, i, m). lim + 1 - i)") auto

declare size_loop.simps [simp del]

definition buffer_sizes :: "nat list" where
  "buffer_sizes = [64, 128, 256, 512, 1024, 2048, 4096]"

fun class_loops :: "nat \<Rightarrow> nat list \<Rightarrow> nat \<times> nat option list \<Rightarrow> nat \<times> nat option list" where
  "class_loops k [] im = im"
| "class_loops k (lim # lims) (i, m) = class_loops (Suc k) lims (size_loop k lim i m)"

definition MemoryPool_new :: "nat \<Rightarrow> MemoryPool" where
  "MemoryPool_new t =
     \<lparr>m_memory = snd (class_loops 0 buffer_sizes (1, replicate (PAGE_SIZE + 1) None)),
      m_pools = map (\<lambda>k. ObjectPool_new (CalcSlotCount (buffer_sizes ! k)) k t) [0..<7], m_heap = 0\<rparr>"

definition MemoryPool_Alloc :: "nat \<Rightarrow> nat \<Rightarrow> MemoryPool \<Rightarrow> (mem_ptr \<times> MemoryPool) result" where
  "MemoryPool_Alloc t sz mp =
     (if sz > PAGE_SIZE then Inr (HeapPtr (m_heap mp), mp\<lparr>m_heap := m_heap mp + 1\<rparr>)
      else case m_memory mp ! sz of
        None \<Rightarrow> Inl NullDeref
      | Some k \<Rightarrow> ebind (AllocFromChunk 2 t sz (m_pools mp ! k)) (\<lambda>(s, p).
          Inr (PoolPtr k s, mp\<lparr>m_pools := (m_pools mp)[k := p]\<rparr>)))"

text \<open>
  \<^verbatim>\<open>Free\<close> trusts the size it is given: a pointer of another class, or of the other kind, is
  read as something it is not (\<open>OutOfBounds\<close>).
\<close>

definition MemoryPool_Free :: "nat \<Rightarrow> mem_ptr \<Rightarrow> nat \<Rightarrow> MemoryPool \<Rightarrow> MemoryPool result" where
  "MemoryPool_Free t ptr sz mp =
     (if sz > PAGE_SIZE then (case ptr of HeapPtr h \<Rightarrow> Inr mp | PoolPtr _ _ \<Rightarrow> Inl OutOfBounds)
      else case m_memory mp ! sz of
        None \<Rightarrow> Inl NullDeref
      | Some k \<Rightarrow> (case ptr of
          HeapPtr _ \<Rightarrow> Inl OutOfBounds
        | PoolPtr k' s \<Rightarrow> if k' \<noteq> k then Inl OutOfBounds
            else ebind (FreeToChunk t s (m_pools mp ! k)) (\<lambda>p. Inr (mp\<lparr>m_pools := (m_pools mp)[k := p]\<rparr>))))"

text \<open>The two sizes \<^verbatim>\<open>MyAllocator<T>\<close> computes for \<open>n\<close> objects of size \<open>sz\<close>, as 64-bit numbers.\<close>

definition allocate_size :: "nat \<Rightarrow> nat \<Rightarrow> nat" where
  "allocate_size n sz = nat ((to_int32 (int n) * int sz) mod 2 ^ 64)"

definition deallocate_size :: "nat \<Rightarrow> nat \<Rightarrow> nat" where
  "deallocate_size n sz = (n * sz) mod 2 ^ 64"

definition allocate :: "nat \<Rightarrow> nat \<Rightarrow> nat \<Rightarrow> MemoryPool \<Rightarrow> (mem_ptr \<times> MemoryPool) result" where
  "allocate t sz n mp = MemoryPool_Alloc t (allocate_size n sz) mp"

definition deallocate :: "nat \<Rightarrow> nat \<Rightarrow> mem_ptr \<Rightarrow> nat \<Rightarrow> MemoryPool \<Rightarrow> MemoryPool result" where
  "deallocate t sz ptr n mp = MemoryPool_Free t ptr (deallocate_size n sz) mp"

lemma size_loop_spec:
  "i \<le> lim + 1 \<Longrightarrow> fst (size_loop k lim i m) = lim + 1 \<and> length (snd (size_loop k lim i m)) = length m \<and>
    (\<forall>j < length m. snd (size_loop k lim i m) ! j = (if i \<le> j \<and> j \<le> lim then Some k else m ! j))"
proof (induction k lim i m rule: size_loop.induct)
  case (1 k lim i m)
  show ?case
  proof (cases "i \<le> lim")
    case True
    with 1 show ?thesis by (subst (1 2 3) size_loop.simps) (auto simp: nth_list_update)
  qed (use 1 in \<open>subst (1 2 3) size_loop.simps, auto\<close>)
qed

text \<open>The reference definition: the number of classes that are too small.\<close>

definition size_class :: "nat \<Rightarrow> nat" where
  "size_class s = length (filter (\<lambda>b. b < s) buffer_sizes)"

lemma class_loops_spec:
  assumes "sorted_wrt (<) (b # lims)"
  shows "length (snd (class_loops k lims (b + 1, m))) = length m \<and>
    (\<forall>j < length m. snd (class_loops k lims (b + 1, m)) ! j =
      (if b < j \<and> (\<exists>l \<in> set lims. j \<le> l) then Some (k + length (filter (\<lambda>l. l < j) lims)) else m ! j))"
  using assms
proof (induction lims arbitrary: b k m)
  case (Cons l lims)
  let ?r = "size_loop k l (b + 1) m"
  have r: "fst ?r = l + 1" "length (snd ?r) = length m"
    "\<And>j. j < length m \<Longrightarrow> snd ?r ! j = (if b < j \<and> j \<le> l then Some k else m ! j)"
    using size_loop_spec [of "b + 1" l k m] Cons.prems by (simp_all add: Suc_le_eq)
  have rr: "class_loops k (l # lims) (b + 1, m) = class_loops (Suc k) lims (l + 1, snd ?r)"
    using r(1) by (simp add: prod_eq_iff [symmetric]) (metis prod.collapse)
  have ih: "length (snd (class_loops (Suc k) lims (l + 1, snd ?r))) = length m"
    "\<And>j. j < length m \<Longrightarrow> snd (class_loops (Suc k) lims (l + 1, snd ?r)) ! j =
      (if l < j \<and> (\<exists>x \<in> set lims. j \<le> x) then Some (Suc k + length (filter (\<lambda>x. x < j) lims)) else snd ?r ! j)"
    using Cons.IH [where b = l and m = "snd ?r" and k = "Suc k"] Cons.prems r(2) by simp_all
  have none: "filter (\<lambda>x. x < j) lims = []" if "j \<le> l" for j
    using that Cons.prems by (auto simp: filter_empty_conv)
  have "snd (class_loops k (l # lims) (b + 1, m)) ! j =
      (if b < j \<and> (\<exists>x \<in> set (l # lims). j \<le> x) then Some (k + length (filter (\<lambda>x. x < j) (l # lims))) else m ! j)"
    if j: "j < length m" for j
    unfolding rr ih(2) [OF j] r(3) [OF j] using none [of j] Cons.prems by auto
  then show ?case unfolding rr using ih(1) by (simp add: rr)
qed simp

lemma m_memory_new:
  "length (m_memory (MemoryPool_new t)) = 4097" "m_memory (MemoryPool_new t) ! 0 = None"
  "1 \<le> s \<Longrightarrow> s \<le> PAGE_SIZE \<Longrightarrow> m_memory (MemoryPool_new t) ! s = Some (size_class s)"
  using class_loops_spec [of 0 buffer_sizes 0 "replicate (PAGE_SIZE + 1) None"]
  by (auto simp: MemoryPool_new_def buffer_sizes_def PAGE_SIZE_def size_class_def)

lemma size_class_fits:
  assumes "1 \<le> s" "s \<le> PAGE_SIZE"
  shows "size_class s < 7" "s \<le> buffer_sizes ! size_class s" "size_class s = 0 \<or> buffer_sizes ! size_class s < 2 * s"
  using assms by (auto simp: size_class_def buffer_sizes_def PAGE_SIZE_def)

lemma CalcSlotCount_bounds:
  assumes "1 \<le> s"
  shows "64 \<le> CalcSlotCount s" "CalcSlotCount s \<le> 256 * KB" "s \<le> 32 * KB \<Longrightarrow> CalcSlotCount s * s \<le> 2 * MB"
proof -
  have q: "(64 \<le> a div s) = (64 * s \<le> a)" for a using assms by (simp add: less_eq_div_iff_mult_less_eq)
  have d: "a div s * s \<le> b" if "a \<le> b" for a b using that by (rule order_trans [OF div_times_less_eq_dividend])
  have u: "a div s \<le> a div b" if "0 < b" "b \<le> s" for a b using that by (simp add: div_le_mono2)
  show "64 \<le> CalcSlotCount s" using assms by (auto simp: CalcSlotCount_def Let_def q)
  show "CalcSlotCount s \<le> 256 * KB"
    using u [of 1 "256 * KB"] u [of 65 "1 * MB"] u [of 257 "2 * MB"] assms by (auto simp: CalcSlotCount_def Let_def)
  assume s: "s \<le> 32 * KB"
  then have "64 \<le> 2 * MB div s" by (subst q) simp
  then show "CalcSlotCount s * s \<le> 2 * MB"
    by (auto simp: CalcSlotCount_def Let_def intro!: d)
qed

text \<open>
  C36. The number of slots of a chunk: at least 64, at most 262144 (so the \<^verbatim>\<open>int\<close> template argument
  holds it), and for objects up to 32 KB a chunk's payload stays within 2 MB. The table the
  constructor of \<^verbatim>\<open>MemoryPool\<close> fills maps each size from 1 to 4096 to the smallest class that
  holds it: never a smaller buffer, and above 64 bytes less than twice the size.
\<close>

theorem size_classes_fit:
  assumes "1 \<le> s" "s \<le> PAGE_SIZE"
  shows "\<exists>k. m_memory (MemoryPool_new t) ! s = Some k \<and> k < length buffer_sizes \<and>
    s \<le> buffer_sizes ! k \<and> (k = 0 \<or> buffer_sizes ! (k - 1) < s \<and> buffer_sizes ! k < 2 * s) \<and>
    64 \<le> CalcSlotCount (buffer_sizes ! k) \<and> CalcSlotCount (buffer_sizes ! k) \<le> 2 ^ 18 \<and>
    CalcSlotCount (buffer_sizes ! k) * (buffer_sizes ! k) \<le> 2 * MB"
proof -
  note f = size_class_fits [OF assms]
  let ?b = "buffer_sizes ! size_class s"
  have l: "length buffer_sizes = 7" by (simp add: buffer_sizes_def)
  have "1 \<le> ?b" using f(2) assms(1) by linarith
  moreover have "\<forall>b \<in> set buffer_sizes. b \<le> 32 * KB" by (simp add: buffer_sizes_def)
  then have "?b \<le> 32 * KB" using f(1) nth_mem [of "size_class s" buffer_sizes] by (simp add: l)
  moreover have "size_class s = 0 \<or> buffer_sizes ! (size_class s - 1) < s"
    using assms by (auto simp: size_class_def buffer_sizes_def PAGE_SIZE_def)
  ultimately show ?thesis using l m_memory_new(3) [OF assms] f CalcSlotCount_bounds [of ?b]
    by (intro exI [of _ "size_class s"]) auto
qed

theorem size_classes_fit_witness:
  "m_memory (MemoryPool_new 1) ! 65 = Some 1 \<and> buffer_sizes ! 1 = 128 \<and> CalcSlotCount 128 = 8192 \<and>
    CalcSlotCount (buffer_sizes ! 1) * (buffer_sizes ! 1) \<le> 2 * MB"
  using size_classes_fit [of 65 1] m_memory_new(3) [of 65 1]
  by (auto simp: PAGE_SIZE_def size_class_def buffer_sizes_def CalcSlotCount_def)

section \<open>Clients of the allocator\<close>

text \<open>
  Clients of \<^verbatim>\<open>MyAllocator\<close>: \<open>MAlloc t sz n\<close> is \<^verbatim>\<open>allocate(n)\<close> for objects of size \<open>sz\<close> by
  thread \<open>t\<close>, \<open>MFree t i\<close> the \<^verbatim>\<open>deallocate\<close> of the \<open>i\<close>-th live block with its own count.
\<close>

datatype mem_op = MAlloc nat nat nat | MFree nat nat

type_synonym mem_block = "mem_ptr \<times> nat \<times> nat"

fun mem_step :: "mem_op \<Rightarrow> MemoryPool \<times> mem_block list \<Rightarrow> (MemoryPool \<times> mem_block list) result" where
  "mem_step (MAlloc t sz n) (mp, live) = ebind (allocate t sz n mp) (\<lambda>(ptr, mp'). Inr (mp', (ptr, sz, n) # live))"
| "mem_step (MFree t i) (mp, live) =
     (if i < length live
      then case live ! i of (ptr, sz, n) \<Rightarrow>
        ebind (deallocate t sz ptr n mp) (\<lambda>mp'. Inr (mp', take i live @ drop (Suc i) live))
      else Inr (mp, live))"

fun mem_run :: "mem_op list \<Rightarrow> MemoryPool \<times> mem_block list \<Rightarrow> (MemoryPool \<times> mem_block list) result" where
  "mem_run [] st = Inr st"
| "mem_run (a # as) st = ebind (mem_step a st) (mem_run as)"

fun proper_mem_op :: "mem_op \<Rightarrow> bool" where
  "proper_mem_op (MAlloc t sz n) = (0 < n * sz \<and> n < 2 ^ 31 \<and> n * sz < 2 ^ 64)"
| "proper_mem_op (MFree t i) = True"

lemma sizes_agree:
  assumes "n < 2 ^ 31" "n * sz < 2 ^ 64"
  shows "allocate_size n sz = n * sz" "deallocate_size n sz = n * sz"
proof -
  have "to_int32 (int n) = int n" using assms(1) by (intro to_int32_small) auto
  moreover have "int n * int sz < 2 ^ 64" using assms(2) by (metis of_nat_less_iff of_nat_mult of_nat_numeral of_nat_power)
  ultimately show "allocate_size n sz = n * sz" by (simp add: allocate_size_def nat_mult_distrib)
  show "deallocate_size n sz = n * sz" using assms(2) by (simp add: deallocate_size_def)
qed

text \<open>The slots of class \<open>k\<close> and the heap blocks among the live blocks.\<close>

fun slot_of :: "nat \<Rightarrow> mem_block \<Rightarrow> slot list" where
  "slot_of k (PoolPtr k' s, sz, n) = (if k' = k then [s] else [])"
| "slot_of k (HeapPtr h, sz, n) = []"

fun heap_of :: "mem_block \<Rightarrow> nat list" where
  "heap_of (PoolPtr k s, sz, n) = []"
| "heap_of (HeapPtr h, sz, n) = [h]"

definition slots_of :: "nat \<Rightarrow> mem_block list \<Rightarrow> slot list" where
  "slots_of k live = concat (map (slot_of k) live)"

definition heaps_of :: "mem_block list \<Rightarrow> nat list" where
  "heaps_of live = concat (map heap_of live)"

fun block_ok :: "nat \<Rightarrow> mem_block \<Rightarrow> bool" where
  "block_ok h (ptr, sz, n) = (n < 2 ^ 31 \<and> 0 < n * sz \<and> n * sz < 2 ^ 64 \<and>
     (case ptr of PoolPtr k s \<Rightarrow> n * sz \<le> PAGE_SIZE \<and> k = size_class (n * sz) | HeapPtr i \<Rightarrow> PAGE_SIZE < n * sz \<and> i < h))"

definition mem_inv :: "MemoryPool \<Rightarrow> mem_block list \<Rightarrow> bool" where
  "mem_inv mp live \<longleftrightarrow> m_memory mp = m_memory (MemoryPool_new 0) \<and> length (m_pools mp) = 7 \<and>
     (\<forall>k < 7. pool_inv (m_pools mp ! k) (mset (slots_of k live))) \<and>
     (\<forall>b \<in> set live. block_ok (m_heap mp) b) \<and> distinct (heaps_of live)"

lemma slots_of_simps [simp]: "slots_of k [] = []" "slots_of k (b # live) = slot_of k b @ slots_of k live"
  "slots_of k (xs @ ys) = slots_of k xs @ slots_of k ys"
  by (simp_all add: slots_of_def)

lemma heaps_of_simps [simp]: "heaps_of [] = []" "heaps_of (b # live) = heap_of b @ heaps_of live"
  "heaps_of (xs @ ys) = heaps_of xs @ heaps_of ys"
  by (simp_all add: heaps_of_def)

lemma split_nth: "i < length xs \<Longrightarrow> \<exists>ys zs. xs = ys @ xs ! i # zs \<and> take i xs @ drop (Suc i) xs = ys @ zs"
  by (metis id_take_nth_drop)

lemma pool_inv_distinct: "pool_inv p (mset xs) \<Longrightarrow> distinct xs"
  unfolding distinct_count_atmost_1
  by (metis add_leE count_mset_0_iff le_neq_implies_less less_one pool_inv_count count_union)

lemma distinct_blocks:
  "(\<And>k. distinct (slots_of k live)) \<Longrightarrow> distinct (heaps_of live) \<Longrightarrow> distinct (map fst live)"
proof (induction live)
  case (Cons b live)
  obtain ptr sz n where b: "b = (ptr, sz, n)" by (cases b) auto
  have "distinct (slots_of k live)" for k using Cons.prems(1) [of k] by simp
  with Cons have ih: "distinct (map fst live)" by simp
  have "ptr \<notin> set (map fst live)"
  proof
    assume "ptr \<in> set (map fst live)"
    then obtain sz' n' where m: "(ptr, sz', n') \<in> set live" by auto
    show False
    proof (cases ptr)
      case (PoolPtr k s)
      with m have "s \<in> set (slots_of k live)" by (force simp: slots_of_def)
      with Cons.prems(1) [of k] PoolPtr b show False by simp
    next
      case (HeapPtr h)
      with m have "h \<in> set (heaps_of live)" by (force simp: heaps_of_def)
      with Cons.prems(2) HeapPtr b show False by simp
    qed
  qed
  with ih b show ?case by simp
qed simp

lemma mem_inv_distinct:
  assumes "mem_inv mp live"
  shows "distinct (map fst live)"
proof (rule distinct_blocks)
  show "distinct (slots_of k live)" for k
  proof (cases "k < 7")
    case False
    have "slot_of k b = []" if "b \<in> set live" for b
    proof -
      have "block_ok (m_heap mp) b" using assms that by (simp add: mem_inv_def)
      then show ?thesis using False size_class_fits(1) by (cases "(k, b)" rule: slot_of.cases) (auto simp: Suc_le_eq)
    qed
    then have "slots_of k live = []" by (simp add: slots_of_def)
    then show ?thesis by simp
  qed (use assms in \<open>auto simp: mem_inv_def intro: pool_inv_distinct\<close>)
qed (use assms in \<open>simp add: mem_inv_def\<close>)

lemma AllocFromChunk_Alloc: "AllocFromChunk = ObjectPool_Alloc"
  by (intro ext) (simp add: AllocFromChunk_def ObjectPool_Alloc_def GetCurrentTLSChunk_def)

lemma FreeToChunk_Free: "FreeToChunk = ObjectPool_Free"
  by (intro ext) (simp add: FreeToChunk_def ObjectPool_Free_def)

lemma mem_table:
  "mem_inv mp live \<Longrightarrow> 1 \<le> s \<Longrightarrow> s \<le> PAGE_SIZE \<Longrightarrow> m_memory mp ! s = Some (size_class s)"
  by (simp add: mem_inv_def m_memory_new(3))

lemma mem_alloc_ok:
  assumes "mem_inv mp live" "proper_mem_op (MAlloc t sz n)"
  shows "\<exists>ptr mp'. allocate t sz n mp = Inr (ptr, mp') \<and> mem_inv mp' ((ptr, sz, n) # live)"
proof (cases "PAGE_SIZE < n * sz")
  case True
  have "block_ok (Suc (m_heap mp)) b" if "b \<in> set live" for b
  proof -
    have "block_ok (m_heap mp) b" using assms(1) that by (simp add: mem_inv_def)
    then show ?thesis by (cases b) (auto split: mem_ptr.splits)
  qed
  moreover have "m_heap mp \<notin> set (heaps_of live)"
  proof
    assume "m_heap mp \<in> set (heaps_of live)"
    then obtain b where b: "b \<in> set live" "m_heap mp \<in> set (heap_of b)" by (auto simp: heaps_of_def)
    have "block_ok (m_heap mp) b" using assms(1) b(1) by (simp add: mem_inv_def)
    then show False using b(2) by (cases b rule: heap_of.cases) auto
  qed
  ultimately show ?thesis using True assms
    by (simp add: allocate_def MemoryPool_Alloc_def sizes_agree mem_inv_def)
next
  case False
  let ?k = "size_class (n * sz)"
  have s: "1 \<le> n * sz" "n * sz \<le> PAGE_SIZE" using False assms(2) by auto
  have k: "?k < 7" by (rule size_class_fits(1) [OF s])
  have i: "pool_inv (m_pools mp ! ?k) (mset (slots_of ?k live))" using assms(1) k by (simp add: mem_inv_def)
  from ObjectPool_Alloc_ok [OF i order_refl, of t "n * sz"] obtain x p' where
    x: "ObjectPool_Alloc 2 t (n * sz) (m_pools mp ! ?k) = Inr (x, p')" "pool_inv p' (add_mset x (mset (slots_of ?k live)))"
    by (auto simp: alloc_ok_def)
  let ?mp = "mp\<lparr>m_pools := (m_pools mp)[?k := p']\<rparr>"
  have "allocate t sz n mp = Inr (PoolPtr ?k x, ?mp)"
    using False assms(2) x(1) mem_table [OF assms(1) s] by (simp add: allocate_def MemoryPool_Alloc_def sizes_agree AllocFromChunk_Alloc)
  moreover have "mem_inv ?mp ((PoolPtr ?k x, sz, n) # live)"
    using assms x(2) k s by (auto simp: mem_inv_def nth_list_update)
  ultimately show ?thesis by blast
qed

lemma mem_free_ok:
  assumes "mem_inv mp live" "i < length live" "live ! i = (ptr, sz, n)"
  shows "\<exists>mp'. deallocate t sz ptr n mp = Inr mp' \<and> mem_inv mp' (take i live @ drop (Suc i) live)"
proof -
  obtain ys zs where l: "live = ys @ (ptr, sz, n) # zs" "take i live @ drop (Suc i) live = ys @ zs"
    using split_nth [OF assms(2)] assms(3) by auto
  have b: "block_ok (m_heap mp) (ptr, sz, n)" using assms(1) l(1) by (auto simp: mem_inv_def)
  then have sz: "deallocate_size n sz = n * sz" by (auto intro: sizes_agree)
  show ?thesis
  proof (cases ptr)
    case (HeapPtr h)
    then have "deallocate t sz ptr n mp = Inr mp" using b sz by (simp add: deallocate_def MemoryPool_Free_def)
    moreover have "mem_inv mp (ys @ zs)" using assms(1) HeapPtr by (auto simp: l(1) mem_inv_def)
    ultimately show ?thesis using l(2) by auto
  next
    case (PoolPtr k x)
    have s: "1 \<le> n * sz" "n * sz \<le> PAGE_SIZE" "k = size_class (n * sz)" using b PoolPtr by auto
    have k: "k < 7" using size_class_fits(1) [OF s(1,2)] s(3) by simp
    have "pool_inv (m_pools mp ! k) (add_mset x (mset (slots_of k (ys @ zs))))"
      using assms(1) k PoolPtr by (auto simp: l(1) mem_inv_def)
    from ObjectPool_Free_ok [OF this, of t] obtain p' where
      p': "ObjectPool_Free t x (m_pools mp ! k) = Inr p'" "pool_inv p' (mset (slots_of k (ys @ zs)))" by blast
    let ?mp = "mp\<lparr>m_pools := (m_pools mp)[k := p']\<rparr>"
    have "deallocate t sz ptr n mp = Inr ?mp"
      using PoolPtr p'(1) sz s mem_table [OF assms(1) s(1,2)] by (simp add: deallocate_def MemoryPool_Free_def FreeToChunk_Free)
    moreover have "slots_of j live = slots_of j (ys @ zs)" if "j \<noteq> k" for j using that PoolPtr by (simp add: l(1))
    then have "mem_inv ?mp (ys @ zs)"
      using assms(1) p'(2) k PoolPtr by (auto simp: l(1) mem_inv_def nth_list_update)
    ultimately show ?thesis using l(2) by auto
  qed
qed

lemma mem_step_ok:
  assumes "mem_inv mp live" "proper_mem_op a"
  shows "\<exists>mp' live'. mem_step a (mp, live) = Inr (mp', live') \<and> mem_inv mp' live'"
proof (cases a)
  case (MAlloc t sz n)
  with mem_alloc_ok [OF assms(1), of t sz n] assms(2) show ?thesis by auto
next
  case (MFree t i)
  obtain ptr sz n where "live ! i = (ptr, sz, n)" by (cases "live ! i") auto
  with mem_free_ok [OF assms(1), of i ptr sz n t] MFree assms(1) show ?thesis by auto
qed

lemma mem_inv_new: "mem_inv (MemoryPool_new t) []"
proof -
  have "pool_inv (ObjectPool_new (CalcSlotCount (buffer_sizes ! k)) k t) {#}" if "k < 7" for k
  proof -
    have "\<forall>b \<in> set buffer_sizes. 1 \<le> b" by (simp add: buffer_sizes_def)
    moreover have "buffer_sizes ! k \<in> set buffer_sizes" using that by (intro nth_mem) (simp add: buffer_sizes_def)
    ultimately have "1 \<le> buffer_sizes ! k" by blast
    then have "0 < CalcSlotCount (buffer_sizes ! k)" using CalcSlotCount_bounds(1) [of "buffer_sizes ! k"] by linarith
    from pool_start_inv [OF this, of k t] show ?thesis by (simp add: pool_start_def)
  qed
  then show ?thesis by (simp add: mem_inv_def MemoryPool_new_def del: upt_rec_numeral)
qed

text \<open>
  C16. The allocator behind the server's containers, for calls that do not overlap in time: over any
  sequence of \<^verbatim>\<open>allocate\<close> and \<^verbatim>\<open>deallocate\<close> calls, one at a time and each by any thread, for non-empty
  requests below 2\<open>^\<close>31 objects whose size in bytes fits 64 bits, no call fails, no two live blocks are the same memory, and a block from a
  pool lies in a slot at least as large as the request.
\<close>

theorem allocator_never_shares_memory:
  assumes "list_all proper_mem_op as"
  shows "\<exists>mp live. mem_run as (MemoryPool_new t, []) = Inr (mp, live) \<and> distinct (map fst live) \<and>
    (\<forall>k s sz n. (PoolPtr k s, sz, n) \<in> set live \<longrightarrow> n * sz \<le> buffer_sizes ! k)"
proof -
  have "\<exists>mp live. mem_run as (mp0, live0) = Inr (mp, live) \<and> mem_inv mp live" if "mem_inv mp0 live0" for mp0 live0
    using assms that
  proof (induction as arbitrary: mp0 live0)
    case (Cons a as)
    from mem_step_ok [OF Cons.prems(2), of a] Cons.prems(1) obtain mp1 live1 where
      "mem_step a (mp0, live0) = Inr (mp1, live1)" "mem_inv mp1 live1" by auto
    with Cons.IH [of mp1 live1] Cons.prems(1) show ?case by auto
  qed simp
  from this [OF mem_inv_new] obtain mp live where
    r: "mem_run as (MemoryPool_new t, []) = Inr (mp, live)" "mem_inv mp live" by blast
  have "n * sz \<le> buffer_sizes ! k" if "(PoolPtr k s, sz, n) \<in> set live" for k s sz n
  proof -
    have "block_ok (m_heap mp) (PoolPtr k s, sz, n)" using r(2) that unfolding mem_inv_def by blast
    then show ?thesis using size_class_fits(2) [of "n * sz"] by simp
  qed
  with r mem_inv_distinct [OF r(2)] show ?thesis by blast
qed

theorem allocator_never_shares_memory_witness:
  "\<exists>mp live. mem_run [MAlloc 1 24 3, MAlloc 2 8 100, MAlloc 1 1000 5, MFree 2 2, MFree 1 0] (MemoryPool_new 1, []) = Inr (mp, live) \<and>
     distinct (map fst live)"
  using allocator_never_shares_memory [of "[MAlloc 1 24 3, MAlloc 2 8 100, MAlloc 1 1000 5, MFree 2 2, MFree 1 0]" 1] by fastforce

text \<open>
  Where the preconditions of the allocator end. A request for no bytes dereferences the null
  pointer in \<^verbatim>\<open>m_memory[0]\<close>, the one entry the constructor leaves unset. And \<^verbatim>\<open>allocate\<close> narrows
  the count to \<^verbatim>\<open>int\<close>, \<^verbatim>\<open>deallocate\<close> does not: for \<open>2^32 + n\<close> objects only \<open>n\<close> are allocated,
  while the sizes of the two calls agree for every count below \<open>2^31\<close>.
\<close>

theorem allocator_size_limits:
  "MemoryPool_Alloc t 0 (MemoryPool_new t) = Inl NullDeref \<and>
   MemoryPool_Free t ptr 0 (MemoryPool_new t) = Inl NullDeref \<and>
   (n < 2 ^ 31 \<and> n * sz < 2 ^ 64 \<longrightarrow>
      allocate_size n sz = deallocate_size n sz \<and> allocate_size (2 ^ 32 + n) sz = n * sz)"
proof -
  have "MemoryPool_Alloc t 0 (MemoryPool_new t) = Inl NullDeref" "MemoryPool_Free t ptr 0 (MemoryPool_new t) = Inl NullDeref"
    by (simp_all add: MemoryPool_Alloc_def MemoryPool_Free_def m_memory_new(2))
  moreover have "(int n + 2 ^ 31 + 2 ^ 32) mod 2 ^ 32 = (int n + 2 ^ 31) mod 2 ^ 32" by (rule mod_add_self2)
  then have "to_int32 (int (2 ^ 32 + n)) = to_int32 (int n)" by (simp add: to_int32_def algebra_simps)
  ultimately show ?thesis using sizes_agree [of n sz] by (auto simp: allocate_size_def)
qed

theorem allocator_size_limits_witness:
  "MemoryPool_Alloc 1 0 (MemoryPool_new 1) = Inl NullDeref \<and> allocate_size 1 16 = deallocate_size 1 16 \<and>
    allocate_size (2 ^ 32 + 1) 16 = 16 \<and> deallocate_size (2 ^ 32 + 1) 16 = 68719476752"
  using allocator_size_limits [of 1 _ 1 16] by (simp add: deallocate_size_def)

end
