(* ===== verification/Pool_Threads.thy ===== *)
theory Pool_Threads
  imports Memory_Pool
begin

text \<open>
  The object pool with calls that overlap in time (ServerCore/Memory/Chunk.h, ObjectPool.h,
  Utill/PointerStack.h). The fresh stack of a chunk has no lock, so \<^verbatim>\<open>Push\<close> and \<^verbatim>\<open>Pop\<close> on it are split
  here into their reads and writes of \<^verbatim>\<open>m_top\<close> and \<^verbatim>\<open>m_stack\<close>, and the accesses of the threads
  interleave in any order; what only one thread can reach (the recycle stack of its chunk, the header
  of a slot it holds) and the lock-free lists (the batches and the chunks) take one step each. Proved:
  as long as no thread frees a slot that it allocated from a chunk another thread made, no
  interleaving hands a slot out twice or faults; and from every such state in which a thread does
  free one, there is an interleaving with an allocation that hands a slot out twice.
\<close>

section \<open>The calls, access by access\<close>

text \<open>
  Where a thread is. In \<^verbatim>\<open>Alloc(size)\<close> on chunk \<open>c\<close>: the test of \<^verbatim>\<open>m_freshSlots.Empty()\<close> (the flag tells
  whether a batch was just stolen), \<^verbatim>\<open>Pop\<close> with its test, the read and the write of \<^verbatim>\<open>--m_top\<close> (\<open>k\<close> is
  what was read) and the load of \<^verbatim>\<open>m_stack[k - 1]\<close>, the header, the return; the recycle stack, the
  global batches, a new chunk. In \<^verbatim>\<open>Free\<close>: the header, \<^verbatim>\<open>Full()\<close>, the read and the write of
  \<^verbatim>\<open>m_top++\<close>, and the store to \<^verbatim>\<open>m_stack[k]\<close>.
\<close>

datatype pool_pc =
    Out
  | ABegin nat | AEmpty nat nat bool | ATest nat nat | ADec nat nat | ADecW nat nat int | ALoad nat nat int
  | AMeta nat slot | ARet slot | ARecycled nat nat | ASteal nat nat | AChunk nat
  | FCheck slot | FFull nat slot | FTop nat slot | FTopW nat slot int | FStore nat slot int

abbreviation fresh :: "nat \<Rightarrow> ObjectPool \<Rightarrow> slot PointerStack" where
  "fresh c p \<equiv> m_freshSlots (m_chunks p ! c)"

definition set_top :: "nat \<Rightarrow> int \<Rightarrow> ObjectPool \<Rightarrow> ObjectPool" where
  "set_top c k p = upd_chunk c (\<lambda>pg. pg\<lparr>m_freshSlots := (m_freshSlots pg)\<lparr>m_top := k\<rparr>\<rparr>) p"

definition set_slot :: "nat \<Rightarrow> int \<Rightarrow> slot \<Rightarrow> ObjectPool \<Rightarrow> ObjectPool" where
  "set_slot c k s p =
     upd_chunk c (\<lambda>pg. pg\<lparr>m_freshSlots := (m_freshSlots pg)\<lparr>m_stack := (m_stack (m_freshSlots pg))[nat k := s]\<rparr>\<rparr>) p"

definition begin_on :: "nat \<Rightarrow> nat \<times> ObjectPool \<Rightarrow> pool_pc \<times> ObjectPool" where
  "begin_on sz cp = (AEmpty sz (fst cp) False, snd cp)"

fun access :: "nat \<Rightarrow> pool_pc \<Rightarrow> ObjectPool \<Rightarrow> (pool_pc \<times> ObjectPool) result" where
  "access t Out p = Inr (Out, p)"
| "access t (ABegin sz) p =
     Inr (begin_on sz (case m_TLSChunk p t of Some c \<Rightarrow> (c, p) | None \<Rightarrow> ChunkAlloc t p))"
| "access t (AEmpty sz c stolen) p =
     Inr (if m_top (fresh c p) = 0 then if stolen then AChunk sz else ARecycled sz c else ATest sz c, p)"
| "access t (ATest sz c) p = (if m_top (fresh c p) - 1 < 0 then Inl NullDeref else Inr (ADec sz c, p))"
| "access t (ADec sz c) p = Inr (ADecW sz c (m_top (fresh c p)), p)"
| "access t (ADecW sz c k) p = Inr (ALoad sz c k, set_top c (k - 1) p)"
| "access t (ALoad sz c k) p =
     (if 0 < k \<and> k \<le> int (length (m_stack (fresh c p))) then Inr (AMeta sz (m_stack (fresh c p) ! nat (k - 1)), p)
      else Inl OutOfBounds)"
| "access t (AMeta sz s) p = Inr (ARet s, hand_out t sz s p)"
| "access t (ARet s) p = Inr (Out, p)"
| "access t (ARecycled sz c) p =
     ebind (PopFromRecyledSlots c t sz p) (\<lambda>(r, p). case r of Some s \<Rightarrow> Inr (ARet s, p) | None \<Rightarrow> Inr (ASteal sz c, p))"
| "access t (ASteal sz c) p =
     (let (stolen, p) = TryStealFromGlobal c p in Inr (if stolen then AEmpty sz c True else AChunk sz, p))"
| "access t (AChunk sz) p = Inr (begin_on sz (ChunkAlloc t p))"
| "access t (FCheck s) p =
     (let md = m_metaData p s in
      if m_markValue md \<noteq> MARK_FRONT then Inl Underflow_Violation
      else if m_allocThread md = t then Inr (FFull (m_chunkOwner md) s, p)
      else Inr (Out, RecycledToMyLocalPool t s p))"
| "access t (FFull c s) p = Inr (if Full (fresh c p) then Out else FTop c s, p)"
| "access t (FTop c s) p = Inr (FTopW c s (m_top (fresh c p)), p)"
| "access t (FTopW c s k) p = Inr (FStore c s k, set_top c (k + 1) p)"
| "access t (FStore c s k) p =
     (if 0 \<le> k \<and> k < int (length (m_stack (fresh c p))) then Inr (Out, set_slot c k s p) else Inl OutOfBounds)"

text \<open>
  The pool, where each thread is, the slots the clients hold and, for the statements only, the thread
  that made each chunk. A thread that is in no call starts one; a slot that is freed leaves the hands
  of the clients when its free starts.
\<close>

record pool_threads =
  pt_pool :: ObjectPool
  pt_pcs :: "pool_pc list"
  pt_live :: "slot list"
  pt_maker :: "nat list"

datatype pt_event = CallAlloc nat nat | CallFree nat nat | Access nat

fun returned :: "pool_pc \<Rightarrow> slot list" where
  "returned (ARet s) = [s]"
| "returned _ = []"

fun pt_step :: "pt_event \<Rightarrow> pool_threads \<Rightarrow> pool_threads result" where
  "pt_step (CallAlloc t sz) st =
     Inr (if t < length (pt_pcs st) \<and> pt_pcs st ! t = Out then st\<lparr>pt_pcs := (pt_pcs st)[t := ABegin sz]\<rparr> else st)"
| "pt_step (CallFree t i) st =
     Inr (if t < length (pt_pcs st) \<and> pt_pcs st ! t = Out \<and> i < length (pt_live st)
          then st\<lparr>pt_pcs := (pt_pcs st)[t := FCheck (pt_live st ! i)],
                  pt_live := take i (pt_live st) @ drop (Suc i) (pt_live st)\<rparr>
          else st)"
| "pt_step (Access t) st =
     (if t < length (pt_pcs st)
      then ebind (access t (pt_pcs st ! t) (pt_pool st)) (\<lambda>(pc, p).
        Inr (st\<lparr>pt_pool := p, pt_pcs := (pt_pcs st)[t := pc], pt_live := returned (pt_pcs st ! t) @ pt_live st,
                pt_maker := pt_maker st @ replicate (length (m_chunks p) - length (m_chunks (pt_pool st))) t\<rparr>))
      else Inr st)"

fun pt_run :: "pt_event list \<Rightarrow> pool_threads \<Rightarrow> pool_threads result" where
  "pt_run [] st = Inr st"
| "pt_run (e # es) st = ebind (pt_step e st) (pt_run es)"

text \<open>A new pool, made by thread \<open>t\<close>, and \<open>threads\<close> threads outside of it.\<close>

definition pt_start :: "nat \<Rightarrow> nat \<Rightarrow> nat \<Rightarrow> nat \<Rightarrow> pool_threads" where
  "pt_start n uid t threads =
     \<lparr>pt_pool = ObjectPool_new n uid t, pt_pcs = replicate threads Out, pt_live = [], pt_maker = [t]\<rparr>"

text \<open>
  The frees that are safe: a thread that frees a slot it allocated itself made the slot's chunk. Slots
  of another thread's chunk reach a thread through its recycle stack and through stolen batches.
\<close>

fun frees_at_home :: "pt_event \<Rightarrow> pool_threads \<Rightarrow> bool" where
  "frees_at_home (Access t) st =
     (t < length (pt_pcs st) \<longrightarrow>
       (case pt_pcs st ! t of
          FCheck s \<Rightarrow> m_allocThread (m_metaData (pt_pool st) s) = t \<longrightarrow> pt_maker st ! fst s = t
        | _ \<Rightarrow> True))"
| "frees_at_home _ st = True"

fun at_home :: "pt_event list \<Rightarrow> pool_threads \<Rightarrow> bool" where
  "at_home [] st = True"
| "at_home (e # es) st = (frees_at_home e st \<and> (case pt_step e st of Inr st' \<Rightarrow> at_home es st' | Inl _ \<Rightarrow> True))"

section \<open>The pool between two accesses\<close>

text \<open>
  A pop takes effect when it loads the slot, a push when it stores it: in between, the stack is seen
  with the old top.
\<close>

definition pc_of :: "pool_pc list \<Rightarrow> nat \<Rightarrow> pool_pc" where
  "pc_of pcs t = (if t < length pcs then pcs ! t else Out)"

fun seen_top :: "pool_pc \<Rightarrow> nat \<Rightarrow> int \<Rightarrow> int" where
  "seen_top (ALoad sz c' k) c j = (if c' = c then k else j)"
| "seen_top (FStore c' s k) c j = (if c' = c then k else j)"
| "seen_top _ c j = j"

definition seen_page :: "pool_pc \<Rightarrow> nat \<Rightarrow> ChunkPage \<Rightarrow> ChunkPage" where
  "seen_page pc c pg = pg\<lparr>m_freshSlots := (m_freshSlots pg)\<lparr>m_top := seen_top pc c (m_top (m_freshSlots pg))\<rparr>\<rparr>"

definition seen :: "pool_pc list \<Rightarrow> nat list \<Rightarrow> ObjectPool \<Rightarrow> ObjectPool" where
  "seen pcs mk p =
     p\<lparr>m_chunks := map (\<lambda>c. seen_page (pc_of pcs (mk ! c)) c (m_chunks p ! c)) [0..<length (m_chunks p)]\<rparr>"

text \<open>The slot a thread has in its hands in the middle of a call.\<close>

fun carry :: "pool_pc \<Rightarrow> slot multiset" where
  "carry (AMeta sz s) = {#s#}"
| "carry (ARet s) = {#s#}"
| "carry (FCheck s) = {#s#}"
| "carry (FFull c s) = {#s#}"
| "carry (FTop c s) = {#s#}"
| "carry (FTopW c s k) = {#s#}"
| "carry (FStore c s k) = {#s#}"
| "carry _ = {#}"

definition carried :: "pool_pc list \<Rightarrow> slot multiset" where
  "carried pcs = sum_list (map carry pcs)"

definition owns :: "nat \<Rightarrow> nat \<Rightarrow> nat list \<Rightarrow> ObjectPool \<Rightarrow> bool" where
  "owns t c mk p \<longleftrightarrow> c < length (m_chunks p) \<and> mk ! c = t"

fun pc_ok :: "nat \<Rightarrow> pool_pc \<Rightarrow> nat list \<Rightarrow> ObjectPool \<Rightarrow> bool" where
  "pc_ok t (AEmpty sz c b) mk p = owns t c mk p"
| "pc_ok t (ATest sz c) mk p = (owns t c mk p \<and> 0 < m_top (fresh c p))"
| "pc_ok t (ADec sz c) mk p = (owns t c mk p \<and> 0 < m_top (fresh c p))"
| "pc_ok t (ADecW sz c k) mk p = (owns t c mk p \<and> 0 < k \<and> m_top (fresh c p) = k)"
| "pc_ok t (ALoad sz c k) mk p = (owns t c mk p \<and> 0 < k \<and> m_top (fresh c p) = k - 1)"
| "pc_ok t (ARecycled sz c) mk p = (owns t c mk p \<and> m_top (fresh c p) = 0)"
| "pc_ok t (ASteal sz c) mk p = (owns t c mk p \<and> m_top (fresh c p) = 0)"
| "pc_ok t (FFull c s) mk p = (fst s = c \<and> owns t c mk p)"
| "pc_ok t (FTop c s) mk p = (fst s = c \<and> owns t c mk p \<and> \<not> Full (fresh c p))"
| "pc_ok t (FTopW c s k) mk p = (fst s = c \<and> owns t c mk p \<and> \<not> Full (fresh c p) \<and> m_top (fresh c p) = k)"
| "pc_ok t (FStore c s k) mk p =
     (fst s = c \<and> owns t c mk p \<and> k < int (length (m_stack (fresh c p))) \<and> m_top (fresh c p) = k + 1)"
| "pc_ok t _ mk p = True"

definition pt_inv :: "pool_threads \<Rightarrow> bool" where
  "pt_inv st \<longleftrightarrow>
     pool_inv (seen (pt_pcs st) (pt_maker st) (pt_pool st)) (mset (pt_live st) + carried (pt_pcs st)) \<and>
     length (pt_maker st) = length (m_chunks (pt_pool st)) \<and>
     (\<forall>t c. m_TLSChunk (pt_pool st) t = Some c \<longrightarrow> owns t c (pt_maker st) (pt_pool st)) \<and>
     (\<forall>t < length (pt_pcs st). pc_ok t (pt_pcs st ! t) (pt_maker st) (pt_pool st))"

lemma seen_simps [simp]:
  "SLOT_COUNT (seen pcs mk p) = SLOT_COUNT p" "m_uid (seen pcs mk p) = m_uid p" "m_chunkPool (seen pcs mk p) = m_chunkPool p"
  "m_metaData (seen pcs mk p) = m_metaData p" "m_globalBatchStack (seen pcs mk p) = m_globalBatchStack p"
  "m_TLSChunk (seen pcs mk p) = m_TLSChunk p" "length (m_chunks (seen pcs mk p)) = length (m_chunks p)"
  "c < length (m_chunks p) \<Longrightarrow> m_chunks (seen pcs mk p) ! c = seen_page (pc_of pcs (mk ! c)) c (m_chunks p ! c)"
  by (simp_all add: seen_def)

lemma seen_page_simps [simp]:
  "m_owner (seen_page pc c pg) = m_owner pg" "m_recycledSlots (seen_page pc c pg) = m_recycledSlots pg"
  "m_recycledStackPool (seen_page pc c pg) = m_recycledStackPool pg"
  "m_top (m_freshSlots (seen_page pc c pg)) = seen_top pc c (m_top (m_freshSlots pg))"
  "m_stack (m_freshSlots (seen_page pc c pg)) = m_stack (m_freshSlots pg)"
  by (simp_all add: seen_page_def)

lemma seen_no_chunks [simp]: "m_chunks (seen pcs mk p) = [] \<longleftrightarrow> m_chunks p = []"
  by (simp add: seen_def)

lemma pool_eqI:
  fixes p q :: ObjectPool
  assumes "SLOT_COUNT p = SLOT_COUNT q" "m_uid p = m_uid q" "m_chunkPool p = m_chunkPool q" "m_metaData p = m_metaData q"
    "m_globalBatchStack p = m_globalBatchStack q" "m_TLSChunk p = m_TLSChunk q" "length (m_chunks p) = length (m_chunks q)"
    "\<And>c. c < length (m_chunks q) \<Longrightarrow> m_chunks p ! c = m_chunks q ! c"
  shows "p = q"
proof -
  have "m_chunks p = m_chunks q" using assms(7,8) by (intro nth_equalityI) simp_all
  with assms show ?thesis by simp
qed

lemma carried_update:
  "t < length pcs \<Longrightarrow> carried (pcs[t := pc]) + carry (pcs ! t) = carried pcs + carry pc"
  unfolding carried_def by (rule sum_list_map_update)

lemma pc_of_update [simp]: "t < length pcs \<Longrightarrow> pc_of (pcs[t := pc]) u = (if u = t then pc else pc_of pcs u)"
  by (simp add: pc_of_def)


text \<open>The one thread that takes the step: the rest of the carried slots stays.\<close>

lemma carried_split:
  assumes "t < length pcs"
  shows "\<exists>C. carried pcs = C + carry (pcs ! t) \<and> (\<forall>pc. carried (pcs[t := pc]) = C + carry pc)"
proof (intro exI conjI allI)
  show "carried pcs = carried (pcs[t := Out]) + carry (pcs ! t)" using carried_update [OF assms, of Out] by simp
  show "carried (pcs[t := pc]) = carried (pcs[t := Out]) + carry pc" for pc
    using carried_update [of t "pcs[t := Out]" pc] assms by simp
qed

text \<open>A place of a thread at which every stack is seen as it is.\<close>

definition plain :: "pool_pc \<Rightarrow> bool" where
  "plain pc \<longleftrightarrow> (\<forall>c j. seen_top pc c j = j)"

lemma plain_simps [simp]:
  "plain Out" "plain (ABegin sz)" "plain (AEmpty sz c b)" "plain (ATest sz c)" "plain (ADec sz c)" "plain (ADecW sz c k)"
  "plain (AMeta sz s)" "plain (ARet s)" "plain (ARecycled sz c)" "plain (ASteal sz c)" "plain (AChunk sz)"
  "plain (FCheck s)" "plain (FFull c s)" "plain (FTop c s)" "plain (FTopW c s k)"
  by (simp_all add: plain_def)

lemma seen_page_plain [simp]: "plain pc \<Longrightarrow> seen_page pc c pg = pg"
  by (simp add: seen_page_def plain_def)

lemma seen_plain:
  assumes "t < length pcs" "plain (pcs ! t)" "plain pc"
  shows "seen (pcs[t := pc]) mk p = seen pcs mk p"
  by (rule pool_eqI) (use assms in \<open>auto simp: pc_of_def nth_list_update\<close>)

lemma seen_upd_chunk:
  assumes "\<And>pc pg. seen_page pc c (f pg) = f (seen_page pc c pg)" "c < length (m_chunks p)"
  shows "seen pcs mk (upd_chunk c f p) = upd_chunk c f (seen pcs mk p)"
  by (rule pool_eqI) (use assms in auto)

lemma seen_other [simp]:
  "seen pcs mk (hand_out t sz s p) = hand_out t sz s (seen pcs mk p)"
  "seen pcs mk (p\<lparr>m_globalBatchStack := b\<rparr>) = (seen pcs mk p)\<lparr>m_globalBatchStack := b\<rparr>"
  by (simp_all add: seen_def hand_out_def)

lemma seen_ChunkAlloc:
  assumes "ChunkAlloc t p = (c, p')" "m_chunkPool p = []" "length mk = length (m_chunks p)"
    "t < length pcs" "plain (pcs ! t)" "plain pc"
  shows "ChunkAlloc t (seen pcs mk p) = (c, seen (pcs[t := pc]) (mk @ [t]) p')"
    "c = length (m_chunks p)" "length (m_chunks p') = Suc (length (m_chunks p))"
    "\<And>i. i < length (m_chunks p) \<Longrightarrow> m_chunks p' ! i = m_chunks p ! i" "m_TLSChunk p' = (m_TLSChunk p)(t \<mapsto> c)"
proof -
  obtain pg md where n: "ChunkPage_new (SLOT_COUNT p) (length (m_chunks p)) t (m_metaData p) = (pg, md)"
    by (cases "ChunkPage_new (SLOT_COUNT p) (length (m_chunks p)) t (m_metaData p)")
  have c: "c = length (m_chunks p)" and p': "p' = p\<lparr>m_chunks := m_chunks p @ [SetOwner (m_uid p) pg],
      m_chunkPool := [], m_metaData := md, m_TLSChunk := (m_TLSChunk p)(t \<mapsto> c)\<rparr>"
    using assms(1,2) n by (auto simp: ChunkAlloc_def Let_def)
  show "c = length (m_chunks p)" "length (m_chunks p') = Suc (length (m_chunks p))" "m_TLSChunk p' = (m_TLSChunk p)(t \<mapsto> c)"
    by (simp_all add: c p')
  show "m_chunks p' ! i = m_chunks p ! i" if "i < length (m_chunks p)" for i using that by (simp add: p' nth_append)
  have "ChunkAlloc t (seen pcs mk p) = (c, (seen pcs mk p)\<lparr>m_chunks := m_chunks (seen pcs mk p) @ [SetOwner (m_uid p) pg],
      m_chunkPool := [], m_metaData := md, m_TLSChunk := (m_TLSChunk p)(t \<mapsto> c)\<rparr>)"
    using assms(2) n by (simp add: ChunkAlloc_def Let_def c)
  moreover have "(seen pcs mk p)\<lparr>m_chunks := m_chunks (seen pcs mk p) @ [SetOwner (m_uid p) pg],
      m_chunkPool := [], m_metaData := md, m_TLSChunk := (m_TLSChunk p)(t \<mapsto> c)\<rparr> = seen (pcs[t := pc]) (mk @ [t]) p'"
  proof (rule pool_eqI)
    fix i assume "i < length (m_chunks (seen (pcs[t := pc]) (mk @ [t]) p'))"
    then have i: "i < Suc (length (m_chunks p))" by (simp add: p')
    show "m_chunks ((seen pcs mk p)\<lparr>m_chunks := m_chunks (seen pcs mk p) @ [SetOwner (m_uid p) pg],
      m_chunkPool := [], m_metaData := md, m_TLSChunk := (m_TLSChunk p)(t \<mapsto> c)\<rparr>) ! i =
      m_chunks (seen (pcs[t := pc]) (mk @ [t]) p') ! i"
    proof (cases "i = length (m_chunks p)")
      case True
      then show ?thesis using assms(3,4,6) by (simp add: p' nth_append)
    next
      case False
      then show ?thesis using i assms(3-6) by (auto simp: p' nth_append pc_of_def nth_list_update)
    qed
  qed (simp_all add: p')
  ultimately show "ChunkAlloc t (seen pcs mk p) = (c, seen (pcs[t := pc]) (mk @ [t]) p')" by simp
qed

lemma seen_Recycled_pop:
  assumes "c < length (m_chunks p)"
  shows "PopFromRecyledSlots c t sz (seen pcs mk p) =
    ebind (PopFromRecyledSlots c t sz p) (\<lambda>(r, p'). Inr (r, seen pcs mk p'))"
  using assms by (auto simp: PopFromRecyledSlots_def seen_upd_chunk seen_page_def split: option.split prod.split)

lemma seen_steal:
  assumes "c < length (m_chunks p)" "plain (pc_of pcs (mk ! c))" "\<forall>b \<in> set (m_globalBatchStack p). fst b < length (m_chunks p)"
  shows "TryStealFromGlobal c (seen pcs mk p) = (fst (TryStealFromGlobal c p), seen pcs mk (snd (TryStealFromGlobal c p)))"
proof (cases "m_globalBatchStack p")
  case (Cons qb rest)
  obtain q b where qb: "qb = (q, b)" by (cases qb)
  let ?p = "p\<lparr>m_globalBatchStack := rest\<rparr>"
  have "seen pcs mk (upd_chunk c (\<lambda>pg. pg\<lparr>m_freshSlots := b\<rparr>) ?p) = upd_chunk c (\<lambda>pg. pg\<lparr>m_freshSlots := b\<rparr>) (seen pcs mk ?p)"
    by (rule pool_eqI) (use assms(1,2) in auto)
  then show ?thesis using Cons qb assms(3)
    by (simp add: TryStealFromGlobal_def seen_upd_chunk seen_page_def)
qed (simp add: TryStealFromGlobal_def)

text \<open>The step of thread \<open>t\<close> leaves the fresh stacks of the chunks of the others alone, and their chunks.\<close>

definition leaves_others :: "nat \<Rightarrow> nat list \<Rightarrow> ObjectPool \<Rightarrow> ObjectPool \<Rightarrow> bool" where
  "leaves_others t mk p p' \<longleftrightarrow> length (m_chunks p) \<le> length (m_chunks p') \<and>
     (\<forall>c < length (m_chunks p). mk ! c \<noteq> t \<longrightarrow> fresh c p' = fresh c p) \<and>
     (\<forall>u. u \<noteq> t \<longrightarrow> m_TLSChunk p' u = m_TLSChunk p u)"

lemma owns_more: "owns u c mk p \<Longrightarrow> length mk = length (m_chunks p) \<Longrightarrow> length (m_chunks p) \<le> length (m_chunks p') \<Longrightarrow> owns u c (mk @ ys) p'"
  by (auto simp: owns_def nth_append)

lemma pc_ok_others:
  assumes "pc_ok u pc mk p" "leaves_others t mk p p'" "u \<noteq> t" "length mk = length (m_chunks p)"
  shows "pc_ok u pc (mk @ ys) p'"
proof -
  have "owns u c (mk @ ys) p' \<and> fresh c p' = fresh c p" if "owns u c mk p" for c
    using that assms(2-4) owns_more [of u c mk p p' ys] by (auto simp: leaves_others_def owns_def)
  with assms(1) show ?thesis by (cases pc) auto
qed

lemma pt_inv_step:
  assumes "pt_inv st" "t < length (pt_pcs st)" "leaves_others t (pt_maker st) (pt_pool st) p"
    "mk = pt_maker st @ replicate (length (m_chunks p) - length (m_chunks (pt_pool st))) t"
    "\<And>c. m_TLSChunk p t = Some c \<Longrightarrow> owns t c mk p" "pc_ok t pc mk p"
    "pool_inv (seen ((pt_pcs st)[t := pc]) mk p) (mset lv + carried ((pt_pcs st)[t := pc]))"
  shows "pt_inv (st\<lparr>pt_pool := p, pt_pcs := (pt_pcs st)[t := pc], pt_live := lv, pt_maker := mk\<rparr>)"
proof -
  have len: "length (pt_maker st) = length (m_chunks (pt_pool st))" "length (m_chunks (pt_pool st)) \<le> length (m_chunks p)"
    using assms(1,3) by (auto simp: pt_inv_def leaves_others_def)
  have "owns u c mk p" if "m_TLSChunk p u = Some c" for u c
  proof (cases "u = t")
    case False
    then have "m_TLSChunk (pt_pool st) u = Some c" using assms(3) that by (simp add: leaves_others_def)
    then show ?thesis using assms(1) owns_more [OF _ len] by (auto simp: pt_inv_def assms(4))
  qed (use that assms(5) in simp)
  moreover have "pc_ok u ((pt_pcs st)[t := pc] ! u) mk p" if "u < length (pt_pcs st)" for u
  proof (cases "u = t")
    case False
    then show ?thesis using pc_ok_others [OF _ assms(3) False len(1)] that assms(1) by (simp add: pt_inv_def assms(4))
  qed (use assms(2,6) in simp)
  ultimately show ?thesis using assms(7) len by (simp add: pt_inv_def assms(4))
qed

lemma leaves_refl: "leaves_others t mk p p"
  by (simp add: leaves_others_def)


section \<open>No interleaving shares a slot\<close>

lemma set_top_simps [simp]:
  "length (m_chunks (set_top c k p)) = length (m_chunks p)" "m_TLSChunk (set_top c k p) = m_TLSChunk p"
  "length (m_chunks (set_slot c k s p)) = length (m_chunks p)" "m_TLSChunk (set_slot c k s p) = m_TLSChunk p"
  "length (m_chunks (hand_out t sz s p)) = length (m_chunks p)"
  by (simp_all add: set_top_def set_slot_def hand_out_def)

lemma leaves_own:
  assumes "owns t c mk p"
  shows "leaves_others t mk p (upd_chunk c f p)" "leaves_others t mk p (set_top c k p)" "leaves_others t mk p (set_slot c k s p)"
  using assms by (auto simp: leaves_others_def owns_def set_top_def set_slot_def)

lemma pool_inv_less: "pool_inv p live \<Longrightarrow> live' \<subseteq># live \<Longrightarrow> 0 < length (m_chunks p) \<Longrightarrow> pool_inv p live'"
  using pool_inv_upd_chunk [of p live 0 "\<lambda>pg. pg" live'] pool_inv_page [of p live 0]
  by (simp add: upd_chunk_def)

lemma pool_inv_swap: "pool_inv p A \<Longrightarrow> A = B \<Longrightarrow> pool_inv p B"
  by simp

lemma pop_fresh_inv:
  assumes "pool_inv p live" "c < length (m_chunks p)" "0 < m_top (fresh c p)"
  shows "pool_inv (set_top c (m_top (fresh c p) - 1) p) (add_mset (m_stack (fresh c p) ! nat (m_top (fresh c p) - 1)) live)"
proof -
  have ok: "ps_inv (SLOT_COUNT p) (fresh c p)" using pool_inv_page [OF assms(1,2)] by (simp add: page_ok_def)
  have "items (fresh c p) \<noteq> []" using assms(3) ok by (auto simp: items_def ps_inv_def)
  from PopFromFreshSlot_ok(2) [OF assms(1,2) this, of 0 0] obtain s p' where
    s: "PopFromFreshSlot c 0 0 p = Inr (Some s, p')" "pool_inv p' (add_mset s live)" by blast
  have "\<not> Empty (fresh c p)" using assms(3) by (simp add: Empty_def)
  moreover have "Pop (fresh c p) = (Some (m_stack (fresh c p) ! nat (m_top (fresh c p) - 1)), (fresh c p)\<lparr>m_top := m_top (fresh c p) - 1\<rparr>)"
    using assms(3) by (simp add: Pop_def)
  moreover have "upd_chunk c (\<lambda>pg. pg\<lparr>m_freshSlots := (fresh c p)\<lparr>m_top := m_top (fresh c p) - 1\<rparr>\<rparr>) p =
      set_top c (m_top (fresh c p) - 1) p"
    by (simp add: set_top_def upd_chunk_def)
  ultimately show ?thesis using s by (auto simp: PopFromFreshSlot_def)
qed

text \<open>The starting point of a step of thread \<open>t\<close>.\<close>

lemma pt_invD:
  assumes "pt_inv st" "t < length (pt_pcs st)"
  shows "length (pt_maker st) = length (m_chunks (pt_pool st))" "pc_ok t (pt_pcs st ! t) (pt_maker st) (pt_pool st)"
    "pool_inv (seen (pt_pcs st) (pt_maker st) (pt_pool st)) (mset (pt_live st) + carried (pt_pcs st))"
    "m_chunkPool (pt_pool st) = []" "0 < SLOT_COUNT (pt_pool st)"
    "\<And>u c. m_TLSChunk (pt_pool st) u = Some c \<Longrightarrow> owns u c (pt_maker st) (pt_pool st)"
  using assms by (auto simp: pt_inv_def pool_inv_def)

text \<open>A step that makes no chunk keeps the invariant when its own part of it does.\<close>

lemma access_step:
  assumes "pt_inv st" "t < length (pt_pcs st)" "pt_pcs st ! t = pc0" "access t pc0 (pt_pool st) = Inr (pc, p)"
    "length (m_chunks p) = length (m_chunks (pt_pool st))" "leaves_others t (pt_maker st) (pt_pool st) p"
    "m_TLSChunk p t = m_TLSChunk (pt_pool st) t" "pc_ok t pc (pt_maker st) p"
    "\<And>C. pool_inv (seen (pt_pcs st) (pt_maker st) (pt_pool st)) (C + carry pc0) \<Longrightarrow>
       pool_inv (seen ((pt_pcs st)[t := pc]) (pt_maker st) p) (C + (carry pc + mset (returned pc0)))"
  shows "\<exists>st'. pt_step (Access t) st = Inr st' \<and> pt_inv st'"
proof -
  note d = pt_invD [OF assms(1,2)]
  obtain C where C: "carried (pt_pcs st) = C + carry pc0" "\<And>pc. carried ((pt_pcs st)[t := pc]) = C + carry pc"
    using carried_split [OF assms(2)] assms(3) by blast
  have "pool_inv (seen ((pt_pcs st)[t := pc]) (pt_maker st) p) (mset (pt_live st) + C + (carry pc + mset (returned pc0)))"
    by (rule assms(9)) (use d(3) C in \<open>simp add: ac_simps\<close>)
  then have "pool_inv (seen ((pt_pcs st)[t := pc]) (pt_maker st) p)
      (mset (returned pc0 @ pt_live st) + carried ((pt_pcs st)[t := pc]))"
    using C by (simp add: ac_simps)
  moreover have "owns t c (pt_maker st) p" if "m_TLSChunk p t = Some c" for c
    using that d(6) assms(5,7) by (auto simp: owns_def)
  ultimately have "pt_inv (st\<lparr>pt_pool := p, pt_pcs := (pt_pcs st)[t := pc], pt_live := returned pc0 @ pt_live st,
      pt_maker := pt_maker st\<rparr>)"
    by (intro pt_inv_step [OF assms(1,2,6) _ _ assms(8)]) (simp_all add: assms(5))
  then show ?thesis using assms(2-5) by simp
qed

lemma quiet_access:
  assumes "pt_inv st" "t < length (pt_pcs st)" "pt_pcs st ! t = pc0" "access t pc0 (pt_pool st) = Inr (pc, pt_pool st)"
    "plain pc0" "plain pc" "carry pc + mset (returned pc0) = carry pc0" "pc_ok t pc (pt_maker st) (pt_pool st)"
  shows "\<exists>st'. pt_step (Access t) st = Inr st' \<and> pt_inv st'"
  by (rule access_step [OF assms(1-4) refl leaves_refl refl assms(8)])
    (use assms seen_plain [of t "pt_pcs st" pc] in simp)

lemma chunk_access:
  assumes "pt_inv st" "t < length (pt_pcs st)" "pt_pcs st ! t = pc0" "access t pc0 (pt_pool st) = Inr (pc, p)"
    "ChunkAlloc t (pt_pool st) = (c, p)" "carry pc0 = {#}" "plain pc0" "returned pc0 = []" "pc = AEmpty sz c False"
  shows "\<exists>st'. pt_step (Access t) st = Inr st' \<and> pt_inv st'"
proof -
  note d = pt_invD [OF assms(1,2)]
  let ?mk = "pt_maker st @ [t]"
  have "plain (pt_pcs st ! t)" "plain pc" using assms by simp_all
  note ca = seen_ChunkAlloc [OF assms(5) d(4,1) assms(2) this]
  obtain C where C: "carried (pt_pcs st) = C + carry pc0" "\<And>pc. carried ((pt_pcs st)[t := pc]) = C + carry pc"
    using carried_split [OF assms(2)] assms(3) by blast
  have "pool_inv (seen ((pt_pcs st)[t := pc]) ?mk p) (mset (pt_live st) + carried (pt_pcs st))"
    by (rule ChunkAlloc_inv [OF d(3) ca(1)])
  then have "pool_inv (seen ((pt_pcs st)[t := pc]) ?mk p) (mset (pt_live st) + carried ((pt_pcs st)[t := pc]))"
    using C assms(6,9) by simp
  moreover have "owns t c ?mk p" using ca(2,3) d(1) by (simp add: owns_def nth_append)
  moreover have "leaves_others t (pt_maker st) (pt_pool st) p" using ca by (auto simp: leaves_others_def)
  ultimately have "pt_inv (st\<lparr>pt_pool := p, pt_pcs := (pt_pcs st)[t := pc], pt_live := pt_live st, pt_maker := ?mk\<rparr>)"
    by (intro pt_inv_step [OF assms(1,2)]) (use ca assms(9) in simp_all)
  then show ?thesis using assms(2-4,8) ca(3) by simp
qed

text \<open>What the writes do to the pool as it is seen.\<close>

lemma seen_hold:
  assumes "owns t c mk p" "t < length pcs" "plain (pcs ! t)" "\<And>c' j. seen_top pc c' j = (if c = c' then m_top (fresh c p) else j)"
  shows "seen (pcs[t := pc]) mk (set_top c k p) = seen pcs mk p"
proof (rule pool_eqI)
  fix i assume "i < length (m_chunks (seen pcs mk p))"
  then show "m_chunks (seen (pcs[t := pc]) mk (set_top c k p)) ! i = m_chunks (seen pcs mk p) ! i"
    using assms by (auto simp: owns_def set_top_def seen_page_def pc_of_def nth_list_update plain_def)
qed (simp_all add: set_top_def)

lemma seen_load:
  assumes "owns t c mk p" "t < length pcs" "pcs ! t = ALoad sz c k" "m_top (fresh c p) = k - 1" "plain pc"
  shows "seen (pcs[t := pc]) mk p = set_top c (k - 1) (seen pcs mk p)" "fresh c (seen pcs mk p) = (fresh c p)\<lparr>m_top := k\<rparr>"
proof -
  show "fresh c (seen pcs mk p) = (fresh c p)\<lparr>m_top := k\<rparr>"
    using assms(1-3) by (simp add: owns_def pc_of_def seen_page_def)
  show "seen (pcs[t := pc]) mk p = set_top c (k - 1) (seen pcs mk p)"
  proof (rule pool_eqI)
    fix i assume "i < length (m_chunks (set_top c (k - 1) (seen pcs mk p)))"
    then show "m_chunks (seen (pcs[t := pc]) mk p) ! i = m_chunks (set_top c (k - 1) (seen pcs mk p)) ! i"
      using assms by (auto simp: owns_def set_top_def seen_page_def pc_of_def nth_list_update plain_def)
  qed (simp_all add: set_top_def)
qed

lemma seen_store:
  assumes "owns t c mk p" "t < length pcs" "pcs ! t = FStore c s k" "m_top (fresh c p) = k + 1" "0 \<le> k"
    "k < int (length (m_stack (fresh c p)))" "plain pc"
  shows "seen (pcs[t := pc]) mk (set_slot c k s p) =
    upd_chunk c (\<lambda>pg. pg\<lparr>m_freshSlots := snd (Push s (m_freshSlots pg))\<rparr>) (seen pcs mk p)"
proof (rule pool_eqI)
  fix i assume "i < length (m_chunks (upd_chunk c (\<lambda>pg. pg\<lparr>m_freshSlots := snd (Push s (m_freshSlots pg))\<rparr>) (seen pcs mk p)))"
  then show "m_chunks (seen (pcs[t := pc]) mk (set_slot c k s p)) ! i =
      m_chunks (upd_chunk c (\<lambda>pg. pg\<lparr>m_freshSlots := snd (Push s (m_freshSlots pg))\<rparr>) (seen pcs mk p)) ! i"
    using assms by (auto simp: owns_def set_slot_def seen_page_def pc_of_def nth_list_update plain_def Push_def Full_def)
qed (simp_all add: set_slot_def)


text \<open>The recycle stack of the thread's own chunk.\<close>

lemma recycle_inv:
  assumes "pool_inv p (add_mset s live)" "m_TLSChunk p t = Some c"
  shows "pool_inv (RecycledToMyLocalPool t s p) live"
proof -
  have "c < length (m_chunks p)" using assms by (simp add: pool_inv_def)
  from push_recycled_ok [OF assms(1) this refl refl] assms(2) show ?thesis
    by (simp add: RecycledToMyLocalPool_def GetCurrentTLSChunk_def Let_def)
qed

lemma seen_recycle:
  assumes "m_TLSChunk p t = Some c" "c < length (m_chunks p)"
  shows "RecycledToMyLocalPool t s (seen pcs mk p) = seen pcs mk (RecycledToMyLocalPool t s p)"
    "length (m_chunks (RecycledToMyLocalPool t s p)) = length (m_chunks p)"
    "m_TLSChunk (RecycledToMyLocalPool t s p) = m_TLSChunk p"
    "i < length (m_chunks p) \<Longrightarrow> fresh i (RecycledToMyLocalPool t s p) = fresh i p"
  using assms by (auto simp: RecycledToMyLocalPool_def GetCurrentTLSChunk_def Let_def seen_upd_chunk seen_page_def)

lemma recycle_new_chunk:
  assumes "m_TLSChunk p t = None" "ChunkAlloc t p = (c, p1)" "m_TLSChunk p1 t = Some c"
  shows "RecycledToMyLocalPool t s p = RecycledToMyLocalPool t s p1"
  using assms by (simp add: RecycledToMyLocalPool_def GetCurrentTLSChunk_def)

lemma recycle_access:
  assumes "pt_inv st" "t < length (pt_pcs st)" "pt_pcs st ! t = FCheck s"
    "access t (FCheck s) (pt_pool st) = Inr (Out, RecycledToMyLocalPool t s (pt_pool st))"
  shows "\<exists>st'. pt_step (Access t) st = Inr st' \<and> pt_inv st'"
proof (cases "m_TLSChunk (pt_pool st) t")
  case (Some c)
  note d = pt_invD [OF assms(1,2)]
  have c: "c < length (m_chunks (pt_pool st))" using d(6) [OF Some] by (simp add: owns_def)
  note r = seen_recycle [OF Some c, where s = s]
  show ?thesis
  proof (rule access_step [OF assms])
    show "leaves_others t (pt_maker st) (pt_pool st) (RecycledToMyLocalPool t s (pt_pool st))"
      using r(2-4) by (simp add: leaves_others_def)
    fix C assume "pool_inv (seen (pt_pcs st) (pt_maker st) (pt_pool st)) (C + carry (FCheck s))"
    then have "pool_inv (RecycledToMyLocalPool t s (seen (pt_pcs st) (pt_maker st) (pt_pool st))) C"
      by (intro recycle_inv [where c = c]) (simp_all add: Some)
    then show "pool_inv (seen ((pt_pcs st)[t := Out]) (pt_maker st) (RecycledToMyLocalPool t s (pt_pool st)))
        (C + (carry Out + mset (returned (FCheck s))))"
      using seen_plain [OF assms(2), of Out] assms(3) by (simp add: r(1))
  qed (simp_all add: r(2,3))
next
  case None
  note d = pt_invD [OF assms(1,2)]
  obtain c p1 where ca1: "ChunkAlloc t (pt_pool st) = (c, p1)" by (cases "ChunkAlloc t (pt_pool st)")
  let ?mk = "pt_maker st @ [t]" and ?pcs = "(pt_pcs st)[t := Out]" and ?p = "RecycledToMyLocalPool t s p1"
  have "plain (pt_pcs st ! t)" "plain Out" using assms(3) by simp_all
  note ca = seen_ChunkAlloc [OF ca1 d(4,1) assms(2) this]
  have tls: "m_TLSChunk p1 t = Some c" "c < length (m_chunks p1)" using ca by simp_all
  note r = seen_recycle [OF tls, where s = s]
  have eq: "RecycledToMyLocalPool t s (pt_pool st) = ?p" by (rule recycle_new_chunk [OF None ca1 tls(1)])
  obtain C where C: "carried (pt_pcs st) = C + {#s#}" "\<And>pc. carried ((pt_pcs st)[t := pc]) = C + carry pc"
    using carried_split [OF assms(2)] assms(3) by (metis carry.simps(3))
  have "pool_inv (seen ?pcs ?mk p1) (add_mset s (mset (pt_live st) + C))"
    by (rule ChunkAlloc_inv [OF _ ca(1)]) (use d(3) C(1) in simp)
  then have "pool_inv (RecycledToMyLocalPool t s (seen ?pcs ?mk p1)) (mset (pt_live st) + C)"
    by (rule recycle_inv) (simp add: tls(1))
  then have "pool_inv (seen ?pcs ?mk ?p) (mset (pt_live st) + carried ?pcs)" using C(2) by (simp add: r(1))
  moreover have "owns t c ?mk ?p" using ca(2,3) d(1) r(2) by (simp add: owns_def nth_append)
  moreover have "leaves_others t (pt_maker st) (pt_pool st) ?p" using ca r by (auto simp: leaves_others_def)
  ultimately have "pt_inv (st\<lparr>pt_pool := ?p, pt_pcs := ?pcs, pt_live := pt_live st, pt_maker := ?mk\<rparr>)"
    by (intro pt_inv_step [OF assms(1,2)]) (use ca r tls in simp_all)
  then show ?thesis using assms(2,3,4) ca(3) r(2) by (simp add: eq)
qed


lemma fresh_bounds:
  assumes "pt_inv st" "owns u c (pt_maker st) (pt_pool st)" "pc_of (pt_pcs st) u = pc"
  shows "length (m_stack (fresh c (pt_pool st))) = SLOT_COUNT (pt_pool st)"
    "0 \<le> seen_top pc c (m_top (fresh c (pt_pool st)))" "seen_top pc c (m_top (fresh c (pt_pool st))) \<le> int (SLOT_COUNT (pt_pool st))"
proof -
  let ?P = "seen (pt_pcs st) (pt_maker st) (pt_pool st)"
  have c: "c < length (m_chunks (pt_pool st))" using assms(2) by (simp add: owns_def)
  have "page_ok (SLOT_COUNT ?P) (m_chunks ?P ! c)"
    by (rule pool_inv_page [of _ "mset (pt_live st) + carried (pt_pcs st)"]) (use assms(1) c in \<open>simp_all add: pt_inv_def\<close>)
  then show "length (m_stack (fresh c (pt_pool st))) = SLOT_COUNT (pt_pool st)"
    "0 \<le> seen_top pc c (m_top (fresh c (pt_pool st)))" "seen_top pc c (m_top (fresh c (pt_pool st))) \<le> int (SLOT_COUNT (pt_pool st))"
    using c assms(2,3) by (simp_all add: page_ok_def ps_inv_def owns_def)
qed

lemma alloc_access:
  assumes "pt_inv st" "t < length (pt_pcs st)" "pt_pcs st ! t = pc0"
    "pc0 \<in> {ADecW sz c k, ALoad sz c k, AMeta sz s, ARecycled sz c, ASteal sz c}"
  shows "\<exists>st'. pt_step (Access t) st = Inr st' \<and> pt_inv st'"
proof -
  let ?p = "pt_pool st" and ?mk = "pt_maker st" and ?pcs = "pt_pcs st"
  note d = pt_invD [OF assms(1,2)]
  have pcs: "pc_of ?pcs t = pc0" using assms(2,3) by (simp add: pc_of_def)
  from assms(4) consider "pc0 = ADecW sz c k" | "pc0 = ALoad sz c k" | "pc0 = AMeta sz s" | "pc0 = ARecycled sz c" | "pc0 = ASteal sz c"
    by blast
  then show ?thesis
  proof cases
    case 1
    with d(2) assms(3) have ok: "owns t c ?mk ?p" "0 < k" "m_top (fresh c ?p) = k" by simp_all
    have "seen (?pcs[t := ALoad sz c k]) ?mk (set_top c (k - 1) ?p) = seen ?pcs ?mk ?p"
      by (rule seen_hold [OF ok(1) assms(2)]) (use ok assms(3) 1 in auto)
    then show ?thesis using ok 1
      by (intro access_step [OF assms(1-3), where pc = "ALoad sz c k" and p = "set_top c (k - 1) ?p"])
        (simp_all add: leaves_own(2), auto simp: owns_def set_top_def)
  next
    case 2
    with d(2) assms(3) have ok: "owns t c ?mk ?p" "0 < k" "m_top (fresh c ?p) = k - 1" by simp_all
    let ?s = "m_stack (fresh c ?p) ! nat (k - 1)"
    have len: "k \<le> int (length (m_stack (fresh c ?p)))" using fresh_bounds [OF assms(1) ok(1) pcs] 2 by simp
    note sl = seen_load [OF ok(1) assms(2) assms(3) [unfolded 2] ok(3), of "AMeta sz ?s", simplified]
    show ?thesis
    proof (rule access_step [OF assms(1-3), where pc = "AMeta sz ?s" and p = ?p])
      fix C assume "pool_inv (seen ?pcs ?mk ?p) (C + carry pc0)"
      from pop_fresh_inv [OF this, of c] ok(1,2) have "pool_inv (set_top c (k - 1) (seen ?pcs ?mk ?p)) (add_mset ?s C)"
        using assms(3) pcs by (simp add: 2 owns_def)
      then show "pool_inv (seen (?pcs[t := AMeta sz ?s]) ?mk ?p) (C + (carry (AMeta sz ?s) + mset (returned pc0)))"
        by (simp add: sl(1) 2)
    qed (use ok len 2 leaves_refl in simp_all)
  next
    case 3
    then show ?thesis using seen_plain [OF assms(2), of "ARet s"] assms(3)
      by (intro access_step [OF assms(1-3), where pc = "ARet s" and p = "hand_out t sz s ?p"]) (simp_all add: leaves_others_def)
  next
    case 4
    with d(2) assms(3) have ok: "owns t c ?mk ?p" "m_top (fresh c ?p) = 0" by simp_all
    then have c: "c < length (m_chunks ?p)" by (simp add: owns_def)
    have inv: "pool_inv (seen ?pcs ?mk ?p) (mset (pt_live st) + carried ?pcs)" by (rule d(3))
    show ?thesis
    proof (cases "items (m_recycledSlots (m_chunks (seen ?pcs ?mk ?p) ! c)) = []")
      case True
      from PopFromRecyledSlots_ok(1) [OF inv _ True, of t sz] c have "PopFromRecyledSlots c t sz (seen ?pcs ?mk ?p) = Inr (None, seen ?pcs ?mk ?p)"
        by simp
      then have "PopFromRecyledSlots c t sz ?p = Inr (None, ?p)"
        using c by (auto simp: PopFromRecyledSlots_def split: if_splits option.splits prod.splits)
      then show ?thesis using 4 ok by (intro quiet_access [OF assms(1-3), where pc = "ASteal sz c"]) simp_all
    next
      case False
      from PopFromRecyledSlots_ok(2) [OF inv _ False, of t sz] c obtain x q where
        "PopFromRecyledSlots c t sz (seen ?pcs ?mk ?p) = Inr (Some x, q)" by auto
      then obtain p' where p': "PopFromRecyledSlots c t sz ?p = Inr (Some x, p')" "q = seen ?pcs ?mk p'"
        using seen_Recycled_pop [OF c, of t sz ?pcs ?mk] by (auto simp: ebind_def split: sum.splits prod.splits)
      have fr: "length (m_chunks p') = length (m_chunks ?p)" "m_TLSChunk p' = m_TLSChunk ?p"
        "\<forall>i < length (m_chunks ?p). fresh i p' = fresh i ?p"
        using p'(1) c by (auto simp: PopFromRecyledSlots_def split: if_splits option.splits prod.splits)
      show ?thesis
      proof (rule access_step [OF assms(1-3), where pc = "ARet x" and p = p'])
        fix C assume i: "pool_inv (seen ?pcs ?mk ?p) (C + carry pc0)"
        from PopFromRecyledSlots_ok(2) [OF i _ False, of t sz] c have "pool_inv (seen ?pcs ?mk p') (add_mset x C)"
          using seen_Recycled_pop [OF c, of t sz ?pcs ?mk] p' 4 by auto
        then show "pool_inv (seen (?pcs[t := ARet x]) ?mk p') (C + (carry (ARet x) + mset (returned pc0)))"
          using seen_plain [OF assms(2), of "ARet x" ?mk p'] assms(3) 4 by simp
      qed (use p' fr 4 in \<open>auto simp: leaves_others_def\<close>)
    qed
  next
    case 5
    with d(2) assms(3) have ok: "owns t c ?mk ?p" "m_top (fresh c ?p) = 0" by simp_all
    then have c: "c < length (m_chunks ?p)" by (simp add: owns_def)
    obtain b p' where st: "TryStealFromGlobal c ?p = (b, p')" by (cases "TryStealFromGlobal c ?p")
    let ?pc = "if b then AEmpty sz c True else AChunk sz"
    have bs: "\<forall>b \<in> set (m_globalBatchStack ?p). fst b < length (m_chunks ?p)" using d(3) by (auto simp: pool_inv_def)
    then have se: "TryStealFromGlobal c (seen ?pcs ?mk ?p) = (b, seen ?pcs ?mk p')"
      using seen_steal [of c ?p ?pcs ?mk] c ok pcs 5 st by (simp add: owns_def)
    have em: "items (fresh c (seen ?pcs ?mk ?p)) = []" using c ok pcs 5 by (simp add: owns_def items_def)
    have fr: "length (m_chunks p') = length (m_chunks ?p)" "m_TLSChunk p' = m_TLSChunk ?p"
      "\<forall>i < length (m_chunks ?p). i \<noteq> c \<longrightarrow> fresh i p' = fresh i ?p"
      using st c bs by (auto simp: TryStealFromGlobal_def split: list.splits prod.splits)
    show ?thesis
    proof (rule access_step [OF assms(1-3), where pc = ?pc and p = p'])
      fix C assume i: "pool_inv (seen ?pcs ?mk ?p) (C + carry pc0)"
      have "pool_inv (seen ?pcs ?mk p') (C + carry pc0)"
        by (rule TryStealFromGlobal_ok(1) [OF i _ em se]) (simp add: c)
      then show "pool_inv (seen (?pcs[t := ?pc]) ?mk p') (C + (carry ?pc + mset (returned pc0)))"
        using seen_plain [OF assms(2), of ?pc ?mk p'] assms(3) 5 by (simp split: if_splits)
    qed (use st fr ok 5 in \<open>auto simp: leaves_others_def owns_def\<close>)
  qed
qed

lemma free_access:
  assumes "pt_inv st" "t < length (pt_pcs st)" "pt_pcs st ! t = pc0" "frees_at_home (Access t) st"
    "pc0 \<in> {FCheck s, FFull c s, FTop c s, FTopW c s k, FStore c s k}"
  shows "\<exists>st'. pt_step (Access t) st = Inr st' \<and> pt_inv st'"
proof -
  let ?p = "pt_pool st" and ?mk = "pt_maker st" and ?pcs = "pt_pcs st"
  note d = pt_invD [OF assms(1,2)]
  have pcs: "pc_of ?pcs t = pc0" using assms(2,3) by (simp add: pc_of_def)
  from assms(5) consider "pc0 = FCheck s" | "pc0 = FFull c s" | "pc0 = FTop c s" | "pc0 = FTopW c s k" | "pc0 = FStore c s k" by blast
  then show ?thesis
  proof cases
    case 1
    have "s \<in># carried ?pcs" using carried_split [OF assms(2)] assms(3) 1 by auto
    then have "slot_ok (seen ?pcs ?mk ?p) s" by (intro pool_inv_slot [OF d(3)]) simp
    then have ok: "fst s < length (m_chunks ?p)" "m_chunkOwner (m_metaData ?p s) = fst s" "m_markValue (m_metaData ?p s) = MARK_FRONT"
      using pool_inv_meta [OF d(3), of s] by (auto simp: slot_ok_def meta_ok_def)
    show ?thesis
    proof (cases "m_allocThread (m_metaData ?p s) = t")
      case True
      then have "owns t (fst s) ?mk ?p" using assms(2,3,4) 1 ok(1) by (simp add: owns_def)
      then show ?thesis using True 1 ok
        by (intro quiet_access [OF assms(1-3), where pc = "FFull (fst s) s"]) (simp_all add: Let_def)
    next
      case False
      then show ?thesis using 1 ok assms(3) by (intro recycle_access [OF assms(1,2), of s]) (simp_all add: Let_def)
    qed
  next
    case 2
    have "pc_ok t (FFull c s) ?mk ?p" using d(2) by (simp only: assms(3) 2)
    then have ok: "fst s = c" "owns t c ?mk ?p" by auto
    show ?thesis
    proof (cases "Full (fresh c ?p)")
      case True
      have "0 < length (m_chunks (seen ?pcs ?mk ?p))" using ok(2) by (auto simp: owns_def)
      then show ?thesis using True 2 seen_plain [OF assms(2), of Out ?mk ?p] assms(3) leaves_refl
        by (intro access_step [OF assms(1-3), where pc = Out and p = ?p]) (auto elim!: pool_inv_less simp del: length_greater_0_conv)
    next
      case False
      then show ?thesis using 2 ok by (intro quiet_access [OF assms(1-3), where pc = "FTop c s"]) simp_all
    qed
  next
    case 3
    with d(2) assms(3) show ?thesis
      by (intro quiet_access [OF assms(1-3), where pc = "FTopW c s (m_top (fresh c ?p))"]) auto
  next
    case 4
    with d(2) assms(3) have ok: "fst s = c" "owns t c ?mk ?p" "\<not> Full (fresh c ?p)" "m_top (fresh c ?p) = k" by simp_all
    have "seen (?pcs[t := FStore c s k]) ?mk (set_top c (k + 1) ?p) = seen ?pcs ?mk ?p"
      by (rule seen_hold [OF ok(2) assms(2)]) (use ok assms(3) 4 in auto)
    then show ?thesis using ok 4
      by (intro access_step [OF assms(1-3), where pc = "FStore c s k" and p = "set_top c (k + 1) ?p"])
        (simp_all add: leaves_own(2), auto simp: owns_def set_top_def Full_def)
  next
    case 5
    with d(2) assms(3) have ok: "fst s = c" "owns t c ?mk ?p" "k < int (length (m_stack (fresh c ?p)))" "m_top (fresh c ?p) = k + 1"
      by simp_all
    have k: "0 \<le> k" using fresh_bounds [OF assms(1) ok(2) pcs] 5 by simp
    note ss = seen_store [OF ok(2) assms(2) assms(3) [unfolded 5] ok(4) k ok(3), of Out, simplified]
    show ?thesis
    proof (rule access_step [OF assms(1-3), where pc = Out and p = "set_slot c k s ?p"])
      fix C assume "pool_inv (seen ?pcs ?mk ?p) (C + carry pc0)"
      then have "pool_inv (seen ?pcs ?mk ?p) (add_mset s C)" using 5 by simp
      from push_own_ok(1) [OF this _ refl] ok(1,2) show
        "pool_inv (seen (?pcs[t := Out]) ?mk (set_slot c k s ?p)) (C + (carry Out + mset (returned pc0)))"
        using 5 by (simp add: ss owns_def)
    qed (use ok k 5 leaves_own(3) [OF ok(2)] in simp_all)
  qed
qed


lemma pt_step_ok:
  assumes "pt_inv st" "frees_at_home e st"
  shows "\<exists>st'. pt_step e st = Inr st' \<and> pt_inv st'"
proof (cases e)
  case (CallAlloc t sz)
  show ?thesis
  proof (cases "t < length (pt_pcs st) \<and> pt_pcs st ! t = Out")
    case True
    then have "pt_pcs st ! t = Out" "t < length (pt_pcs st)" by auto
    note t = this
    have "carried ((pt_pcs st)[t := ABegin sz]) = carried (pt_pcs st)"
      using carried_update [OF t(2), of "ABegin sz"] t(1) by simp
    then have "pt_inv (st\<lparr>pt_pcs := (pt_pcs st)[t := ABegin sz]\<rparr>)"
      using assms(1) seen_plain [OF t(2), of "ABegin sz"] t by (auto simp: pt_inv_def nth_list_update)
    then show ?thesis using CallAlloc t by simp
  qed (use CallAlloc assms(1) in auto)
next
  case (CallFree t i)
  show ?thesis
  proof (cases "t < length (pt_pcs st) \<and> pt_pcs st ! t = Out \<and> i < length (pt_live st)")
    case True
    then have t: "pt_pcs st ! t = Out" "t < length (pt_pcs st)" and i: "i < length (pt_live st)" by auto
    let ?s = "pt_live st ! i" and ?l = "take i (pt_live st) @ drop (Suc i) (pt_live st)"
    have "carried ((pt_pcs st)[t := FCheck ?s]) = add_mset ?s (carried (pt_pcs st))"
      using carried_update [OF t(2), of "FCheck ?s"] t(1) by simp
    moreover have "add_mset ?s (mset ?l) = mset (pt_live st)" by (rule mset_remove_nth [OF i])
    ultimately have "mset ?l + carried ((pt_pcs st)[t := FCheck ?s]) = mset (pt_live st) + carried (pt_pcs st)"
      by (metis union_mset_add_mset_left union_mset_add_mset_right)
    then have "pt_inv (st\<lparr>pt_pcs := (pt_pcs st)[t := FCheck ?s], pt_live := ?l\<rparr>)"
      using assms(1) seen_plain [OF t(2), of "FCheck ?s"] t by (auto simp: pt_inv_def nth_list_update)
    then show ?thesis using CallFree t i by simp
  qed (use CallFree assms(1) in auto)
next
  case (Access t)
  show ?thesis
  proof (cases "t < length (pt_pcs st)")
    case True
    note d = pt_invD [OF assms(1) True]
    note q = quiet_access [OF assms(1) True]
    have h: "frees_at_home (Access t) st" using assms(2) Access by simp
    have "\<exists>st'. pt_step (Access t) st = Inr st' \<and> pt_inv st'"
    proof (cases "pt_pcs st ! t")
      case Out
      show ?thesis by (rule q [OF Out, where pc = Out]) simp_all
    next
      case (ABegin sz)
      show ?thesis
      proof (cases "m_TLSChunk (pt_pool st) t")
        case (Some c)
        show ?thesis by (rule q [OF ABegin, where pc = "AEmpty sz c False"]) (use Some d(6) [OF Some] in \<open>simp_all add: begin_on_def\<close>)
      next
        case None
        obtain c p where ca: "ChunkAlloc t (pt_pool st) = (c, p)" by (cases "ChunkAlloc t (pt_pool st)")
      show ?thesis
        by (rule chunk_access [OF assms(1) True ABegin _ ca, where sz = sz]) (use ca None in \<open>simp_all add: begin_on_def\<close>)
      qed
    next
      case (AEmpty sz c b)
      with d(2) have o: "owns t c (pt_maker st) (pt_pool st)" by simp
      have "0 \<le> m_top (fresh c (pt_pool st))"
        using fresh_bounds(2) [OF assms(1) o, of "AEmpty sz c b"] AEmpty True by (simp add: pc_of_def)
      then show ?thesis
        by (intro q [OF AEmpty, where pc = "if m_top (fresh c (pt_pool st)) = 0 then if b then AChunk sz else ARecycled sz c else ATest sz c"])
          (use o in simp_all)
    next
      case (ATest sz c)
      show ?thesis by (rule q [OF ATest, where pc = "ADec sz c"]) (use d(2) ATest in simp_all)
    next
      case (ADec sz c)
      show ?thesis by (rule q [OF ADec, where pc = "ADecW sz c (m_top (fresh c (pt_pool st)))"]) (use d(2) ADec in simp_all)
    next
      case (ARet s)
      show ?thesis by (rule q [OF ARet, where pc = Out]) simp_all
    next
      case (AChunk sz)
      obtain c p where ca: "ChunkAlloc t (pt_pool st) = (c, p)" by (cases "ChunkAlloc t (pt_pool st)")
      show ?thesis
        by (rule chunk_access [OF assms(1) True AChunk _ ca, where sz = sz]) (use ca in \<open>simp_all add: begin_on_def\<close>)
    qed (rule alloc_access [OF assms(1) True] free_access [OF assms(1) True _ h], assumption, blast)+
    then show ?thesis using Access by simp
  qed (use Access assms(1) in simp)
qed

lemma pt_run_ok: "pt_inv st \<Longrightarrow> at_home es st \<Longrightarrow> \<exists>st'. pt_run es st = Inr st' \<and> pt_inv st'"
proof (induction es arbitrary: st)
  case (Cons e es)
  then obtain st1 where "pt_step e st = Inr st1" "pt_inv st1" using pt_step_ok [of st e] by auto
  then show ?case using Cons by auto
qed simp

lemma pt_inv_start:
  assumes "0 < n"
  shows "pt_inv (pt_start n uid t threads)"
proof -
  let ?p = "ObjectPool_new n uid t"
  have i: "pool_inv ?p {#}" using pool_start_inv [OF assms, of uid t] by (simp add: pool_start_def)
  have "pc_of (replicate threads Out) u = Out" for u by (simp add: pc_of_def)
  then have "seen (replicate threads Out) [t] ?p = ?p" by (intro pool_eqI) simp_all
  moreover have "carried (replicate threads Out) = {#}" by (induction threads) (simp_all add: carried_def)
  moreover have "length (m_chunks ?p) = 1" "m_TLSChunk ?p u = Some c \<Longrightarrow> owns u c [t] ?p" for u c
    by (auto simp: ObjectPool_new_def ChunkAlloc_def Let_def owns_def split: prod.splits if_splits)
  ultimately show ?thesis using i by (auto simp: pt_inv_def pt_start_def)
qed

text \<open>
  C18. Overlapping calls of any number of threads, interleaved access by access: as long as no thread
  frees a slot that it allocated from a chunk another thread made, no call fails, and at every moment
  each slot is in at most one place among the hands of the clients and the calls that are under way;
  when no call is under way, also the stacks, the recycle stacks and the global batches hold no slot
  twice and none that a client has. (The next theorem is what happens without the condition.)
\<close>

theorem no_interleaving_shares_a_slot:
  assumes "0 < n" "at_home es (pt_start n uid t threads)"
  shows "\<exists>st. pt_run es (pt_start n uid t threads) = Inr st \<and> (\<forall>s. count (mset (pt_live st) + carried (pt_pcs st)) s \<le> 1) \<and>
    ((\<forall>pc \<in> set (pt_pcs st). pc = Out) \<longrightarrow> (\<forall>s. count (stored (pt_pool st) + mset (pt_live st)) s \<le> 1))"
proof -
  from pt_run_ok [OF pt_inv_start [OF assms(1)] assms(2)] obtain st where
    st: "pt_run es (pt_start n uid t threads) = Inr st" "pt_inv st" by blast
  let ?P = "seen (pt_pcs st) (pt_maker st) (pt_pool st)"
  have inv: "pool_inv ?P (mset (pt_live st) + carried (pt_pcs st))" using st(2) by (simp add: pt_inv_def)
  have "count (mset (pt_live st) + carried (pt_pcs st)) s \<le> 1" for s using pool_inv_count [OF inv, of s] by simp
  moreover have "count (stored (pt_pool st) + mset (pt_live st)) s \<le> 1" if "\<forall>pc \<in> set (pt_pcs st). pc = Out" for s
  proof -
    have "pc_of (pt_pcs st) u = Out" for u using that by (simp add: pc_of_def)
    then have "?P = pt_pool st" by (intro pool_eqI) simp_all
    then show ?thesis using pool_inv_count [OF inv, of s] by simp
  qed
  ultimately show ?thesis using st(1) by blast
qed

section \<open>The interleaving that hands a slot out twice\<close>

definition alloc_call :: "nat \<Rightarrow> nat \<Rightarrow> pt_event list" where
  "alloc_call t sz = CallAlloc t sz # replicate 8 (Access t)"

lemma pt_run_append: "pt_run (es @ fs) st = ebind (pt_run es st) (pt_run fs)"
  by (induction es arbitrary: st) (auto simp: ebind_def split: sum.splits)

lemma alloc_call_pops:
  assumes "t < length (pt_pcs st)" "pt_pcs st ! t = Out" "m_TLSChunk (pt_pool st) t = Some c" "c < length (m_chunks (pt_pool st))"
    "m_top (fresh c (pt_pool st)) = k" "0 < k" "k \<le> int (length (m_stack (fresh c (pt_pool st))))"
    "x = m_stack (fresh c (pt_pool st)) ! nat (k - 1)"
  shows "pt_run (alloc_call t sz) st =
    Inr (st\<lparr>pt_pool := hand_out t sz x (set_top c (k - 1) (pt_pool st)), pt_live := x # pt_live st\<rparr>)"
proof -
  have "(pt_pcs st)[t := Out] = pt_pcs st" using assms(2) by (metis list_update_id)
  then show ?thesis using assms
    by (simp add: alloc_call_def numeral_eq_Suc begin_on_def) (simp add: set_top_def)
qed

definition free_begin :: "nat \<Rightarrow> nat \<Rightarrow> pt_event list" where
  "free_begin t i = CallFree t i # replicate 3 (Access t)"

lemma free_begin_reads:
  assumes "t < length (pt_pcs st)" "pt_pcs st ! t = Out" "i < length (pt_live st)" "pt_live st ! i = s"
    "m_markValue (m_metaData (pt_pool st) s) = MARK_FRONT" "m_allocThread (m_metaData (pt_pool st) s) = t"
    "m_chunkOwner (m_metaData (pt_pool st) s) = c" "\<not> Full (fresh c (pt_pool st))"
  shows "pt_run (free_begin t i) st = Inr (st\<lparr>pt_pcs := (pt_pcs st)[t := FTopW c s (m_top (fresh c (pt_pool st)))],
    pt_live := take i (pt_live st) @ drop (Suc i) (pt_live st)\<rparr>)"
  using assms by (simp add: free_begin_def numeral_eq_Suc Let_def)

lemma free_end_writes:
  assumes "t < length (pt_pcs st)" "pt_pcs st ! t = FTopW c s k" "c < length (m_chunks (pt_pool st))" "0 \<le> k"
    "k < int (length (m_stack (fresh c (pt_pool st))))"
  shows "pt_run [Access t, Access t] st =
    Inr (st\<lparr>pt_pool := set_slot c k s (set_top c (k + 1) (pt_pool st)), pt_pcs := (pt_pcs st)[t := Out]\<rparr>)"
  using assms by (simp add: set_top_def set_slot_def)

text \<open>
  Without that condition on the frees the pool breaks. From every state reached under it in which a thread
  \<open>t1\<close> holds a slot that it allocated itself from a chunk that is now the chunk of \<open>t2\<close>, and the fresh
  stack of that chunk is neither empty nor full: \<open>t1\<close> frees the slot and reads \<^verbatim>\<open>m_top\<close>, \<open>t2\<close> allocates, and
  \<open>t1\<close> goes on; then the next two allocations of \<open>t2\<close> give it the slot \<open>t1\<close> freed and, once more, the one
  it has already.
\<close>

theorem foreign_free_hands_out_twice:
  assumes "0 < n" "at_home es (pt_start n uid t0 threads)" "pt_run es (pt_start n uid t0 threads) = Inr st"
    "t1 < length (pt_pcs st)" "pt_pcs st ! t1 = Out" "t2 < length (pt_pcs st)" "pt_pcs st ! t2 = Out" "t1 \<noteq> t2"
    "i < length (pt_live st)" "pt_live st ! i = s"
    "m_allocThread (m_metaData (pt_pool st) s) = t1" "m_TLSChunk (pt_pool st) t2 = Some (fst s)"
    "0 < m_top (fresh (fst s) (pt_pool st))" "\<not> Full (fresh (fst s) (pt_pool st))"
  shows "\<exists>st' x. pt_run (free_begin t1 i @ alloc_call t2 sz @ [Access t1, Access t1] @ alloc_call t2 sz @ alloc_call t2 sz) st = Inr st' \<and>
    pt_live st' = x # s # x # take i (pt_live st) @ drop (Suc i) (pt_live st)"
proof -
  let ?c = "fst s" and ?l = "take i (pt_live st) @ drop (Suc i) (pt_live st)"
  let ?k = "m_top (fresh ?c (pt_pool st))" and ?n = "int (length (m_stack (fresh ?c (pt_pool st))))"
  from pt_run_ok [OF pt_inv_start [OF assms(1)] assms(2)] assms(3) have inv: "pt_inv st" by auto
  note d = pt_invD [OF inv assms(4)]
  have c: "?c < length (m_chunks (pt_pool st))" using d(6) [OF assms(12)] by (simp add: owns_def)
  have "s \<in># mset (pt_live st)" using assms(9,10) by (metis in_multiset_in_set nth_mem)
  then have sl: "slot_ok (seen (pt_pcs st) (pt_maker st) (pt_pool st)) s" by (intro pool_inv_slot [OF d(3)]) simp
  then have md: "m_chunkOwner (m_metaData (pt_pool st) s) = ?c" "m_markValue (m_metaData (pt_pool st) s) = MARK_FRONT"
    using pool_inv_meta [OF d(3) sl] by (auto simp: meta_ok_def)
  have k: "?k < ?n" using assms(14) by (simp add: Full_def)
  let ?x = "m_stack (fresh ?c (pt_pool st)) ! nat (?k - 1)"
  let ?s1 = "st\<lparr>pt_pcs := (pt_pcs st)[t1 := FTopW ?c s ?k], pt_live := ?l\<rparr>"
  let ?s2 = "?s1\<lparr>pt_pool := hand_out t2 sz ?x (set_top ?c (?k - 1) (pt_pool st)), pt_live := ?x # ?l\<rparr>"
  let ?s3 = "?s2\<lparr>pt_pool := set_slot ?c ?k s (set_top ?c (?k + 1) (pt_pool ?s2)), pt_pcs := (pt_pcs ?s2)[t1 := Out]\<rparr>"
  let ?s4 = "?s3\<lparr>pt_pool := hand_out t2 sz s (set_top ?c ?k (pt_pool ?s3)), pt_live := s # ?x # ?l\<rparr>"
  let ?s5 = "?s4\<lparr>pt_pool := hand_out t2 sz ?x (set_top ?c (?k - 1) (pt_pool ?s4)), pt_live := ?x # s # ?x # ?l\<rparr>"
  have 1: "pt_run (free_begin t1 i) st = Inr ?s1"
    by (rule free_begin_reads) (use assms md in simp_all)
  have 2: "pt_run (alloc_call t2 sz) ?s1 = Inr ?s2"
    by (subst alloc_call_pops [where c = ?c and k = ?k]) (use assms c k in simp_all)
  have 3: "pt_run [Access t1, Access t1] ?s2 = Inr ?s3"
    by (rule free_end_writes) (use assms c k in \<open>simp_all add: set_top_def\<close>)
  have t3: "m_top (fresh ?c (pt_pool ?s3)) = ?k + 1"
    "m_stack (fresh ?c (pt_pool ?s3)) = (m_stack (fresh ?c (pt_pool st)))[nat ?k := s]"
    using c by (simp_all add: set_top_def set_slot_def)
  have 4: "pt_run (alloc_call t2 sz) ?s3 = Inr ?s4"
    by (subst alloc_call_pops [where c = ?c and k = "?k + 1" and x = s])
      (use assms c k t3 in \<open>simp_all add: set_top_def set_slot_def hand_out_def\<close>)
  have t4: "m_top (fresh ?c (pt_pool ?s4)) = ?k"
    "m_stack (fresh ?c (pt_pool ?s4)) = (m_stack (fresh ?c (pt_pool st)))[nat ?k := s]"
    using c t3(2) by (simp_all add: set_top_def hand_out_def)
  have 5: "pt_run (alloc_call t2 sz) ?s4 = Inr ?s5"
    by (subst alloc_call_pops [where c = ?c and k = ?k and x = ?x])
      (use assms c k t4 in \<open>simp_all add: set_top_def set_slot_def hand_out_def\<close>)
  have "pt_run (free_begin t1 i @ alloc_call t2 sz @ [Access t1, Access t1] @ alloc_call t2 sz @ alloc_call t2 sz) st = Inr ?s5"
    by (simp only: pt_run_append 1 2 3 4 5 ebind_simps)
  then show ?thesis by (intro exI [of _ ?s5] exI [of _ ?x]) simp
qed


section \<open>A call that nobody interrupts\<close>

text \<open>
  The accesses of one thread in a row. A call whose accesses come without any of another thread does
  what the operation of \<open>Memory_Pool\<close> does in one step.
\<close>

fun accesses :: "nat \<Rightarrow> nat \<Rightarrow> pool_pc \<Rightarrow> ObjectPool \<Rightarrow> (pool_pc \<times> ObjectPool) result" where
  "accesses t 0 pc p = Inr (pc, p)"
| "accesses t (Suc k) pc p = ebind (access t pc p) (\<lambda>(pc, p). accesses t k pc p)"

lemma accesses_pop:
  assumes "PopFromFreshSlot c t sz p = Inr (Some s, p')" "ps_inv n (fresh c p)"
  shows "accesses t 6 (AEmpty sz c b) p = Inr (ARet s, p')"
proof -
  let ?f = "fresh c p"
  have k: "m_top ?f \<noteq> 0" "\<not> m_top ?f - 1 < 0" "s = m_stack ?f ! nat (m_top ?f - 1)"
    "p' = hand_out t sz s (upd_chunk c (\<lambda>pg. pg\<lparr>m_freshSlots := ?f\<lparr>m_top := m_top ?f - 1\<rparr>\<rparr>) p)"
    using assms(1) by (auto simp: PopFromFreshSlot_def Empty_def Pop_def split: if_splits)
  moreover have "upd_chunk c (\<lambda>pg. pg\<lparr>m_freshSlots := ?f\<lparr>m_top := m_top ?f - 1\<rparr>\<rparr>) p = set_top c (m_top ?f - 1) p"
    by (simp add: set_top_def upd_chunk_def)
  moreover have "m_stack (fresh c (set_top c j p)) = m_stack ?f" for j
    by (cases "c < length (m_chunks p)") (simp_all add: set_top_def upd_chunk_def not_less list_update_beyond)
  ultimately show ?thesis using assms(2) by (simp add: numeral_eq_Suc ps_inv_def)
qed

lemma accesses_fresh:
  assumes "pool_inv p live" "c < length (m_chunks p)" "PopFromFreshSlot c t sz p = Inr (r, p1)"
  shows "r = None \<Longrightarrow> p1 = p \<and> m_top (fresh c p) = 0" "r = Some s \<Longrightarrow> accesses t 6 (AEmpty sz c b) p = Inr (ARet s, p1)"
  using assms(3) accesses_pop [of c t sz p s p1 "SLOT_COUNT p" b] pool_inv_page [OF assms(1,2)]
  by (auto simp: PopFromFreshSlot_def Empty_def page_ok_def split: if_splits prod.splits option.splits)

lemma chunk_alone:
  assumes "pool_inv p live" "c < length (m_chunks p)" "ChunkPage_Alloc d c t sz p = Inr (s, p')"
  shows "\<exists>k. accesses t k (AEmpty sz c False) p = Inr (ARet s, p')"
  using assms
proof (induction d arbitrary: c p)
  case (Suc d)
  note inv = Suc.prems(1,2)
  from Suc.prems(3) obtain r1 p1 where 1: "PopFromFreshSlot c t sz p = Inr (r1, p1)" by auto
  show ?case
  proof (cases r1)
    case (Some x)
    then show ?thesis using accesses_fresh(2) [OF inv 1 Some, of False] Suc.prems(3) 1 by auto
  next
    case None
    with accesses_fresh(1) [OF inv 1] have f: "p1 = p" "m_top (fresh c p) = 0" by auto
    from Suc.prems(3) None 1 f obtain r2 p2 where 2: "PopFromRecyledSlots c t sz p = Inr (r2, p2)" by auto
    show ?thesis
    proof (cases r2)
      case (Some x)
      then have "accesses t 2 (AEmpty sz c False) p = Inr (ARet s, p')"
        using f 1 2 None Suc.prems(3) by (simp add: numeral_eq_Suc)
      then show ?thesis by blast
    next
      case r2: None
      with 2 have "p2 = p" by (auto simp: PopFromRecyledSlots_def split: if_splits prod.splits option.splits)
      obtain b p3 where 3: "TryStealFromGlobal c p = (b, p3)" by (cases "TryStealFromGlobal c p")
      have em: "items (fresh c p) = []" using f(2) by (simp add: items_def)
      note steal = TryStealFromGlobal_ok [OF inv em 3]
      have c3: "c < length (m_chunks p3)" using inv(2) steal(4) by simp
      have to3: "accesses t (Suc (Suc (Suc k))) (AEmpty sz c False) p = accesses t k (if b then AEmpty sz c True else AChunk sz) p3" for k
        using f 2 r2 3 \<open>p2 = p\<close> by simp
      have rest: "ebind (if b then PopFromFreshSlot c t sz p3 else Inr (None, p3)) (\<lambda>(r4, p4).
          case r4 of Some s \<Rightarrow> Inr (s, p4) | None \<Rightarrow> let (c', p5) = ChunkAlloc t p4 in ChunkPage_Alloc d c' t sz p5) = Inr (s, p')"
        using Suc.prems(3) None 1 f 2 r2 3 \<open>p2 = p\<close> by simp
      show ?thesis
      proof (cases b)
        case True
        with PopFromFreshSlot_ok(2) [OF steal(1) c3 steal(3), of t sz] rest
        have "PopFromFreshSlot c t sz p3 = Inr (Some s, p')" by auto
        then have "accesses t 6 (AEmpty sz c True) p3 = Inr (ARet s, p')" by (rule accesses_fresh(2) [OF steal(1) c3 _ refl])
        then have "accesses t (Suc (Suc (Suc 6))) (AEmpty sz c False) p = Inr (ARet s, p')" unfolding to3 using True by simp
        then show ?thesis by blast
      next
        case False
        obtain c' p5 where ca: "ChunkAlloc t p3 = (c', p5)" by (cases "ChunkAlloc t p3")
        then have r: "ChunkPage_Alloc d c' t sz p5 = Inr (s, p')" using rest False by simp
        have n: "m_chunkPool p3 = []" "0 < SLOT_COUNT p3" using steal(1) by (auto simp: pool_inv_def)
        have "c' < length (m_chunks p5)" using ChunkAlloc_parts(1,6) [OF n ca] by auto
        from Suc.IH [OF ChunkAlloc_inv [OF steal(1) ca] this r] obtain k where
          "accesses t k (AEmpty sz c' False) p5 = Inr (ARet s, p')" by blast
        then have "accesses t (Suc (Suc (Suc (Suc k)))) (AEmpty sz c False) p = Inr (ARet s, p')"
          unfolding to3 using False ca by (simp add: begin_on_def)
        then show ?thesis by blast
      qed
    qed
  qed
qed simp

lemma alloc_alone:
  assumes "pool_inv p live" "ObjectPool_Alloc d t sz p = Inr (s, p')"
  shows "\<exists>k. accesses t k (ABegin sz) p = Inr (ARet s, p')"
proof (cases "m_TLSChunk p t")
  case (Some c)
  then have "c < length (m_chunks p)" using assms(1) by (simp add: pool_inv_def)
  from chunk_alone [OF assms(1) this, of d t sz s p'] obtain k where "accesses t k (AEmpty sz c False) p = Inr (ARet s, p')"
    using assms(2) Some by (auto simp: ObjectPool_Alloc_def)
  then have "accesses t (Suc k) (ABegin sz) p = Inr (ARet s, p')" using Some by (simp add: begin_on_def)
  then show ?thesis by blast
next
  case None
  obtain c p1 where ca: "ChunkAlloc t p = (c, p1)" by (cases "ChunkAlloc t p")
  have n: "m_chunkPool p = []" "0 < SLOT_COUNT p" using assms(1) by (auto simp: pool_inv_def)
  have "c < length (m_chunks p1)" using ChunkAlloc_parts(1,6) [OF n ca] by auto
  from chunk_alone [OF ChunkAlloc_inv [OF assms(1) ca] this, of d t sz s p'] obtain k where
    "accesses t k (AEmpty sz c False) p1 = Inr (ARet s, p')" using assms(2) None ca by (auto simp: ObjectPool_Alloc_def)
  then have "accesses t (Suc k) (ABegin sz) p = Inr (ARet s, p')" using None ca by (simp add: begin_on_def)
  then show ?thesis by blast
qed

lemma top_then_slot: "ps\<lparr>m_top := k, m_stack := xs\<rparr> = ps\<lparr>m_stack := xs, m_top := k\<rparr>"
  by (cases ps) simp

lemma free_alone:
  assumes "pool_inv p (add_mset s live)" "ObjectPool_Free t s p = Inr p'"
  shows "\<exists>k. accesses t k (FCheck s) p = Inr (Out, p')"
proof -
  have sl: "slot_ok p s" by (rule pool_inv_slot [OF assms(1)]) simp
  then have c: "fst s < length (m_chunks p)" "m_chunkOwner (m_metaData p s) = fst s" "m_markValue (m_metaData p s) = MARK_FRONT"
    using pool_inv_meta [OF assms(1) sl] by (simp_all add: slot_ok_def meta_ok_def)
  have ok: "ps_inv (SLOT_COUNT p) (fresh (fst s) p)" using pool_inv_page [OF assms(1) c(1)] by (simp add: page_ok_def)
  show ?thesis
  proof (cases "m_allocThread (m_metaData p s) = t")
    case False
    then have "accesses t 1 (FCheck s) p = Inr (Out, p')"
      using assms(2) c by (simp add: ObjectPool_Free_def ChunkPage_Free_def Let_def)
    then show ?thesis by blast
  next
    case own: True
    then have p': "p' = upd_chunk (fst s) (\<lambda>pg. pg\<lparr>m_freshSlots := snd (Push s (m_freshSlots pg))\<rparr>) p"
      using assms(2) c by (simp add: ObjectPool_Free_def ChunkPage_Free_def)
    show ?thesis
    proof (cases "Full (fresh (fst s) p)")
      case True
      then have "p' = p" by (simp add: p' upd_chunk_def Push_def)
      then have "accesses t 2 (FCheck s) p = Inr (Out, p')" using True own c by (simp add: numeral_eq_Suc Let_def)
      then show ?thesis by blast
    next
      case False
      then have "accesses t 5 (FCheck s) p = Inr (Out, set_slot (fst s) (m_top (fresh (fst s) p)) s
          (set_top (fst s) (m_top (fresh (fst s) p) + 1) p))"
        using own c ok by (simp add: numeral_eq_Suc Let_def) (simp add: set_top_def ps_inv_def Full_def)
      moreover have "set_slot (fst s) (m_top (fresh (fst s) p)) s (set_top (fst s) (m_top (fresh (fst s) p) + 1) p) = p'"
        using False c(1) by (simp add: p' set_slot_def set_top_def upd_chunk_def Push_def) (simp only: top_then_slot)
      ultimately show ?thesis by metis
    qed
  qed
qed

section \<open>Witnesses\<close>

text \<open>Two threads allocate at the same time, access by access, and then free each other's slots, again at the same time.\<close>

definition both :: "nat \<Rightarrow> pt_event list" where
  "both k = concat (replicate k [Access 1, Access 2])"

definition overlapping :: "pt_event list" where
  "overlapping = [CallAlloc 1 8, CallAlloc 2 8] @ both 8 @ [CallFree 2 1, CallFree 1 0] @ both 5"

theorem no_interleaving_shares_a_slot_witness:
  "\<exists>st. pt_run overlapping (pt_start 2 7 1 3) = Inr st \<and> (\<forall>s. count (mset (pt_live st) + carried (pt_pcs st)) s \<le> 1)"
proof -
  have "at_home overlapping (pt_start 2 7 1 3)" by code_simp
  from no_interleaving_shares_a_slot [OF _ this] show ?thesis by auto
qed

text \<open>
  Thread 1 allocates, thread 2 frees that slot and so recycles it; its third allocation gets it back.
\<close>

definition comes_back :: "pt_event list" where
  "comes_back = alloc_call 1 8 @ [CallFree 2 0, Access 2] @ alloc_call 2 8 @ alloc_call 2 8 @ alloc_call 2 8"

theorem foreign_free_hands_out_twice_witness:
  "\<exists>st st' x. pt_run comes_back (pt_start 2 7 1 3) = Inr st \<and>
     pt_run (free_begin 2 0 @ alloc_call 1 8 @ [Access 2, Access 2] @ alloc_call 1 8 @ alloc_call 1 8) st = Inr st' \<and>
     pt_live st' = x # (0, 1) # x # tl (pt_live st)"
proof -
  let ?ok = "\<lambda>st. length (pt_pcs st) = 3 \<and> pt_pcs st ! 1 = Out \<and> pt_pcs st ! 2 = Out \<and>
    pt_live st = (0, 1) # tl (pt_live st) \<and> m_allocThread (m_metaData (pt_pool st) (0, 1)) = 2 \<and>
    m_TLSChunk (pt_pool st) 1 = Some 0 \<and> 0 < m_top (m_freshSlots (m_chunks (pt_pool st) ! 0)) \<and>
    \<not> Full (m_freshSlots (m_chunks (pt_pool st) ! 0))"
  have home: "at_home comes_back (pt_start 2 7 1 3)" by code_simp
  have "case pt_run comes_back (pt_start 2 7 1 3) of Inl _ \<Rightarrow> False | Inr st \<Rightarrow> ?ok st" by code_simp
  then obtain st where st: "pt_run comes_back (pt_start 2 7 1 3) = Inr st" "?ok st" by (auto split: sum.splits)
  then have len: "0 < length (pt_live st)" "pt_live st ! 0 = (0, 1)" "drop (Suc 0) (pt_live st) = tl (pt_live st)"
    by (metis length_greater_0_conv list.distinct(1), metis nth_Cons_0, simp add: drop_Suc)
  have "\<exists>st' x. pt_run (free_begin 2 0 @ alloc_call 1 8 @ [Access 2, Access 2] @ alloc_call 1 8 @ alloc_call 1 8) st = Inr st' \<and>
    pt_live st' = x # (0, 1) # x # take 0 (pt_live st) @ drop (Suc 0) (pt_live st)"
    by (rule foreign_free_hands_out_twice [OF _ home st(1)]) (use st(2) len in simp_all)
  then show ?thesis using st(1) len(3) by auto
qed


end
