(* ===== verification/Template_Queue.thy ===== *)
theory Template_Queue
  imports Fifo_Interface
begin

text \<open>
  \<^verbatim>\<open>TemplateQ<T>\<close> (ServerCore/Network/TemplateQ.h): a ring of 500 items of which 499 can be used.
  Its operations satisfy the contract of a bounded FIFO. Used by one producer and one consumer
  thread without a lock, which the code is written for (each operation copies both positions,
  touches the array and publishes one position last), it is still first-in first-out: every
  interleaving of the single accesses delivers a prefix of what was accepted, in order.
\<close>

section \<open>The queue\<close>

definition BUFFER_SIZE :: int where
  "BUFFER_SIZE = 500"

record 'a TemplateQ =
  m_Front :: int
  m_Rear :: int
  m_DataArray :: "'a list"

definition TemplateQ_new :: "'a list \<Rightarrow> 'a TemplateQ" where
  "TemplateQ_new mem = \<lparr>m_Front = 0, m_Rear = 0, m_DataArray = mem\<rparr>"

definition GetFreeSize2 :: "int \<Rightarrow> int \<Rightarrow> int" where
  "GetFreeSize2 front rear =
     (if crem (rear + 1) BUFFER_SIZE = front then 0
      else if front > rear then front - rear - 1
      else front + (BUFFER_SIZE - 1) - rear)"

definition GetUsedSize2 :: "int \<Rightarrow> int \<Rightarrow> int" where
  "GetUsedSize2 front rear =
     (if rear = front then 0
      else if front < rear then rear - front
      else rear + (BUFFER_SIZE - 1) - front + 1)"

definition GetFreeSize :: "'a TemplateQ \<Rightarrow> int" where
  "GetFreeSize q =
     (let copyFront = m_Front q; copyRear = m_Rear q in
      if crem (copyRear + 1) BUFFER_SIZE = copyFront then 0
      else if copyFront > copyRear then copyFront - copyRear - 1
      else copyFront + (BUFFER_SIZE - 1) - copyRear)"

definition GetUsedSize :: "'a TemplateQ \<Rightarrow> int" where
  "GetUsedSize q =
     (let copyRear = m_Rear q; copyFront = m_Front q in
      if copyRear = copyFront then 0
      else if copyFront < copyRear then copyRear - copyFront
      else copyRear + (BUFFER_SIZE - 1) - copyFront + 1)"

definition ClearBuffer :: "'a TemplateQ \<Rightarrow> 'a TemplateQ" where
  "ClearBuffer q = q\<lparr>m_Front := 0, m_Rear := 0\<rparr>"

definition Enqueue :: "'a \<Rightarrow> 'a TemplateQ \<Rightarrow> bool \<times> 'a TemplateQ" where
  "Enqueue data q =
     (let tempFront = m_Front q; tempRear = m_Rear q in
      if crem (tempRear + 1) BUFFER_SIZE = tempFront then (False, q)
      else let tempRear = crem (tempRear + 1) BUFFER_SIZE
           in (True, q\<lparr>m_DataArray := (m_DataArray q)[nat tempRear := data], m_Rear := tempRear\<rparr>))"

definition Dequeue :: "'a TemplateQ \<Rightarrow> 'a option \<times> 'a TemplateQ" where
  "Dequeue q =
     (let tempRear = m_Rear q; tempFront = m_Front q in
      if tempRear = tempFront then (None, q)
      else let tempFront = crem (tempFront + 1) BUFFER_SIZE
           in (Some (m_DataArray q ! nat tempFront), q\<lparr>m_Front := tempFront\<rparr>))"

section \<open>Contents\<close>

definition tq_inv :: "'a TemplateQ \<Rightarrow> bool" where
  "tq_inv q \<longleftrightarrow> 0 \<le> m_Front q \<and> m_Front q < BUFFER_SIZE \<and> 0 \<le> m_Rear q \<and> m_Rear q < BUFFER_SIZE \<and>
     length (m_DataArray q) = nat BUFFER_SIZE"

definition used :: "'a TemplateQ \<Rightarrow> nat" where
  "used q = nat ((m_Rear q - m_Front q) mod BUFFER_SIZE)"

definition tq_at :: "'a TemplateQ \<Rightarrow> nat \<Rightarrow> 'a" where
  "tq_at q i = m_DataArray q ! nat ((m_Front q + 1 + int i) mod BUFFER_SIZE)"

definition tq_items :: "'a TemplateQ \<Rightarrow> 'a list" where
  "tq_items q = map (tq_at q) [0..<used q]"

lemma BUFFER_SIZE_pos [simp]: "0 < BUFFER_SIZE" "nat BUFFER_SIZE = 500"
  by (simp_all add: BUFFER_SIZE_def)

lemma next_pos: "0 \<le> a \<Longrightarrow> a < 500 \<Longrightarrow> (a + 1) mod 500 = (if a = 499 then 0 else a + 1)" for a :: int
  by auto

lemma used_bounds: "used q \<le> 499"
  using pos_mod_bound [of BUFFER_SIZE "m_Rear q - m_Front q"] by (simp add: used_def BUFFER_SIZE_def)

lemma GetUsedSize_used:
  assumes "tq_inv q"
  shows "GetUsedSize q = int (used q)" "GetFreeSize q = 499 - int (used q)"
proof -
  have b: "0 \<le> m_Front q" "m_Front q < 500" "0 \<le> m_Rear q" "m_Rear q < 500" using assms by (auto simp: tq_inv_def BUFFER_SIZE_def)
  have u: "(m_Rear q - m_Front q) mod 500 = (if m_Front q \<le> m_Rear q then m_Rear q - m_Front q else m_Rear q - m_Front q + 500)"
  proof (cases "m_Front q \<le> m_Rear q")
    case False
    have "(m_Rear q - m_Front q) mod 500 = (m_Rear q - m_Front q + 500) mod 500" by simp
    with False b show ?thesis by (simp del: mod_add_self2)
  qed (use b in simp)
  note c = next_pos [OF b(3,4)]
  show "GetUsedSize q = int (used q)" using b by (auto simp: GetUsedSize_def used_def u BUFFER_SIZE_def Let_def)
  show "GetFreeSize q = 499 - int (used q)"
    using b by (auto simp: GetFreeSize_def used_def u c crem_nonneg BUFFER_SIZE_def Let_def)
qed

lemma full_iff:
  assumes "tq_inv q"
  shows "crem (m_Rear q + 1) BUFFER_SIZE = m_Front q \<longleftrightarrow> used q = 499"
proof -
  have b: "0 \<le> m_Front q" "m_Front q < 500" "0 \<le> m_Rear q" "m_Rear q < 500" using assms by (auto simp: tq_inv_def BUFFER_SIZE_def)
  show ?thesis
    using GetUsedSize_used(1) [OF assms] b
    by (auto simp: next_pos [OF b(3,4)] GetUsedSize_def crem_nonneg BUFFER_SIZE_def Let_def split: if_splits)
qed

lemma empty_iff: "tq_inv q \<Longrightarrow> m_Rear q = m_Front q \<longleftrightarrow> used q = 0"
  using GetUsedSize_used(1) [of q] by (auto simp: tq_inv_def GetUsedSize_def BUFFER_SIZE_def Let_def split: if_splits)

lemma mod_dist: "(a + int i) mod BUFFER_SIZE = (a + int j) mod BUFFER_SIZE \<Longrightarrow> i \<le> j \<Longrightarrow> j < i + 500 \<Longrightarrow> i = j"
proof -
  assume "(a + int i) mod BUFFER_SIZE = (a + int j) mod BUFFER_SIZE" and ij: "i \<le> j" "j < i + 500"
  then have "BUFFER_SIZE dvd (a + int j) - (a + int i)" by (metis mod_eq_dvd_iff)
  then have "BUFFER_SIZE dvd int (j - i)" using ij(1) by (simp add: of_nat_diff)
  then have "(500::nat) dvd j - i" by (simp add: BUFFER_SIZE_def int_dvd_int_iff [symmetric])
  then have "j - i = 0" using ij(2) by (auto dest: dvd_imp_le)
  with ij(1) show "i = j" by simp
qed

lemma rear_front: "tq_inv q \<Longrightarrow> m_Rear q = (m_Front q + int (used q)) mod BUFFER_SIZE"
  by (simp add: used_def tq_inv_def mod_add_right_eq)

lemma Enqueue_ok:
  assumes "tq_inv q" "Enqueue d q = (b, q')"
  shows "tq_inv q'" "b \<longleftrightarrow> length (tq_items q) < 499" "tq_items q' = (if b then tq_items q @ [d] else tq_items q)"
proof -
  have r: "0 \<le> m_Rear q" "m_Rear q < BUFFER_SIZE" using assms(1) by (auto simp: tq_inv_def)
  show b: "b \<longleftrightarrow> length (tq_items q) < 499"
    using assms(2) full_iff [OF assms(1)] used_bounds [of q] by (auto simp: Enqueue_def Let_def tq_items_def split: if_splits)
  have "tq_inv q' \<and> tq_items q' = (if b then tq_items q @ [d] else tq_items q)"
  proof (cases b)
    case False
    then show ?thesis using assms by (auto simp: Enqueue_def Let_def split: if_splits)
  next
    case True
    let ?r = "(m_Rear q + 1) mod BUFFER_SIZE"
    have q': "q' = q\<lparr>m_DataArray := (m_DataArray q)[nat ?r := d], m_Rear := ?r\<rparr>"
      using True assms r by (auto simp: Enqueue_def Let_def crem_nonneg split: if_splits)
    have u: "used q < 499" using True b by (simp add: tq_items_def)
    have rr: "?r = (m_Front q + 1 + int (used q)) mod BUFFER_SIZE"
      using rear_front [OF assms(1)] by (simp add: mod_add_right_eq ac_simps)
    have bd: "0 \<le> ?r" "?r < 500" "nat ?r < 500" by (auto simp: BUFFER_SIZE_def intro: pos_mod_bound)
    have "(?r - m_Front q) mod BUFFER_SIZE = (1 + int (used q)) mod BUFFER_SIZE"
      unfolding rr by (simp add: mod_diff_left_eq)
    then have u': "used q' = Suc (used q)" using u by (simp add: q' used_def BUFFER_SIZE_def)
    have "tq_at q' i = (if i = used q then d else tq_at q i)" if "i \<le> used q" for i
    proof (cases "i = used q")
      case True
      then show ?thesis using assms(1) bd(3) by (simp add: q' tq_at_def rr [symmetric] tq_inv_def)
    next
      case False
      then have "(m_Front q + 1 + int i) mod BUFFER_SIZE \<noteq> ?r"
        using mod_dist [of "m_Front q + 1" i "used q"] that u by (auto simp: rr)
      moreover have "0 \<le> (m_Front q + 1 + int i) mod BUFFER_SIZE" by simp
      ultimately show ?thesis using False bd by (simp add: q' tq_at_def nat_eq_iff)
    qed
    then have "tq_items q' = tq_items q @ [d]" by (simp add: tq_items_def u')
    then show ?thesis using True assms(1) bd by (auto simp: q' tq_inv_def BUFFER_SIZE_def)
  qed
  then show "tq_inv q'" "tq_items q' = (if b then tq_items q @ [d] else tq_items q)" by blast+
qed

lemma Dequeue_ok:
  assumes "tq_inv q" "Dequeue q = (r, q')"
  shows "tq_inv q'" "r = (case tq_items q of [] \<Rightarrow> None | x # _ \<Rightarrow> Some x)" "tq_items q' = tl (tq_items q)"
proof -
  have f: "0 \<le> m_Front q" "m_Front q < BUFFER_SIZE" using assms(1) by (auto simp: tq_inv_def)
  have "tq_inv q' \<and> r = (case tq_items q of [] \<Rightarrow> None | x # _ \<Rightarrow> Some x) \<and> tq_items q' = tl (tq_items q)"
  proof (cases "used q")
    case 0
    then show ?thesis using assms empty_iff [OF assms(1)] by (auto simp: Dequeue_def Let_def tq_items_def split: if_splits)
  next
    case (Suc n)
    let ?f = "(m_Front q + 1) mod BUFFER_SIZE"
    have q': "r = Some (m_DataArray q ! nat ?f)" "q' = q\<lparr>m_Front := ?f\<rparr>"
      using Suc assms f empty_iff [OF assms(1)] by (auto simp: Dequeue_def Let_def crem_nonneg split: if_splits)
    have bd: "0 \<le> ?f" "?f < 500" by (auto simp: BUFFER_SIZE_def intro: pos_mod_bound)
    have "(m_Rear q - ?f) mod BUFFER_SIZE = (m_Front q + int (used q) - (m_Front q + 1)) mod BUFFER_SIZE"
      by (subst rear_front [OF assms(1)]) (simp only: mod_diff_eq)
    then have u': "used q' = n" using Suc used_bounds [of q] by (simp add: q' used_def BUFFER_SIZE_def)
    have a: "tq_at q' i = tq_at q (Suc i)" for i
    proof -
      have "(?f + (1 + int i)) mod BUFFER_SIZE = (m_Front q + 1 + (1 + int i)) mod BUFFER_SIZE" by (rule mod_add_left_eq)
      then show ?thesis by (simp add: q' tq_at_def add.assoc)
    qed
    have "tq_items q = tq_at q 0 # map (\<lambda>i. tq_at q (Suc i)) [0..<n]"
      using map_upt_Suc [of "tq_at q" n] by (simp add: tq_items_def Suc del: upt_Suc)
    moreover have "tq_items q' = map (\<lambda>i. tq_at q (Suc i)) [0..<n]" by (simp add: tq_items_def u' a)
    ultimately show ?thesis using assms(1) bd q' by (auto simp: tq_inv_def BUFFER_SIZE_def tq_at_def)
  qed
  then show "tq_inv q'" "r = (case tq_items q of [] \<Rightarrow> None | x # _ \<Rightarrow> Some x)" "tq_items q' = tl (tq_items q)" by blast+
qed

section \<open>The FIFO contract\<close>

text \<open>A client that enqueues a list item by item until one is refused, and one that dequeues up to \<open>k\<close> items.\<close>

fun EnqueueAll :: "'a TemplateQ \<Rightarrow> 'a list \<Rightarrow> 'a TemplateQ \<times> nat" where
  "EnqueueAll q [] = (q, 0)"
| "EnqueueAll q (d # ds) =
     (case Enqueue d q of (True, q1) \<Rightarrow> (case EnqueueAll q1 ds of (q2, n) \<Rightarrow> (q2, Suc n)) | (False, q1) \<Rightarrow> (q1, 0))"

fun DequeueUpTo :: "'a TemplateQ \<Rightarrow> nat \<Rightarrow> 'a TemplateQ \<times> 'a list" where
  "DequeueUpTo q 0 = (q, [])"
| "DequeueUpTo q (Suc k) =
     (case Dequeue q of (None, q1) \<Rightarrow> (q1, []) | (Some x, q1) \<Rightarrow> (case DequeueUpTo q1 k of (q2, ys) \<Rightarrow> (q2, x # ys)))"

lemma length_tq_items: "length (tq_items q) \<le> 499"
  by (simp add: tq_items_def used_bounds)

lemma EnqueueAll_ok:
  "tq_inv q \<Longrightarrow> EnqueueAll q ds = (q', n) \<Longrightarrow>
    tq_inv q' \<and> n = min (length ds) (499 - length (tq_items q)) \<and> tq_items q' = tq_items q @ take n ds"
proof (induction ds arbitrary: q q' n)
  case (Cons d ds)
  obtain b q1 where e: "Enqueue d q = (b, q1)" by (cases "Enqueue d q")
  note ok = Enqueue_ok [OF Cons.prems(1) e]
  show ?case
  proof (cases b)
    case True
    obtain q2 m where r: "EnqueueAll q1 ds = (q2, m)" by (cases "EnqueueAll q1 ds")
    with Cons.IH [OF ok(1) r] Cons.prems(2) e True ok(2,3) show ?thesis by auto
  next
    case False
    with Cons.prems e ok length_tq_items [of q] show ?thesis by auto
  qed
qed simp

lemma DequeueUpTo_ok:
  "tq_inv q \<Longrightarrow> DequeueUpTo q k = (q', ys) \<Longrightarrow> tq_inv q' \<and> ys = take k (tq_items q) \<and> tq_items q' = drop k (tq_items q)"
proof (induction k arbitrary: q q' ys)
  case (Suc k)
  obtain r q1 where e: "Dequeue q = (r, q1)" by (cases "Dequeue q")
  note ok = Dequeue_ok [OF Suc.prems(1) e]
  show ?case
  proof (cases "tq_items q")
    case Nil
    with Suc.prems e ok show ?thesis by auto
  next
    case (Cons x xs)
    obtain q2 zs where r: "DequeueUpTo q1 k = (q2, zs)" by (cases "DequeueUpTo q1 k")
    with Suc.IH [OF ok(1) r] Suc.prems(2) e ok(2,3) Cons show ?thesis by auto
  qed
qed simp

text \<open>No operation of the item queue fails.\<close>

interpretation tq: bounded_fifo tq_inv tq_items 499 "\<lambda>q ds. Inr (EnqueueAll q ds)" "\<lambda>q k. Inr (DequeueUpTo q k)"
proof
  show "length (tq_items q) \<le> 499" if "tq_inv q" for q :: "'a TemplateQ" using that length_tq_items by blast
next
  fix q :: "'a TemplateQ" and ds :: "'a list" and n assume "tq_inv q" "n = min (length ds) (499 - length (tq_items q))"
  then show "\<exists>q'. Inr (EnqueueAll q ds) = Inr (q', n) \<and> tq_inv q' \<and> tq_items q' = tq_items q @ take n ds"
    using EnqueueAll_ok [of q ds] by (cases "EnqueueAll q ds") auto
next
  fix q :: "'a TemplateQ" and k assume "tq_inv q"
  then show "\<exists>q'. Inr (DequeueUpTo q k) = Inr (q', take k (tq_items q)) \<and> tq_inv q' \<and> tq_items q' = drop k (tq_items q)"
    using DequeueUpTo_ok [of q k] by (cases "DequeueUpTo q k") auto
qed

lemma TemplateQ_new_ok: "length mem = 500 \<Longrightarrow> tq_inv (TemplateQ_new mem) \<and> tq_items (TemplateQ_new mem) = []"
  by (simp add: TemplateQ_new_def tq_inv_def tq_items_def used_def BUFFER_SIZE_def)

section \<open>One producer and one consumer\<close>

text \<open>
  The producer is somewhere inside \<^verbatim>\<open>Enqueue(data)\<close>: before reading \<^verbatim>\<open>m_Front\<close>, before reading
  \<^verbatim>\<open>m_Rear\<close>, before the test, after the store into the array. The consumer is inside
  \<^verbatim>\<open>Dequeue\<close>: before reading \<^verbatim>\<open>m_Rear\<close>, \<^verbatim>\<open>m_Front\<close>, before the test, after the load. Memory is
  sequentially consistent. \<open>accepted\<close> and \<open>delivered\<close> record what the calls that returned
  true transferred.
\<close>

datatype 'a producer = PIdle | PFront 'a int | PRear 'a int int | PStored 'a int
datatype 'a consumer = CIdle | CRear int | CFront int int | CLoaded 'a int

record 'a spsc =
  queue :: "'a TemplateQ"
  prod :: "'a producer"
  cons :: "'a consumer"
  accepted :: "'a list"
  delivered :: "'a list"

inductive spsc_step :: "'a spsc \<Rightarrow> 'a spsc \<Rightarrow> bool" where
  p_front: "prod s = PIdle \<Longrightarrow> spsc_step s (s\<lparr>prod := PFront d (m_Front (queue s))\<rparr>)"
| p_rear: "prod s = PFront d f \<Longrightarrow> spsc_step s (s\<lparr>prod := PRear d f (m_Rear (queue s))\<rparr>)"
| p_full: "prod s = PRear d f r \<Longrightarrow> crem (r + 1) BUFFER_SIZE = f \<Longrightarrow> spsc_step s (s\<lparr>prod := PIdle\<rparr>)"
| p_store: "prod s = PRear d f r \<Longrightarrow> crem (r + 1) BUFFER_SIZE \<noteq> f \<Longrightarrow> r' = crem (r + 1) BUFFER_SIZE \<Longrightarrow>
    spsc_step s (s\<lparr>queue := (queue s)\<lparr>m_DataArray := (m_DataArray (queue s))[nat r' := d]\<rparr>, prod := PStored d r'\<rparr>)"
| p_publish: "prod s = PStored d r' \<Longrightarrow>
    spsc_step s (s\<lparr>queue := (queue s)\<lparr>m_Rear := r'\<rparr>, prod := PIdle, accepted := accepted s @ [d]\<rparr>)"
| c_rear: "cons s = CIdle \<Longrightarrow> spsc_step s (s\<lparr>cons := CRear (m_Rear (queue s))\<rparr>)"
| c_front: "cons s = CRear r \<Longrightarrow> spsc_step s (s\<lparr>cons := CFront r (m_Front (queue s))\<rparr>)"
| c_empty: "cons s = CFront r f \<Longrightarrow> r = f \<Longrightarrow> spsc_step s (s\<lparr>cons := CIdle\<rparr>)"
| c_load: "cons s = CFront r f \<Longrightarrow> r \<noteq> f \<Longrightarrow> f' = crem (f + 1) BUFFER_SIZE \<Longrightarrow>
    spsc_step s (s\<lparr>cons := CLoaded (m_DataArray (queue s) ! nat f') f'\<rparr>)"
| c_publish: "cons s = CLoaded x f' \<Longrightarrow>
    spsc_step s (s\<lparr>queue := (queue s)\<lparr>m_Front := f'\<rparr>, cons := CIdle, delivered := delivered s @ [x]\<rparr>)"

inductive spsc_reach :: "'a list \<Rightarrow> 'a spsc \<Rightarrow> bool" for mem where
  start: "spsc_reach mem \<lparr>queue = TemplateQ_new mem, prod = PIdle, cons = CIdle, accepted = [], delivered = []\<rparr>"
| step: "spsc_reach mem s \<Longrightarrow> spsc_step s s' \<Longrightarrow> spsc_reach mem s'"

text \<open>
  The positions are the two counts modulo the array size, the cells between them hold the items
  accepted and not yet delivered, and a copied position is a count from the past.
\<close>

definition pos :: "nat \<Rightarrow> int" where
  "pos k = int k mod BUFFER_SIZE"

fun prod_ok :: "'a producer \<Rightarrow> nat \<Rightarrow> nat \<Rightarrow> 'a list \<Rightarrow> bool" where
  "prod_ok PIdle a n arr = True"
| "prod_ok (PFront d f) a n arr = (\<exists>k \<le> n. f = pos k \<and> a \<le> k + 499)"
| "prod_ok (PRear d f r) a n arr = (r = pos a \<and> (\<exists>k \<le> n. f = pos k \<and> a \<le> k + 499))"
| "prod_ok (PStored d r') a n arr = (r' = pos (Suc a) \<and> a < n + 499 \<and> arr ! nat r' = d)"

fun cons_ok :: "'a consumer \<Rightarrow> nat \<Rightarrow> nat \<Rightarrow> 'a list \<Rightarrow> bool" where
  "cons_ok CIdle a n acc = True"
| "cons_ok (CRear r) a n acc = (\<exists>m. n \<le> m \<and> m \<le> a \<and> r = pos m)"
| "cons_ok (CFront r f) a n acc = (f = pos n \<and> (\<exists>m. n \<le> m \<and> m \<le> a \<and> r = pos m))"
| "cons_ok (CLoaded x f') a n acc = (f' = pos (Suc n) \<and> n < a \<and> x = acc ! n)"

definition spsc_inv :: "'a spsc \<Rightarrow> bool" where
  "spsc_inv s \<longleftrightarrow>
     (let q = queue s; a = length (accepted s); n = length (delivered s) in
      length (m_DataArray q) = 500 \<and> m_Front q = pos n \<and> m_Rear q = pos a \<and> n \<le> a \<and> a \<le> n + 499 \<and>
      delivered s = take n (accepted s) \<and>
      (\<forall>i. n \<le> i \<and> i < a \<longrightarrow> m_DataArray q ! nat (pos (Suc i)) = accepted s ! i) \<and>
      prod_ok (prod s) a n (m_DataArray q) \<and> cons_ok (cons s) a n (accepted s))"

lemma pos_bounds [simp]: "0 \<le> pos k" "nat (pos k) < 500"
  by (simp_all add: pos_def BUFFER_SIZE_def nat_less_iff)

lemma pos_Suc [simp]: "crem (pos k + 1) BUFFER_SIZE = pos (Suc k)"
  by (simp add: crem_nonneg pos_def mod_add_right_eq ac_simps)

lemma pos_eq: "pos i = pos j \<Longrightarrow> i \<le> j \<Longrightarrow> j < i + 500 \<Longrightarrow> i = j"
  using mod_dist [of 0 i j] by (simp add: pos_def)

lemma pos_neq: "i < j \<Longrightarrow> j < i + 500 \<Longrightarrow> nat (pos i) \<noteq> nat (pos j)"
  using pos_eq [of i j] by (metis eq_nat_nat_iff less_imp_le less_irrefl pos_bounds(1))

lemma spsc_step_inv:
  assumes "spsc_step s s'" "spsc_inv s"
  shows "spsc_inv s'"
  using assms
proof (cases rule: spsc_step.cases)
  case (p_store d f r r')
  let ?a = "length (accepted s)" and ?n = "length (delivered s)"
  from p_store assms(2) obtain k where k: "r = pos ?a" "k \<le> ?n" "f = pos k" "?a \<le> k + 499" "?a \<le> ?n + 499" "?n \<le> ?a"
    by (auto simp: spsc_inv_def Let_def)
  have "Suc ?a \<noteq> k + 500"
  proof
    assume "Suc ?a = k + 500"
    then have "pos (Suc ?a) = pos k" by (simp add: pos_def BUFFER_SIZE_def)
    then show False using p_store k by simp
  qed
  then have lt: "?a < ?n + 499" using k by linarith
  have "(m_DataArray (queue s))[nat (pos (Suc ?a)) := d] ! nat (pos (Suc i)) = m_DataArray (queue s) ! nat (pos (Suc i))"
    if "?n \<le> i" "i < ?a" for i
    using pos_neq [of "Suc i" "Suc ?a"] that lt by simp
  then show ?thesis using p_store assms(2) k lt by (auto simp: spsc_inv_def Let_def)
next
  case (p_publish d r')
  have "m_DataArray (queue s) ! nat (pos (Suc i)) = (accepted s @ [d]) ! i"
    if "length (delivered s) \<le> i" "i < Suc (length (accepted s))" for i
    using that p_publish assms(2) by (auto simp: spsc_inv_def Let_def nth_append less_Suc_eq)
  moreover have "cons_ok (cons s) (Suc (length (accepted s))) (length (delivered s)) (accepted s @ [d])"
    using p_publish assms(2) by (cases "cons s") (auto simp: spsc_inv_def Let_def nth_append intro: le_SucI)
  ultimately show ?thesis using p_publish assms(2) by (auto simp: spsc_inv_def Let_def)
next
  case (c_load r f f')
  then obtain m where "length (delivered s) \<le> m" "m \<le> length (accepted s)" "r = pos m" "f = pos (length (delivered s))"
    using assms(2) by (auto simp: spsc_inv_def Let_def)
  moreover have "m \<noteq> length (delivered s)" using calculation c_load(3) by auto
  ultimately have "length (delivered s) < length (accepted s)" by linarith
  then show ?thesis using c_load assms(2) \<open>f = pos _\<close> by (auto simp: spsc_inv_def Let_def)
next
  case (c_publish x f')
  have "prod_ok (prod s) (length (accepted s)) (Suc (length (delivered s))) (m_DataArray (queue s))"
    using c_publish assms(2) by (cases "prod s") (auto simp: spsc_inv_def Let_def intro: le_SucI)
  then show ?thesis using c_publish assms(2) by (auto simp: spsc_inv_def Let_def take_Suc_conv_app_nth)
qed (use assms(2) in \<open>auto simp: spsc_inv_def Let_def\<close>)

lemma spsc_reach_inv: "spsc_reach mem s \<Longrightarrow> length mem = 500 \<Longrightarrow> spsc_inv s"
  by (induction rule: spsc_reach.induct)
    (auto simp: spsc_step_inv, simp add: spsc_inv_def TemplateQ_new_def pos_def)

text \<open>
  Any sequence of transfers on a new \<^verbatim>\<open>TemplateQ\<close> reports what a list of at most 499 items would,
  and \<^verbatim>\<open>GetUsedSize\<close> and \<^verbatim>\<open>GetFreeSize\<close> report the number of items inside and the rest.
\<close>

theorem template_queue_runs_as_fifo:
  assumes "length mem = 500" "list_all proper_op ops" "fifo_spec 499 [] ops = (xs, outs)"
  shows "\<exists>q. fifo_run (\<lambda>q ds. Inr (EnqueueAll q ds)) (\<lambda>q k. Inr (DequeueUpTo q k)) (TemplateQ_new mem) ops = Inr (q, outs) \<and>
    tq_items q = xs \<and> GetUsedSize q = int (length xs) \<and> GetFreeSize q = 499 - int (length xs)"
proof -
  obtain q where "fifo_run (\<lambda>q ds. Inr (EnqueueAll q ds)) (\<lambda>q k. Inr (DequeueUpTo q k)) (TemplateQ_new mem) ops = Inr (q, outs)"
    "tq_inv q" "tq_items q = xs"
    using tq.run_fifo [OF _ assms(2), of "TemplateQ_new mem" xs outs] assms(3) TemplateQ_new_ok [OF assms(1)] by auto
  with GetUsedSize_used [of q] length_tq_items [of q] show ?thesis by (auto simp: tq_items_def)
qed

text \<open>
  C19. One producer thread and one consumer thread may use the queue without a lock: under every
  interleaving of their single reads and writes the delivered items are a prefix of the
  accepted ones, in order, and at most 499 are in between.
\<close>

theorem spsc_queue_is_fifo:
  assumes "length mem = 500" "spsc_reach mem s"
  shows "delivered s = take (length (delivered s)) (accepted s) \<and>
    length (delivered s) \<le> length (accepted s) \<and> length (accepted s) \<le> length (delivered s) + 499"
  using spsc_reach_inv [OF assms(2,1)] by (auto simp: spsc_inv_def Let_def)

theorem spsc_queue_is_fifo_witness:
  "\<exists>s. spsc_reach (replicate 500 (0::nat)) s \<and> accepted s = [7] \<and> cons s = CRear 0 \<and>
    delivered s = take (length (delivered s)) (accepted s)"
proof -
  let ?mem = "replicate 500 (0::nat)"
  let ?s = "\<lambda>q p c a. \<lparr>queue = q, prod = p, cons = c, accepted = a, delivered = []\<rparr>"
  let ?q = "TemplateQ_new ?mem"
  let ?q1 = "?q\<lparr>m_DataArray := ?mem[1 := 7]\<rparr>"
  have "spsc_reach ?mem (?s ?q PIdle CIdle [])" by (rule spsc_reach.start)
  then have "spsc_reach ?mem (?s ?q PIdle (CRear 0) [])"
    by (rule spsc_reach.step) (use c_rear [of "?s ?q PIdle CIdle []"] in \<open>simp add: TemplateQ_new_def\<close>)
  then have "spsc_reach ?mem (?s ?q (PFront 7 0) (CRear 0) [])"
    by (rule spsc_reach.step) (use p_front [of "?s ?q PIdle (CRear 0) []" 7] in \<open>simp add: TemplateQ_new_def\<close>)
  then have "spsc_reach ?mem (?s ?q (PRear 7 0 0) (CRear 0) [])"
    by (rule spsc_reach.step) (use p_rear [of "?s ?q (PFront 7 0) (CRear 0) []"] in \<open>simp add: TemplateQ_new_def\<close>)
  then have "spsc_reach ?mem (?s ?q1 (PStored 7 1) (CRear 0) [])"
    by (rule spsc_reach.step) (use p_store [of "?s ?q (PRear 7 0 0) (CRear 0) []" 7 0 0 1]
      in \<open>simp add: TemplateQ_new_def BUFFER_SIZE_def crem_nonneg\<close>)
  then have r: "spsc_reach ?mem (?s (?q1\<lparr>m_Rear := 1\<rparr>) PIdle (CRear 0) [7])"
    by (rule spsc_reach.step) (use p_publish [of "?s ?q1 (PStored 7 1) (CRear 0) []"] in simp)
  from spsc_queue_is_fifo [OF _ r] show ?thesis by (intro exI [of _ "?s (?q1\<lparr>m_Rear := 1\<rparr>) PIdle (CRear 0) [7]"]) (use r in simp)
qed

end
