(* ===== verification/Network.thy ===== *)
theory Network
  imports Receive_Stream Job_System
begin

text \<open>
  The network layer: sessions (ServerCore/Network/NetworkSession.cpp and .h), the tasks that
  wrap every overlapped request (NetworkTask.cpp and .h), the server with its session table and
  worker threads (NetworkServer.cpp and .h), session ids (Utill/UIDGenerator.cpp) and socket
  options (Option.h). A task's \<^verbatim>\<open>Run\<close> is one step of a worker; the kernel completes pending
  requests in any order with any result; the application sends, listens and connects at any
  time. What Winsock answers is a parameter of a step (\<open>winsock\<close>), what the generated packet
  code does is a parameter of the model (\<open>codec\<close>).
\<close>

section \<open>Objects\<close>

datatype EStep = ENone | ERunning | ESuccessSend | ESuccessConnect | EFailed

type_synonym SOCKET = "nat option"

text \<open>
  A session. \<open>m_socket\<close> is \<open>None\<close> while it has not been set; the send queue is the content of
  the \<^verbatim>\<open>LockFreeQ\<close>; of the job queue only the order of the pushes matters here (what happens to
  them afterwards is the subject of \<open>Job_System\<close>).
\<close>

record 'm NetworkSession =
  m_sessionID :: session_id
  m_recvRingQueue :: RingQ
  m_sendQueue :: "byte list list"
  m_jobQueue :: "'m MessageJob list"
  m_jobDispatcher :: nat
  m_socket :: SOCKET
  m_port :: int
  m_ip :: string
  m_isSending :: bool

text \<open>The tasks with their fields; \<open>m_owner\<close> is the address of a session.\<close>

datatype NetworkTask =
    TaskClose "session_id list"
  | TaskListen int nat
  | TaskAcceptIO "nat option" EStep SOCKET
  | TaskNewUser string int SOCKET nat
  | TaskChange session_id
  | TaskReceiveIO "nat option" EStep
  | TaskSend "nat option" EStep nat "byte list list"
  | TaskConnect string int nat
  | TaskConnectIO "nat option" EStep

text \<open>
  The server and the objects it can reach. Sessions and tasks live at addresses; a deleted task
  is \<open>None\<close>. \<open>iocp\<close> holds the completion packets not yet taken by a worker (task, result,
  bytes), \<open>pending\<close> the tasks whose request the kernel holds. The logs record, per session,
  the packets enqueued, the packets dequeued with the outcome of their \<^verbatim>\<open>WSASend\<close>, and the
  sockets closed and options set.
\<close>

record 'm NetworkServer =
  m_sessions :: "session_id \<rightharpoonup> nat"
  m_lastSessionID :: int
  objs :: "'m NetworkSession list"
  tasks :: "nat \<Rightarrow> NetworkTask option"
  next_task :: nat
  iocp :: "(nat \<times> bool \<times> nat) list"
  pending :: "nat list"
  connectEx :: bool
  enq_log :: "nat \<Rightarrow> byte list list"
  sent_log :: "nat \<Rightarrow> (bool \<times> byte list) list"
  closed :: "SOCKET list"
  registered :: "SOCKET list"
  options :: "(SOCKET \<times> string) list"
  connects :: "(SOCKET \<times> string \<times> int) list"

definition NetworkServer_new :: "'m NetworkServer" where
  "NetworkServer_new =
     \<lparr>m_sessions = (\<lambda>_. None), m_lastSessionID = 1, objs = [], tasks = (\<lambda>_. None), next_task = 0, iocp = [],
      pending = [], connectEx = False, enq_log = (\<lambda>_. []), sent_log = (\<lambda>_. []), closed = [], registered = [],
      options = [], connects = []\<rparr>"

text \<open>What the calls into Winsock made by one step answer.\<close>

record winsock =
  ws_socket :: SOCKET
  ws_bind :: bool
  ws_listen :: bool
  ws_accept :: bool
  ws_remote :: "(string \<times> int) option"
  ws_recv :: bool
  ws_send :: bool
  ws_ioctl :: bool
  ws_connect :: bool
  ws_getaddrinfo :: "string \<Rightarrow> string option"

text \<open>
  The generated packet code: the payload of a message, the verifier with \<^verbatim>\<open>UnPack\<close> (\<open>None\<close> when
  verification fails), and the message \<^verbatim>\<open>FConnectAckT\<close> with \<^verbatim>\<open>R_SUCCESS\<close>.
\<close>

record 'm codec =
  pack :: "'m \<Rightarrow> byte list"
  unpack :: "byte list \<Rightarrow> 'm option"
  connect_ack :: 'm

section \<open>NetworkServer and UIDGenerator\<close>

definition GenerateSessionID :: "'m NetworkServer \<Rightarrow> session_id \<times> 'm NetworkServer" where
  "GenerateSessionID st = (m_lastSessionID st, st\<lparr>m_lastSessionID := to_int64 (m_lastSessionID st + 1)\<rparr>)"

definition WorkerPush :: "NetworkTask \<Rightarrow> 'm NetworkServer \<Rightarrow> 'm NetworkServer" where
  "WorkerPush task st =
     st\<lparr>tasks := (tasks st)(next_task st \<mapsto> task), next_task := next_task st + 1,
        iocp := iocp st @ [(next_task st, True, 0)]\<rparr>"

definition RegisterSocketToIOCP :: "SOCKET \<Rightarrow> 'm NetworkServer \<Rightarrow> 'm NetworkServer" where
  "RegisterSocketToIOCP socket st = st\<lparr>registered := registered st @ [socket]\<rparr>"

definition NetworkSession_new :: "session_id \<Rightarrow> nat \<Rightarrow> 'm NetworkSession" where
  "NetworkSession_new sid jd =
     \<lparr>m_sessionID = sid, m_recvRingQueue = RingQ_new, m_sendQueue = [], m_jobQueue = [],
      m_jobDispatcher = jd, m_socket = None, m_port = 0, m_ip = [], m_isSending = False\<rparr>"

definition CreateNewSession :: "nat \<Rightarrow> 'm NetworkServer \<Rightarrow> nat option \<times> 'm NetworkServer" where
  "CreateNewSession jd st =
     (let (sid, st) = GenerateSessionID st;
          newSession = length (objs st);
          st = st\<lparr>objs := objs st @ [NetworkSession_new sid jd]\<rparr>
      in if m_sessions st sid \<noteq> None then (None, st)
         else (Some newSession, st\<lparr>m_sessions := (m_sessions st)(sid \<mapsto> newSession)\<rparr>))"

definition FindSession :: "session_id \<Rightarrow> 'm NetworkServer \<Rightarrow> nat option" where
  "FindSession sid st = m_sessions st sid"

definition upd_session :: "nat \<Rightarrow> ('m NetworkSession \<Rightarrow> 'm NetworkSession) \<Rightarrow> 'm NetworkServer \<Rightarrow> 'm NetworkServer" where
  "upd_session o1 f st = st\<lparr>objs := (objs st)[o1 := f (objs st ! o1)]\<rparr>"

definition Disconnect :: "nat \<Rightarrow> 'm NetworkServer \<Rightarrow> 'm NetworkServer" where
  "Disconnect o1 st = st\<lparr>closed := closed st @ [m_socket (objs st ! o1)]\<rparr>"

definition RemoveSession :: "session_id \<Rightarrow> 'm NetworkServer \<Rightarrow> bool \<times> 'm NetworkServer" where
  "RemoveSession sid st =
     (case FindSession sid st of
        None \<Rightarrow> (False, st)
      | Some o1 \<Rightarrow> let st = Disconnect o1 st in (True, st\<lparr>m_sessions := (m_sessions st)(sid := None)\<rparr>))"

definition Server_Listen :: "int \<Rightarrow> nat \<Rightarrow> 'm NetworkServer \<Rightarrow> 'm NetworkServer" where
  "Server_Listen port jd st = WorkerPush (TaskListen port jd) st"

definition Server_Connect :: "string \<Rightarrow> int \<Rightarrow> nat \<Rightarrow> 'm NetworkServer \<Rightarrow> 'm NetworkServer" where
  "Server_Connect ip port jd st = WorkerPush (TaskConnect ip port jd) st"

section \<open>NetworkSession\<close>

definition SetSocket :: "nat \<Rightarrow> SOCKET \<Rightarrow> 'm NetworkServer \<Rightarrow> 'm NetworkServer" where
  "SetSocket o1 socket st = upd_session o1 (\<lambda>s. s\<lparr>m_socket := socket\<rparr>) (RegisterSocketToIOCP socket st)"

text \<open>The options \<^verbatim>\<open>Listen\<close> asks for, and what it then sets on the socket.\<close>

record SocketOption =
  opt_TCPNoDelay :: bool
  opt_SendBufferZero :: bool
  opt_Linger :: bool
  opt_KeepAliveOption :: bool

definition SocketOption_new :: SocketOption where
  "SocketOption_new = \<lparr>opt_TCPNoDelay = True, opt_SendBufferZero = True, opt_Linger = True, opt_KeepAliveOption = False\<rparr>"

definition apply_options :: "SocketOption \<Rightarrow> string list" where
  "apply_options o1 =
     (if opt_SendBufferZero o1 then [''SO_SNDBUF''] else []) @
     (if opt_Linger o1 then [''SO_LINGER''] else []) @
     (if opt_TCPNoDelay o1 then [''TCP_NODELAY''] else []) @
     (if opt_KeepAliveOption o1 then [''SIO_KEEPALIVE_VALS''] else [])"

definition Session_Listen :: "winsock \<Rightarrow> nat \<Rightarrow> int \<Rightarrow> 'm NetworkServer \<Rightarrow> 'm NetworkServer" where
  "Session_Listen ws o1 port st =
     (let sockOption = SocketOption_new\<lparr>opt_KeepAliveOption := False, opt_Linger := True, opt_TCPNoDelay := True,
                          opt_SendBufferZero := False\<rparr>;
          listenSocket = ws_socket ws in
      if listenSocket = None then st
      else let st = st\<lparr>options := options st @ map (Pair listenSocket) (apply_options sockOption)\<rparr>;
               st = SetSocket o1 listenSocket st in
        if \<not> ws_bind ws then st
        else if \<not> ws_listen ws then st
        else WorkerPush (TaskAcceptIO (Some o1) ENone None) st)"

definition Session_Connect :: "nat \<Rightarrow> string \<Rightarrow> int \<Rightarrow> 'm NetworkServer \<Rightarrow> 'm NetworkServer" where
  "Session_Connect o1 ip port st =
     WorkerPush (TaskConnectIO (Some o1) ENone) (upd_session o1 (\<lambda>s. s\<lparr>m_ip := ip, m_port := port\<rparr>) st)"

definition OnConnected :: "nat \<Rightarrow> 'm NetworkServer \<Rightarrow> 'm NetworkServer" where
  "OnConnected o1 st = WorkerPush (TaskReceiveIO (Some o1) ENone) st"

definition Send :: "'m codec \<Rightarrow> nat \<Rightarrow> 'm \<Rightarrow> 'm NetworkServer \<Rightarrow> 'm NetworkServer result" where
  "Send cdc o1 message st =
     ebind (packet_bytes (pack cdc message)) (\<lambda>packet.
       let st = upd_session o1 (\<lambda>s. s\<lparr>m_sendQueue := m_sendQueue s @ [packet]\<rparr>) st;
           st = st\<lparr>enq_log := (enq_log st)(o1 := enq_log st o1 @ [packet])\<rparr>
       in Inr (WorkerPush (TaskSend (Some o1) ENone 0 []) st))"

definition OnAccept :: "'m codec \<Rightarrow> nat \<Rightarrow> string \<Rightarrow> int \<Rightarrow> SOCKET \<Rightarrow> 'm NetworkServer \<Rightarrow> 'm NetworkServer result" where
  "OnAccept cdc o1 ip port sock st =
     (let st = upd_session o1 (\<lambda>s. s\<lparr>m_ip := ip, m_port := port\<rparr>) st;
          st = SetSocket o1 sock st
      in ebind (Send cdc o1 (connect_ack cdc) st) (\<lambda>st. Inr (WorkerPush (TaskReceiveIO (Some o1) ENone) st)))"

definition OnRecvMessage :: "'m codec \<Rightarrow> nat \<Rightarrow> byte list \<Rightarrow> 'm NetworkServer \<Rightarrow> 'm NetworkServer" where
  "OnRecvMessage cdc o1 packet st =
     (case unpack cdc packet of
        None \<Rightarrow> st
      | Some message \<Rightarrow>
          upd_session o1 (\<lambda>s. s\<lparr>m_jobQueue := m_jobQueue s @
            [\<lparr>m_message = message, MessageJob.m_sessionID = m_sessionID s\<rparr>]\<rparr>) st)"

section \<open>Tasks\<close>

text \<open>
  A handler of the task at address \<open>a\<close> returns the boolean of \<^verbatim>\<open>Run\<close>, the task with its new
  fields and the new state. A request the kernel accepts (at once or as pending) puts \<open>a\<close> on
  \<open>pending\<close>: its completion will be queued.
\<close>

type_synonym 'm run_result = "bool \<times> NetworkTask \<times> 'm NetworkServer"

definition request :: "nat \<Rightarrow> 'm NetworkServer \<Rightarrow> 'm NetworkServer" where
  "request a st = st\<lparr>pending := pending st @ [a]\<rparr>"

definition Close_Run :: "session_id list \<Rightarrow> 'm NetworkServer \<Rightarrow> 'm run_result" where
  "Close_Run ids st = (True, TaskClose ids, st)"

definition Change_Run :: "session_id \<Rightarrow> 'm NetworkServer \<Rightarrow> 'm run_result" where
  "Change_Run sid st = (True, TaskChange sid, st)"

definition Listen_Run :: "winsock \<Rightarrow> int \<Rightarrow> nat \<Rightarrow> 'm NetworkServer \<Rightarrow> 'm run_result" where
  "Listen_Run ws port jd st =
     (case CreateNewSession jd st of
        (None, st) \<Rightarrow> (False, TaskListen port jd, st)
      | (Some o1, st) \<Rightarrow> (False, TaskListen port jd, Session_Listen ws o1 port st))"

definition AcceptIO_Start :: "winsock \<Rightarrow> nat \<Rightarrow> nat option \<Rightarrow> SOCKET \<Rightarrow> 'm NetworkServer \<Rightarrow> 'm run_result" where
  "AcceptIO_Start ws a owner client st =
     (if owner = None then (False, TaskAcceptIO owner ERunning client, st)
      else let client = ws_socket ws in
        if client = None then (False, TaskAcceptIO owner ERunning client, st)
        else if \<not> ws_accept ws then (False, TaskAcceptIO owner ERunning client, st)
        else (True, TaskAcceptIO owner ERunning client, request a st))"

definition AcceptIO_Complete :: "winsock \<Rightarrow> nat \<Rightarrow> nat option \<Rightarrow> SOCKET \<Rightarrow> bool \<Rightarrow> 'm NetworkServer \<Rightarrow> 'm run_result" where
  "AcceptIO_Complete ws a owner client result st =
     (case owner of
        None \<Rightarrow> (False, TaskAcceptIO owner ERunning client, st)
      | Some o1 \<Rightarrow>
          let st = (if result
                    then (case ws_remote ws of
                            Some (ip, port) \<Rightarrow> WorkerPush (TaskNewUser ip port client (m_jobDispatcher (objs st ! o1))) st
                          | None \<Rightarrow> st)
                    else st\<lparr>closed := closed st @ [client]\<rparr>)
          in AcceptIO_Start ws a owner None st)"

definition AcceptIO_Run :: "winsock \<Rightarrow> nat \<Rightarrow> nat option \<Rightarrow> EStep \<Rightarrow> SOCKET \<Rightarrow> bool \<Rightarrow> 'm NetworkServer \<Rightarrow> 'm run_result" where
  "AcceptIO_Run ws a owner step client result st =
     (case step of
        ENone \<Rightarrow> AcceptIO_Start ws a owner client st
      | ERunning \<Rightarrow> AcceptIO_Complete ws a owner client result st
      | _ \<Rightarrow> (False, TaskAcceptIO owner step client, st))"

definition NewUser_Run :: "'m codec \<Rightarrow> string \<Rightarrow> int \<Rightarrow> SOCKET \<Rightarrow> nat \<Rightarrow> 'm NetworkServer \<Rightarrow> 'm run_result result" where
  "NewUser_Run cdc ip port socket jd st =
     (case CreateNewSession jd st of
        (None, st) \<Rightarrow> Inr (False, TaskNewUser ip port socket jd, st)
      | (Some o1, st) \<Rightarrow>
          ebind (OnAccept cdc o1 ip port socket st) (\<lambda>st. Inr (False, TaskNewUser ip port socket jd, st)))"

definition ReceiveIO_Start :: "winsock \<Rightarrow> nat \<Rightarrow> nat option \<Rightarrow> 'm NetworkServer \<Rightarrow> 'm run_result" where
  "ReceiveIO_Start ws a owner st =
     (case owner of
        None \<Rightarrow> (False, TaskReceiveIO owner ERunning, st)
      | Some o1 \<Rightarrow>
          if GetWriteSize (m_recvRingQueue (objs st ! o1)) \<le> 0 then (False, TaskReceiveIO owner ERunning, st)
          else if ws_recv ws then (True, TaskReceiveIO owner ERunning, request a st)
          else (False, TaskReceiveIO None ERunning, st))"

fun recv_all :: "'m codec \<Rightarrow> nat \<Rightarrow> byte list list \<Rightarrow> 'm NetworkServer \<Rightarrow> 'm NetworkServer" where
  "recv_all cdc o1 [] st = st"
| "recv_all cdc o1 (p # ps) st = recv_all cdc o1 ps (OnRecvMessage cdc o1 p st)"

definition ReceiveIO_Complete :: "'m codec \<Rightarrow> winsock \<Rightarrow> nat \<Rightarrow> nat option \<Rightarrow> bool \<Rightarrow> nat \<Rightarrow> 'm NetworkServer \<Rightarrow> 'm run_result result" where
  "ReceiveIO_Complete cdc ws a owner result transferred st =
     (case owner of
        None \<Rightarrow> Inr (False, TaskReceiveIO owner ERunning, st)
      | Some o1 \<Rightarrow>
          if \<not> result \<or> transferred = 0
          then Inr (False, TaskReceiveIO None ERunning, snd (RemoveSession (m_sessionID (objs st ! o1)) st))
          else case parse_loop PARSE_FUEL (MoveWitePosition (m_recvRingQueue (objs st ! o1)) (int transferred)) of
            (q, packets, Fault e) \<Rightarrow> Inl e
          | (q, packets, _) \<Rightarrow>
              Inr (ReceiveIO_Start ws a owner (recv_all cdc o1 packets (upd_session o1 (\<lambda>s. s\<lparr>m_recvRingQueue := q\<rparr>) st))))"

definition ReceiveIO_Run :: "'m codec \<Rightarrow> winsock \<Rightarrow> nat \<Rightarrow> nat option \<Rightarrow> EStep \<Rightarrow> bool \<Rightarrow> nat \<Rightarrow> 'm NetworkServer \<Rightarrow> 'm run_result result" where
  "ReceiveIO_Run cdc ws a owner step result transferred st =
     (case step of
        ENone \<Rightarrow> Inr (ReceiveIO_Start ws a owner st)
      | ERunning \<Rightarrow> ReceiveIO_Complete cdc ws a owner result transferred st
      | _ \<Rightarrow> Inr (False, TaskReceiveIO owner step, st))"

text \<open>\<^verbatim>\<open>m_totalSize\<close> is a \<^verbatim>\<open>DWORD\<close>.\<close>

definition Send_Start :: "winsock \<Rightarrow> nat \<Rightarrow> nat option \<Rightarrow> nat \<Rightarrow> byte list list \<Rightarrow> 'm NetworkServer \<Rightarrow> 'm run_result" where
  "Send_Start ws a owner totalSize sendingPackets st =
     (case owner of
        None \<Rightarrow> (False, TaskSend owner ERunning totalSize sendingPackets, st)
      | Some o1 \<Rightarrow>
          if m_isSending (objs st ! o1) then (False, TaskSend owner ERunning totalSize sendingPackets, st)
          else let packets = m_sendQueue (objs st ! o1);
                   sendingPackets = sendingPackets @ packets;
                   totalSize = sum_list (map length packets) mod 2 ^ 32;
                   st = upd_session o1 (\<lambda>s. s\<lparr>m_isSending := True, m_sendQueue := []\<rparr>) st in
            if sendingPackets = []
            then (False, TaskSend owner ERunning totalSize [], upd_session o1 (\<lambda>s. s\<lparr>m_isSending := False\<rparr>) st)
            else let st = st\<lparr>sent_log := (sent_log st)(o1 := sent_log st o1 @ map (Pair (ws_send ws)) packets)\<rparr> in
              if ws_send ws then (True, TaskSend owner ERunning totalSize sendingPackets, request a st)
              else (False, TaskSend None ERunning totalSize [], upd_session o1 (\<lambda>s. s\<lparr>m_isSending := False\<rparr>) st))"

definition Send_Complete :: "nat option \<Rightarrow> nat \<Rightarrow> bool \<Rightarrow> nat \<Rightarrow> 'm NetworkServer \<Rightarrow> 'm run_result" where
  "Send_Complete owner totalSize result transferred st =
     (case owner of
        None \<Rightarrow> (False, TaskSend owner ERunning totalSize [], st)
      | Some o1 \<Rightarrow>
          let st = upd_session o1 (\<lambda>s. s\<lparr>m_isSending := False\<rparr>) st in
          if \<not> result \<or> transferred = 0 then (False, TaskSend owner ERunning totalSize [], st)
          else if transferred \<noteq> totalSize then (False, TaskSend owner ERunning totalSize [], st)
          else (False, TaskSend owner ERunning totalSize [], st))"

definition Send_Run :: "winsock \<Rightarrow> nat \<Rightarrow> nat option \<Rightarrow> EStep \<Rightarrow> nat \<Rightarrow> byte list list \<Rightarrow> bool \<Rightarrow> nat \<Rightarrow> 'm NetworkServer \<Rightarrow> 'm run_result" where
  "Send_Run ws a owner step totalSize packets result transferred st =
     (case step of
        ENone \<Rightarrow> Send_Start ws a owner totalSize packets st
      | ERunning \<Rightarrow> Send_Complete owner totalSize result transferred st
      | _ \<Rightarrow> (False, TaskSend owner step totalSize packets, st))"

definition Connect_Run :: "string \<Rightarrow> int \<Rightarrow> nat \<Rightarrow> 'm NetworkServer \<Rightarrow> 'm run_result" where
  "Connect_Run ip port jd st =
     (case CreateNewSession jd st of
        (None, st) \<Rightarrow> (False, TaskConnect ip port jd, st)
      | (Some o1, st) \<Rightarrow> (True, TaskConnect ip port jd, Session_Connect o1 ip port st))"

text \<open>The address \<^verbatim>\<open>ConnectIO::Start\<close> connects to.\<close>

definition isalpha :: "char \<Rightarrow> bool" where
  "isalpha c \<longleftrightarrow> c \<in> set ''ABCDEFGHIJKLMNOPQRSTUVWXYZabcdefghijklmnopqrstuvwxyz''"

definition remote_address :: "winsock \<Rightarrow> string \<Rightarrow> string" where
  "remote_address ws ip =
     (case ip of
        [] \<Rightarrow> ''127.0.0.1''
      | c # _ \<Rightarrow> if isalpha c then (case ws_getaddrinfo ws ip of Some addr \<Rightarrow> addr | None \<Rightarrow> ''127.0.0.1'') else ip)"

definition ConnectIO_Start :: "winsock \<Rightarrow> nat \<Rightarrow> nat option \<Rightarrow> 'm NetworkServer \<Rightarrow> 'm run_result result" where
  "ConnectIO_Start ws a owner st =
     (if ws_socket ws = None then Inr (False, TaskConnectIO owner ERunning, st)
      else case owner of
        None \<Rightarrow> Inl NullDeref
      | Some o1 \<Rightarrow>
          let st = SetSocket o1 (ws_socket ws) st in
          if \<not> ws_bind ws then Inr (False, TaskConnectIO owner ERunning, st)
          else if \<not> connectEx st \<and> \<not> ws_ioctl ws then Inr (False, TaskConnectIO owner ERunning, st)
          else let s = objs st ! o1;
                   st = st\<lparr>connectEx := True, connects := connects st @ [(m_socket s, remote_address ws (m_ip s), m_port s)]\<rparr> in
            if ws_connect ws then Inr (True, TaskConnectIO owner ERunning, request a st)
            else Inr (False, TaskConnectIO owner ERunning, st))"

definition ConnectIO_Complete :: "nat option \<Rightarrow> bool \<Rightarrow> 'm NetworkServer \<Rightarrow> 'm run_result" where
  "ConnectIO_Complete owner result st =
     (case owner of
        None \<Rightarrow> (False, TaskConnectIO owner ERunning, st)
      | Some o1 \<Rightarrow>
          if \<not> result then (False, TaskConnectIO owner ERunning, st)
          else (False, TaskConnectIO owner ERunning, OnConnected o1 st))"

definition ConnectIO_Run :: "winsock \<Rightarrow> nat \<Rightarrow> nat option \<Rightarrow> EStep \<Rightarrow> bool \<Rightarrow> 'm NetworkServer \<Rightarrow> 'm run_result result" where
  "ConnectIO_Run ws a owner step result st =
     (case step of
        ENone \<Rightarrow> ConnectIO_Start ws a owner st
      | ERunning \<Rightarrow> Inr (ConnectIO_Complete owner result st)
      | _ \<Rightarrow> Inr (False, TaskConnectIO owner step, st))"

text \<open>The virtual call \<^verbatim>\<open>networkTask->Run(result, transferred)\<close>.\<close>

fun Run :: "'m codec \<Rightarrow> winsock \<Rightarrow> nat \<Rightarrow> NetworkTask \<Rightarrow> bool \<Rightarrow> nat \<Rightarrow> 'm NetworkServer \<Rightarrow> 'm run_result result" where
  "Run cdc ws a (TaskClose ids) r n st = Inr (Close_Run ids st)"
| "Run cdc ws a (TaskListen port jd) r n st = Inr (Listen_Run ws port jd st)"
| "Run cdc ws a (TaskAcceptIO owner step client) r n st = Inr (AcceptIO_Run ws a owner step client r st)"
| "Run cdc ws a (TaskNewUser ip port sock jd) r n st = NewUser_Run cdc ip port sock jd st"
| "Run cdc ws a (TaskChange sid) r n st = Inr (Change_Run sid st)"
| "Run cdc ws a (TaskReceiveIO owner step) r n st = ReceiveIO_Run cdc ws a owner step r n st"
| "Run cdc ws a (TaskSend owner step tot packets) r n st = Inr (Send_Run ws a owner step tot packets r n st)"
| "Run cdc ws a (TaskConnect ip port jd) r n st = Inr (Connect_Run ip port jd st)"
| "Run cdc ws a (TaskConnectIO owner step) r n st = ConnectIO_Run ws a owner step r st"

text \<open>
  One round of \<^verbatim>\<open>WorkerThread\<close>: take a completion packet, run its task, delete the task when
  \<^verbatim>\<open>Run\<close> returns false. A task that is no longer there is a use after free.
\<close>

definition WorkerThread_round :: "'m codec \<Rightarrow> winsock \<Rightarrow> 'm NetworkServer \<Rightarrow> 'm NetworkServer result" where
  "WorkerThread_round cdc ws st =
     (case iocp st of
        [] \<Rightarrow> Inr st
      | (a, result, transferred) # rest \<Rightarrow>
          (case tasks st a of
             None \<Rightarrow> Inl UseAfterFree
           | Some task \<Rightarrow>
               ebind (Run cdc ws a task result transferred (st\<lparr>iocp := rest\<rparr>)) (\<lambda>(again, task', st').
                 Inr (st'\<lparr>tasks := (tasks st')(a := if again then Some task' else None)\<rparr>))))"

section \<open>The kernel and the application\<close>

text \<open>
  The kernel completes the \<open>i\<close>-th pending request. A receive that succeeds first copies its data
  into the regions \<^verbatim>\<open>Start\<close> named, which only this task touches in between.
\<close>

definition kernel_complete :: "nat \<Rightarrow> bool \<Rightarrow> nat \<Rightarrow> byte list \<Rightarrow> 'm NetworkServer \<Rightarrow> 'm NetworkServer" where
  "kernel_complete i result transferred data st =
     (if i < length (pending st)
      then let a = pending st ! i;
               fin = (\<lambda>n st. st\<lparr>pending := take i (pending st) @ drop (Suc i) (pending st), iocp := iocp st @ [(a, result, n)]\<rparr>)
           in (case tasks st a of
                 Some (TaskReceiveIO (Some o1) _) \<Rightarrow>
                   (if result
                    then let q = m_recvRingQueue (objs st ! o1) in
                      (case wsa_fill (m_Buffer q) (GetDirectEnQData q []) data of
                         Inl _ \<Rightarrow> st
                       | Inr b \<Rightarrow> fin (length data) (upd_session o1 (\<lambda>s. s\<lparr>m_recvRingQueue := q\<lparr>m_Buffer := b\<rparr>\<rparr>) st))
                    else fin 0 st)
               | _ \<Rightarrow> fin transferred st)
      else st)"

datatype 'm net_event =
    Worker winsock
  | Kernel nat bool nat "byte list"
  | AppSend nat 'm
  | AppListen int nat
  | AppConnect string int nat
  | AppRemove session_id

fun net_step :: "'m codec \<Rightarrow> 'm net_event \<Rightarrow> 'm NetworkServer \<Rightarrow> 'm NetworkServer result" where
  "net_step cdc (Worker ws) st = WorkerThread_round cdc ws st"
| "net_step cdc (Kernel i r n data) st = Inr (kernel_complete i r n data st)"
| "net_step cdc (AppSend o1 m) st = (if o1 < length (objs st) then Send cdc o1 m st else Inr st)"
| "net_step cdc (AppListen port jd) st = Inr (Server_Listen port jd st)"
| "net_step cdc (AppConnect ip port jd) st = Inr (Server_Connect ip port jd st)"
| "net_step cdc (AppRemove sid) st = Inr (snd (RemoveSession sid st))"

fun net_run :: "'m codec \<Rightarrow> 'm net_event list \<Rightarrow> 'm NetworkServer \<Rightarrow> 'm NetworkServer result" where
  "net_run cdc [] st = Inr st"
| "net_run cdc (e # es) st = ebind (net_step cdc e st) (net_run cdc es)"

section \<open>Tasks are never used after they were deleted\<close>

text \<open>
  The tasks something will run again: those in a completion packet and those whose request is
  pending.
\<close>

definition refs :: "'m NetworkServer \<Rightarrow> nat list" where
  "refs st = map fst (iocp st) @ pending st"

text \<open>The session a task works for, and whether it has made its request.\<close>

fun task_owner :: "NetworkTask \<Rightarrow> nat option" where
  "task_owner (TaskAcceptIO o1 step c) = o1"
| "task_owner (TaskReceiveIO o1 step) = o1"
| "task_owner (TaskSend o1 step tot ps) = o1"
| "task_owner (TaskConnectIO o1 step) = o1"
| "task_owner _ = None"

fun running_send :: "nat \<Rightarrow> NetworkTask option \<Rightarrow> bool" where
  "running_send o1 (Some (TaskSend (Some o2) ERunning tot ps)) = (o1 = o2)"
| "running_send o1 _ = False"

definition fresh_task :: "nat \<Rightarrow> NetworkTask \<Rightarrow> bool" where
  "fresh_task n task \<longleftrightarrow> (\<forall>o1. \<not> running_send o1 (Some task)) \<and> (\<forall>o1. task_owner task = Some o1 \<longrightarrow> o1 < n)"

definition tasks_inv :: "'m NetworkServer \<Rightarrow> bool" where
  "tasks_inv st \<longleftrightarrow> distinct (refs st) \<and> (\<forall>a \<in> set (refs st). tasks st a \<noteq> None) \<and>
     (\<forall>a. tasks st a \<noteq> None \<longrightarrow> a < next_task st) \<and>
     (\<forall>a t o1. tasks st a = Some t \<longrightarrow> task_owner t = Some o1 \<longrightarrow> o1 < length (objs st))"

text \<open>
  What every handler of the task \<open>a\<close> does to the tasks: it pushes new ones, may make a request
  for \<open>a\<close> (only then and in the three tasks without I/O does it return true), and leaves the
  others alone.
\<close>

definition run_ok :: "nat \<Rightarrow> 'm NetworkServer \<Rightarrow> bool \<Rightarrow> 'm NetworkServer \<Rightarrow> bool" where
  "run_ok a st again st' \<longleftrightarrow>
     iocp st' = iocp st @ map (\<lambda>x. (x, True, 0)) [next_task st..<next_task st'] \<and>
     next_task st \<le> next_task st' \<and>
     (\<forall>x. next_task st \<le> x \<and> x < next_task st' \<longrightarrow> (\<exists>t. tasks st' x = Some t \<and> fresh_task (length (objs st')) t)) \<and>
     (pending st' = pending st \<or> again \<and> pending st' = pending st @ [a]) \<and>
     (\<forall>x. x < next_task st \<or> next_task st' \<le> x \<longrightarrow> tasks st' x = tasks st x)"

lemma run_ok_same:
  "iocp st' = iocp st \<Longrightarrow> next_task st' = next_task st \<Longrightarrow> tasks st' = tasks st \<Longrightarrow> pending st' = pending st \<Longrightarrow>
    run_ok a st again st'"
  by (auto simp: run_ok_def)

lemma run_ok_push:
  "run_ok a st again st' \<Longrightarrow> fresh_task (length (objs st')) task \<Longrightarrow> run_ok a st again (WorkerPush task st')"
  by (auto simp: run_ok_def WorkerPush_def)

lemma run_ok_request: "run_ok a st again st' \<Longrightarrow> pending st' = pending st \<Longrightarrow> run_ok a st True (request a st')"
  unfolding run_ok_def by (auto simp: request_def)

lemma run_ok_frame:
  "run_ok a st again st' \<Longrightarrow> iocp st'' = iocp st' \<Longrightarrow> next_task st'' = next_task st' \<Longrightarrow> tasks st'' = tasks st' \<Longrightarrow>
    pending st'' = pending st' \<Longrightarrow> length (objs st'') = length (objs st') \<Longrightarrow> run_ok a st again st''"
  unfolding run_ok_def by simp

text \<open>The fields the session operations leave alone.\<close>

lemma upd_session_simps [simp]:
  "iocp (upd_session o1 f st) = iocp st" "next_task (upd_session o1 f st) = next_task st"
  "tasks (upd_session o1 f st) = tasks st" "pending (upd_session o1 f st) = pending st"
  "m_sessions (upd_session o1 f st) = m_sessions st" "m_lastSessionID (upd_session o1 f st) = m_lastSessionID st"
  "length (objs (upd_session o1 f st)) = length (objs st)" "enq_log (upd_session o1 f st) = enq_log st"
  "sent_log (upd_session o1 f st) = sent_log st" "connectEx (upd_session o1 f st) = connectEx st"
  by (simp_all add: upd_session_def)

lemma upd_session_nth:
  "o1 < length (objs st) \<Longrightarrow> objs (upd_session o1 f st) ! i = (if i = o1 then f (objs st ! o1) else objs st ! i)"
  by (simp add: upd_session_def)

lemma SetSocket_simps [simp]:
  "iocp (SetSocket o1 s st) = iocp st" "next_task (SetSocket o1 s st) = next_task st"
  "tasks (SetSocket o1 s st) = tasks st" "pending (SetSocket o1 s st) = pending st"
  "length (objs (SetSocket o1 s st)) = length (objs st)"
  by (simp_all add: SetSocket_def RegisterSocketToIOCP_def)

lemma CreateNewSession_simps:
  "CreateNewSession jd st = (r, st') \<Longrightarrow> iocp st' = iocp st \<and> next_task st' = next_task st \<and> tasks st' = tasks st \<and>
    pending st' = pending st \<and> length (objs st') = Suc (length (objs st)) \<and> (\<forall>o1. r = Some o1 \<longrightarrow> o1 < length (objs st'))"
  by (auto simp: CreateNewSession_def GenerateSessionID_def Let_def split: if_splits)

lemma RemoveSession_simps:
  "iocp (snd (RemoveSession sid st)) = iocp st" "next_task (snd (RemoveSession sid st)) = next_task st"
  "tasks (snd (RemoveSession sid st)) = tasks st" "pending (snd (RemoveSession sid st)) = pending st"
  by (auto simp: RemoveSession_def Disconnect_def Let_def split: option.splits)

lemma objs_Remove: "objs (snd (RemoveSession sid st)) = objs st"
  by (auto simp: RemoveSession_def Disconnect_def Let_def split: option.splits)

lemma OnRecvMessage_simps [simp]:
  "iocp (OnRecvMessage cdc o1 p st) = iocp st" "next_task (OnRecvMessage cdc o1 p st) = next_task st"
  "tasks (OnRecvMessage cdc o1 p st) = tasks st" "pending (OnRecvMessage cdc o1 p st) = pending st"
  by (simp_all add: OnRecvMessage_def split: option.splits)

lemma recv_all_simps [simp]:
  "iocp (recv_all cdc o1 ps st) = iocp st" "next_task (recv_all cdc o1 ps st) = next_task st"
  "tasks (recv_all cdc o1 ps st) = tasks st" "pending (recv_all cdc o1 ps st) = pending st"
  by (induction ps arbitrary: st) simp_all

lemma fresh_task_simps [simp]:
  "fresh_task n (TaskListen port jd)" "fresh_task n (TaskNewUser ip port sock jd)" "fresh_task n (TaskConnect ip port jd)"
  "fresh_task n (TaskAcceptIO (Some o1) ENone c) \<longleftrightarrow> o1 < n" "fresh_task n (TaskReceiveIO (Some o1) ENone) \<longleftrightarrow> o1 < n"
  "fresh_task n (TaskSend (Some o1) ENone tot ps) \<longleftrightarrow> o1 < n" "fresh_task n (TaskConnectIO (Some o1) ENone) \<longleftrightarrow> o1 < n"
  by (auto simp: fresh_task_def)

lemma Listen_Run_ok: "Listen_Run ws port jd st = (again, t, st') \<Longrightarrow> run_ok a st again st'"
  by (auto simp: Listen_Run_def Session_Listen_def Let_def dest!: CreateNewSession_simps
      split: prod.splits option.splits if_splits intro!: run_ok_push run_ok_same)

lemma AcceptIO_Start_ok:
  "AcceptIO_Start ws a owner c st0 = (again, t, st') \<Longrightarrow> run_ok a st False st0 \<Longrightarrow> pending st0 = pending st \<Longrightarrow> run_ok a st again st'"
  by (auto simp: AcceptIO_Start_def Let_def split: if_splits intro!: run_ok_request)

lemma AcceptIO_Run_ok: "AcceptIO_Run ws a owner step c r st = (again, t, st') \<Longrightarrow> run_ok a st again st'"
  by (auto simp: AcceptIO_Run_def AcceptIO_Complete_def Let_def split: EStep.splits option.splits if_splits prod.splits
      intro: run_ok_same elim!: AcceptIO_Start_ok intro!: run_ok_push run_ok_same) (simp_all add: WorkerPush_def)

lemma Send_ok: "Send cdc o1 m st0 = Inr st' \<Longrightarrow> o1 < length (objs st0) \<Longrightarrow> run_ok a st again st0 \<Longrightarrow> run_ok a st again st'"
  by (auto simp: Send_def Let_def intro!: run_ok_push elim: run_ok_frame)

lemma Send_length: "Send cdc o1 m st = Inr st' \<Longrightarrow> length (objs st') = length (objs st)"
  by (auto simp: Send_def Let_def WorkerPush_def)

lemma OnAccept_ok: "OnAccept cdc o1 ip port sock st = Inr st' \<Longrightarrow> o1 < length (objs st) \<Longrightarrow> run_ok a st again st'"
  by (auto simp: OnAccept_def Let_def Send_length intro!: run_ok_push elim!: Send_ok intro: run_ok_same)

lemma NewUser_Run_ok: "NewUser_Run cdc ip port sock jd st = Inr (again, t, st') \<Longrightarrow> run_ok a st again st'"
proof -
  assume r: "NewUser_Run cdc ip port sock jd st = Inr (again, t, st')"
  obtain oo st1 where c: "CreateNewSession jd st = (oo, st1)" by (cases "CreateNewSession jd st")
  note s = CreateNewSession_simps [OF c]
  show ?thesis
  proof (cases oo)
    case (Some o1)
    with r c have "OnAccept cdc o1 ip port sock st1 = Inr st'" by (auto simp: NewUser_Run_def)
    moreover have "o1 < length (objs st1)" using s Some by simp
    ultimately have "run_ok a st1 again st'" by (rule OnAccept_ok)
    then show ?thesis using s by (simp add: run_ok_def)
  qed (use r c s in \<open>auto simp: NewUser_Run_def intro: run_ok_same\<close>)
qed

lemma ReceiveIO_Start_ok:
  "ReceiveIO_Start ws a owner st0 = (again, t, st') \<Longrightarrow> run_ok a st False st0 \<Longrightarrow> pending st0 = pending st \<Longrightarrow> run_ok a st again st'"
  by (auto simp: ReceiveIO_Start_def split: option.splits if_splits intro!: run_ok_request)

lemma ReceiveIO_Run_ok: "ReceiveIO_Run cdc ws a owner step r n st = Inr (again, t, st') \<Longrightarrow> run_ok a st again st'"
  by (auto simp: ReceiveIO_Run_def ReceiveIO_Complete_def RemoveSession_simps
      split: EStep.splits option.splits if_splits prod.splits parse_status.splits
      elim!: ReceiveIO_Start_ok intro!: run_ok_same)

lemma Send_Run_ok: "Send_Run ws a owner step tot ps r n st = (again, t, st') \<Longrightarrow> run_ok a st again st'"
  by (auto simp: Send_Run_def Send_Start_def Send_Complete_def Let_def
      split: EStep.splits option.splits if_splits intro!: run_ok_request run_ok_same)

lemma Connect_Run_ok: "Connect_Run ip port jd st = (again, t, st') \<Longrightarrow> run_ok a st again st'"
  by (auto simp: Connect_Run_def Session_Connect_def dest!: CreateNewSession_simps split: prod.splits option.splits
      intro!: run_ok_push run_ok_same)

lemma ConnectIO_Run_ok:
  "ConnectIO_Run ws a owner step r st = Inr (again, t, st') \<Longrightarrow> (\<And>o1. owner = Some o1 \<Longrightarrow> o1 < length (objs st)) \<Longrightarrow> run_ok a st again st'"
  by (auto simp: ConnectIO_Run_def ConnectIO_Start_def ConnectIO_Complete_def OnConnected_def Let_def
      split: EStep.splits option.splits if_splits intro!: run_ok_push run_ok_request run_ok_same)

lemma Run_ok:
  "Run cdc ws a task r n st = Inr (again, t, st') \<Longrightarrow> (\<And>o1. task_owner task = Some o1 \<Longrightarrow> o1 < length (objs st)) \<Longrightarrow>
    run_ok a st again st'"
  by (cases task)
    (auto simp: Close_Run_def Change_Run_def intro: run_ok_same Listen_Run_ok AcceptIO_Run_ok NewUser_Run_ok
      ReceiveIO_Run_ok Send_Run_ok Connect_Run_ok ConnectIO_Run_ok)

lemma Run_owner:
  "Run cdc ws a task r n st = Inr (again, t, st') \<Longrightarrow> task_owner t = Some o1 \<Longrightarrow> task_owner task = Some o1"
  by (cases task)
    (auto simp: Close_Run_def Change_Run_def Listen_Run_def NewUser_Run_def Connect_Run_def AcceptIO_Run_def AcceptIO_Start_def
      AcceptIO_Complete_def ReceiveIO_Run_def ReceiveIO_Complete_def ReceiveIO_Start_def Send_Run_def Send_Start_def Send_Complete_def
      ConnectIO_Run_def ConnectIO_Start_def ConnectIO_Complete_def Let_def
      split: prod.splits option.splits EStep.splits if_splits parse_status.splits)

lemma length_objs [simp]:
  "length (objs (WorkerPush task st)) = length (objs st)" "length (objs (request a st)) = length (objs st)"
  "length (objs (snd (RemoveSession sid st))) = length (objs st)" "length (objs (OnRecvMessage cdc o1 p st)) = length (objs st)"
  by (simp_all add: WorkerPush_def request_def RemoveSession_def Disconnect_def OnRecvMessage_def Let_def split: option.splits)

lemma length_objs_recv_all [simp]: "length (objs (recv_all cdc o1 ps st)) = length (objs st)"
  by (induction ps arbitrary: st) simp_all

lemma length_objs_Listen [simp]: "length (objs (Session_Listen ws o1 port st)) = length (objs st)"
  by (simp add: Session_Listen_def Let_def)

lemma Run_objs:
  assumes "Run cdc ws a task r n st = Inr (again, t, st')"
  shows "length (objs st) \<le> length (objs st')"
proof (cases task)
  case (TaskNewUser ip port sock jd)
  then show ?thesis using assms
    by (auto simp: NewUser_Run_def OnAccept_def Let_def Send_length dest!: CreateNewSession_simps split: prod.splits option.splits)
qed (use assms in \<open>auto simp: Close_Run_def Change_Run_def Listen_Run_def Connect_Run_def Session_Connect_def AcceptIO_Run_def AcceptIO_Start_def
      AcceptIO_Complete_def ReceiveIO_Run_def ReceiveIO_Complete_def ReceiveIO_Start_def Send_Run_def Send_Start_def Send_Complete_def
      ConnectIO_Run_def ConnectIO_Start_def ConnectIO_Complete_def OnConnected_def Let_def
      dest!: CreateNewSession_simps
      split: prod.splits option.splits EStep.splits if_splits parse_status.splits\<close>)

lemma worker_tasks_inv:
  assumes "tasks_inv st" "WorkerThread_round cdc ws st = Inr st'"
  shows "tasks_inv st'"
proof (cases "iocp st")
  case Nil
  with assms show ?thesis by (simp add: WorkerThread_round_def)
next
  case (Cons p rest)
  obtain a r n where p: "p = (a, r, n)" by (cases p) auto
  let ?st = "st\<lparr>iocp := rest\<rparr>"
  from assms Cons p obtain task again t st1 where
    run: "tasks st a = Some task" "Run cdc ws a task r n ?st = Inr (again, t, st1)"
      "st' = st1\<lparr>tasks := (tasks st1)(a := if again then Some t else None)\<rparr>"
    by (auto simp: WorkerThread_round_def split: option.splits)
  have own: "o1 < length (objs st)" if "tasks st x = Some t'" "task_owner t' = Some o1" for x t' o1
    using assms(1) that by (auto simp: tasks_inv_def)
  have ok: "run_ok a ?st again st1" by (rule Run_ok [OF run(2)]) (use own run(1) in auto)
  have len: "length (objs st) \<le> length (objs st1)" using Run_objs [OF run(2)] by simp
  have old: "tasks st1 x = tasks st x" if "x < next_task st \<or> next_task st1 \<le> x" for x
    using ok that by (auto simp: run_ok_def)
  have new: "\<exists>t'. tasks st1 x = Some t' \<and> fresh_task (length (objs st1)) t'" if "next_task st \<le> x \<and> x < next_task st1" for x
    using ok that by (simp add: run_ok_def)
  have inv: "distinct (a # map fst rest @ pending st)" "\<forall>x \<in> set (a # map fst rest @ pending st). tasks st x \<noteq> None"
    "\<forall>x. tasks st x \<noteq> None \<longrightarrow> x < next_task st" "\<forall>x \<in> set (a # map fst rest @ pending st). x < next_task st"
    using assms(1) Cons p by (auto simp: tasks_inv_def refs_def)
  have refs': "refs st' = map fst rest @ [next_task st..<next_task st1] @ pending st \<or>
      again \<and> refs st' = map fst rest @ [next_task st..<next_task st1] @ pending st @ [a]"
    using ok run(3) by (auto simp: run_ok_def refs_def comp_def)
  have "set [next_task st..<next_task st1] \<inter> set (a # map fst rest @ pending st) = {}" using inv(4) by fastforce
  then have d: "distinct (map fst rest @ [next_task st..<next_task st1] @ pending st)"
    "a \<notin> set (map fst rest @ [next_task st..<next_task st1] @ pending st)"
    using inv(1) by auto
  have "tasks st' x \<noteq> None" if "x \<in> set (refs st')" for x
  proof (cases "x = a")
    case True
    then show ?thesis using that refs' d(2) run(3) by auto
  next
    case False
    then have "x \<in> set (map fst rest @ pending st) \<or> next_task st \<le> x \<and> x < next_task st1" using that refs' by auto
    moreover have "tasks st1 x \<noteq> None" if "x \<in> set (map fst rest @ pending st)"
    proof -
      have "x < next_task st" "tasks st x \<noteq> None" using inv(2,4) that by auto
      then show ?thesis using old by simp
    qed
    moreover have "tasks st1 x \<noteq> None" if "next_task st \<le> x \<and> x < next_task st1" using new that by blast
    ultimately show ?thesis using False run(3) by auto
  qed
  moreover have "x < next_task st'" if "tasks st' x \<noteq> None" for x
  proof (rule ccontr)
    assume "\<not> x < next_task st'"
    moreover have "next_task st \<le> next_task st1" "next_task st' = next_task st1" using ok run(3) by (auto simp: run_ok_def)
    moreover have "a < next_task st" using inv(4) by simp
    ultimately have "tasks st x \<noteq> None" "\<not> x < next_task st" using that old [of x] run(3) by (auto split: if_splits)
    with inv(3) show False by blast
  qed
  moreover have "distinct (refs st')" using refs' d by auto
  moreover have "o1 < length (objs st')" if x: "tasks st' x = Some t'" "task_owner t' = Some o1" for x t' o1
  proof (cases "x = a")
    case True
    then have "t' = t" using x(1) run(3) by (auto split: if_splits)
    then have "task_owner task = Some o1" using Run_owner [OF run(2)] x(2) by blast
    then show ?thesis using own [OF run(1)] len run(3) by simp
  next
    case False
    show ?thesis
    proof (cases "next_task st \<le> x \<and> x < next_task st1")
      case True
      then have "fresh_task (length (objs st1)) t'" using new False x(1) run(3) by fastforce
      then show ?thesis using x(2) run(3) by (simp add: fresh_task_def)
    next
      case False
      then have "tasks st x = Some t'" using \<open>x \<noteq> a\<close> x(1) run(3) local.old [of x] by auto
      then show ?thesis using own [OF _ x(2)] len run(3) by fastforce
    qed
  qed
  ultimately show ?thesis unfolding tasks_inv_def by blast
qed

lemma tasks_inv_less: "tasks_inv st \<Longrightarrow> a \<in> set (refs st) \<Longrightarrow> a < next_task st"
  by (auto simp: tasks_inv_def)

lemma tasks_inv_push: "tasks_inv st \<Longrightarrow> fresh_task (length (objs st)) task \<Longrightarrow> tasks_inv (WorkerPush task st)"
  using tasks_inv_less [of st "next_task st"]
  by (auto simp: tasks_inv_def refs_def WorkerPush_def fresh_task_def less_Suc_eq split: if_splits)

lemma tasks_inv_frame:
  "tasks_inv st \<Longrightarrow> iocp st' = iocp st \<Longrightarrow> pending st' = pending st \<Longrightarrow> tasks st' = tasks st \<Longrightarrow> next_task st' = next_task st \<Longrightarrow>
    length (objs st') = length (objs st) \<Longrightarrow> tasks_inv st'"
  by (simp add: tasks_inv_def refs_def)

lemma kernel_cases:
  "kernel_complete i r n data st = st \<or> i < length (pending st) \<and> (\<exists>r' n'.
     iocp (kernel_complete i r n data st) = iocp st @ [(pending st ! i, r', n')] \<and>
     pending (kernel_complete i r n data st) = take i (pending st) @ drop (Suc i) (pending st) \<and>
     tasks (kernel_complete i r n data st) = tasks st \<and> next_task (kernel_complete i r n data st) = next_task st \<and>
     length (objs (kernel_complete i r n data st)) = length (objs st))"
  by (auto simp: kernel_complete_def Let_def split: option.splits NetworkTask.splits sum.splits)

lemma kernel_tasks_inv:
  assumes "tasks_inv st"
  shows "tasks_inv (kernel_complete i r n data st)"
proof -
  consider "kernel_complete i r n data st = st" | r' n' where "i < length (pending st)"
     "iocp (kernel_complete i r n data st) = iocp st @ [(pending st ! i, r', n')]"
     "pending (kernel_complete i r n data st) = take i (pending st) @ drop (Suc i) (pending st)"
     "tasks (kernel_complete i r n data st) = tasks st" "next_task (kernel_complete i r n data st) = next_task st"
     "length (objs (kernel_complete i r n data st)) = length (objs st)"
    using kernel_cases [of i r n data st] by blast
  then show ?thesis
  proof cases
    case 2
    let ?ys = "take i (pending st)" and ?zs = "drop (Suc i) (pending st)"
    have sp: "pending st = ?ys @ pending st ! i # ?zs" using 2(1) by (rule id_take_nth_drop)
    have "distinct (map fst (iocp st) @ ?ys @ pending st ! i # ?zs)" "\<forall>a \<in> set (map fst (iocp st) @ ?ys @ pending st ! i # ?zs). tasks st a \<noteq> None"
      using assms unfolding tasks_inv_def refs_def sp [symmetric] by blast+
    then show ?thesis using assms 2(2-) by (auto simp: tasks_inv_def refs_def)
  qed (use assms in simp)
qed

lemma net_step_tasks_inv:
  assumes "tasks_inv st" "net_step cdc e st = Inr st'"
  shows "tasks_inv st'"
proof (cases e)
  case (AppSend o1 m)
  with assms show ?thesis by (auto simp: Send_def Let_def intro!: tasks_inv_push elim!: tasks_inv_frame split: if_splits)
next
  case (AppRemove sid)
  with assms show ?thesis by (auto simp: RemoveSession_simps objs_Remove elim!: tasks_inv_frame)
qed (use assms in \<open>auto simp: Server_Listen_def Server_Connect_def intro: worker_tasks_inv kernel_tasks_inv tasks_inv_push\<close>)

lemma net_run_tasks_inv: "tasks_inv st \<Longrightarrow> net_run cdc es st = Inr st' \<Longrightarrow> tasks_inv st'"
  by (induction es arbitrary: st) (auto dest: net_step_tasks_inv)

lemma tasks_inv_new: "tasks_inv NetworkServer_new"
  by (simp add: tasks_inv_def refs_def NetworkServer_new_def)

section \<open>Sending\<close>

definition sending :: "'m NetworkServer \<Rightarrow> nat \<Rightarrow> bool" where
  "sending st o1 \<longleftrightarrow> o1 < length (objs st) \<and> m_isSending (objs st ! o1)"

definition send_queue :: "'m NetworkServer \<Rightarrow> nat \<Rightarrow> byte list list" where
  "send_queue st o1 = (if o1 < length (objs st) then m_sendQueue (objs st ! o1) else [])"

text \<open>The \<^verbatim>\<open>WSASend\<close> requests of a session that are pending or completed and not yet handled.\<close>

definition in_flight :: "'m NetworkServer \<Rightarrow> nat \<Rightarrow> nat" where
  "in_flight st o1 = length (filter (\<lambda>x. running_send o1 (tasks st x)) (refs st))"

definition logs_ok :: "'m NetworkServer \<Rightarrow> bool" where
  "logs_ok st \<longleftrightarrow> (\<forall>o1. map snd (sent_log st o1) @ send_queue st o1 = enq_log st o1)"

definition sends_inv :: "'m NetworkServer \<Rightarrow> bool" where
  "sends_inv st \<longleftrightarrow> (\<forall>o1. in_flight st o1 = of_bool (sending st o1)) \<and> logs_ok st"

text \<open>Operations that neither send nor finish a send.\<close>

definition sends_same :: "'m NetworkServer \<Rightarrow> 'm NetworkServer \<Rightarrow> bool" where
  "sends_same st st' \<longleftrightarrow> sending st' = sending st \<and> (logs_ok st \<longrightarrow> logs_ok st')"

lemma sends_same_refl: "objs st' = objs st \<Longrightarrow> enq_log st' = enq_log st \<Longrightarrow> sent_log st' = sent_log st \<Longrightarrow> sends_same st st'"
  by (simp add: sends_same_def sending_def logs_ok_def send_queue_def fun_eq_iff)

lemma sends_same_trans [trans]: "sends_same st st' \<Longrightarrow> sends_same st' st'' \<Longrightarrow> sends_same st st''"
  by (simp add: sends_same_def)

lemma sends_same_upd:
  assumes "m_isSending (f (objs st ! o1)) = m_isSending (objs st ! o1)" "m_sendQueue (f (objs st ! o1)) = m_sendQueue (objs st ! o1)"
  shows "sends_same st (upd_session o1 f st)"
proof (cases "o1 < length (objs st)")
  case True
  with assms have "sending (upd_session o1 f st) = sending st" "send_queue (upd_session o1 f st) = send_queue st"
    by (auto simp: sending_def send_queue_def upd_session_nth fun_eq_iff)
  then show ?thesis by (simp add: sends_same_def logs_ok_def)
qed (simp add: upd_session_def list_update_beyond not_less sends_same_refl)

lemma sends_same_push: "sends_same st (WorkerPush task st)" "sends_same st (request a st)"
  by (simp_all add: sends_same_refl WorkerPush_def request_def)

lemma sends_same_SetSocket: "sends_same st (SetSocket o1 s st)"
  unfolding SetSocket_def
  by (rule sends_same_trans [OF _ sends_same_upd]) (simp_all add: sends_same_refl RegisterSocketToIOCP_def)

lemma sends_same_Create:
  assumes "CreateNewSession jd st = (r, st')"
  shows "sends_same st st'"
proof -
  have o: "objs st' = objs st @ [NetworkSession_new (m_lastSessionID st) jd]" "enq_log st' = enq_log st" "sent_log st' = sent_log st"
    using assms by (auto simp: CreateNewSession_def GenerateSessionID_def Let_def split: if_splits)
  then have "sending st' = sending st" "send_queue st' = send_queue st"
    by (auto simp: sending_def send_queue_def fun_eq_iff nth_append less_Suc_eq NetworkSession_new_def)
  with o show ?thesis by (simp add: sends_same_def logs_ok_def)
qed

lemma sends_same_Remove: "sends_same st (snd (RemoveSession sid st))"
  by (auto simp: RemoveSession_def Disconnect_def Let_def intro: sends_same_refl split: option.splits)

lemma sends_same_recv_all: "sends_same st (recv_all cdc o1 ps st)"
proof (induction ps arbitrary: st)
  case (Cons p ps)
  have "sends_same st (OnRecvMessage cdc o1 p st)"
    by (auto simp: OnRecvMessage_def intro: sends_same_refl sends_same_upd split: option.splits)
  with Cons show ?case by (auto intro: sends_same_trans)
qed (simp add: sends_same_refl)

lemma sends_same_Send:
  assumes "Send cdc o1 m st = Inr st'" "o1 < length (objs st)"
  shows "sends_same st st'"
proof -
  obtain packet where "st' = WorkerPush (TaskSend (Some o1) ENone 0 [])
      ((upd_session o1 (\<lambda>s. s\<lparr>m_sendQueue := m_sendQueue s @ [packet]\<rparr>) st)\<lparr>enq_log := (enq_log st)(o1 := enq_log st o1 @ [packet])\<rparr>)"
    using assms(1) by (auto simp: Send_def Let_def)
  then have o: "objs st' = (objs st)[o1 := (objs st ! o1)\<lparr>m_sendQueue := m_sendQueue (objs st ! o1) @ [packet]\<rparr>]"
    "enq_log st' = (enq_log st)(o1 := enq_log st o1 @ [packet])" "sent_log st' = sent_log st"
    by (simp_all add: WorkerPush_def upd_session_def)
  then have "sending st' = sending st" by (auto simp: sending_def fun_eq_iff nth_list_update assms(2))
  moreover have "logs_ok st'" if "logs_ok st"
    unfolding logs_ok_def
  proof
    fix x
    show "map snd (sent_log st' x) @ send_queue st' x = enq_log st' x"
      using that [unfolded logs_ok_def, rule_format, of x] assms(2) by (auto simp: o send_queue_def)
  qed
  ultimately show ?thesis by (simp add: sends_same_def)
qed

lemma sends_same_Listen: "sends_same st (Session_Listen ws o1 port st)"
proof -
  have "sends_same st (SetSocket o1 x (st\<lparr>options := y\<rparr>))" for x y
    by (rule sends_same_trans [OF _ sends_same_SetSocket]) (simp add: sends_same_refl)
  then show ?thesis by (auto simp: Session_Listen_def Let_def intro: sends_same_refl sends_same_trans [OF _ sends_same_push(1)])
qed

lemma sends_same_OnAccept:
  assumes "OnAccept cdc o1 ip port sock st = Inr st'" "o1 < length (objs st)"
  shows "sends_same st st'"
proof -
  let ?s1 = "upd_session o1 (\<lambda>s. s\<lparr>m_ip := ip, m_port := port\<rparr>) st"
  obtain s3 where s: "Send cdc o1 (connect_ack cdc) (SetSocket o1 sock ?s1) = Inr s3" "st' = WorkerPush (TaskReceiveIO (Some o1) ENone) s3"
    using assms(1) by (auto simp: OnAccept_def Let_def)
  have "sends_same st ?s1" by (rule sends_same_upd) simp_all
  also have "sends_same \<dots> (SetSocket o1 sock ?s1)" by (rule sends_same_SetSocket)
  also have "sends_same \<dots> s3" by (rule sends_same_Send [OF s(1)]) (use assms(2) in simp)
  also have "sends_same \<dots> st'" unfolding s(2) by (rule sends_same_push)
  finally show ?thesis .
qed

text \<open>
  The balance every handler keeps: what it adds to the requests in flight it adds to the
  sessions that are sending.
\<close>

definition balance :: "NetworkTask \<Rightarrow> 'm NetworkServer \<Rightarrow> NetworkTask \<Rightarrow> 'm NetworkServer \<Rightarrow> bool" where
  "balance task st t st' \<longleftrightarrow> (logs_ok st \<longrightarrow> logs_ok st') \<and>
     (\<forall>o1. (running_send o1 (Some task) \<longrightarrow> sending st o1) \<longrightarrow>
        of_bool (sending st' o1) + of_bool (running_send o1 (Some task)) =
        of_bool (sending st o1) + (of_bool (pending st' \<noteq> pending st \<and> running_send o1 (Some t)) :: nat))"

fun is_send :: "NetworkTask \<Rightarrow> bool" where
  "is_send (TaskSend o1 step tot ps) = True"
| "is_send _ = False"

lemma not_send_running: "\<not> is_send t \<Longrightarrow> \<not> running_send o1 (Some t)"
  by (cases t) auto

lemma balance_same: "sends_same st st' \<Longrightarrow> \<not> is_send task \<Longrightarrow> \<not> is_send t \<Longrightarrow> balance task st t st'"
  by (simp add: balance_def sends_same_def not_send_running)

lemma AcceptIO_Start_sends: "AcceptIO_Start ws a owner c st = (again, t, st') \<Longrightarrow> sends_same st st' \<and> \<not> is_send t"
  by (auto simp: AcceptIO_Start_def Let_def intro: sends_same_push sends_same_refl split: if_splits)

lemma AcceptIO_sends:
  assumes "AcceptIO_Run ws a owner step c r st = (again, t, st')"
  shows "sends_same st st' \<and> \<not> is_send t"
proof -
  have "sends_same st (st\<lparr>closed := x\<rparr>)" for x by (simp add: sends_same_refl)
  then show ?thesis using assms
    by (auto simp: AcceptIO_Run_def AcceptIO_Complete_def Let_def dest!: AcceptIO_Start_sends intro: sends_same_refl
        sends_same_trans sends_same_trans [OF sends_same_push(1)] split: EStep.splits option.splits prod.splits if_splits)
qed

lemma ReceiveIO_Start_sends: "ReceiveIO_Start ws a owner st = (again, t, st') \<Longrightarrow> sends_same st st' \<and> \<not> is_send t"
  by (auto simp: ReceiveIO_Start_def intro: sends_same_push sends_same_refl split: if_splits option.splits)

lemma Receive_sends:
  assumes "ReceiveIO_Run cdc ws a owner step r n st = Inr (again, t, st')"
  shows "sends_same st st' \<and> \<not> is_send t"
proof -
  have "sends_same st (recv_all cdc o1 ps (upd_session o1 (\<lambda>s. s\<lparr>m_recvRingQueue := q\<rparr>) st))" for o1 ps q
    by (rule sends_same_trans [OF sends_same_upd sends_same_recv_all]) simp_all
  then show ?thesis using assms
    by (auto simp: ReceiveIO_Run_def ReceiveIO_Complete_def dest!: ReceiveIO_Start_sends intro: sends_same_refl sends_same_Remove
        sends_same_trans split: EStep.splits option.splits prod.splits if_splits parse_status.splits)
qed

lemma ConnectIO_sends:
  assumes "ConnectIO_Run ws a owner step r st = Inr (again, t, st')"
  shows "sends_same st st' \<and> \<not> is_send t"
proof -
  have "sends_same st ((SetSocket o1 x st)\<lparr>connectEx := b, connects := y\<rparr>)" for o1 x b y
    by (rule sends_same_trans [OF sends_same_SetSocket [of st o1 x]]) (simp add: sends_same_refl)
  then show ?thesis using assms
    by (auto simp: ConnectIO_Run_def ConnectIO_Start_def ConnectIO_Complete_def OnConnected_def Let_def
        intro: sends_same_refl sends_same_push sends_same_SetSocket sends_same_trans [OF _ sends_same_push(2)]
        split: EStep.splits option.splits if_splits)
qed

lemma Create_sends:
  "CreateNewSession jd st = (None, st1) \<Longrightarrow> sends_same st st1"
  "CreateNewSession jd st = (Some o1, st1) \<Longrightarrow> o1 < length (objs st1) \<and> sends_same st st1"
  using sends_same_Create CreateNewSession_simps by blast+

lemma NewUser_sends:
  assumes "NewUser_Run cdc ip port sock jd st = Inr (again, t, st')"
  shows "sends_same st st' \<and> \<not> is_send t"
  using assms
  by (auto simp: NewUser_Run_def dest!: Create_sends sends_same_OnAccept intro: sends_same_trans split: prod.splits option.splits)

lemma Connect_sends:
  assumes "Connect_Run ip port jd st = (again, t, st')"
  shows "sends_same st st' \<and> \<not> is_send t"
proof -
  have "sends_same st0 (Session_Connect o1 ip port st0)" for o1 st0
    unfolding Session_Connect_def by (rule sends_same_trans [OF sends_same_upd sends_same_push(1)]) simp_all
  then show ?thesis using assms
    by (auto simp: Connect_Run_def dest!: Create_sends intro: sends_same_trans split: prod.splits option.splits)
qed

lemma Listen_sends:
  assumes "Listen_Run ws port jd st = (again, t, st')"
  shows "sends_same st st' \<and> \<not> is_send t"
  using assms
  by (auto simp: Listen_Run_def dest!: Create_sends intro: sends_same_trans sends_same_Listen split: prod.splits option.splits)

lemma sending_upd:
  "o1 < length (objs st) \<Longrightarrow> sending (upd_session o1 f st) o2 = (if o2 = o1 then m_isSending (f (objs st ! o1)) else sending st o2)"
  by (auto simp: sending_def upd_session_nth)

lemma Send_Start_balance:
  assumes "Send_Start ws a (Some o1) tot sp st = (again, t, st')" "o1 < length (objs st)"
  shows "balance (TaskSend (Some o1) ENone tot sp) st t st'"
proof (cases "m_isSending (objs st ! o1)")
  case True
  with assms show ?thesis by (auto simp: Send_Start_def balance_def)
next
  case idle: False
  let ?f = "\<lambda>s. s\<lparr>m_isSending := True, m_sendQueue := []\<rparr>" and ?ps = "m_sendQueue (objs st ! o1)"
  let ?s1 = "upd_session o1 ?f st"
  let ?s2 = "?s1\<lparr>sent_log := (sent_log st)(o1 := sent_log st o1 @ map (Pair (ws_send ws)) ?ps)\<rparr>"
  have off: "upd_session o1 (\<lambda>s. s\<lparr>m_isSending := False\<rparr>) ?s1 = upd_session o1 (\<lambda>s. s\<lparr>m_sendQueue := [], m_isSending := False\<rparr>) st"
    using assms(2) by (simp add: upd_session_def)
  have logs: "logs_ok ?s2" if "logs_ok st"
    unfolding logs_ok_def
  proof
    fix x
    show "map snd (sent_log ?s2 x) @ send_queue ?s2 x = enq_log ?s2 x"
      using that [unfolded logs_ok_def, rule_format, of x] assms(2)
      by (auto simp: send_queue_def upd_session_nth comp_def)
  qed
  show ?thesis
  proof (cases "sp @ ?ps = []")
    case True
    have "sends_same st (upd_session o1 (\<lambda>s. s\<lparr>m_sendQueue := [], m_isSending := False\<rparr>) st)"
      by (rule sends_same_upd) (use True idle in simp_all)
    moreover have "again = False" "t = TaskSend (Some o1) ERunning 0 []"
        "st' = upd_session o1 (\<lambda>s. s\<lparr>m_sendQueue := [], m_isSending := False\<rparr>) st"
      using assms(1) True idle off by (simp_all add: Send_Start_def Let_def)
    ultimately show ?thesis by (simp add: balance_def sends_same_def)
  next
    case ne: False
    show ?thesis
    proof (cases "ws_send ws")
      case True
      then have r: "again" "t = TaskSend (Some o1) ERunning (sum_list (map length ?ps) mod 2 ^ 32) (sp @ ?ps)" "st' = request a ?s2"
        using assms(1) ne idle by (auto simp: Send_Start_def Let_def split: if_splits)
      have "sending st' o2 = (o2 = o1 \<or> sending st o2)" for o2
        using sending_upd [OF assms(2), of ?f o2] by (auto simp: r(3) request_def sending_def)
      moreover have "\<not> sending st o1" using idle by (simp add: sending_def)
      moreover have "logs_ok st'" if "logs_ok st" using logs [OF that] sends_same_push(2) [of ?s2 a] by (simp add: r(3) sends_same_def)
      ultimately show ?thesis using r by (auto simp: balance_def request_def)
    next
      case False
      let ?s3 = "upd_session o1 (\<lambda>s. s\<lparr>m_isSending := False\<rparr>) ?s2"
      have r: "\<not> again" "st' = ?s3"
        using assms(1) ne idle False by (auto simp: Send_Start_def Let_def split: if_splits)
      have "sending st' = sending st"
        using assms(2) idle by (auto simp: r(2) sending_def fun_eq_iff upd_session_nth)
      moreover have "send_queue ?s3 = send_queue ?s2" using assms(2) by (auto simp: send_queue_def fun_eq_iff upd_session_nth)
      then have "logs_ok st'" if "logs_ok st" using logs [OF that] by (simp add: r(2) logs_ok_def)
      ultimately show ?thesis using r(1) by (auto simp: balance_def r(2))
    qed
  qed
qed

lemma Send_Complete_balance:
  assumes "Send_Complete (Some o1) tot r n st = (again, t, st')" "o1 < length (objs st)"
  shows "balance (TaskSend (Some o1) ERunning tot ps) st t st'"
proof -
  have r: "st' = upd_session o1 (\<lambda>s. s\<lparr>m_isSending := False\<rparr>) st" using assms(1) by (auto simp: Send_Complete_def Let_def split: if_splits)
  have "send_queue st' = send_queue st" using assms(2) by (auto simp: r send_queue_def fun_eq_iff upd_session_nth)
  then show ?thesis by (auto simp: balance_def logs_ok_def r sending_upd [OF assms(2)])
qed

lemma Run_not_send:
  "Run cdc ws a task r n st = Inr (again, t, st') \<Longrightarrow> \<not> is_send task \<Longrightarrow> sends_same st st' \<and> \<not> is_send t"
  by (cases task) (auto simp: Close_Run_def Change_Run_def intro: sends_same_refl
      dest: AcceptIO_sends Receive_sends ConnectIO_sends NewUser_sends Connect_sends Listen_sends)

lemma Run_balance:
  assumes "Run cdc ws a task r n st = Inr (again, t, st')" "\<And>o1. task_owner task = Some o1 \<Longrightarrow> o1 < length (objs st)"
  shows "balance task st t st'"
proof (cases task)
  case (TaskSend oo step tot ps)
  then have r: "Send_Run ws a oo step tot ps r n st = (again, t, st')" using assms(1) by simp
  show ?thesis
  proof (cases oo)
    case None
    with r TaskSend show ?thesis
      by (cases step) (auto simp: Send_Run_def Send_Start_def Send_Complete_def balance_def)
  next
    case (Some o1)
    have o1: "o1 < length (objs st)" using assms(2) TaskSend Some by simp
    show ?thesis
    proof (cases step)
      case ENone
      then show ?thesis using r Some TaskSend Send_Start_balance [OF _ o1] by (simp add: Send_Run_def)
    next
      case ERunning
      then show ?thesis using r Some TaskSend Send_Complete_balance [OF _ o1] by (simp add: Send_Run_def)
    qed (use r Some TaskSend in \<open>auto simp: Send_Run_def balance_def\<close>)
  qed
qed (use Run_not_send [OF assms(1)] in \<open>auto intro: balance_same\<close>)

lemma worker_sends_inv:
  assumes "tasks_inv st" "sends_inv st" "WorkerThread_round cdc ws st = Inr st'"
  shows "sends_inv st'"
proof (cases "iocp st")
  case Nil
  with assms show ?thesis by (simp add: WorkerThread_round_def)
next
  case (Cons p rest)
  obtain a r n where p: "p = (a, r, n)" by (cases p) auto
  let ?st = "st\<lparr>iocp := rest\<rparr>" and ?xs = "map fst rest" and ?ps = "pending st"
  from assms Cons p obtain task again t st1 where
    run: "tasks st a = Some task" "Run cdc ws a task r n ?st = Inr (again, t, st1)"
      "st' = st1\<lparr>tasks := (tasks st1)(a := if again then Some t else None)\<rparr>"
    by (auto simp: WorkerThread_round_def split: option.splits)
  have own: "\<And>o1. task_owner task = Some o1 \<Longrightarrow> o1 < length (objs ?st)" using assms(1) run(1) by (auto simp: tasks_inv_def)
  note ok = Run_ok [OF run(2) own] and bal = Run_balance [OF run(2) own]
  have "distinct (a # ?xs @ ?ps)" using assms(1) Cons p by (simp add: tasks_inv_def refs_def)
  then have na: "a \<notin> set (?xs @ ?ps)" by simp
  have lt: "x < next_task st" if "x \<in> set (a # ?xs @ ?ps)" for x
    using tasks_inv_less [OF assms(1), of x] that Cons p by (simp add: refs_def)
  define base where "base o1 = length (filter (\<lambda>x. running_send o1 (tasks st x)) (?xs @ ?ps))" for o1
  have base: "in_flight st o1 = base o1 + of_bool (running_send o1 (Some task))" for o1
    using run(1) Cons p by (simp add: in_flight_def refs_def base_def)
  have old: "tasks st' x = tasks st x" if "x \<in> set (?xs @ ?ps)" for x
    using ok lt [of x] that na run(3) by (auto simp: run_ok_def)
  have new: "\<not> running_send o1 (tasks st' x)" if "x \<in> set [next_task st..<next_task st1]" for x o1
    using ok lt [of a] that run(3) by (force simp: run_ok_def fresh_task_def)
  have flight: "in_flight st' o1 = base o1 + of_bool (pending st1 \<noteq> ?ps \<and> running_send o1 (Some t))" for o1
  proof -
    have "filter (\<lambda>x. running_send o1 (tasks st' x)) [next_task st..<next_task st1] = []" using new by (simp add: filter_empty_conv)
    moreover have "filter (\<lambda>x. running_send o1 (tasks st' x)) ?xs = filter (\<lambda>x. running_send o1 (tasks st x)) ?xs"
      "filter (\<lambda>x. running_send o1 (tasks st' x)) ?ps = filter (\<lambda>x. running_send o1 (tasks st x)) ?ps"
      using old by (auto intro!: filter_cong)
    moreover have "pending st1 = ?ps \<or> again \<and> pending st1 = ?ps @ [a]" "map fst (iocp st') = ?xs @ [next_task st..<next_task st1]"
      using ok run(3) by (auto simp: run_ok_def comp_def)
    moreover have "pending st' = pending st1" "tasks st' a = (if again then Some t else None)" using run(3) by simp_all
    ultimately show ?thesis by (auto simp: in_flight_def refs_def base_def)
  qed
  have eqs: "sending ?st = sending st" "sending st' = sending st1" "logs_ok ?st = logs_ok st" "logs_ok st' = logs_ok st1"
    using run(3) by (simp_all add: sending_def logs_ok_def send_queue_def fun_eq_iff)
  have inf: "in_flight st o1 = of_bool (sending st o1)" for o1 using assms(2) by (simp add: sends_inv_def)
  have "in_flight st' o1 = of_bool (sending st' o1)" for o1
  proof -
    have imp: "running_send o1 (Some task) \<longrightarrow> sending ?st o1" using base [of o1] inf [of o1] by (cases "sending st o1") (auto simp: eqs)
    from bal imp have "of_bool (sending st1 o1) + of_bool (running_send o1 (Some task)) =
        of_bool (sending ?st o1) + (of_bool (pending st1 \<noteq> pending ?st \<and> running_send o1 (Some t)) :: nat)"
      unfolding balance_def by blast
    then show ?thesis using base [of o1] inf [of o1] flight [of o1] by (simp add: eqs)
  qed
  moreover have "logs_ok st'" using bal assms(2) by (simp add: balance_def sends_inv_def eqs)
  ultimately show ?thesis by (simp add: sends_inv_def)
qed

lemma sends_inv_frame:
  assumes "sends_same st st'" "sends_inv st" "tasks_inv st" "refs st' = refs st @ new" "\<And>x. x \<in> set (refs st) \<Longrightarrow> tasks st' x = tasks st x"
    "\<And>x o1. x \<in> set new \<Longrightarrow> \<not> running_send o1 (tasks st' x)"
  shows "sends_inv st'"
proof -
  have "in_flight st' o1 = in_flight st o1" for o1
    using assms(4-6) by (auto simp: in_flight_def filter_empty_conv cong: filter_cong)
  then show ?thesis using assms(1,2) by (simp add: sends_inv_def sends_same_def)
qed

lemma kernel_sends_same: "sends_same st (kernel_complete i r n data st)"
proof -
  have "sends_same st ((upd_session o1 (\<lambda>s. s\<lparr>m_recvRingQueue := q\<rparr>) st)\<lparr>pending := x, iocp := y\<rparr>)" for o1 q x y
    by (rule sends_same_trans [OF sends_same_upd [of "\<lambda>s. s\<lparr>m_recvRingQueue := q\<rparr>" st o1]]) (simp_all add: sends_same_refl)
  moreover have "sends_same st (st\<lparr>pending := x, iocp := y\<rparr>)" for x y by (simp add: sends_same_refl)
  ultimately show ?thesis
    by (auto simp: kernel_complete_def Let_def intro: sends_same_refl split: option.splits NetworkTask.splits sum.splits)
qed

lemma kernel_sends_inv:
  assumes "sends_inv st"
  shows "sends_inv (kernel_complete i r n data st)"
proof -
  let ?st = "kernel_complete i r n data st"
  have "in_flight ?st o1 = in_flight st o1" for o1
  proof (cases "?st = st")
    case False
    then obtain r' n' where k: "i < length (pending st)" "iocp ?st = iocp st @ [(pending st ! i, r', n')]"
      "pending ?st = take i (pending st) @ drop (Suc i) (pending st)" "tasks ?st = tasks st"
      using kernel_cases [of i r n data st] by blast
    let ?P = "\<lambda>x. running_send o1 (tasks st x)"
    have "length (filter ?P (pending st)) = length (filter ?P (take i (pending st) @ pending st ! i # drop (Suc i) (pending st)))"
      using id_take_nth_drop [OF k(1)] by simp
    then show ?thesis using k(2-4) by (simp add: in_flight_def refs_def)
  qed simp
  then show ?thesis using assms kernel_sends_same [of st i r n data] by (simp add: sends_inv_def sends_same_def)
qed

lemma push_sends_inv:
  assumes "tasks_inv st0" "sends_inv st0" "sends_same st0 st" "iocp st = iocp st0" "pending st = pending st0" "tasks st = tasks st0"
    "next_task st = next_task st0" "fresh_task n task"
  shows "sends_inv (WorkerPush task st)"
proof -
  have nr: "next_task st0 \<notin> set (refs st0)" using tasks_inv_less [OF assms(1)] by blast
  have "in_flight (WorkerPush task st) o1 = in_flight st0 o1" for o1
  proof -
    have "\<not> running_send o1 (Some task)" using assms(8) by (simp add: fresh_task_def)
    moreover have "filter (\<lambda>x. running_send o1 (((tasks st0)(next_task st0 \<mapsto> task)) x)) (map fst (iocp st0)) = filter (\<lambda>x. running_send o1 (tasks st0 x)) (map fst (iocp st0))"
      "filter (\<lambda>x. running_send o1 (((tasks st0)(next_task st0 \<mapsto> task)) x)) (pending st0) = filter (\<lambda>x. running_send o1 (tasks st0 x)) (pending st0)"
      using nr by (auto simp: refs_def intro!: filter_cong)
    ultimately show ?thesis using assms(4-7) by (simp add: in_flight_def refs_def WorkerPush_def del: fun_upd_apply) simp
  qed
  then show ?thesis using assms(2,3) sends_same_push(1) [of st task] by (simp add: sends_inv_def sends_same_def)
qed

lemma net_step_sends_inv:
  assumes "tasks_inv st" "sends_inv st" "net_step cdc e st = Inr st'"
  shows "sends_inv st'"
proof (cases e)
  case (AppSend o1 m)
  show ?thesis
  proof (cases "o1 < length (objs st)")
    case True
    then have sd: "Send cdc o1 m st = Inr st'" using AppSend assms(3) by simp
    then obtain st1 where w: "st' = WorkerPush (TaskSend (Some o1) ENone 0 []) st1"
      "iocp st1 = iocp st" "pending st1 = pending st" "tasks st1 = tasks st" "next_task st1 = next_task st"
      by (auto simp: Send_def Let_def)
    have "sending st' = sending st1" "logs_ok st' = logs_ok st1"
      unfolding w(1) by (simp_all add: sending_def logs_ok_def send_queue_def WorkerPush_def fun_eq_iff)
    then have "sends_same st st1" using sends_same_Send [OF sd True] by (simp add: sends_same_def)
    then show ?thesis unfolding w(1) by (rule push_sends_inv [OF assms(1,2) _ w(2-5), where n = "length (objs st)"]) (simp add: True)
  qed (use AppSend assms in simp)
next
  case (Worker ws)
  then show ?thesis using worker_sends_inv [OF assms(1,2)] assms(3) by simp
next
  case (Kernel i r n data)
  then show ?thesis using kernel_sends_inv [OF assms(2)] assms(3) by auto
next
  case (AppListen port jd)
  then show ?thesis using assms push_sends_inv [OF assms(1,2), of st 0 "TaskListen port jd"]
    by (auto simp: Server_Listen_def sends_same_refl)
next
  case (AppConnect ip port jd)
  then show ?thesis using assms push_sends_inv [OF assms(1,2), of st 0 "TaskConnect ip port jd"]
    by (auto simp: Server_Connect_def sends_same_refl)
next
  case (AppRemove sid)
  have "sends_inv (snd (RemoveSession sid st))"
    by (rule sends_inv_frame [OF sends_same_Remove assms(2,1), where new = "[]"])
      (simp_all add: refs_def RemoveSession_simps)
  with AppRemove assms(3) show ?thesis by simp
qed

lemma net_run_sends_inv: "tasks_inv st \<Longrightarrow> sends_inv st \<Longrightarrow> net_run cdc es st = Inr st' \<Longrightarrow> sends_inv st'"
  by (induction es arbitrary: st) (auto dest: net_step_tasks_inv net_step_sends_inv)

lemma sends_inv_new: "sends_inv NetworkServer_new"
  by (simp add: sends_inv_def NetworkServer_new_def in_flight_def refs_def sending_def logs_ok_def send_queue_def)

section \<open>The session table\<close>

text \<open>Sessions get the ids 1, 2, \<dots> in the order of their creation; the table maps an id to the session that has it.\<close>

definition table_inv :: "'m NetworkServer \<Rightarrow> bool" where
  "table_inv st \<longleftrightarrow>
     m_lastSessionID st = to_int64 (int (length (objs st)) + 1) \<and>
     map m_sessionID (objs st) = map (\<lambda>i. to_int64 (int i + 1)) [0..<length (objs st)] \<and>
     (\<forall>sid o1. m_sessions st sid = Some o1 \<longrightarrow> o1 < length (objs st) \<and> m_sessionID (objs st ! o1) = sid)"

lemma table_frame:
  assumes "map m_sessionID (objs st') = map m_sessionID (objs st)" "m_sessions st' = m_sessions st" "m_lastSessionID st' = m_lastSessionID st"
  shows "table_inv st' = table_inv st"
proof -
  have l: "length (objs st') = length (objs st)" using assms(1) by (rule map_eq_imp_length_eq)
  have "m_sessionID (objs st' ! i) = m_sessionID (objs st ! i)" if "i < length (objs st)" for i
    using assms(1) that l by (metis nth_map)
  then have "(\<forall>sid o1. m_sessions st sid = Some o1 \<longrightarrow> o1 < length (objs st) \<and> m_sessionID (objs st' ! o1) = sid) =
      (\<forall>sid o1. m_sessions st sid = Some o1 \<longrightarrow> o1 < length (objs st) \<and> m_sessionID (objs st ! o1) = sid)" by metis
  then show ?thesis unfolding table_inv_def l assms by simp
qed

lemma ids_upd: "(\<And>s. m_sessionID (f s) = m_sessionID s) \<Longrightarrow> map m_sessionID (objs (upd_session o1 f st)) = map m_sessionID (objs st)"
  by (cases "o1 < length (objs st)") (simp_all add: upd_session_def map_update list_update_beyond list_update_same_conv not_less)

lemma table_simps [simp]:
  "table_inv (WorkerPush task st) = table_inv st" "table_inv (request a st) = table_inv st"
  "table_inv (st\<lparr>iocp := x\<rparr>) = table_inv st" "table_inv (st\<lparr>pending := y\<rparr>) = table_inv st"
  "table_inv (st\<lparr>tasks := z\<rparr>) = table_inv st" "table_inv (st\<lparr>closed := u\<rparr>) = table_inv st"
  "table_inv (st\<lparr>enq_log := v\<rparr>) = table_inv st" "table_inv (st\<lparr>sent_log := v'\<rparr>) = table_inv st"
  "table_inv (st\<lparr>options := w\<rparr>) = table_inv st" "table_inv (st\<lparr>connectEx := b\<rparr>) = table_inv st"
  "table_inv (st\<lparr>connects := w'\<rparr>) = table_inv st"
  by (rule table_frame; simp add: WorkerPush_def request_def)+

lemma table_upd: "(\<And>s. m_sessionID (f s) = m_sessionID s) \<Longrightarrow> table_inv (upd_session o1 f st) = table_inv st"
  by (rule table_frame) (simp_all add: ids_upd)

lemma table_SetSocket [simp]: "table_inv (SetSocket o1 s st) = table_inv st"
  unfolding SetSocket_def by (rule table_frame) (simp_all add: ids_upd RegisterSocketToIOCP_def)

lemma table_recv_all [simp]: "table_inv (recv_all cdc o1 ps st) = table_inv st"
  by (induction ps arbitrary: st) (auto simp: OnRecvMessage_def table_upd split: option.splits)

lemma table_Create:
  assumes "CreateNewSession jd st = (r, st')" "table_inv st"
  shows "table_inv st'"
proof -
  let ?n = "length (objs st)"
  have o: "objs st' = objs st @ [NetworkSession_new (to_int64 (int ?n + 1)) jd]" "m_lastSessionID st' = to_int64 (to_int64 (int ?n + 1) + 1)"
    "m_sessions st' = m_sessions st \<or> m_sessions st' = (m_sessions st)(to_int64 (int ?n + 1) \<mapsto> ?n)"
    using assms by (auto simp: CreateNewSession_def GenerateSessionID_def table_inv_def Let_def split: if_splits)
  have "to_int64 (to_int64 (int ?n + 1) + 1) = to_int64 (int (Suc ?n) + 1)"
    by (simp add: to_int64_def) (simp add: mod_add_right_eq algebra_simps)
  with o assms(2) show ?thesis unfolding table_inv_def
    by (auto simp: NetworkSession_new_def nth_append less_Suc_eq split: if_splits)
qed

lemma table_Remove: "table_inv st \<Longrightarrow> table_inv (snd (RemoveSession sid st))"
  by (auto simp: RemoveSession_def Disconnect_def table_inv_def Let_def split: option.splits if_splits)

lemma table_Send: "Send cdc o1 m st = Inr st' \<Longrightarrow> table_inv st' = table_inv st"
  by (auto simp: Send_def Let_def table_upd)

lemma Run_table:
  assumes "Run cdc ws a task r n st = Inr (again, t, st')" "table_inv st"
  shows "table_inv st'"
  using assms
  by (cases task)
    (auto simp: Close_Run_def Change_Run_def Listen_Run_def Session_Listen_def Connect_Run_def Session_Connect_def AcceptIO_Run_def
      AcceptIO_Start_def AcceptIO_Complete_def NewUser_Run_def OnAccept_def ReceiveIO_Run_def ReceiveIO_Complete_def ReceiveIO_Start_def
      Send_Run_def Send_Start_def Send_Complete_def ConnectIO_Run_def ConnectIO_Start_def ConnectIO_Complete_def OnConnected_def
      Let_def table_upd table_Remove table_Send dest!: table_Create
      split: prod.splits option.splits EStep.splits if_splits parse_status.splits)

lemma net_step_table:
  assumes "table_inv st" "net_step cdc e st = Inr st'"
  shows "table_inv st'"
proof (cases e)
  case (Worker ws)
  then show ?thesis using assms
    by (auto simp: WorkerThread_round_def dest!: Run_table split: list.splits option.splits)
next
  case (Kernel i r n data)
  then show ?thesis using assms
    by (auto simp: kernel_complete_def Let_def table_upd split: option.splits NetworkTask.splits sum.splits if_splits)
qed (use assms in \<open>auto simp: Server_Listen_def Server_Connect_def table_Send table_Remove split: if_splits\<close>)

lemma net_run_table: "table_inv st \<Longrightarrow> net_run cdc es st = Inr st' \<Longrightarrow> table_inv st'"
  by (induction es arbitrary: st) (auto dest: net_step_table)

lemma table_inv_new: "table_inv NetworkServer_new"
  by (simp add: table_inv_def NetworkServer_new_def to_int64_def)

section \<open>A session id is used once\<close>

text \<open>
  \<open>retired n sid\<close>: if the table has \<open>sid\<close>, then for a session made after the first \<open>n\<close>. No step
  breaks it; since ids are numbers of sessions, an id that was removed never comes back.
\<close>

definition retired :: "nat \<Rightarrow> session_id \<Rightarrow> 'm NetworkServer \<Rightarrow> bool" where
  "retired n sid st \<longleftrightarrow> n \<le> length (objs st) \<and> (\<forall>o1. m_sessions st sid = Some o1 \<longrightarrow> n \<le> o1)"

lemma retired_simps [simp]:
  "retired k sid (WorkerPush task st) = retired k sid st" "retired k sid (request a st) = retired k sid st"
  "retired k sid (st\<lparr>iocp := x\<rparr>) = retired k sid st" "retired k sid (st\<lparr>pending := y\<rparr>) = retired k sid st"
  "retired k sid (st\<lparr>tasks := z\<rparr>) = retired k sid st" "retired k sid (st\<lparr>closed := u\<rparr>) = retired k sid st"
  "retired k sid (st\<lparr>enq_log := v\<rparr>) = retired k sid st" "retired k sid (st\<lparr>sent_log := v'\<rparr>) = retired k sid st"
  "retired k sid (st\<lparr>options := w\<rparr>) = retired k sid st" "retired k sid (st\<lparr>connectEx := b\<rparr>) = retired k sid st"
  "retired k sid (st\<lparr>connects := w'\<rparr>) = retired k sid st" "retired k sid (upd_session o1 f st) = retired k sid st"
  "retired k sid (SetSocket o1 s st) = retired k sid st"
  by (simp_all add: retired_def WorkerPush_def request_def upd_session_def SetSocket_def RegisterSocketToIOCP_def)

lemma retired_recv_all [simp]: "retired k sid (recv_all cdc o1 ps st) = retired k sid st"
  by (induction ps arbitrary: st) (auto simp: OnRecvMessage_def split: option.splits)

lemma retired_Create: "CreateNewSession jd st = (r, st') \<Longrightarrow> retired k sid st \<Longrightarrow> retired k sid st'"
  by (auto simp: CreateNewSession_def GenerateSessionID_def retired_def Let_def split: if_splits)

lemma retired_Remove: "retired k sid st \<Longrightarrow> retired k sid (snd (RemoveSession sid' st))"
  by (auto simp: RemoveSession_def Disconnect_def retired_def Let_def split: option.splits if_splits)

lemma retired_Send: "Send cdc o1 m st = Inr st' \<Longrightarrow> retired k sid st' = retired k sid st"
  by (auto simp: Send_def Let_def)

lemma Run_retired:
  assumes "Run cdc ws a task r n st = Inr (again, t, st')" "retired k sid st"
  shows "retired k sid st'"
  using assms
  by (cases task)
    (auto simp: Close_Run_def Change_Run_def Listen_Run_def Session_Listen_def Connect_Run_def Session_Connect_def AcceptIO_Run_def
      AcceptIO_Start_def AcceptIO_Complete_def NewUser_Run_def OnAccept_def ReceiveIO_Run_def ReceiveIO_Complete_def ReceiveIO_Start_def
      Send_Run_def Send_Start_def Send_Complete_def ConnectIO_Run_def ConnectIO_Start_def ConnectIO_Complete_def OnConnected_def
      Let_def retired_Remove retired_Send dest!: retired_Create
      split: prod.splits option.splits EStep.splits if_splits parse_status.splits)

lemma net_step_retired:
  assumes "retired k sid st" "net_step cdc e st = Inr st'"
  shows "retired k sid st'"
proof (cases e)
  case (Worker ws)
  then show ?thesis using assms
    by (auto simp: WorkerThread_round_def dest!: Run_retired split: list.splits option.splits)
next
  case (Kernel i r n data)
  then show ?thesis using assms
    by (auto simp: kernel_complete_def Let_def split: option.splits NetworkTask.splits sum.splits if_splits)
qed (use assms in \<open>auto simp: Server_Listen_def Server_Connect_def retired_Send retired_Remove split: if_splits\<close>)

lemma net_run_retired: "retired k sid st \<Longrightarrow> net_run cdc es st = Inr st' \<Longrightarrow> retired k sid st'"
  by (induction es arbitrary: st) (auto dest: net_step_retired)

lemma removed_id_stays_removed:
  assumes "table_inv st" "FindSession sid st = None" "1 \<le> sid" "sid \<le> int (length (objs st))"
    and "net_run cdc es st = Inr st'" "length (objs st') < 2 ^ 63 - 1"
  shows "FindSession sid st' = None"
proof (rule ccontr)
  assume "FindSession sid st' \<noteq> None"
  then obtain o1 where o1: "m_sessions st' sid = Some o1" by (auto simp: FindSession_def)
  have "retired (length (objs st)) sid st" using assms(2) by (simp add: retired_def FindSession_def)
  then have "length (objs st) \<le> o1" using net_run_retired [OF _ assms(5)] o1 by (auto simp: retired_def)
  moreover have t: "table_inv st'" by (rule net_run_table [OF assms(1,5)])
  then have lt: "o1 < length (objs st')" "m_sessionID (objs st' ! o1) = sid" using o1 by (auto simp: table_inv_def)
  have "map m_sessionID (objs st') ! o1 = to_int64 (int o1 + 1)" using t lt(1) by (simp add: table_inv_def)
  then have "sid = int o1 + 1" using lt assms(6) by (simp add: to_int64_id)
  ultimately show False using assms(4) by simp
qed

lemma net_step_objs:
  assumes "net_step cdc e st = Inr st'"
  shows "length (objs st) \<le> length (objs st')"
proof (cases e)
  case (Worker ws)
  then show ?thesis using assms by (auto simp: WorkerThread_round_def dest!: Run_objs split: list.splits option.splits)
next
  case (Kernel i r n data)
  then show ?thesis using assms kernel_cases [of i r n data st] by auto
next
  case (AppSend o1 m)
  then show ?thesis using assms by (auto simp: Send_length split: if_splits)
qed (use assms in \<open>auto simp: Server_Listen_def Server_Connect_def objs_Remove\<close>)

lemma net_run_objs: "net_run cdc es st = Inr st' \<Longrightarrow> length (objs st) \<le> length (objs st')"
  by (induction es arbitrary: st) (auto dest!: net_step_objs intro: order_trans)

text \<open>States a network can get into, and what carries over.\<close>

definition net_reach :: "'m codec \<Rightarrow> 'm NetworkServer \<Rightarrow> 'm NetworkServer \<Rightarrow> bool" where
  "net_reach cdc st st' \<longleftrightarrow> (\<exists>es. net_run cdc es st = Inr st')"

lemma net_run_append: "net_run cdc (es @ fs) st = ebind (net_run cdc es st) (net_run cdc fs)"
  by (induction es arbitrary: st) (auto simp: ebind_def split: sum.splits)

lemma net_reach_refl: "net_reach cdc st st"
  unfolding net_reach_def by (rule exI [of _ "[]"]) simp

lemma net_reach_trans: "net_reach cdc st st1 \<Longrightarrow> net_reach cdc st1 st2 \<Longrightarrow> net_reach cdc st st2"
  unfolding net_reach_def by (metis net_run_append ebind_simps(2))

lemma net_reach_step: "net_step cdc e st = Inr st' \<Longrightarrow> net_reach cdc st st'"
  unfolding net_reach_def by (rule exI [of _ "[e]"]) simp

lemma net_reachD: "net_reach cdc st st' \<Longrightarrow> table_inv st \<Longrightarrow> table_inv st'" "net_reach cdc st st' \<Longrightarrow> length (objs st) \<le> length (objs st')"
  by (auto simp: net_reach_def net_run_table net_run_objs)

section \<open>A packet nobody sends\<close>

text \<open>
  A session is stranded when packets wait in its send queue and no send task of it is left.
\<close>

fun serves :: "nat \<Rightarrow> NetworkTask option \<Rightarrow> bool" where
  "serves o1 (Some (TaskSend (Some o2) step tot ps)) = (o1 = o2)"
| "serves o1 _ = False"

definition stranded :: "nat \<Rightarrow> 'm NetworkServer \<Rightarrow> bool" where
  "stranded o1 st \<longleftrightarrow> o1 < length (objs st) \<and> m_sendQueue (objs st ! o1) \<noteq> [] \<and> (\<forall>a. \<not> serves o1 (tasks st a))"

text \<open>
  Operations that neither touch what session \<open>o1\<close> sends nor make a send task for it.
\<close>

definition quiet :: "nat \<Rightarrow> 'm NetworkServer \<Rightarrow> 'm NetworkServer \<Rightarrow> bool" where
  "quiet o1 st st' \<longleftrightarrow> (\<forall>a. serves o1 (tasks st' a) \<longrightarrow> serves o1 (tasks st a)) \<and> sent_log st' o1 = sent_log st o1 \<and>
     (o1 < length (objs st) \<longrightarrow> o1 < length (objs st') \<and> m_sendQueue (objs st' ! o1) = m_sendQueue (objs st ! o1) \<and>
        m_isSending (objs st' ! o1) = m_isSending (objs st ! o1))"

lemma quiet_refl: "objs st' = objs st \<Longrightarrow> tasks st' = tasks st \<Longrightarrow> sent_log st' = sent_log st \<Longrightarrow> quiet o1 st st'"
  by (simp add: quiet_def)

lemma quiet_trans [trans]: "quiet o1 st st' \<Longrightarrow> quiet o1 st' st'' \<Longrightarrow> quiet o1 st st''"
  by (auto simp: quiet_def)

lemma quiet_upd:
  "o2 \<noteq> o1 \<or> m_sendQueue (f (objs st ! o1)) = m_sendQueue (objs st ! o1) \<and> m_isSending (f (objs st ! o1)) = m_isSending (objs st ! o1) \<Longrightarrow>
    quiet o1 st (upd_session o2 f st)"
  by (cases "o2 = o1"; cases "o1 < length (objs st)") (auto simp: quiet_def upd_session_def)

lemma quiet_push: "\<not> serves o1 (Some task) \<Longrightarrow> quiet o1 st (WorkerPush task st)"
  by (simp add: quiet_def WorkerPush_def)

lemma quiet_request: "quiet o1 st (request a st)"
  by (simp add: quiet_refl request_def)

lemma quiet_SetSocket: "quiet o1 st (SetSocket o2 s st)"
  unfolding SetSocket_def
  by (rule quiet_trans [OF _ quiet_upd]) (simp_all add: quiet_refl RegisterSocketToIOCP_def)

lemma quiet_Create:
  "CreateNewSession jd st = (r, st') \<Longrightarrow> quiet o1 st st' \<and> (\<forall>o2. r = Some o2 \<longrightarrow> o2 = length (objs st))"
  by (auto simp: quiet_def CreateNewSession_def GenerateSessionID_def Let_def nth_append split: if_splits)

lemma quiet_Remove: "quiet o1 st (snd (RemoveSession sid st))"
  by (auto simp: RemoveSession_def Disconnect_def Let_def intro: quiet_refl split: option.splits)

lemma quiet_recv_all: "quiet o1 st (recv_all cdc o2 ps st)"
proof (induction ps arbitrary: st)
  case (Cons p ps)
  have "quiet o1 st (OnRecvMessage cdc o2 p st)"
    by (auto simp: OnRecvMessage_def intro: quiet_refl quiet_upd split: option.splits)
  with Cons show ?case by (auto intro: quiet_trans)
qed (simp add: quiet_refl)

lemma quiet_Send:
  assumes "Send cdc o2 m st = Inr st'" "o2 \<noteq> o1"
  shows "quiet o1 st st'"
proof -
  obtain packet where "st' = WorkerPush (TaskSend (Some o2) ENone 0 [])
      ((upd_session o2 (\<lambda>s. s\<lparr>m_sendQueue := m_sendQueue s @ [packet]\<rparr>) st)\<lparr>enq_log := (enq_log st)(o2 := enq_log st o2 @ [packet])\<rparr>)"
    using assms(1) by (auto simp: Send_def Let_def)
  with assms(2) show ?thesis by (auto simp: quiet_def WorkerPush_def upd_session_def)
qed

lemma quiet_Listen: "quiet o1 st (Session_Listen ws o2 port st)"
proof -
  have "quiet o1 st (SetSocket o2 x (st\<lparr>options := y\<rparr>))" for x y
    by (rule quiet_trans [OF _ quiet_SetSocket]) (simp add: quiet_refl)
  then show ?thesis by (auto simp: Session_Listen_def Let_def intro: quiet_refl quiet_trans [OF _ quiet_push])
qed

lemma quiet_OnAccept:
  assumes "OnAccept cdc o2 ip port sock st = Inr st'" "o2 \<noteq> o1"
  shows "quiet o1 st st'"
proof -
  let ?s1 = "upd_session o2 (\<lambda>s. s\<lparr>m_ip := ip, m_port := port\<rparr>) st"
  obtain s3 where s: "Send cdc o2 (connect_ack cdc) (SetSocket o2 sock ?s1) = Inr s3" "st' = WorkerPush (TaskReceiveIO (Some o2) ENone) s3"
    using assms(1) by (auto simp: OnAccept_def Let_def)
  have "quiet o1 st ?s1" by (rule quiet_upd) simp
  also have "quiet o1 \<dots> (SetSocket o2 sock ?s1)" by (rule quiet_SetSocket)
  also have "quiet o1 \<dots> s3" by (rule quiet_Send [OF s(1) assms(2)])
  also have "quiet o1 \<dots> st'" unfolding s(2) by (rule quiet_push) simp
  finally show ?thesis .
qed

text \<open>A handler of a task that does not send for \<open>o1\<close> is quiet, and its task stays so.\<close>

lemma AcceptIO_Start_quiet: "AcceptIO_Start ws a owner c st = (again, t, st') \<Longrightarrow> quiet o1 st st'"
  by (auto simp: AcceptIO_Start_def Let_def intro: quiet_request quiet_refl split: if_splits)

lemma AcceptIO_quiet:
  assumes "AcceptIO_Run ws a owner step c r st = (again, t, st')"
  shows "quiet o1 st st'"
proof (cases "step = ERunning \<and> owner \<noteq> None")
  case True
  then obtain o2 where o2: "step = ERunning" "owner = Some o2" by auto
  define st0 where "st0 = (if r
     then (case ws_remote ws of
             Some (ip, port) \<Rightarrow> WorkerPush (TaskNewUser ip port c (m_jobDispatcher (objs st ! o2))) st
           | None \<Rightarrow> st)
     else st\<lparr>closed := closed st @ [c]\<rparr>)"
  have "quiet o1 st st0" by (auto simp: st0_def intro: quiet_refl quiet_push split: option.split)
  also have "quiet o1 st0 st'"
    by (rule AcceptIO_Start_quiet [of ws a owner None])
      (use assms o2 in \<open>simp add: AcceptIO_Run_def AcceptIO_Complete_def st0_def Let_def\<close>)
  finally show ?thesis .
qed (use assms in \<open>auto simp: AcceptIO_Run_def AcceptIO_Complete_def intro: AcceptIO_Start_quiet quiet_refl split: EStep.splits option.splits\<close>)

lemma Receive_quiet:
  assumes "ReceiveIO_Run cdc ws a owner step r n st = Inr (again, t, st')"
  shows "quiet o1 st st'"
proof -
  have s: "ReceiveIO_Start ws a oo st0 = (again, t, st') \<Longrightarrow> quiet o1 st0 st'" for oo st0
    by (auto simp: ReceiveIO_Start_def intro: quiet_request quiet_refl split: if_splits option.splits)
  have "quiet o1 st (recv_all cdc o2 ps (upd_session o2 (\<lambda>s. s\<lparr>m_recvRingQueue := q\<rparr>) st))" for o2 ps q
    by (rule quiet_trans [OF quiet_upd quiet_recv_all]) simp
  then show ?thesis using assms
    by (auto simp: ReceiveIO_Run_def ReceiveIO_Complete_def dest!: s intro: quiet_refl quiet_Remove
        quiet_trans split: EStep.splits option.splits prod.splits if_splits parse_status.splits)
qed

lemma ConnectIO_quiet:
  assumes "ConnectIO_Run ws a owner step r st = Inr (again, t, st')"
  shows "quiet o1 st st'"
proof -
  have "quiet o1 st ((SetSocket o2 x st)\<lparr>connectEx := b, connects := y\<rparr>)" for o2 x b y
    by (rule quiet_trans [OF quiet_SetSocket [of o1 st o2 x]]) (simp add: quiet_refl)
  then show ?thesis using assms
    by (auto simp: ConnectIO_Run_def ConnectIO_Start_def ConnectIO_Complete_def OnConnected_def Let_def
        intro: quiet_refl quiet_push quiet_SetSocket quiet_trans [OF _ quiet_request]
        split: EStep.splits option.splits if_splits)
qed

lemma Create_quiet:
  assumes "CreateNewSession jd st = (Some o2, st1)" "quiet o1 st1 st'" 
  shows "quiet o1 st st'"
  using quiet_Create [OF assms(1)] assms(2) by (auto intro: quiet_trans)

lemma NewUser_quiet:
  assumes "NewUser_Run cdc ip port sock jd st = Inr (again, t, st')" "o1 < length (objs st)"
  shows "quiet o1 st st'"
proof -
  obtain oo st1 where c: "CreateNewSession jd st = (oo, st1)" by (cases "CreateNewSession jd st")
  note q = quiet_Create [OF c, of o1]
  show ?thesis
  proof (cases oo)
    case (Some o2)
    then have "OnAccept cdc o2 ip port sock st1 = Inr st'" "o2 \<noteq> o1" using assms q c by (auto simp: NewUser_Run_def)
    then show ?thesis using q by (blast intro: quiet_trans quiet_OnAccept)
  qed (use assms q c in \<open>auto simp: NewUser_Run_def\<close>)
qed

lemma Connect_quiet:
  assumes "Connect_Run ip port jd st = (again, t, st')"
  shows "quiet o1 st st'"
proof -
  have "quiet o1 st0 (Session_Connect o2 ip port st0)" for o2 st0
    unfolding Session_Connect_def by (rule quiet_trans [OF quiet_upd quiet_push]) simp_all
  then show ?thesis using assms
    by (auto simp: Connect_Run_def dest!: quiet_Create [where ?o1.0 = o1] intro: quiet_trans split: prod.splits option.splits)
qed

lemma Listen_quiet: "Listen_Run ws port jd st = (again, t, st') \<Longrightarrow> quiet o1 st st'"
  by (auto simp: Listen_Run_def dest!: quiet_Create [where ?o1.0 = o1] intro: quiet_trans quiet_Listen split: prod.splits option.splits)

lemma quiet_other:
  "tasks st' = tasks st \<Longrightarrow> sent_log st' o1 = sent_log st o1 \<Longrightarrow> length (objs st') = length (objs st) \<Longrightarrow>
    objs st' ! o1 = objs st ! o1 \<Longrightarrow> quiet o1 st st'"
  by (simp add: quiet_def)

lemma Send_Start_quiet:
  assumes "Send_Start ws a (Some o2) tot ps st = (again, t, st')" "o2 \<noteq> o1"
  shows "quiet o1 st st'"
proof (rule quiet_other)
  show "tasks st' = tasks st" "sent_log st' o1 = sent_log st o1" "length (objs st') = length (objs st)" "objs st' ! o1 = objs st ! o1"
    using assms by (simp_all add: Send_Start_def Let_def upd_session_def request_def split: if_split_asm) auto
qed

lemma Send_quiet:
  assumes "Send_Run ws a owner step tot ps r n st = (again, t, st')" "owner \<noteq> Some o1"
  shows "quiet o1 st st'"
proof (cases owner)
  case None
  with assms show ?thesis by (cases step) (auto simp: Send_Run_def Send_Start_def Send_Complete_def intro: quiet_refl)
next
  case (Some o2)
  with assms show ?thesis
    by (cases step)
      (auto simp: Send_Run_def Send_Complete_def Let_def intro: Send_Start_quiet quiet_refl quiet_upd split: if_splits)
qed

lemma serves_iff: "serves o1 (Some t) \<longleftrightarrow> is_send t \<and> task_owner t = Some o1"
  by (induction o1 "Some t" rule: serves.induct) auto

lemma Run_quiet:
  assumes "Run cdc ws a task r n st = Inr (again, t, st')" "\<not> serves o1 (Some task)" "o1 < length (objs st)"
  shows "quiet o1 st st' \<and> \<not> serves o1 (Some t)"
proof
  show "quiet o1 st st'"
    using assms by (cases task) (auto simp: Close_Run_def Change_Run_def intro: quiet_refl
      AcceptIO_quiet Receive_quiet ConnectIO_quiet NewUser_quiet Connect_quiet Listen_quiet elim!: Send_quiet)
  show "\<not> serves o1 (Some t)"
    using assms(2) Run_owner [OF assms(1), of o1] Run_not_send [OF assms(1)] by (auto simp: serves_iff)
qed

lemma net_step_quiet:
  assumes "stranded o1 st" "net_step cdc e st = Inr st'" "\<And>m. e \<noteq> AppSend o1 m"
  shows "quiet o1 st st'"
proof (cases e)
  case (Worker ws)
  show ?thesis
  proof (cases "iocp st")
    case (Cons p rest)
    obtain a r n where p: "p = (a, r, n)" by (cases p) auto
    from assms(2) Worker Cons p obtain task again t st1 where
      run: "tasks st a = Some task" "Run cdc ws a task r n (st\<lparr>iocp := rest\<rparr>) = Inr (again, t, st1)"
        "st' = st1\<lparr>tasks := (tasks st1)(a := if again then Some t else None)\<rparr>"
      by (auto simp: WorkerThread_round_def split: option.splits)
    have "\<not> serves o1 (Some task)" using assms(1) run(1) by (auto simp: stranded_def dest: spec [of _ a])
    then have q: "quiet o1 (st\<lparr>iocp := rest\<rparr>) st1" "\<not> serves o1 (Some t)"
      using Run_quiet [OF run(2), of o1] assms(1) by (auto simp: stranded_def)
    then show ?thesis unfolding run(3) by (auto simp: quiet_def)
  qed (use assms(2) Worker in \<open>simp add: WorkerThread_round_def quiet_refl\<close>)
next
  case (Kernel i r n data)
  have "quiet o1 st ((upd_session o2 (\<lambda>s. s\<lparr>m_recvRingQueue := q\<rparr>) st)\<lparr>pending := x, iocp := y\<rparr>)" for o2 q x y
    by (rule quiet_trans [OF quiet_upd [of o2 o1 "\<lambda>s. s\<lparr>m_recvRingQueue := q\<rparr>" st]]) (simp_all add: quiet_refl)
  moreover have "quiet o1 st (st\<lparr>pending := x, iocp := y\<rparr>)" for x y by (simp add: quiet_refl)
  ultimately show ?thesis using Kernel assms(2)
    by (auto simp: kernel_complete_def Let_def intro: quiet_refl split: option.splits NetworkTask.splits sum.splits)
next
  case (AppSend o2 m)
  then have "o2 \<noteq> o1" using assms(3) [of m] by auto
  then show ?thesis using AppSend assms(2) by (auto intro: quiet_Send quiet_refl split: if_splits)
qed (use assms(2) in \<open>auto simp: Server_Listen_def Server_Connect_def intro: quiet_push quiet_Remove\<close>)

lemma stranded_quiet: "stranded o1 st \<Longrightarrow> quiet o1 st st' \<Longrightarrow> stranded o1 st'"
  by (auto simp: stranded_def quiet_def)

lemma net_run_quiet:
  assumes "stranded o1 st" "net_run cdc es st = Inr st'" "\<And>m. AppSend o1 m \<notin> set es"
  shows "stranded o1 st' \<and> quiet o1 st st'"
  using assms
proof (induction es arbitrary: st)
  case (Cons e es)
  then obtain st1 where s: "net_step cdc e st = Inr st1" "net_run cdc es st1 = Inr st'" by auto
  have q: "quiet o1 st st1" using Cons.prems(3) by (intro net_step_quiet [OF Cons.prems(1) s(1)]) auto
  show ?case using Cons.IH [OF stranded_quiet [OF Cons.prems(1) q] s(2)] Cons.prems(3) quiet_trans [OF q] by auto
qed (simp add: quiet_refl)

text \<open>
  The step that strands a session: with a send of it in flight and nothing else to run, the
  application sends once more, a worker runs the new task, the kernel completes the send in
  flight and a worker runs that completion.
\<close>

lemma one_more_send_strands:
  assumes "tasks_inv st" "o1 < length (objs st)" "m_isSending (objs st ! o1)" "iocp st = []" "i < length (pending st)"
    "tasks st (pending st ! i) = Some (TaskSend (Some o1) ERunning tot ps)"
    "\<And>a. serves o1 (tasks st a) \<Longrightarrow> a = pending st ! i" "packet_bytes (pack cdc m) = Inr packet"
  shows "\<exists>st1. net_run cdc [AppSend o1 m, Worker ws, Kernel i r n data, Worker ws'] st = Inr st1 \<and> stranded o1 st1 \<and>
    m_sendQueue (objs st1 ! o1) = m_sendQueue (objs st ! o1) @ [packet] \<and> sent_log st1 o1 = sent_log st o1 \<and>
    \<not> m_isSending (objs st1 ! o1)"
proof -
  have lt: "pending st ! i < next_task st" using assms(1,6) by (auto simp: tasks_inv_def)
  have new: "serves o1 (tasks st (next_task st)) = False" using assms(7) [of "next_task st"] lt by auto
  let ?s = "upd_session o1 (\<lambda>s. s\<lparr>m_isSending := False\<rparr>) (upd_session o1 (\<lambda>s. s\<lparr>m_sendQueue := m_sendQueue s @ [packet]\<rparr>) st)"
  let ?st1 = "?s\<lparr>enq_log := (enq_log st)(o1 := enq_log st o1 @ [packet]), tasks := (tasks st)(next_task st := None, pending st ! i := None),
      next_task := next_task st + 1, pending := take i (pending st) @ drop (Suc i) (pending st), iocp := []\<rparr>"
  have "net_run cdc [AppSend o1 m, Worker ws, Kernel i r n data, Worker ws'] st = Inr ?st1"
    using assms(2-6,8) lt
    by (simp add: Send_def WorkerPush_def WorkerThread_round_def Send_Run_def Send_Start_def Send_Complete_def kernel_complete_def
        upd_session_def Let_def fun_upd_twist)
  moreover have "stranded o1 ?st1" using assms(2,7) by (auto simp: stranded_def upd_session_nth)
  ultimately show ?thesis using assms(2) by (auto simp: upd_session_nth)
qed

section \<open>Properties\<close>

lemma memory_no_uaf:
  "mem_read m p n \<noteq> Inl UseAfterFree" "ReadScalar_u32 b p \<noteq> Inl UseAfterFree" "Convert b p n \<noteq> Inl UseAfterFree"
  "packet_bytes bs \<noteq> Inl UseAfterFree"
  by (auto simp: mem_read_def ReadScalar_u32_def packet_bytes_def Convert_def mem_write_def Let_def ebind_def split: sum.splits)

lemma parse_loop_no_uaf: "snd (snd (parse_loop fuel q)) \<noteq> Fault UseAfterFree"
proof (induction fuel arbitrary: q)
  case (Suc fuel)
  show ?case
    by (subst parse_loop.simps)
      (auto simp: Let_def Suc memory_no_uaf case_prod_unfold split: option.split sum.split)
qed simp

lemma net_run_no_uaf:
  "tasks_inv st \<Longrightarrow> net_run cdc es st \<noteq> Inl UseAfterFree"
proof (induction es arbitrary: st)
  case (Cons e es)
  have "WorkerThread_round cdc ws st \<noteq> Inl UseAfterFree" for ws
  proof (cases "iocp st")
    case Nil
    then show ?thesis by (simp add: WorkerThread_round_def)
  next
    case (Cons p rest)
    then have "tasks st (fst p) \<noteq> None" using \<open>tasks_inv st\<close> by (simp add: tasks_inv_def refs_def)
    moreover have "Run cdc ws a task r n st0 \<noteq> Inl UseAfterFree" for a task r n st0
      using parse_loop_no_uaf
      by (cases task) (auto simp: NewUser_Run_def OnAccept_def Send_def memory_no_uaf
          ReceiveIO_Run_def ReceiveIO_Complete_def ConnectIO_Run_def ConnectIO_Start_def Let_def ebind_def
          split: prod.splits option.splits EStep.splits if_splits parse_status.splits sum.splits, metis snd_conv)
    ultimately show ?thesis using Cons by (auto simp: WorkerThread_round_def ebind_def split: prod.splits option.splits sum.splits)
  qed
  moreover have "Send cdc o1 m st \<noteq> Inl UseAfterFree" for o1 m
    by (auto simp: Send_def memory_no_uaf Let_def ebind_def split: sum.splits)
  ultimately have "net_step cdc e st \<noteq> Inl UseAfterFree" by (cases e) auto
  then show ?case using Cons.IH net_step_tasks_inv [OF Cons.prems] by (auto simp: ebind_def split: sum.splits)
qed simp

text \<open>
  C8. No task is run after a worker deleted it, and none is deleted or run twice at a time: over
  any sequence of worker rounds, kernel completions and calls by the application no completion
  packet and no pending request refers to a deleted task, and no task is referred to twice.
\<close>

theorem tasks_outlive_their_requests:
  "net_run cdc es NetworkServer_new \<noteq> Inl UseAfterFree \<and>
   (net_run cdc es NetworkServer_new = Inr st \<longrightarrow>
      distinct (map fst (iocp st) @ pending st) \<and> list_all (\<lambda>a. tasks st a \<noteq> None) (map fst (iocp st) @ pending st))"
  using net_run_no_uaf [OF tasks_inv_new, of cdc es] net_run_tasks_inv [OF tasks_inv_new, of cdc es st]
  by (auto simp: tasks_inv_def refs_def list_all_iff)

text \<open>
  C10. Per session at most one \<^verbatim>\<open>WSASend\<close> is outstanding, exactly while \<^verbatim>\<open>m_isSending\<close> is set, and
  packets leave the queue in the order they were enqueued: those handed to \<^verbatim>\<open>WSASend\<close> so far
  (accepted or refused) followed by those still queued are all packets ever enqueued.
\<close>

theorem one_send_at_a_time_in_order:
  assumes "net_run cdc es NetworkServer_new = Inr st" "o1 < length (objs st)"
  shows "in_flight st o1 = (if m_isSending (objs st ! o1) then 1 else 0) \<and>
    map snd (sent_log st o1) @ m_sendQueue (objs st ! o1) = enq_log st o1"
  using net_run_sends_inv [OF tasks_inv_new sends_inv_new assms(1)] assms(2)
  by (auto simp: sends_inv_def sending_def logs_ok_def send_queue_def split: if_splits)

text \<open>
  C25. Session ids are unique and the table is right: while fewer than \<open>2^63 - 1\<close> sessions have
  been made, the session made as number \<open>k\<close> has the id \<open>k\<close>, an entry of the table is the session
  with that id, and \<^verbatim>\<open>CreateNewSession\<close> succeeds with a session \<^verbatim>\<open>FindSession\<close> then finds.
\<close>

theorem session_table_is_consistent:
  assumes "net_run cdc es NetworkServer_new = Inr st" "length (objs st) < 2 ^ 63 - 1"
  shows "map m_sessionID (objs st) = map (\<lambda>k. int k + 1) [0..<length (objs st)] \<and>
    (FindSession sid st = Some o1 \<longrightarrow> o1 < length (objs st) \<and> m_sessionID (objs st ! o1) = sid) \<and>
    (\<exists>st'. CreateNewSession jd st = (Some (length (objs st)), st') \<and>
       FindSession (int (length (objs st)) + 1) st' = Some (length (objs st)))"
proof -
  have t: "table_inv st" by (rule net_run_table [OF table_inv_new assms(1)])
  have id: "to_int64 (int i + 1) = int i + 1" if "i \<le> length (objs st)" for i
    using that assms(2) by (simp add: to_int64_def)
  have "map m_sessionID (objs st) = map (\<lambda>k. int k + 1) [0..<length (objs st)]"
    using t id by (auto simp: table_inv_def)
  moreover have "m_sessions st (int (length (objs st)) + 1) = None"
  proof (rule ccontr)
    assume "m_sessions st (int (length (objs st)) + 1) \<noteq> None"
    then obtain x where x: "x < length (objs st)" "m_sessionID (objs st ! x) = int (length (objs st)) + 1"
      using t by (auto simp: table_inv_def)
    have "map m_sessionID (objs st) ! x = int x + 1" using calculation x(1) by simp
    then show False using x by simp
  qed
  ultimately show ?thesis using t id [of "length (objs st)"]
    by (auto simp: table_inv_def FindSession_def CreateNewSession_def GenerateSessionID_def Let_def)
qed

text \<open>
  C23. A wake-up is lost. Take any state the network can reach in which the only send task of a
  session is waiting for its \<^verbatim>\<open>WSASend\<close> and no completion packet is queued. If the application
  sends once more, a worker runs the new task (it finds \<^verbatim>\<open>m_isSending\<close> set and is deleted), and
  then the kernel completes the send in flight and a worker handles that, the new packet stays in
  the queue of a session that is not sending; and whatever workers, kernel and application do
  afterwards, the queue does not move and nothing is sent, until somebody calls \<^verbatim>\<open>Send\<close> on this
  session again.
\<close>

theorem send_wakeup_is_lost:
  assumes "net_run cdc es NetworkServer_new = Inr st" "o1 < length (objs st)" "m_isSending (objs st ! o1)" "iocp st = []"
    "i < length (pending st)" "tasks st (pending st ! i) = Some (TaskSend (Some o1) ERunning tot ps)"
    "\<forall>a. serves o1 (tasks st a) \<longrightarrow> a = pending st ! i" "packet_bytes (pack cdc m) = Inr packet"
  shows "\<exists>st1. net_run cdc [AppSend o1 m, Worker ws, Kernel i r n data, Worker ws'] st = Inr st1 \<and>
    (\<forall>es' st'. (\<forall>m'. AppSend o1 m' \<notin> set es') \<longrightarrow> net_run cdc es' st1 = Inr st' \<longrightarrow>
       m_sendQueue (objs st' ! o1) = m_sendQueue (objs st ! o1) @ [packet] \<and> sent_log st' o1 = sent_log st o1 \<and>
       \<not> m_isSending (objs st' ! o1) \<and> (\<forall>a. \<not> serves o1 (tasks st' a)))"
proof -
  obtain st1 where st1: "net_run cdc [AppSend o1 m, Worker ws, Kernel i r n data, Worker ws'] st = Inr st1" "stranded o1 st1"
    "m_sendQueue (objs st1 ! o1) = m_sendQueue (objs st ! o1) @ [packet]" "sent_log st1 o1 = sent_log st o1"
    "\<not> m_isSending (objs st1 ! o1)"
    using one_more_send_strands [OF net_run_tasks_inv [OF tasks_inv_new assms(1)] assms(2-6)] assms(7,8) by blast
  have "quiet o1 st1 st' \<and> stranded o1 st'" if "\<forall>m'. AppSend o1 m' \<notin> set es'" "net_run cdc es' st1 = Inr st'" for es' st'
    using net_run_quiet [OF st1(2) that(2)] that(1) by blast
  then show ?thesis using st1 by (intro exI [of _ st1] conjI st1(1) allI impI) (auto simp: quiet_def stranded_def)
qed

text \<open>
  \<^verbatim>\<open>NetworkTaskConnect\<close> leaks: its \<^verbatim>\<open>Run\<close> returns true without a request, so the worker does not
  delete the task, and neither a completion packet nor a pending request refers to it any more.
\<close>

lemma connect_task_leaks:
  assumes "tasks_inv st" "iocp st = (a, r, n) # rest" "tasks st a = Some (TaskConnect ip port jd)"
    "m_sessions st (m_lastSessionID st) = None" "WorkerThread_round cdc ws st = Inr st'"
  shows "tasks st' a = Some (TaskConnect ip port jd) \<and> a \<notin> set (refs st')"
proof -
  have "a < next_task st" "a \<notin> set (map fst rest @ pending st)" using assms(1-3) by (auto simp: tasks_inv_def refs_def)
  then show ?thesis using assms(2-5)
    by (auto simp: WorkerThread_round_def Connect_Run_def CreateNewSession_def GenerateSessionID_def Session_Connect_def
        WorkerPush_def upd_session_def refs_def Let_def)
qed

text \<open>
  A run for the witnesses: the server listens on a port and accepts one client, whose session 1 sends
  its acknowledgement and starts to receive; after the whole run the acceptance, the send and the
  receive are pending.
\<close>

definition good_ws :: winsock where
  "good_ws = \<lparr>ws_socket = Some 5, ws_bind = True, ws_listen = True, ws_accept = True, ws_remote = Some (''10.0.0.1'', 7777),
     ws_recv = True, ws_send = True, ws_ioctl = True, ws_connect = True, ws_getaddrinfo = (\<lambda>_. None)\<rparr>"

definition bytes_codec :: "byte list codec" where
  "bytes_codec = \<lparr>pack = (\<lambda>m. m), unpack = Some, connect_ack = [7]\<rparr>"

definition accept_run :: "byte list net_event list" where
  "accept_run =
     [AppListen 7777 0, Worker good_ws, Worker good_ws, Kernel 0 True 0 [], Worker good_ws, Worker good_ws,
      Worker good_ws, Worker good_ws]"

lemma packets: "packet_bytes [7] = Inr [1, 0, 0, 0, 219]" "packet_bytes [8] = Inr [1, 0, 0, 0, 212]"
  by code_simp+

lemmas net_eval = accept_run_def NetworkServer_new_def Server_Listen_def WorkerPush_def WorkerThread_round_def
  Listen_Run_def CreateNewSession_def GenerateSessionID_def NetworkSession_new_def Session_Listen_def upd_session_def
  Send_def packets Send_Run_def Send_Start_def Send_Complete_def AcceptIO_Run_def AcceptIO_Start_def AcceptIO_Complete_def
  NewUser_Run_def OnAccept_def ReceiveIO_Run_def ReceiveIO_Start_def SetSocket_def SocketOption_new_def apply_options_def
  Server_Connect_def Connect_Run_def Session_Connect_def ConnectIO_Run_def ConnectIO_Start_def
  RegisterSocketToIOCP_def request_def kernel_complete_def good_ws_def bytes_codec_def Let_def

text \<open>A new ring has room, so a receive is started.\<close>

lemma new_ring_room: "GetWriteSize RingQ_new > 0" "\<not> GetWriteSize RingQ_new \<le> 0"
  by code_simp+

lemma accepted:
  obtains st where "net_run bytes_codec accept_run NetworkServer_new = Inr st" "length (objs st) = 2"
    "m_isSending (objs st ! 1)" "iocp st = []" "length (pending st) = 3" "pending st ! 1 = 3"
    "tasks st 3 = Some (TaskSend (Some 1) ERunning 5 [[1, 0, 0, 0, 219]])"
    "\<forall>a. serves 1 (tasks st a) \<longrightarrow> a = 3" "m_sendQueue (objs st ! 1) = []"
  by (simp add: net_eval to_int64_def new_ring_room)

theorem tasks_outlive_their_requests_witness:
  "\<exists>st. net_run bytes_codec accept_run NetworkServer_new = Inr st \<and>
     distinct (map fst (iocp st) @ pending st) \<and> list_all (\<lambda>a. tasks st a \<noteq> None) (map fst (iocp st) @ pending st) \<and>
     length (pending st) = 3"
proof -
  obtain st where r: "net_run bytes_codec accept_run NetworkServer_new = Inr st" "length (pending st) = 3" by (rule accepted)
  with tasks_outlive_their_requests [of bytes_codec accept_run st] show ?thesis by simp
qed

theorem one_send_at_a_time_in_order_witness:
  "\<exists>st. net_run bytes_codec accept_run NetworkServer_new = Inr st \<and> length (objs st) = 2 \<and>
     m_isSending (objs st ! 1) \<and> in_flight st 1 = (if m_isSending (objs st ! 1) then 1 else 0) \<and>
     map snd (sent_log st 1) @ m_sendQueue (objs st ! 1) = enq_log st 1"
proof -
  obtain st where r: "net_run bytes_codec accept_run NetworkServer_new = Inr st" "length (objs st) = 2"
    "m_isSending (objs st ! 1)" by (rule accepted)
  with one_send_at_a_time_in_order [OF r(1), of 1] show ?thesis by auto
qed

theorem session_table_is_consistent_witness:
  "\<exists>st st'. net_run bytes_codec accept_run NetworkServer_new = Inr st \<and>
     map m_sessionID (objs st) = [1, 2] \<and> CreateNewSession 0 st = (Some 2, st') \<and> FindSession 3 st' = Some 2"
proof -
  obtain st where r: "net_run bytes_codec accept_run NetworkServer_new = Inr st" "length (objs st) = 2" by (rule accepted)
  with session_table_is_consistent [OF r(1), of 1 0 0] show ?thesis by (auto simp: upt_rec)
qed

theorem send_wakeup_is_lost_witness:
  "\<exists>st st1. net_run bytes_codec accept_run NetworkServer_new = Inr st \<and>
     net_run bytes_codec [AppSend 1 [8], Worker good_ws, Kernel 1 True 5 [], Worker good_ws] st = Inr st1 \<and>
     m_sendQueue (objs st1 ! 1) = [[1, 0, 0, 0, 212]] \<and> \<not> m_isSending (objs st1 ! 1)"
proof -
  obtain st where st: "net_run bytes_codec accept_run NetworkServer_new = Inr st" "length (objs st) = 2"
    "m_isSending (objs st ! 1)" "iocp st = []" "length (pending st) = 3" "pending st ! 1 = 3"
    "tasks st 3 = Some (TaskSend (Some 1) ERunning 5 [[1, 0, 0, 0, 219]])"
    "\<forall>a. serves 1 (tasks st a) \<longrightarrow> a = 3" "m_sendQueue (objs st ! 1) = []" by (rule accepted)
  have "\<exists>st1. net_run bytes_codec [AppSend 1 [8], Worker good_ws, Kernel 1 True 5 [], Worker good_ws] st = Inr st1 \<and>
    (\<forall>es' st'. (\<forall>m'. AppSend 1 m' \<notin> set es') \<longrightarrow> net_run bytes_codec es' st1 = Inr st' \<longrightarrow>
       m_sendQueue (objs st' ! 1) = m_sendQueue (objs st ! 1) @ [[1, 0, 0, 0, 212]] \<and> sent_log st' 1 = sent_log st 1 \<and>
       \<not> m_isSending (objs st' ! 1) \<and> (\<forall>a. \<not> serves 1 (tasks st' a)))"
    by (rule send_wakeup_is_lost [OF st(1)]) (use st in \<open>simp_all add: packets bytes_codec_def\<close>)
  then obtain st1 where st1: "net_run bytes_codec [AppSend 1 [8], Worker good_ws, Kernel 1 True 5 [], Worker good_ws] st = Inr st1"
    "\<forall>es' st'. (\<forall>m'. AppSend 1 m' \<notin> set es') \<longrightarrow> net_run bytes_codec es' st1 = Inr st' \<longrightarrow>
       m_sendQueue (objs st' ! 1) = m_sendQueue (objs st ! 1) @ [[1, 0, 0, 0, 212]] \<and> sent_log st' 1 = sent_log st 1 \<and>
       \<not> m_isSending (objs st' ! 1) \<and> (\<forall>a. \<not> serves 1 (tasks st' a))" by blast
  from st1(2) [rule_format, of "[]" st1] st(1,9) st1(1) show ?thesis by auto
qed

lemma recv_all_jobs:
  assumes "o1 < length (objs st)"
  shows "objs (recv_all cdc o1 ps st) = (objs st)[o1 := (objs st ! o1)\<lparr>m_jobQueue := m_jobQueue (objs st ! o1) @
      map (\<lambda>m. \<lparr>m_message = m, MessageJob.m_sessionID = m_sessionID (objs st ! o1)\<rparr>) (List.map_filter (unpack cdc) ps)\<rparr>]"
  using assms
proof (induction ps arbitrary: st)
  case (Cons p ps)
  have l: "o1 < length (objs (OnRecvMessage cdc o1 p st))" using Cons.prems by simp
  show ?case
    using Cons.IH [OF l] Cons.prems
    by (auto simp: OnRecvMessage_def upd_session_def List.map_filter_simps split: option.splits)
qed (simp add: List.map_filter_simps)

lemma receive_completes:
  assumes "iocp st = []" "i < length (pending st)" "tasks st (pending st ! i) = Some (TaskReceiveIO (Some o1) ERunning)"
    and "o1 < length (objs st)" "data \<noteq> []"
    and "receive (m_recvRingQueue (objs st ! o1)) data = (q, packets, Parsed)"
  shows "\<exists>st'. net_run cdc [Kernel i True n data, Worker ws] st = Inr st' \<and>
    m_jobQueue (objs st' ! o1) = m_jobQueue (objs st ! o1) @
      map (\<lambda>m. \<lparr>m_message = m, MessageJob.m_sessionID = m_sessionID (objs st ! o1)\<rparr>) (List.map_filter (unpack cdc) packets) \<and>
    m_recvRingQueue (objs st' ! o1) = q \<and> m_sessions st' = m_sessions st \<and>
    (tasks st' (pending st ! i) \<noteq> None \<longleftrightarrow> 0 < GetWriteSize q \<and> ws_recv ws)"
proof -
  let ?a = "pending st ! i" and ?s = "objs st ! o1" and ?q = "m_recvRingQueue (objs st ! o1)"
  obtain b where b: "wsa_fill (m_Buffer ?q) (GetDirectEnQData ?q []) data = Inr b"
    "parse_loop PARSE_FUEL (MoveWitePosition (?q\<lparr>m_Buffer := b\<rparr>) (int (length data))) = (q, packets, Parsed)"
    using assms(6) by (auto simp: receive_def split: sum.splits)
  let ?s1 = "upd_session o1 (\<lambda>s. s\<lparr>m_recvRingQueue := ?q\<lparr>m_Buffer := b\<rparr>\<rparr>) st"
  let ?st1 = "?s1\<lparr>pending := take i (pending st) @ drop (Suc i) (pending st), iocp := [(?a, True, length data)]\<rparr>"
  have k: "kernel_complete i True n data st = ?st1" using assms(1-3) b(1) by (simp add: kernel_complete_def)
  let ?st2 = "recv_all cdc o1 packets (upd_session o1 (\<lambda>s. s\<lparr>m_recvRingQueue := q\<rparr>) (?st1\<lparr>iocp := []\<rparr>))"
  obtain again t st3 where r: "ReceiveIO_Start ws ?a (Some o1) ?st2 = (again, t, st3)" by (cases "ReceiveIO_Start ws ?a (Some o1) ?st2") auto
  have "m_recvRingQueue (objs ?st1 ! o1) = ?q\<lparr>m_Buffer := b\<rparr>" using assms(4) by (simp add: upd_session_def)
  then have run: "ReceiveIO_Run cdc ws ?a (Some o1) ERunning True (length data) (?st1\<lparr>iocp := []\<rparr>) = Inr (again, t, st3)"
    using assms(5) b(2) r by (simp add: ReceiveIO_Run_def ReceiveIO_Complete_def)
  let ?st' = "st3\<lparr>tasks := (tasks st3)(?a := if again then Some t else None)\<rparr>"
  have "net_run cdc [Kernel i True n data, Worker ws] st = Inr ?st'"
    using k run assms(3) by (simp add: WorkerThread_round_def)
  moreover have o2: "objs ?st2 = (objs st)[o1 := ?s\<lparr>m_recvRingQueue := q, m_jobQueue := m_jobQueue ?s @
      map (\<lambda>m. \<lparr>m_message = m, MessageJob.m_sessionID = m_sessionID ?s\<rparr>) (List.map_filter (unpack cdc) packets)\<rparr>]"
    by (subst recv_all_jobs) (use assms(4) in \<open>simp_all add: upd_session_def\<close>)
  moreover have "objs st3 = objs ?st2 \<and> m_sessions st3 = m_sessions ?st2 \<and> again = (0 < GetWriteSize q \<and> ws_recv ws)"
    using r o2 assms(4) by (auto simp: ReceiveIO_Start_def request_def split: if_splits)
  moreover have "m_sessions (recv_all cdc o1 ps x) = m_sessions x" for ps x
    by (induction ps arbitrary: x) (auto simp: OnRecvMessage_def split: option.splits)
  ultimately show ?thesis using assms(4) by (intro exI [of _ ?st']) (simp split: if_splits)
qed

text \<open>
  From the socket to the job queue: when the kernel completes a pending receive with \<open>data\<close>
  and a worker takes the completion, every packet the parser cuts off the ring and the verifier
  accepts becomes one job of the session, in order and with the session's id; the ring is what
  the parser left; the receive is requested again exactly when the ring has room and \<^verbatim>\<open>WSARecv\<close>
  accepts, and otherwise the task is deleted while the session stays in the table.
\<close>

theorem receive_turns_packets_into_jobs:
  assumes "iocp st = []" "i < length (pending st)" "tasks st (pending st ! i) = Some (TaskReceiveIO (Some o1) ERunning)"
    and "o1 < length (objs st)" "data \<noteq> []"
    and "receive (m_recvRingQueue (objs st ! o1)) data = (q, packets, Parsed)"
  shows "\<exists>st'. net_run cdc [Kernel i True n data, Worker ws] st = Inr st' \<and>
    m_jobQueue (objs st' ! o1) = m_jobQueue (objs st ! o1) @
      map (\<lambda>m. \<lparr>m_message = m, MessageJob.m_sessionID = m_sessionID (objs st ! o1)\<rparr>) (List.map_filter (unpack cdc) packets) \<and>
    m_recvRingQueue (objs st' ! o1) = q \<and> m_sessions st' = m_sessions st \<and>
    (tasks st' (pending st ! i) \<noteq> None \<longleftrightarrow> 0 < GetWriteSize q \<and> ws_recv ws)"
  by (rule receive_completes [OF assms])

definition receiving :: "byte list NetworkServer" where
  "receiving = NetworkServer_new\<lparr>objs := [NetworkSession_new 1 0], tasks := [0 \<mapsto> TaskReceiveIO (Some 0) ERunning],
     next_task := 1, pending := [0]\<rparr>"

theorem receive_turns_packets_into_jobs_witness:
  "\<exists>st'. net_run bytes_codec [Kernel 0 True 0 (frame [7] @ frame [8]), Worker good_ws] receiving = Inr st' \<and>
     m_jobQueue (objs st' ! 0) =
       [\<lparr>m_message = [1, 0, 0, 0, 7], MessageJob.m_sessionID = 1\<rparr>, \<lparr>m_message = [1, 0, 0, 0, 8], MessageJob.m_sessionID = 1\<rparr>]"
proof -
  let ?d = "frame [7] @ frame [8]"
  have w: "int (length ?d) \<le> GetWriteSize RingQ_new"
    by (simp add: GetWriteSize_def RingQ_new_def RING_BUFFER_SIZE_def crem_nonneg)
  have p: "(m_readPosition RingQ_new + 1) mod 7000 = 1" by (simp add: RingQ_new_def)
  obtain rest where f: "parse_bytes 1 ?d = ([size_prefixed [7], size_prefixed [8]], rest, Parsed)"
    using parse_frames [of "[[7], [8]]" 1] by (auto simp: stream_status_def)
  obtain q where r: "receive RingQ_new ?d = (q, [size_prefixed [7], size_prefixed [8]], Parsed)"
    using receive_correct [OF RingQ_new_inv(1) w] by (auto simp: p RingQ_new_inv(2) f)
  have sp: "size_prefixed [7] = [1, 0, 0, 0, 7]" "size_prefixed [8] = [1, 0, 0, 0, 8]" by (simp_all add: size_prefixed_def numeral_eq_Suc)
  have "\<exists>st'. net_run bytes_codec [Kernel 0 True 0 ?d, Worker good_ws] receiving = Inr st' \<and>
    m_jobQueue (objs st' ! 0) = m_jobQueue (objs receiving ! 0) @
      map (\<lambda>m. \<lparr>m_message = m, MessageJob.m_sessionID = m_sessionID (objs receiving ! 0)\<rparr>)
        (List.map_filter (unpack bytes_codec) [size_prefixed [7], size_prefixed [8]]) \<and>
    m_recvRingQueue (objs st' ! 0) = q \<and> m_sessions st' = m_sessions receiving \<and>
    (tasks st' (pending receiving ! 0) \<noteq> None \<longleftrightarrow> 0 < GetWriteSize q \<and> ws_recv good_ws)"
    by (rule receive_turns_packets_into_jobs)
      (use r in \<open>simp_all add: receiving_def NetworkServer_new_def NetworkSession_new_def frame_def size_prefixed_def numeral_eq_Suc\<close>)
  then show ?thesis
    by (auto simp: sp bytes_codec_def receiving_def NetworkSession_new_def List.map_filter_simps simp del: net_run.simps)
qed

end
