(* ===== verification/Bot_Manager.thy ===== *)
theory Bot_Manager
  imports Network
begin

text \<open>
  The load generator (DummyClient): the configuration read from the console (main.cpp), the
  bots with their scenarios (BotManager.h, BotManager.cpp) and the main loop (DummyClient.cpp),
  on top of the network layer of \<open>Network\<close>. A \<^verbatim>\<open>Tick\<close> is one step between steps of the network's
  own threads. \<open>clk\<close> gives the successive readings of \<^verbatim>\<open>steady_clock\<close> in nanoseconds; the
  generated message \<^verbatim>\<open>CLGS_AUTHEN_REQT\<close> is built by the parameter \<open>authen_req\<close>.
\<close>

section \<open>Configuration and state\<close>

datatype BotScenario = StaticSendRecv | DisconnectOnly | Reconnect

record BotConfig =
  scenario :: BotScenario
  botCount :: int32
  packetsPerBot :: int32
  packetIntervalMs :: int32
  reconnectDelayMs :: int32
  reconnectRatePct :: int32

definition BotConfig_new :: BotConfig where
  "BotConfig_new = \<lparr>scenario = StaticSendRecv, botCount = 10, packetsPerBot = 30, packetIntervalMs = 100,
     reconnectDelayMs = 1000, reconnectRatePct = 50\<rparr>"

datatype BotState = Connecting | Connected | Disconnected

record Bot =
  slot :: int32
  sessionID :: session_id
  packetsSent :: int32
  totalPacketsSent :: int32
  reconnectCount :: int32
  state :: BotState
  nextSendTime :: int
  nextActionTime :: int

definition Bot_new :: Bot where
  "Bot_new = \<lparr>slot = 0, sessionID = 0, packetsSent = 0, totalPacketsSent = 0, reconnectCount = 0, state = Connecting,
     nextSendTime = 0, nextActionTime = 0\<rparr>"

text \<open>A line printed by \<^verbatim>\<open>PrintLiveStats\<close>.\<close>

record live_stats =
  ls_elapsed :: int
  ls_connected :: int
  ls_connecting :: int
  ls_disconnected :: int
  ls_sent :: int
  ls_disc :: int
  ls_reco :: int
  ls_err :: int

text \<open>
  The manager. The 64-bit counters and the last assigned id grow by one at a time and are
  unbounded here (an overflow takes \<open>2 ^ 63\<close> packets or sessions); the 32-bit ones wrap.
  \<open>printed\<close> collects the output.
\<close>

record BotManager =
  m_cfg :: BotConfig
  m_dispatcher :: nat
  m_bots :: "Bot list"
  m_lastAssignedID :: session_id
  m_startTime :: int
  m_nextStatsTime :: int
  m_totalSent :: int
  m_totalDisconnects :: int
  m_totalReconnects :: int
  m_totalSendErrors :: int
  m_stopRequested :: bool
  printed :: "live_stats list"

definition BotManager_new :: BotManager where
  "BotManager_new = \<lparr>m_cfg = BotConfig_new, m_dispatcher = 0, m_bots = [], m_lastAssignedID = 0, m_startTime = 0,
     m_nextStatsTime = 0, m_totalSent = 0, m_totalDisconnects = 0, m_totalReconnects = 0, m_totalSendErrors = 0,
     m_stopRequested = False, printed = []\<rparr>"

text \<open>The manager, the network it uses, and the number of clock readings made.\<close>

record 'm client =
  mgr :: BotManager
  server :: "'m NetworkServer"
  reads :: nat

definition clock_now :: "(nat \<Rightarrow> int) \<Rightarrow> 'm client \<Rightarrow> int \<times> 'm client" where
  "clock_now clk c = (clk (reads c), c\<lparr>reads := reads c + 1\<rparr>)"

definition milliseconds :: "int \<Rightarrow> int" where
  "milliseconds n = n * 1000000"

definition seconds :: "int \<Rightarrow> int" where
  "seconds n = n * 1000000000"

section \<open>Initialize and Start\<close>

text \<open>\<^verbatim>\<open>resize\<close> converts the count to \<^verbatim>\<open>size_t\<close>: a negative count exceeds \<^verbatim>\<open>max_size\<close>.\<close>

definition resize :: "int \<Rightarrow> Bot list \<Rightarrow> Bot list result" where
  "resize n bots =
     (if n < 0 then Inl LengthError
      else Inr (take (nat n) bots @ replicate (nat n - length bots) Bot_new))"

fun number_slots :: "int \<Rightarrow> Bot list \<Rightarrow> Bot list" where
  "number_slots i [] = []"
| "number_slots i (b # bs) = b\<lparr>slot := i\<rparr> # number_slots (i + 1) bs"

definition Initialize :: "BotConfig \<Rightarrow> nat \<Rightarrow> BotManager \<Rightarrow> BotManager result" where
  "Initialize cfg dispatcher m =
     (let m = m\<lparr>m_cfg := cfg, m_dispatcher := dispatcher\<rparr> in
      ebind (resize (botCount cfg) (m_bots m)) (\<lambda>bots. Inr (m\<lparr>m_bots := number_slots 0 bots\<rparr>)))"

definition upd_bot :: "nat \<Rightarrow> (Bot \<Rightarrow> Bot) \<Rightarrow> 'm client \<Rightarrow> 'm client" where
  "upd_bot i f c = c\<lparr>mgr := (mgr c)\<lparr>m_bots := (m_bots (mgr c))[i := f (m_bots (mgr c) ! i)]\<rparr>\<rparr>"

definition connect_server :: "'m client \<Rightarrow> 'm client" where
  "connect_server c = c\<lparr>server := Server_Connect ''127.0.0.1'' 7777 (m_dispatcher (mgr c)) (server c)\<rparr>"

fun start_loop :: "int \<Rightarrow> nat list \<Rightarrow> 'm client \<Rightarrow> 'm client" where
  "start_loop now [] c = c"
| "start_loop now (i # ks) c =
     start_loop now ks (upd_bot i (\<lambda>b. b\<lparr>state := Connecting, nextSendTime := now\<rparr>) (connect_server c))"

definition Start :: "(nat \<Rightarrow> int) \<Rightarrow> 'm client \<Rightarrow> 'm client" where
  "Start clk c =
     (let (now, c) = clock_now clk c;
          c = c\<lparr>mgr := (mgr c)\<lparr>m_startTime := now, m_nextStatsTime := now + seconds 1\<rparr>\<rparr>
      in start_loop now [0..<nat (botCount (m_cfg (mgr c)))] c)"

section \<open>Tick\<close>

text \<open>The loop of \<^verbatim>\<open>TryAssignSessionIDs\<close> ends at the first id that is not in the table.\<close>

fun try_assign :: "'m NetworkServer \<Rightarrow> session_id \<Rightarrow> Bot list \<Rightarrow> Bot list \<times> session_id" where
  "try_assign st lid [] = ([], lid)"
| "try_assign st lid (b # bs) =
     (if state b \<noteq> Connecting
      then (let (bs, lid) = try_assign st lid bs in (b # bs, lid))
      else case FindSession (lid + 1) st of
        None \<Rightarrow> (b # bs, lid)
      | Some _ \<Rightarrow>
          (let (bs, lid') = try_assign st (lid + 1) bs
           in (b\<lparr>sessionID := lid + 1, state := Connected\<rparr> # bs, lid')))"

definition TryAssignSessionIDs :: "'m client \<Rightarrow> 'm client" where
  "TryAssignSessionIDs c =
     (let (bots, lid) = try_assign (server c) (m_lastAssignedID (mgr c)) (m_bots (mgr c))
      in c\<lparr>mgr := (mgr c)\<lparr>m_bots := bots, m_lastAssignedID := lid\<rparr>\<rparr>)"

text \<open>The arguments of \<open>authen_req\<close> are the fields seq, accounttoken, reconnect and connectSessionKey.\<close>

definition SendPacket ::
  "'m codec \<Rightarrow> (int \<Rightarrow> string \<Rightarrow> bool \<Rightarrow> string \<Rightarrow> 'm) \<Rightarrow> Bot \<Rightarrow> 'm NetworkServer \<Rightarrow> (bool \<times> 'm NetworkServer) result" where
  "SendPacket cdc authen_req bt st =
     (case FindSession (sessionID bt) st of
        None \<Rightarrow> Inr (False, st)
      | Some o1 \<Rightarrow>
          ebind (Send cdc o1 (authen_req (to_int32 (packetsSent bt + 1)) ''dummy_token'' False '''') st)
            (\<lambda>st. Inr (True, st)))"

definition DisconnectBot :: "(nat \<Rightarrow> int) \<Rightarrow> nat \<Rightarrow> 'm client \<Rightarrow> 'm client" where
  "DisconnectBot clk i c =
     (let bt = m_bots (mgr c) ! i in
      if state bt \<noteq> Connected then c
      else let c = c\<lparr>server := snd (RemoveSession (sessionID bt) (server c))\<rparr>;
               (now, c) = clock_now clk c;
               c = upd_bot i (\<lambda>b. b\<lparr>sessionID := 0, state := Disconnected,
                     nextActionTime := now + milliseconds (reconnectDelayMs (m_cfg (mgr c)))\<rparr>) c
           in c\<lparr>mgr := (mgr c)\<lparr>m_totalDisconnects := m_totalDisconnects (mgr c) + 1\<rparr>\<rparr>)"

definition ReconnectBot :: "nat \<Rightarrow> 'm client \<Rightarrow> 'm client" where
  "ReconnectBot i c =
     (let c = connect_server c;
          c = upd_bot i (\<lambda>b. b\<lparr>state := Connecting, packetsSent := 0, reconnectCount := to_int32 (reconnectCount b + 1)\<rparr>) c
      in c\<lparr>mgr := (mgr c)\<lparr>m_totalReconnects := m_totalReconnects (mgr c) + 1\<rparr>\<rparr>)"

definition ShouldThisBotReconnect :: "BotConfig \<Rightarrow> int32 \<Rightarrow> bool" where
  "ShouldThisBotReconnect cfg s \<longleftrightarrow> to_int32 (s * 100) sdiv max (botCount cfg) 1 < reconnectRatePct cfg"

definition tick_send ::
  "'m codec \<Rightarrow> (int \<Rightarrow> string \<Rightarrow> bool \<Rightarrow> string \<Rightarrow> 'm) \<Rightarrow> int \<Rightarrow> nat \<Rightarrow> 'm client \<Rightarrow> 'm client result" where
  "tick_send cdc authen_req now i c =
     (let bt = m_bots (mgr c) ! i; cfg = m_cfg (mgr c) in
      if packetsSent bt < packetsPerBot cfg \<and> now \<ge> nextSendTime bt
      then ebind (SendPacket cdc authen_req bt (server c)) (\<lambda>(sent, st).
        let c = c\<lparr>server := st\<rparr>;
            c = (if sent
                 then (let c = upd_bot i (\<lambda>b. b\<lparr>packetsSent := to_int32 (packetsSent b + 1),
                                  totalPacketsSent := to_int32 (totalPacketsSent b + 1)\<rparr>) c
                       in c\<lparr>mgr := (mgr c)\<lparr>m_totalSent := m_totalSent (mgr c) + 1\<rparr>\<rparr>)
                 else c\<lparr>mgr := (mgr c)\<lparr>m_totalSendErrors := m_totalSendErrors (mgr c) + 1\<rparr>\<rparr>)
        in Inr (upd_bot i (\<lambda>b. b\<lparr>nextSendTime := now + milliseconds (packetIntervalMs cfg)\<rparr>) c))
      else Inr c)"

definition tick_cycle :: "(nat \<Rightarrow> int) \<Rightarrow> nat \<Rightarrow> 'm client \<Rightarrow> 'm client" where
  "tick_cycle clk i c =
     (let bt = m_bots (mgr c) ! i; cfg = m_cfg (mgr c) in
      if packetsSent bt \<ge> packetsPerBot cfg
      then (case scenario cfg of
              StaticSendRecv \<Rightarrow> upd_bot i (\<lambda>b. b\<lparr>packetsSent := 0\<rparr>) c
            | DisconnectOnly \<Rightarrow> DisconnectBot clk i c
            | Reconnect \<Rightarrow>
                if ShouldThisBotReconnect cfg (slot bt) then DisconnectBot clk i c
                else upd_bot i (\<lambda>b. b\<lparr>packetsSent := 0\<rparr>) c)
      else c)"

definition tick_bot ::
  "(nat \<Rightarrow> int) \<Rightarrow> 'm codec \<Rightarrow> (int \<Rightarrow> string \<Rightarrow> bool \<Rightarrow> string \<Rightarrow> 'm) \<Rightarrow> int \<Rightarrow> nat \<Rightarrow> 'm client \<Rightarrow> 'm client result" where
  "tick_bot clk cdc authen_req now i c =
     (let bt = m_bots (mgr c) ! i in
      case state bt of
        Connected \<Rightarrow> ebind (tick_send cdc authen_req now i c) (\<lambda>c. Inr (tick_cycle clk i c))
      | Disconnected \<Rightarrow> Inr (if now \<ge> nextActionTime bt then ReconnectBot i c else c)
      | Connecting \<Rightarrow> Inr c)"

fun tick_loop ::
  "(nat \<Rightarrow> int) \<Rightarrow> 'm codec \<Rightarrow> (int \<Rightarrow> string \<Rightarrow> bool \<Rightarrow> string \<Rightarrow> 'm) \<Rightarrow> int \<Rightarrow> nat list \<Rightarrow> 'm client \<Rightarrow> 'm client result" where
  "tick_loop clk cdc authen_req now [] c = Inr c"
| "tick_loop clk cdc authen_req now (i # ks) c =
     ebind (tick_bot clk cdc authen_req now i c) (tick_loop clk cdc authen_req now ks)"

definition count_state :: "BotState \<Rightarrow> Bot list \<Rightarrow> int" where
  "count_state s bots = int (length (filter (\<lambda>b. state b = s) bots))"

definition PrintLiveStats :: "(nat \<Rightarrow> int) \<Rightarrow> 'm client \<Rightarrow> 'm client" where
  "PrintLiveStats clk c =
     (let (now, c) = clock_now clk c; m = mgr c;
          line = \<lparr>ls_elapsed = to_int32 ((now - m_startTime m) sdiv seconds 1),
                  ls_connected = count_state Connected (m_bots m), ls_connecting = count_state Connecting (m_bots m),
                  ls_disconnected = count_state Disconnected (m_bots m), ls_sent = m_totalSent m,
                  ls_disc = m_totalDisconnects m, ls_reco = m_totalReconnects m, ls_err = m_totalSendErrors m\<rparr>
      in c\<lparr>mgr := m\<lparr>printed := printed m @ [line]\<rparr>\<rparr>)"

definition Tick ::
  "(nat \<Rightarrow> int) \<Rightarrow> 'm codec \<Rightarrow> (int \<Rightarrow> string \<Rightarrow> bool \<Rightarrow> string \<Rightarrow> 'm) \<Rightarrow> 'm client \<Rightarrow> 'm client result" where
  "Tick clk cdc authen_req c =
     (if m_stopRequested (mgr c) then Inr c
      else let (now, c) = clock_now clk c;
               c = TryAssignSessionIDs c
           in ebind (tick_loop clk cdc authen_req now [0..<length (m_bots (mgr c))] c) (\<lambda>c.
                if now \<ge> m_nextStatsTime (mgr c)
                then let c = PrintLiveStats clk c
                     in Inr (c\<lparr>mgr := (mgr c)\<lparr>m_nextStatsTime := now + seconds 1\<rparr>\<rparr>)
                else Inr c))"

section \<open>Summary and main loop\<close>

text \<open>
  The throughput is \<^verbatim>\<open>m_totalSent / (elapsed / 1000.0)\<close> cut to an integer, in exact arithmetic;
  it is not printed when no time has passed.
\<close>

record summary_text =
  sum_elapsed :: int
  sum_bots :: int
  sum_sent :: int
  sum_disconnects :: int
  sum_reconnects :: int
  sum_errors :: int
  sum_throughput :: "int option"

definition PrintSummary :: "(nat \<Rightarrow> int) \<Rightarrow> 'm client \<Rightarrow> summary_text" where
  "PrintSummary clk c =
     (let (now, c) = clock_now clk c; m = mgr c;
          elapsed = (now - m_startTime m) sdiv milliseconds 1
      in \<lparr>sum_elapsed = elapsed, sum_bots = botCount (m_cfg m), sum_sent = m_totalSent m,
          sum_disconnects = m_totalDisconnects m, sum_reconnects = m_totalReconnects m, sum_errors = m_totalSendErrors m,
          sum_throughput = (if elapsed > 0 then Some ((m_totalSent m * 1000) sdiv elapsed) else None)\<rparr>)"

definition RequestStop :: "BotManager \<Rightarrow> BotManager" where
  "RequestStop m = m\<lparr>m_stopRequested := True\<rparr>"

definition DummyClient_Initialize :: "BotConfig \<Rightarrow> nat \<Rightarrow> 'm client result" where
  "DummyClient_Initialize cfg dispatcher =
     ebind (Initialize cfg dispatcher BotManager_new) (\<lambda>m. Inr \<lparr>mgr = m, server = NetworkServer_new, reads = 0\<rparr>)"

text \<open>
  The loop of \<^verbatim>\<open>Run\<close>. A round is what happens while the loop ticks and sleeps: the steps of the
  network's threads, and whether Enter is pressed. When the rounds given are used up the
  loop is still running (\<open>None\<close>).
\<close>

definition round_end :: "bool \<Rightarrow> 'm NetworkServer \<Rightarrow> 'm client \<Rightarrow> 'm client" where
  "round_end enter st c = (let c = c\<lparr>server := st\<rparr> in if enter then c\<lparr>mgr := RequestStop (mgr c)\<rparr> else c)"

type_synonym 'm round = "'m net_event list \<times> bool"

fun Run_loop ::
  "(nat \<Rightarrow> int) \<Rightarrow> 'm codec \<Rightarrow> (int \<Rightarrow> string \<Rightarrow> bool \<Rightarrow> string \<Rightarrow> 'm) \<Rightarrow> 'm round list \<Rightarrow> 'm client
    \<Rightarrow> ('m client \<times> summary_text option) result" where
  "Run_loop clk cdc authen_req rounds c =
     (if m_stopRequested (mgr c) then Inr (c, Some (PrintSummary clk c))
      else case rounds of
        [] \<Rightarrow> Inr (c, None)
      | (events, enter) # rounds \<Rightarrow>
          ebind (Tick clk cdc authen_req c) (\<lambda>c.
          ebind (net_run cdc events (server c)) (\<lambda>st.
            Run_loop clk cdc authen_req rounds (round_end enter st c))))"

declare Run_loop.simps [simp del]

text \<open>The whole client: \<^verbatim>\<open>Initialize\<close>, \<^verbatim>\<open>Start\<close>, \<^verbatim>\<open>Run\<close>.\<close>

definition main_client ::
  "(nat \<Rightarrow> int) \<Rightarrow> 'm codec \<Rightarrow> (int \<Rightarrow> string \<Rightarrow> bool \<Rightarrow> string \<Rightarrow> 'm) \<Rightarrow> BotConfig \<Rightarrow> nat \<Rightarrow> 'm round list
    \<Rightarrow> ('m client \<times> summary_text option) result" where
  "main_client clk cdc authen_req cfg dispatcher rounds =
     ebind (DummyClient_Initialize cfg dispatcher) (\<lambda>c. Run_loop clk cdc authen_req rounds (Start clk c))"

section \<open>The console\<close>

text \<open>\<^verbatim>\<open>std::stoi\<close>: white space, a sign, digits; \<open>None\<close> when it throws.\<close>

definition is_space :: "char \<Rightarrow> bool" where
  "is_space ch \<longleftrightarrow> of_char ch = (32 :: nat) \<or> 9 \<le> (of_char ch :: nat) \<and> (of_char ch :: nat) \<le> 13"

definition digit :: "char \<Rightarrow> int option" where
  "digit ch = (let n = of_char ch :: nat in if 48 \<le> n \<and> n \<le> 57 then Some (int n - 48) else None)"

fun digits :: "string \<Rightarrow> int \<Rightarrow> int" where
  "digits [] acc = acc"
| "digits (ch # cs) acc = (case digit ch of None \<Rightarrow> acc | Some d \<Rightarrow> digits cs (acc * 10 + d))"

definition stoi :: "string \<Rightarrow> int32 option" where
  "stoi line =
     (let s = dropWhile is_space line;
          (neg, s) = (case s of CHR ''-'' # r \<Rightarrow> (True, r) | CHR ''+'' # r \<Rightarrow> (False, r) | _ \<Rightarrow> (False, s))
      in (case s of
            [] \<Rightarrow> None
          | ch # _ \<Rightarrow>
              if digit ch = None then None
              else let v = (if neg then - digits s 0 else digits s 0)
                   in if - (2 ^ 31) \<le> v \<and> v < 2 ^ 31 then Some v else None))"

text \<open>\<^verbatim>\<open>getline\<close> gives the next line, or an empty one at the end of the input.\<close>

definition ReadInt :: "int32 \<Rightarrow> string list \<Rightarrow> int32 \<times> string list" where
  "ReadInt defaultValue input =
     (let line = (case input of [] \<Rightarrow> [] | l # _ \<Rightarrow> l);
          rest = tl input
      in if line = [] then (defaultValue, rest)
         else case stoi line of Some v \<Rightarrow> (v, rest) | None \<Rightarrow> (defaultValue, rest))"

definition scenario_of :: "int32 \<Rightarrow> BotScenario" where
  "scenario_of s = (let v = max 1 (min s 3) in if v = 1 then StaticSendRecv else if v = 2 then DisconnectOnly else Reconnect)"

definition ReadConfigFromConsole :: "string list \<Rightarrow> BotConfig" where
  "ReadConfigFromConsole input =
     (let cfg = BotConfig_new;
          (s, input) = ReadInt 1 input;
          cfg = cfg\<lparr>scenario := scenario_of s\<rparr>;
          (n, input) = ReadInt 10 input;
          cfg = cfg\<lparr>botCount := n\<rparr>;
          (n, input) = ReadInt 30 input;
          cfg = cfg\<lparr>packetsPerBot := n\<rparr>;
          (n, input) = ReadInt 100 input;
          cfg = cfg\<lparr>packetIntervalMs := n\<rparr>
      in if scenario cfg = Reconnect
         then (let (n, input) = ReadInt 50 input;
                   cfg = cfg\<lparr>reconnectRatePct := n\<rparr>;
                   (n, input) = ReadInt 1000 input
               in cfg\<lparr>reconnectDelayMs := n\<rparr>)
         else cfg)"

section \<open>What one bot's turn does\<close>

text \<open>Packet counters: below the length of a cycle, which a disconnected bot has just completed.\<close>

definition packets_ok :: "BotConfig \<Rightarrow> Bot \<Rightarrow> bool" where
  "packets_ok cfg b \<longleftrightarrow> 0 \<le> packetsSent b \<and>
     (if state b = Disconnected then packetsSent b \<le> max 0 (packetsPerBot cfg) else packetsSent b < max 1 (packetsPerBot cfg))"

definition id_ok :: "session_id \<Rightarrow> Bot \<Rightarrow> bool" where
  "id_ok lid b \<longleftrightarrow> (if state b = Connected then 1 \<le> sessionID b \<and> sessionID b \<le> lid else sessionID b = 0)"

definition disconnected :: "Bot \<Rightarrow> int" where
  "disconnected b = of_bool (state b = Disconnected)"

text \<open>The parts of the manager that a bot's turn leaves alone.\<close>

definition same_setup :: "BotManager \<Rightarrow> BotManager \<Rightarrow> bool" where
  "same_setup m m' \<longleftrightarrow> m_cfg m' = m_cfg m \<and> m_lastAssignedID m' = m_lastAssignedID m \<and> m_stopRequested m' = m_stopRequested m"

text \<open>
  The turn of bot \<open>i\<close>: no other bot changes; the bot keeps its slot, becomes connected in no
  other way than having been so, and its counters move with the totals (the 32-bit ones
  modulo \<open>2 ^ 32\<close>).
\<close>

definition bot_turn :: "nat \<Rightarrow> BotManager \<Rightarrow> BotManager \<Rightarrow> bool" where
  "bot_turn i m m' \<longleftrightarrow> (let b = m_bots m ! i; b' = m_bots m' ! i in
     same_setup m m' \<and> m_bots m' = (m_bots m)[i := b'] \<and> slot b' = slot b \<and>
     (state b' = Connected \<longrightarrow> state b = Connected \<and> sessionID b' = sessionID b) \<and>
     (\<forall>lid. id_ok lid b \<longrightarrow> id_ok lid b') \<and>
     disconnected b' - disconnected b = (m_totalDisconnects m' - m_totalReconnects m') - (m_totalDisconnects m - m_totalReconnects m) \<and>
     2 ^ 32 dvd (totalPacketsSent b' - totalPacketsSent b) - (m_totalSent m' - m_totalSent m) \<and>
     2 ^ 32 dvd (reconnectCount b' - reconnectCount b) - (m_totalReconnects m' - m_totalReconnects m))"

lemma bot_turn_refl: "bot_turn i m m"
  by (simp add: bot_turn_def same_setup_def)

lemma dvd_chain:
  assumes "(k :: int) dvd (x1 - x0) - (t1 - t0)" "k dvd (x2 - x1) - (t2 - t1)"
  shows "k dvd (x2 - x0) - (t2 - t0)"
proof -
  have "(x2 - x0) - (t2 - t0) = ((x1 - x0) - (t1 - t0)) + ((x2 - x1) - (t2 - t1))" by simp
  then show ?thesis using dvd_add [OF assms] by (simp only:)
qed

lemma bot_turn_trans:
  assumes "bot_turn i m m1" "bot_turn i m1 m2"
  shows "bot_turn i m m2"
proof -
  note a = assms [unfolded bot_turn_def Let_def]
  have tp: "2 ^ 32 dvd (totalPacketsSent (m_bots m2 ! i) - totalPacketsSent (m_bots m ! i)) - (m_totalSent m2 - m_totalSent m)"
    using a by (blast intro: dvd_chain)
  have rc: "2 ^ 32 dvd (reconnectCount (m_bots m2 ! i) - reconnectCount (m_bots m ! i)) - (m_totalReconnects m2 - m_totalReconnects m)"
    using a by (blast intro: dvd_chain)
  have "m_bots m2 = (m_bots m)[i := m_bots m2 ! i]" using a by (metis list_update_overwrite)
  then show ?thesis using assms tp rc by (simp add: bot_turn_def same_setup_def Let_def)
qed

lemma to_int32_step: "2 ^ 32 dvd to_int32 (v + 1) - v - 1"
proof -
  have "to_int32 (v + 1) - v - 1 = - ((v + 1 + 2 ^ 31) div 2 ^ 32) * 2 ^ 32"
    unfolding to_int32_def using div_mult_mod_eq [of "v + 1 + 2 ^ 31" "2 ^ 32"] by linarith
  then show ?thesis by simp
qed

lemmas turn_simps = bot_turn_def same_setup_def id_ok_def disconnected_def upd_bot_def clock_now_def Let_def nth_list_update

lemma DisconnectBot_turn: "i < length (m_bots (mgr c)) \<Longrightarrow> bot_turn i (mgr c) (mgr (DisconnectBot clk i c))"
  by (auto simp: DisconnectBot_def turn_simps)

lemma ReconnectBot_turn:
  "i < length (m_bots (mgr c)) \<Longrightarrow> state (m_bots (mgr c) ! i) = Disconnected \<Longrightarrow> bot_turn i (mgr c) (mgr (ReconnectBot i c))"
  using to_int32_step [of "reconnectCount (m_bots (mgr c) ! i)"]
  by (auto simp: ReconnectBot_def connect_server_def turn_simps algebra_simps)

lemma upd_bot_turn:
  "i < length (m_bots (mgr c)) \<Longrightarrow> (\<And>b. slot (f b) = slot b \<and> state (f b) = state b \<and> sessionID (f b) = sessionID b \<and>
     totalPacketsSent (f b) = totalPacketsSent b \<and> reconnectCount (f b) = reconnectCount b) \<Longrightarrow>
    bot_turn i (mgr c) (mgr (upd_bot i f c))"
  by (simp add: turn_simps)

lemma tick_cycle_turn:
  assumes "i < length (m_bots (mgr c))"
  shows "bot_turn i (mgr c) (mgr (tick_cycle clk i c))"
  using upd_bot_turn [OF assms, of "\<lambda>b. b\<lparr>packetsSent := 0\<rparr>"] DisconnectBot_turn [OF assms, of clk]
  by (simp add: tick_cycle_def bot_turn_refl Let_def split: BotScenario.split)

lemma tick_send_turn:
  assumes "tick_send cdc authen_req now i c = Inr c'" "i < length (m_bots (mgr c))"
  shows "bot_turn i (mgr c) (mgr c')"
  using assms to_int32_step [of "totalPacketsSent (m_bots (mgr c) ! i)"]
  by (auto simp: tick_send_def turn_simps algebra_simps split: if_splits)

lemma tick_bot_turn:
  assumes "tick_bot clk cdc authen_req now i c = Inr c'" "i < length (m_bots (mgr c))"
  shows "bot_turn i (mgr c) (mgr c')"
proof (cases "state (m_bots (mgr c) ! i)")
  case Connected
  then obtain c1 where c1: "tick_send cdc authen_req now i c = Inr c1" "c' = tick_cycle clk i c1"
    using assms(1) by (auto simp: tick_bot_def)
  have "bot_turn i (mgr c) (mgr c1)" by (rule tick_send_turn [OF c1(1) assms(2)])
  moreover have "length (m_bots (mgr c1)) = length (m_bots (mgr c))"
    using calculation unfolding bot_turn_def Let_def by (metis length_list_update)
  ultimately show ?thesis using tick_cycle_turn [of i c1 clk] assms(2) c1(2) by (auto intro: bot_turn_trans)
qed (use assms ReconnectBot_turn bot_turn_refl in \<open>auto simp: tick_bot_def split: if_splits\<close>)

text \<open>The packet counter, over the two halves of a turn.\<close>

lemma tick_send_packets:
  assumes "tick_send cdc authen_req now i c = Inr c'" "i < length (m_bots (mgr c))" "packetsPerBot (m_cfg (mgr c)) < 2 ^ 31"
    "packets_ok (m_cfg (mgr c)) (m_bots (mgr c) ! i)" "state (m_bots (mgr c) ! i) = Connected"
  shows "0 \<le> packetsSent (m_bots (mgr c') ! i) \<and> packetsSent (m_bots (mgr c') ! i) \<le> max 0 (packetsPerBot (m_cfg (mgr c))) \<and>
    state (m_bots (mgr c') ! i) = Connected"
  using assms by (auto simp: tick_send_def upd_bot_def packets_ok_def to_int32_id Let_def split: if_splits)

lemma tick_cycle_packets:
  assumes "i < length (m_bots (mgr c))" "0 \<le> packetsSent (m_bots (mgr c) ! i)"
    "packetsSent (m_bots (mgr c) ! i) \<le> max 0 (packetsPerBot (m_cfg (mgr c)))" "state (m_bots (mgr c) ! i) = Connected"
  shows "packets_ok (m_cfg (mgr c)) (m_bots (mgr (tick_cycle clk i c)) ! i)"
  using assms by (auto simp: tick_cycle_def DisconnectBot_def upd_bot_def clock_now_def packets_ok_def Let_def split: BotScenario.split)

lemma tick_bot_packets:
  assumes "tick_bot clk cdc authen_req now i c = Inr c'" "i < length (m_bots (mgr c))" "packetsPerBot (m_cfg (mgr c)) < 2 ^ 31"
    "packets_ok (m_cfg (mgr c)) (m_bots (mgr c) ! i)"
  shows "packets_ok (m_cfg (mgr c)) (m_bots (mgr c') ! i)"
proof (cases "state (m_bots (mgr c) ! i)")
  case Connected
  then obtain c1 where c1: "tick_send cdc authen_req now i c = Inr c1" "c' = tick_cycle clk i c1"
    using assms(1) by (auto simp: tick_bot_def)
  have t: "m_cfg (mgr c1) = m_cfg (mgr c)" "length (m_bots (mgr c1)) = length (m_bots (mgr c))"
    using tick_send_turn [OF c1(1) assms(2)] unfolding bot_turn_def same_setup_def Let_def by (metis length_list_update)+
  show ?thesis using tick_cycle_packets [of i c1 clk] tick_send_packets [OF c1(1) assms(2-4) Connected] t assms(2) c1(2) by simp
qed (use assms in \<open>auto simp: tick_bot_def ReconnectBot_def connect_server_def upd_bot_def packets_ok_def Let_def split: if_splits\<close>)

section \<open>The bots over a run\<close>

definition connected_ids :: "Bot list \<Rightarrow> session_id list" where
  "connected_ids bots = map sessionID (filter (\<lambda>b. state b = Connected) bots)"

definition bots_inv :: "BotConfig \<Rightarrow> BotManager \<Rightarrow> bool" where
  "bots_inv cfg m \<longleftrightarrow> m_cfg m = cfg \<and> int (length (m_bots m)) = botCount cfg \<and> 0 \<le> m_lastAssignedID m \<and>
     map slot (m_bots m) = map int [0..<length (m_bots m)] \<and>
     (\<forall>b \<in> set (m_bots m). id_ok (m_lastAssignedID m) b \<and> packets_ok cfg b) \<and> distinct (connected_ids (m_bots m)) \<and>
     m_totalDisconnects m - m_totalReconnects m = wsum disconnected (m_bots m) \<and>
     2 ^ 32 dvd wsum totalPacketsSent (m_bots m) - m_totalSent m \<and>
     2 ^ 32 dvd wsum reconnectCount (m_bots m) - m_totalReconnects m"

lemma connected_ids_update:
  "(state b = Connected \<longrightarrow> state (bots ! i) = Connected \<and> sessionID b = sessionID (bots ! i)) \<Longrightarrow> i < length bots \<Longrightarrow>
    distinct (connected_ids bots) \<Longrightarrow> distinct (connected_ids (bots[i := b])) \<and> set (connected_ids (bots[i := b])) \<subseteq> set (connected_ids bots)"
proof (induction bots arbitrary: i)
  case (Cons x bots)
  show ?case
  proof (cases i)
    case 0
    then show ?thesis using Cons.prems by (auto simp: connected_ids_def)
  next
    case (Suc k)
    have "distinct (connected_ids bots)" using Cons.prems(3) by (simp add: connected_ids_def split: if_splits)
    then have ih: "distinct (connected_ids (bots[k := b]))" "set (connected_ids (bots[k := b])) \<subseteq> set (connected_ids bots)"
      using Cons.IH [of k] Cons.prems Suc by auto
    have e: "connected_ids (x # ys) = (if state x = Connected then [sessionID x] else []) @ connected_ids ys" for ys
      by (simp add: connected_ids_def)
    show ?thesis using ih Cons.prems(3) unfolding Suc list_update_code e by (auto split: if_splits)
  qed
qed simp

lemma map_update_same: "i < length xs \<Longrightarrow> f y = f (xs ! i) \<Longrightarrow> map f (xs[i := y]) = map f xs"
  by (simp add: map_update list_update_same_conv)

lemma wsum_disconnected: "wsum disconnected bots = count_state Disconnected bots"
  by (induction bots) (auto simp: count_state_def disconnected_def)

lemma wsum_dvd_update:
  "i < length xs \<Longrightarrow> k dvd wsum w xs - t \<Longrightarrow> k dvd (w y - w (xs ! i)) - (t' - t) \<Longrightarrow> k dvd wsum w (xs[i := y]) - t'"
proof -
  assume a: "i < length xs" "k dvd wsum w xs - t" "k dvd (w y - w (xs ! i)) - (t' - t)"
  have "wsum w (xs[i := y]) - t' = (wsum w xs - t) + ((w y - w (xs ! i)) - (t' - t))" by (simp add: wsum_update [OF a(1)])
  then show ?thesis using dvd_add [OF a(2,3)] by (simp only:)
qed

lemma bots_inv_turn:
  assumes "bots_inv cfg m" "bot_turn i m m'" "i < length (m_bots m)" "packets_ok cfg (m_bots m' ! i)"
  shows "bots_inv cfg m'"
proof -
  let ?b = "m_bots m' ! i"
  note t = assms(2) [unfolded bot_turn_def same_setup_def Let_def] and v = assms(1) [unfolded bots_inv_def]
  have bots: "m_bots m' = (m_bots m)[i := ?b]" and cfg: "m_cfg m' = cfg" "m_lastAssignedID m' = m_lastAssignedID m" using t v by auto
  have "map slot ((m_bots m)[i := ?b]) = map slot (m_bots m)"
    by (rule map_update_same [OF assms(3)]) (use t in blast)
  then have slots: "map slot (m_bots m') = map int [0..<length (m_bots m')]" using v bots by (metis length_list_update)
  have "id_ok (m_lastAssignedID m) ?b" using t v assms(3) by auto
  then have all: "\<forall>b \<in> set (m_bots m'). id_ok (m_lastAssignedID m) b \<and> packets_ok cfg b"
    using v assms(4) set_update_subset_insert [of "m_bots m" i ?b] bots by auto
  have "distinct (connected_ids (m_bots m'))" using connected_ids_update [of ?b "m_bots m" i] t v assms(3) bots by auto
  moreover have "m_totalDisconnects m' - m_totalReconnects m' = wsum disconnected (m_bots m')"
  proof -
    have "wsum disconnected (m_bots m') = wsum disconnected (m_bots m) + disconnected ?b - disconnected (m_bots m ! i)"
      using arg_cong [OF bots, of "wsum disconnected"] unfolding wsum_update [OF assms(3)] .
    moreover have "disconnected ?b - disconnected (m_bots m ! i) =
        (m_totalDisconnects m' - m_totalReconnects m') - (m_totalDisconnects m - m_totalReconnects m)" using t by blast
    ultimately show ?thesis using v by linarith
  qed
  moreover have "2 ^ 32 dvd wsum totalPacketsSent (m_bots m') - m_totalSent m'"
    using t v by (subst bots) (blast intro: wsum_dvd_update [OF assms(3)])
  moreover have "2 ^ 32 dvd wsum reconnectCount (m_bots m') - m_totalReconnects m'"
    using t v by (subst bots) (blast intro: wsum_dvd_update [OF assms(3)])
  moreover have "int (length (m_bots m')) = botCount cfg" using v by (subst bots) simp
  ultimately show ?thesis using slots all cfg v unfolding bots_inv_def by auto
qed

lemma tick_loop_inv:
  "tick_loop clk cdc authen_req now ks c = Inr c' \<Longrightarrow> bots_inv cfg (mgr c) \<Longrightarrow> packetsPerBot cfg < 2 ^ 31 \<Longrightarrow>
    (\<And>k. k \<in> set ks \<Longrightarrow> k < length (m_bots (mgr c))) \<Longrightarrow> bots_inv cfg (mgr c')"
proof (induction ks arbitrary: c)
  case (Cons i ks)
  then obtain c1 where c1: "tick_bot clk cdc authen_req now i c = Inr c1" "tick_loop clk cdc authen_req now ks c1 = Inr c'" by auto
  have i: "i < length (m_bots (mgr c))" and cfg: "m_cfg (mgr c) = cfg" using Cons.prems by (auto simp: bots_inv_def)
  have t: "bot_turn i (mgr c) (mgr c1)" by (rule tick_bot_turn [OF c1(1) i])
  have "packets_ok cfg (m_bots (mgr c) ! i)" using Cons.prems(2) i by (simp add: bots_inv_def)
  then have "packets_ok cfg (m_bots (mgr c1) ! i)" using tick_bot_packets [OF c1(1) i] cfg Cons.prems(3) by simp
  then have "bots_inv cfg (mgr c1)" by (rule bots_inv_turn [OF Cons.prems(2) t i])
  moreover have "length (m_bots (mgr c1)) = length (m_bots (mgr c))"
    using t unfolding bot_turn_def Let_def by (metis length_list_update)
  ultimately show ?case using Cons.IH [OF c1(2)] Cons.prems(3,4) by auto
qed simp

text \<open>Assigning ids.\<close>

lemma try_assign_ids:
  "try_assign st l bots = (bots', l') \<Longrightarrow> distinct (connected_ids bots) \<Longrightarrow> (\<And>x. x \<in> set (connected_ids bots) \<Longrightarrow> x \<le> l) \<Longrightarrow>
    l \<le> l' \<and> distinct (connected_ids bots') \<and> set (connected_ids bots') \<subseteq> set (connected_ids bots) \<union> {l<..l'}"
proof (induction bots arbitrary: l bots' l')
  case (Cons b bots)
  have e: "connected_ids (x # ys) = (if state x = Connected then [sessionID x] else []) @ connected_ids ys" for x ys
    by (simp add: connected_ids_def)
  have d: "distinct (connected_ids bots)" "\<And>x. x \<in> set (connected_ids bots) \<Longrightarrow> x \<le> l" using Cons.prems by (auto simp: e)
  show ?case
  proof (cases "state b = Connecting")
    case False
    then obtain bs where bs: "try_assign st l bots = (bs, l')" "bots' = b # bs" using Cons.prems(1) by (auto split: prod.splits)
    show ?thesis using Cons.IH [OF bs(1) d] Cons.prems(2,3) bs(2) by (fastforce simp: e split: if_splits)
  next
    case True
    show ?thesis
    proof (cases "FindSession (l + 1) st")
      case None
      then show ?thesis using True Cons.prems by (auto simp: e)
    next
      case (Some o1)
      then obtain bs where bs: "try_assign st (l + 1) bots = (bs, l')" "bots' = b\<lparr>sessionID := l + 1, state := Connected\<rparr> # bs"
        using True Cons.prems(1) by (auto split: prod.splits)
      have "\<And>x. x \<in> set (connected_ids bots) \<Longrightarrow> x \<le> l + 1" using d(2) by fastforce
      from Cons.IH [OF bs(1) d(1) this] show ?thesis using True d(2) bs(2) by (fastforce simp: e)
    qed
  qed
qed (simp add: connected_ids_def)

lemma try_assign_wsum:
  "try_assign st l bots = (bots', l') \<Longrightarrow> (\<And>b x. state b = Connecting \<Longrightarrow> w (b\<lparr>sessionID := x, state := Connected\<rparr>) = w b) \<Longrightarrow>
    wsum w bots' = wsum w bots"
  by (induction st l bots arbitrary: bots' l' rule: try_assign.induct) (fastforce split: if_splits option.splits prod.splits)+

lemma try_assign_keeps:
  "try_assign st l bots = (bots', l') \<Longrightarrow> map slot bots' = map slot bots \<and> length bots' = length bots"
  by (induction st l bots arbitrary: bots' l' rule: try_assign.induct) (fastforce split: if_splits option.splits prod.splits)+

lemma try_assign_mono: "try_assign st l bots = (bots', l') \<Longrightarrow> l \<le> l'"
  by (induction st l bots arbitrary: bots' l' rule: try_assign.induct) (fastforce split: if_splits option.splits prod.splits)+

lemma try_assign_all:
  "try_assign st l bots = (bots', l') \<Longrightarrow> 0 \<le> l \<Longrightarrow> \<forall>b \<in> set bots. id_ok k b \<and> packets_ok cfg b \<Longrightarrow> k \<le> l \<Longrightarrow>
    \<forall>b \<in> set bots'. id_ok l' b \<and> packets_ok cfg b"
proof (induction st l bots arbitrary: bots' l' rule: try_assign.induct)
  case (2 st l b bots)
  have up: "id_ok l' x" if "id_ok k x" for x
    using that try_assign_mono [OF 2(3)] 2(6) by (auto simp: id_ok_def split: if_splits)
  show ?case
  proof (cases "state b = Connecting \<and> FindSession (l + 1) st \<noteq> None")
    case True
    then obtain o1 bs where o1: "FindSession (l + 1) st = Some o1" "try_assign st (l + 1) bots = (bs, l')"
      "bots' = b\<lparr>sessionID := l + 1, state := Connected\<rparr> # bs" using 2(3) by (auto split: prod.splits)
    have "id_ok l' (b\<lparr>sessionID := l + 1, state := Connected\<rparr>)" using try_assign_mono [OF o1(2)] 2(4) by (simp add: id_ok_def)
    moreover have "packets_ok cfg (b\<lparr>sessionID := l + 1, state := Connected\<rparr>)" using 2(5) True by (auto simp: packets_ok_def)
    moreover have "\<forall>b \<in> set bs. id_ok l' b \<and> packets_ok cfg b" using 2(2) [OF _ o1(1,2)] True 2(4-6) by auto
    ultimately show ?thesis using o1(3) by simp
  next
    case False
    consider "state b \<noteq> Connecting" | "state b = Connecting" "FindSession (l + 1) st = None" using False by auto
    then show ?thesis
    proof cases
      case 1
      then obtain bs where "try_assign st l bots = (bs, l')" "bots' = b # bs" using 2(3) by (auto split: prod.splits)
      then show ?thesis using 2(1) [OF 1, of bs l'] 2(4-6) up by auto
    qed (use 2(3,5) up in auto)
  qed
qed simp

lemma TryAssign_inv:
  assumes "bots_inv cfg (mgr c)"
  shows "bots_inv cfg (mgr (TryAssignSessionIDs c))"
proof -
  let ?m = "mgr c"
  obtain bots' l' where a: "try_assign (server c) (m_lastAssignedID ?m) (m_bots ?m) = (bots', l')" by fastforce
  note v = assms [unfolded bots_inv_def]
  have "x \<le> m_lastAssignedID ?m" if "x \<in> set (connected_ids (m_bots ?m))" for x
    using that v by (auto simp: connected_ids_def id_ok_def)
  then have i: "m_lastAssignedID ?m \<le> l'" "distinct (connected_ids bots')" using try_assign_ids [OF a] v by auto
  have w: "wsum disconnected bots' = wsum disconnected (m_bots ?m)" "wsum totalPacketsSent bots' = wsum totalPacketsSent (m_bots ?m)"
    "wsum reconnectCount bots' = wsum reconnectCount (m_bots ?m)"
    by (rule try_assign_wsum [OF a]; simp add: disconnected_def)+
  have "\<forall>b \<in> set bots'. id_ok l' b \<and> packets_ok cfg b" using try_assign_all [OF a] v by blast
  then show ?thesis using v i w try_assign_keeps [OF a] by (simp add: TryAssignSessionIDs_def a bots_inv_def)
qed

lemma Tick_inv:
  assumes "Tick clk cdc authen_req c = Inr c'" "bots_inv cfg (mgr c)" "packetsPerBot cfg < 2 ^ 31"
  shows "bots_inv cfg (mgr c')"
proof (cases "m_stopRequested (mgr c)")
  case False
  let ?c = "TryAssignSessionIDs (c\<lparr>reads := reads c + 1\<rparr>)" and ?now = "clk (reads c)"
  from False assms(1) obtain c1 where c1: "tick_loop clk cdc authen_req ?now [0..<length (m_bots (mgr ?c))] ?c = Inr c1"
    "c' = c1 \<or> mgr c' = (mgr (PrintLiveStats clk c1))\<lparr>m_nextStatsTime := ?now + seconds 1\<rparr>"
    by (auto simp: Tick_def clock_now_def Let_def split: if_splits)
  have "bots_inv cfg (mgr ?c)" by (rule TryAssign_inv) (use assms(2) in simp)
  then have "bots_inv cfg (mgr c1)" by (rule tick_loop_inv [OF c1(1) _ assms(3)]) simp
  then show ?thesis using c1(2) by (auto simp: PrintLiveStats_def clock_now_def bots_inv_def Let_def)
qed (use assms in \<open>simp add: Tick_def\<close>)

lemma Run_loop_inv:
  "Run_loop clk cdc authen_req rounds c = Inr (c', out) \<Longrightarrow> bots_inv cfg (mgr c) \<Longrightarrow> packetsPerBot cfg < 2 ^ 31 \<Longrightarrow>
    bots_inv cfg (mgr c')"
proof (induction rounds arbitrary: c)
  case Nil
  then show ?case by (simp add: Run_loop.simps [of _ _ _ "[]"] split: if_splits)
next
  case (Cons r rounds)
  obtain events enter where r: "r = (events, enter)" by (cases r)
  show ?case
  proof (cases "m_stopRequested (mgr c)")
    case True
    then show ?thesis using Cons.prems by (simp add: Run_loop.simps [of _ _ _ "_ # _"])
  next
    case False
    with Cons.prems(1) obtain c1 st where c1: "Tick clk cdc authen_req c = Inr c1"
      "Run_loop clk cdc authen_req rounds (round_end enter st c1) = Inr (c', out)"
      by (auto simp: Run_loop.simps [of _ _ _ "_ # _"] r)
    have "bots_inv cfg (mgr c1)" by (rule Tick_inv [OF c1(1) Cons.prems(2,3)])
    then show ?thesis by (intro Cons.IH [OF c1(2) _ Cons.prems(3)]) (auto simp: round_end_def RequestStop_def bots_inv_def Let_def)
  qed
qed

lemma number_slots_map: "map slot (number_slots i bots) = map (\<lambda>k. i + int k) [0..<length bots] \<and> length (number_slots i bots) = length bots"
proof (induction bots arbitrary: i)
  case (Cons b bots)
  have "map (\<lambda>k. i + int k) [0..<Suc (length bots)] = i # map (\<lambda>k. i + 1 + int k) [0..<length bots]"
    unfolding map_upt_Suc by simp
  with Cons [of "i + 1"] show ?case by (simp only: number_slots.simps list.map list.size length_Cons) simp
qed simp

definition fresh_bot :: "Bot \<Rightarrow> bool" where
  "fresh_bot b \<longleftrightarrow> state b = Connecting \<and> sessionID b = 0 \<and> packetsSent b = 0 \<and> totalPacketsSent b = 0 \<and> reconnectCount b = 0"

lemma number_slots_fresh: "\<forall>b \<in> set bots. fresh_bot b \<Longrightarrow> \<forall>b \<in> set (number_slots i bots). fresh_bot b"
proof (induction bots arbitrary: i)
  case (Cons b bots)
  have "fresh_bot (b\<lparr>slot := i\<rparr>)" using Cons.prems by (simp add: fresh_bot_def)
  then show ?case using Cons.IH [of "i + 1"] Cons.prems by simp
qed simp

lemma fresh_inv:
  assumes "\<forall>b \<in> set (m_bots m). fresh_bot b" "m_cfg m = cfg" "int (length (m_bots m)) = botCount cfg" "m_lastAssignedID m = 0"
    "map slot (m_bots m) = map int [0..<length (m_bots m)]" "m_totalDisconnects m = 0" "m_totalReconnects m = 0" "m_totalSent m = 0"
  shows "bots_inv cfg m"
proof -
  have "wsum disconnected (m_bots m) = 0" "wsum totalPacketsSent (m_bots m) = 0" "wsum reconnectCount (m_bots m) = 0"
    using assms(1) by (auto intro!: wsum_zero simp: fresh_bot_def disconnected_def)
  moreover have "filter (\<lambda>b. state b = Connected) (m_bots m) = []" using assms(1) by (auto simp: filter_empty_conv fresh_bot_def)
  ultimately show ?thesis using assms by (auto simp: bots_inv_def connected_ids_def id_ok_def packets_ok_def fresh_bot_def)
qed

lemma start_loop_inv:
  "bots_inv cfg (mgr c) \<Longrightarrow> \<forall>b \<in> set (m_bots (mgr c)). fresh_bot b \<Longrightarrow> \<forall>k \<in> set ks. k < length (m_bots (mgr c)) \<Longrightarrow>
    bots_inv cfg (mgr (start_loop now ks c))"
proof (induction ks arbitrary: c)
  case (Cons i ks)
  let ?c = "upd_bot i (\<lambda>b. b\<lparr>state := Connecting, nextSendTime := now\<rparr>) (connect_server c)"
  have i: "i < length (m_bots (mgr c))" and f: "fresh_bot (m_bots (mgr c) ! i)" using Cons.prems(2,3) by auto
  have b: "m_bots (mgr ?c) ! i = (m_bots (mgr c) ! i)\<lparr>state := Connecting, nextSendTime := now\<rparr>"
    using i by (simp add: upd_bot_def connect_server_def)
  have t: "bot_turn i (mgr c) (mgr ?c)" using i f by (auto simp: connect_server_def turn_simps fresh_bot_def)
  have "packets_ok cfg (m_bots (mgr ?c) ! i)" using f unfolding b by (simp add: packets_ok_def fresh_bot_def)
  then have "bots_inv cfg (mgr ?c)" by (rule bots_inv_turn [OF Cons.prems(1) t i])
  moreover have "\<forall>b \<in> set (m_bots (mgr ?c)). fresh_bot b"
    using Cons.prems(2) f set_update_subset_insert [of "m_bots (mgr c)" i "m_bots (mgr ?c) ! i"] unfolding b
    by (auto simp: upd_bot_def connect_server_def fresh_bot_def)
  moreover have "\<forall>k \<in> set ks. k < length (m_bots (mgr ?c))" using Cons.prems(3) by (simp add: upd_bot_def connect_server_def)
  ultimately show ?case using Cons.IH [of ?c] by simp
qed simp

lemma Start_inv:
  assumes "DummyClient_Initialize cfg d = Inr c"
  shows "bots_inv cfg (mgr (Start clk c))"
proof -
  let ?bots = "number_slots 0 (replicate (nat (botCount cfg)) Bot_new)"
  have n: "0 \<le> botCount cfg" and c: "c = \<lparr>mgr = BotManager_new\<lparr>m_cfg := cfg, m_dispatcher := d, m_bots := ?bots\<rparr>, server = NetworkServer_new, reads = 0\<rparr>"
    using assms by (auto simp: DummyClient_Initialize_def Initialize_def resize_def BotManager_new_def Let_def split: if_splits)
  let ?m = "(mgr c)\<lparr>m_startTime := clk 0, m_nextStatsTime := clk 0 + seconds 1\<rparr>"
  have fresh: "\<forall>b \<in> set ?bots. fresh_bot b" by (rule number_slots_fresh) (simp add: Bot_new_def fresh_bot_def)
  have "bots_inv cfg ?m"
    by (rule fresh_inv) (use n fresh number_slots_map [of 0 "replicate (nat (botCount cfg)) Bot_new"] in \<open>auto simp: c BotManager_new_def\<close>)
  then show ?thesis unfolding Start_def clock_now_def Let_def prod.case
    by (intro start_loop_inv)
      (use n fresh number_slots_map [of 0 "replicate (nat (botCount cfg)) Bot_new"] in \<open>auto simp: c BotManager_new_def\<close>)
qed

text \<open>
  C26. (DummyClient: BotManager.cpp, DummyClient.cpp) However the network behaves, after any number of rounds of the main
  loop: no two connected bots have the same session, a connected bot has one of the ids
  assigned so far and no other bot has any; no bot has sent more packets in its cycle than
  \<^verbatim>\<open>packetsPerBot\<close>; disconnects exceed reconnects by the number of disconnected bots; and the
  totals are the sums of the bots' 32-bit counters modulo \<open>2 ^ 32\<close>.
\<close>

theorem bots_never_share_a_session:
  assumes "main_client clk cdc authen_req cfg d rounds = Inr (c, out)" "packetsPerBot cfg < 2 ^ 31"
  shows "distinct (map sessionID (filter (\<lambda>b. state b = Connected) (m_bots (mgr c)))) \<and>
    list_all (\<lambda>b. (if state b = Connected then 1 \<le> sessionID b \<and> sessionID b \<le> m_lastAssignedID (mgr c) else sessionID b = 0) \<and>
        0 \<le> packetsSent b \<and> packetsSent b \<le> max 0 (packetsPerBot cfg)) (m_bots (mgr c)) \<and>
    m_totalDisconnects (mgr c) - m_totalReconnects (mgr c) = count_state Disconnected (m_bots (mgr c)) \<and>
    m_totalSent (mgr c) mod 2 ^ 32 = sum_list (map totalPacketsSent (m_bots (mgr c))) mod 2 ^ 32 \<and>
    m_totalReconnects (mgr c) mod 2 ^ 32 = sum_list (map reconnectCount (m_bots (mgr c))) mod 2 ^ 32"
proof -
  obtain c0 where "DummyClient_Initialize cfg d = Inr c0" "Run_loop clk cdc authen_req rounds (Start clk c0) = Inr (c, out)"
    using assms(1) by (auto simp: main_client_def)
  then have v: "bots_inv cfg (mgr c)" using Run_loop_inv Start_inv assms(2) by blast
  have "packetsSent b \<le> max 0 (packetsPerBot cfg)" if "packets_ok cfg b" for b
    using that by (auto simp: packets_ok_def split: if_splits)
  with v show ?thesis unfolding bots_inv_def wsum_disconnected
    by (auto simp: connected_ids_def id_ok_def packets_ok_def list_all_iff wsum_def mod_eq_dvd_iff dvd_diff_commute)
qed

section \<open>The bots as users of the network\<close>

text \<open>Whatever the bots do to the network is a run of it, so the facts about its runs apply.\<close>

lemma connect_server_net: "net_reach cdc (server c) (server (connect_server c))"
  by (rule net_reach_step [of _ "AppConnect ''127.0.0.1'' 7777 (m_dispatcher (mgr c))"]) (simp add: connect_server_def)

lemma upd_bot_server [simp]: "server (upd_bot i f c) = server c"
  by (simp add: upd_bot_def)

lemma DisconnectBot_net: "net_reach cdc (server c) (server (DisconnectBot clk i c))"
  using net_reach_step [of cdc "AppRemove (sessionID (m_bots (mgr c) ! i))" "server c"]
  by (auto simp: DisconnectBot_def clock_now_def Let_def net_reach_refl)

lemma ReconnectBot_net: "net_reach cdc (server c) (server (ReconnectBot i c))"
  using connect_server_net [of cdc c] by (simp add: ReconnectBot_def Let_def)

lemma tick_cycle_net: "net_reach cdc (server c) (server (tick_cycle clk i c))"
  by (simp add: tick_cycle_def DisconnectBot_net net_reach_refl Let_def split: BotScenario.split)

lemma SendPacket_net:
  assumes "SendPacket cdc authen_req b st = Inr (sent, st')" "table_inv st"
  shows "net_reach cdc st st'"
proof (cases "FindSession (sessionID b) st")
  case (Some o1)
  then have "o1 < length (objs st)" using assms(2) by (auto simp: table_inv_def FindSession_def)
  then have "net_step cdc (AppSend o1 (authen_req (to_int32 (packetsSent b + 1)) ''dummy_token'' False [])) st = Inr st'"
    using assms(1) Some by (auto simp: SendPacket_def)
  then show ?thesis by (rule net_reach_step)
qed (use assms in \<open>auto simp: SendPacket_def net_reach_refl\<close>)

lemma tick_bot_net:
  assumes "tick_bot clk cdc authen_req now i c = Inr c'" "table_inv (server c)"
  shows "net_reach cdc (server c) (server c')"
proof (cases "state (m_bots (mgr c) ! i)")
  case Connected
  then obtain c1 where c1: "tick_send cdc authen_req now i c = Inr c1" "c' = tick_cycle clk i c1"
    using assms(1) by (auto simp: tick_bot_def)
  have "net_reach cdc (server c) (server c1)"
    using c1(1) SendPacket_net [OF _ assms(2)] by (auto simp: tick_send_def Let_def net_reach_refl split: if_splits)
  then show ?thesis using tick_cycle_net c1(2) by (blast intro: net_reach_trans)
qed (use assms ReconnectBot_net net_reach_refl in \<open>auto simp: tick_bot_def split: if_splits\<close>)

lemma tick_loop_net:
  "tick_loop clk cdc authen_req now ks c = Inr c' \<Longrightarrow> table_inv (server c) \<Longrightarrow> net_reach cdc (server c) (server c')"
proof (induction ks arbitrary: c)
  case (Cons i ks)
  then obtain c1 where c1: "tick_bot clk cdc authen_req now i c = Inr c1" "tick_loop clk cdc authen_req now ks c1 = Inr c'" by auto
  have r: "net_reach cdc (server c) (server c1)" by (rule tick_bot_net [OF c1(1) Cons.prems(2)])
  then show ?case using Cons.IH [OF c1(2)] net_reachD(1) [OF r Cons.prems(2)] by (blast intro: net_reach_trans)
qed (simp add: net_reach_refl)

text \<open>A tick in parts.\<close>

lemma Tick_parts:
  assumes "Tick clk cdc authen_req c = Inr c'" "\<not> m_stopRequested (mgr c)"
  obtains c0 c1 where "c0 = TryAssignSessionIDs (c\<lparr>reads := reads c + 1\<rparr>)"
    "tick_loop clk cdc authen_req (clk (reads c)) [0..<length (m_bots (mgr c0))] c0 = Inr c1"
    "server c' = server c1" "m_bots (mgr c') = m_bots (mgr c1)" "m_lastAssignedID (mgr c') = m_lastAssignedID (mgr c1)"
    "m_stopRequested (mgr c') = m_stopRequested (mgr c1)"
  using assms by (auto simp: Tick_def clock_now_def PrintLiveStats_def Let_def split: if_splits)

lemma Tick_net:
  assumes "Tick clk cdc authen_req c = Inr c'" "table_inv (server c)"
  shows "net_reach cdc (server c) (server c')"
proof (cases "m_stopRequested (mgr c)")
  case False
  from assms(1) this obtain c0 c1 where c: "c0 = TryAssignSessionIDs (c\<lparr>reads := reads c + 1\<rparr>)"
    "tick_loop clk cdc authen_req (clk (reads c)) [0..<length (m_bots (mgr c0))] c0 = Inr c1" "server c' = server c1" by (rule Tick_parts)
  have "server c0 = server c" by (simp add: c(1) TryAssignSessionIDs_def split: prod.split)
  then show ?thesis using tick_loop_net [OF c(2)] c(3) assms(2) by simp
qed (use assms in \<open>simp add: Tick_def net_reach_refl\<close>)

lemma Run_loop_Cons:
  assumes "Run_loop clk cdc authen_req ((events, enter) # rounds) c = Inr (c', out)" "\<not> m_stopRequested (mgr c)"
  obtains c1 st where "Tick clk cdc authen_req c = Inr c1" "net_run cdc events (server c1) = Inr st"
    "Run_loop clk cdc authen_req rounds (round_end enter st c1) = Inr (c', out)"
  using assms by (auto simp: Run_loop.simps [of _ _ _ "_ # _"])

lemma Run_loop_stopped:
  "m_stopRequested (mgr c) \<Longrightarrow> Run_loop clk cdc authen_req rounds c = Inr (c, Some (PrintSummary clk c))"
  by (simp add: Run_loop.simps)

lemma Run_loop_Nil: "\<not> m_stopRequested (mgr c) \<Longrightarrow> Run_loop clk cdc authen_req [] c = Inr (c, None)"
  by (simp add: Run_loop.simps [of _ _ _ "[]"])

lemma round_end_simps [simp]:
  "server (round_end enter st c) = st" "m_bots (mgr (round_end enter st c)) = m_bots (mgr c)"
  "m_lastAssignedID (mgr (round_end enter st c)) = m_lastAssignedID (mgr c)"
  "m_stopRequested (mgr (round_end enter st c)) = (m_stopRequested (mgr c) \<or> enter)"
  by (simp_all add: round_end_def RequestStop_def Let_def)

lemma Run_loop_net:
  "Run_loop clk cdc authen_req rounds c = Inr (c', out) \<Longrightarrow> table_inv (server c) \<Longrightarrow> net_reach cdc (server c) (server c')"
proof (induction rounds arbitrary: c)
  case Nil
  then show ?case by (cases "m_stopRequested (mgr c)") (auto simp: Run_loop_stopped Run_loop_Nil net_reach_refl)
next
  case (Cons r rounds)
  obtain events enter where r: "r = (events, enter)" by (cases r)
  show ?case
  proof (cases "m_stopRequested (mgr c)")
    case False
    from Cons.prems(1) [unfolded r] this obtain c1 st where c1: "Tick clk cdc authen_req c = Inr c1" "net_run cdc events (server c1) = Inr st"
      "Run_loop clk cdc authen_req rounds (round_end enter st c1) = Inr (c', out)" by (rule Run_loop_Cons)
    have "net_reach cdc (server c) st"
      using Tick_net [OF c1(1) Cons.prems(2)] c1(2) net_reach_trans net_reach_def by blast
    then show ?thesis using Cons.IH [OF c1(3)] net_reachD(1) [OF _ Cons.prems(2)] by (auto intro: net_reach_trans)
  qed (use Cons.prems in \<open>auto simp: Run_loop_stopped net_reach_refl\<close>)
qed

lemma start_loop_table: "table_inv (server c) \<Longrightarrow> table_inv (server (start_loop now ks c))"
  by (induction ks arbitrary: c) (simp_all add: connect_server_def Server_Connect_def)

lemma Start_table: "DummyClient_Initialize cfg d = Inr c \<Longrightarrow> table_inv (server (Start clk c))"
  by (auto simp: Start_def clock_now_def DummyClient_Initialize_def Let_def table_inv_new intro!: start_loop_table)

lemma Run_loop_append:
  "Run_loop clk cdc authen_req rounds c = Inr (c1, None) \<Longrightarrow>
    Run_loop clk cdc authen_req (rounds @ rest) c = Run_loop clk cdc authen_req rest c1"
proof (induction rounds arbitrary: c)
  case Nil
  then show ?case by (cases "m_stopRequested (mgr c)") (auto simp: Run_loop_stopped Run_loop_Nil)
next
  case (Cons r rounds)
  obtain events enter where r: "r = (events, enter)" by (cases r)
  have ns: "\<not> m_stopRequested (mgr c)" using Cons.prems by (auto simp: Run_loop_stopped)
  from Cons.prems [unfolded r] this obtain c2 st where c2: "Tick clk cdc authen_req c = Inr c2" "net_run cdc events (server c2) = Inr st"
    "Run_loop clk cdc authen_req rounds (round_end enter st c2) = Inr (c1, None)" by (rule Run_loop_Cons)
  then show ?case using Cons.IH [OF c2(3)] ns by (simp add: r Run_loop.simps [of _ _ _ "_ # _"])
qed

section \<open>A session id that is gone\<close>

lemma try_assign_stuck: "FindSession (l + 1) st = None \<Longrightarrow> try_assign st l bots = (bots, l)"
  by (induction bots) (auto split: prod.splits)

definition none_new :: "Bot list \<Rightarrow> Bot list \<Rightarrow> bool" where
  "none_new bots bots' \<longleftrightarrow> list_all2 (\<lambda>b b'. state b' = Connected \<longrightarrow> state b = Connected) bots bots'"

lemma none_new_refl: "none_new bots bots"
  by (simp add: none_new_def list_all2_refl)

lemma none_new_trans: "none_new b1 b2 \<Longrightarrow> none_new b2 b3 \<Longrightarrow> none_new b1 b3"
  unfolding none_new_def by (rule list_all2_trans [where ?P1.0 = "\<lambda>b b'. state b' = Connected \<longrightarrow> state b = Connected"]) auto

lemma bot_turn_none_new:
  assumes "bot_turn i m m'" "i < length (m_bots m)"
  shows "none_new (m_bots m) (m_bots m')"
proof -
  have b: "m_bots m' = (m_bots m)[i := m_bots m' ! i]" "state (m_bots m' ! i) = Connected \<longrightarrow> state (m_bots m ! i) = Connected"
    using assms(1) unfolding bot_turn_def Let_def by blast+
  have "none_new (m_bots m) ((m_bots m)[i := x])" if "state x = Connected \<longrightarrow> state (m_bots m ! i) = Connected" for x
    using that assms(2) by (auto simp: none_new_def list_all2_conv_all_nth nth_list_update)
  from this [OF b(2)] show ?thesis by (subst b(1))
qed

lemma tick_loop_none_new:
  "tick_loop clk cdc authen_req now ks c = Inr c' \<Longrightarrow> \<forall>k \<in> set ks. k < length (m_bots (mgr c)) \<Longrightarrow>
    none_new (m_bots (mgr c)) (m_bots (mgr c')) \<and> m_lastAssignedID (mgr c') = m_lastAssignedID (mgr c)"
proof (induction ks arbitrary: c)
  case (Cons i ks)
  then obtain c1 where c1: "tick_bot clk cdc authen_req now i c = Inr c1" "tick_loop clk cdc authen_req now ks c1 = Inr c'" by auto
  have t: "bot_turn i (mgr c) (mgr c1)" using tick_bot_turn [OF c1(1)] Cons.prems(2) by simp
  have n: "none_new (m_bots (mgr c)) (m_bots (mgr c1))" using bot_turn_none_new [OF t] Cons.prems(2) by simp
  have "m_lastAssignedID (mgr c1) = m_lastAssignedID (mgr c)" using t by (simp add: bot_turn_def same_setup_def Let_def)
  moreover have "length (m_bots (mgr c1)) = length (m_bots (mgr c))" using n by (simp add: none_new_def list_all2_lengthD)
  ultimately show ?case using Cons.IH [OF c1(2)] Cons.prems(2) n by (auto intro: none_new_trans)
qed (simp add: none_new_refl)

lemma Tick_stuck:
  assumes "Tick clk cdc authen_req c = Inr c'" "FindSession (m_lastAssignedID (mgr c) + 1) (server c) = None"
  shows "none_new (m_bots (mgr c)) (m_bots (mgr c')) \<and> m_lastAssignedID (mgr c') = m_lastAssignedID (mgr c)"
proof (cases "m_stopRequested (mgr c)")
  case False
  from assms(1) this obtain c0 c1 where c: "c0 = TryAssignSessionIDs (c\<lparr>reads := reads c + 1\<rparr>)"
    "tick_loop clk cdc authen_req (clk (reads c)) [0..<length (m_bots (mgr c0))] c0 = Inr c1" "m_bots (mgr c') = m_bots (mgr c1)"
    "m_lastAssignedID (mgr c') = m_lastAssignedID (mgr c1)" by (rule Tick_parts)
  have "m_bots (mgr c0) = m_bots (mgr c)" "m_lastAssignedID (mgr c0) = m_lastAssignedID (mgr c)"
    using try_assign_stuck [OF assms(2)] by (simp_all add: c(1) TryAssignSessionIDs_def)
  then show ?thesis using tick_loop_none_new [OF c(2)] c(3,4) by simp
qed (use assms in \<open>simp add: Tick_def none_new_refl\<close>)

lemma Run_loop_stuck:
  "Run_loop clk cdc authen_req rounds c = Inr (c', out) \<Longrightarrow> table_inv (server c) \<Longrightarrow>
    FindSession (m_lastAssignedID (mgr c) + 1) (server c) = None \<Longrightarrow> 0 \<le> m_lastAssignedID (mgr c) \<Longrightarrow>
    m_lastAssignedID (mgr c) < int (length (objs (server c))) \<Longrightarrow> length (objs (server c')) < 2 ^ 63 - 1 \<Longrightarrow>
    none_new (m_bots (mgr c)) (m_bots (mgr c')) \<and> m_lastAssignedID (mgr c') = m_lastAssignedID (mgr c)"
proof (induction rounds arbitrary: c)
  case Nil
  then show ?case by (cases "m_stopRequested (mgr c)") (auto simp: Run_loop_stopped Run_loop_Nil none_new_refl)
next
  case (Cons r rounds)
  obtain events enter where r: "r = (events, enter)" by (cases r)
  show ?case
  proof (cases "m_stopRequested (mgr c)")
    case False
    from Cons.prems(1) [unfolded r] this obtain c1 st where c1: "Tick clk cdc authen_req c = Inr c1" "net_run cdc events (server c1) = Inr st"
      "Run_loop clk cdc authen_req rounds (round_end enter st c1) = Inr (c', out)" by (rule Run_loop_Cons)
    let ?c = "round_end enter st c1"
    have reach: "net_reach cdc (server c) st"
      using Tick_net [OF c1(1) Cons.prems(2)] c1(2) net_reach_trans net_reach_def by blast
    have t: "table_inv st" "length (objs (server c)) \<le> length (objs st)" using net_reachD [OF reach] Cons.prems(2) by auto
    have len: "length (objs st) \<le> length (objs (server c'))" using net_reachD(2) [OF Run_loop_net [OF c1(3)]] t(1) by simp
    have "FindSession (m_lastAssignedID (mgr c) + 1) st = None"
      using reach removed_id_stays_removed [OF Cons.prems(2,3)] Cons.prems(4-6) len unfolding net_reach_def by fastforce
    then have "none_new (m_bots (mgr ?c)) (m_bots (mgr c')) \<and> m_lastAssignedID (mgr c') = m_lastAssignedID (mgr ?c)"
      using Tick_stuck [OF c1(1) Cons.prems(3)] t Cons.prems(4-6) by (intro Cons.IH [OF c1(3)]) auto
    then show ?thesis using Tick_stuck [OF c1(1) Cons.prems(3)] by (auto intro: none_new_trans)
  qed (use Cons.prems in \<open>auto simp: Run_loop_stopped none_new_refl\<close>)
qed

text \<open>
  C29. (BotManager.cpp, TryAssignSessionIDs) Ids are handed to bots one after the other, and the loop waits for the next id
  to be in the session table. If that session has come and gone before a bot got it (the peer
  closed it, say), then from then on no bot that is not connected ever becomes connected
  again, whatever the bots and the network do.
\<close>

theorem missing_id_stalls_the_bots:
  assumes "main_client clk cdc authen_req cfg d rounds = Inr (c, None)" "packetsPerBot cfg < 2 ^ 31"
    and "m_lastAssignedID (mgr c) < int (length (objs (server c)))"
    and "FindSession (m_lastAssignedID (mgr c) + 1) (server c) = None"
    and "main_client clk cdc authen_req cfg d (rounds @ later) = Inr (c', out)" "length (objs (server c')) < 2 ^ 63 - 1"
  shows "m_lastAssignedID (mgr c') = m_lastAssignedID (mgr c) \<and>
    list_all2 (\<lambda>b b'. state b' = Connected \<longrightarrow> state b = Connected) (m_bots (mgr c)) (m_bots (mgr c'))"
proof -
  obtain c0 where c0: "DummyClient_Initialize cfg d = Inr c0" "Run_loop clk cdc authen_req rounds (Start clk c0) = Inr (c, None)"
    using assms(1) by (auto simp: main_client_def)
  have run: "Run_loop clk cdc authen_req later c = Inr (c', out)"
    using assms(5) c0 Run_loop_append [OF c0(2)] by (simp add: main_client_def)
  have "table_inv (server (Start clk c0))" by (rule Start_table [OF c0(1)])
  then have t: "table_inv (server c)" using net_reachD(1) Run_loop_net [OF c0(2)] by blast
  have "bots_inv cfg (mgr c)" using Run_loop_inv [OF c0(2) Start_inv [OF c0(1)] assms(2)] .
  then have "0 \<le> m_lastAssignedID (mgr c)" by (simp add: bots_inv_def)
  with Run_loop_stuck [OF run t assms(4)] assms(3,6) show ?thesis by (simp add: none_new_def)
qed

section \<open>The end of the main loop\<close>

lemma Run_loop_enter:
  "Run_loop clk cdc authen_req (rounds @ (events, True) # later) c = Inr (c', out) \<Longrightarrow>
    m_stopRequested (mgr c') \<and> out = Some (PrintSummary clk c') \<and>
    Run_loop clk cdc authen_req (rounds @ [(events, True)]) c = Inr (c', out)"
proof (induction rounds arbitrary: c)
  case Nil
  show ?case
  proof (cases "m_stopRequested (mgr c)")
    case False
    from Nil [simplified] this obtain c1 st where c1: "Tick clk cdc authen_req c = Inr c1" "net_run cdc events (server c1) = Inr st"
      "Run_loop clk cdc authen_req later (round_end True st c1) = Inr (c', out)" by (rule Run_loop_Cons)
    then show ?thesis using False by (auto simp: Run_loop_stopped Run_loop.simps [of _ _ _ "_ # _"])
  qed (use Nil in \<open>auto simp: Run_loop_stopped\<close>)
next
  case (Cons r rounds)
  obtain ev en where r: "r = (ev, en)" by (cases r)
  show ?case
  proof (cases "m_stopRequested (mgr c)")
    case False
    from Cons.prems [unfolded r append_Cons] this obtain c1 st where c1: "Tick clk cdc authen_req c = Inr c1"
      "net_run cdc ev (server c1) = Inr st"
      "Run_loop clk cdc authen_req (rounds @ (events, True) # later) (round_end en st c1) = Inr (c', out)" by (rule Run_loop_Cons)
    then show ?thesis using Cons.IH [OF c1(3)] False by (simp add: r Run_loop.simps [of _ _ _ "_ # _"])
  qed (use Cons.prems in \<open>auto simp: Run_loop_stopped\<close>)
qed

text \<open>
  C30. (DummyClient.cpp, Run) Pressing Enter ends the client: if no step fails, the loop is left at the first check
  after the round in which Enter was pressed, whatever would have followed, and the summary
  is printed.
\<close>

theorem enter_ends_the_client:
  assumes "main_client clk cdc authen_req cfg d (rounds @ (events, True) # later) = Inr (c, out)"
  shows "out = Some (PrintSummary clk c) \<and> main_client clk cdc authen_req cfg d (rounds @ [(events, True)]) = Inr (c, out)"
proof -
  obtain c0 where "DummyClient_Initialize cfg d = Inr c0"
    "Run_loop clk cdc authen_req (rounds @ (events, True) # later) (Start clk c0) = Inr (c, out)"
    using assms by (auto simp: main_client_def)
  then show ?thesis using Run_loop_enter by (fastforce simp: main_client_def)
qed

section \<open>The rate of reconnects\<close>

lemma int_div_less: "0 < n \<Longrightarrow> x div n < r \<longleftrightarrow> x < r * (n :: int)"
proof -
  assume n: "0 < n"
  have "(x div n + 1) * n = x div n * n + n" by (simp add: distrib_right)
  then have x: "x div n * n \<le> x" "x < (x div n + 1) * n"
    using div_mult_mod_eq [of x n] pos_mod_bound [OF n, of x] pos_mod_sign [OF n, of x] by linarith+
  have "(x div n + 1) * n \<le> r * n" if "x div n < r" using that n by (intro mult_right_mono) auto
  moreover have "r * n \<le> x div n * n" if "r \<le> x div n" using that n by (intro mult_right_mono) auto
  ultimately show ?thesis using x by linarith
qed

lemma rate_slots:
  assumes "0 < botCount cfg" "0 \<le> s" "s < botCount cfg" "botCount cfg * 100 < 2 ^ 31"
  shows "ShouldThisBotReconnect cfg s \<longleftrightarrow> s < (reconnectRatePct cfg * botCount cfg + 99) div 100"
proof -
  have "to_int32 (s * 100) = s * 100" using assms by (intro to_int32_id) auto
  then have "ShouldThisBotReconnect cfg s \<longleftrightarrow> s * 100 div botCount cfg < reconnectRatePct cfg"
    using assms(1,2) by (simp add: ShouldThisBotReconnect_def signed_divide_int_def sgn_if max_absorb1)
  also have "\<dots> \<longleftrightarrow> s * 100 < reconnectRatePct cfg * botCount cfg" by (rule int_div_less [OF assms(1)])
  also have "\<dots> \<longleftrightarrow> s < (reconnectRatePct cfg * botCount cfg + 99) div 100"
  proof -
    have "s * 100 < y \<longleftrightarrow> s < (y + 99) div 100" for y :: int
      using div_mult_mod_eq [of "y + 99" 100] pos_mod_bound [of 100 "y + 99"] pos_mod_sign [of 100 "y + 99"] by linarith
    then show ?thesis .
  qed
  finally show ?thesis .
qed

text \<open>
  As long as the slot numbers times 100 fit into 32 bits, the bots that disconnect in the
  scenario \<open>Reconnect\<close> are the given percentage of all, rounded up.
\<close>

lemma reconnect_rate_is_rounded_up:
  assumes "0 < botCount cfg" "botCount cfg * 100 < 2 ^ 31" "0 \<le> reconnectRatePct cfg" "reconnectRatePct cfg \<le> 100"
  shows "filter (\<lambda>k. ShouldThisBotReconnect cfg (int k)) [0..<nat (botCount cfg)] =
    [0..<nat ((reconnectRatePct cfg * botCount cfg + 99) div 100)]"
proof -
  let ?n = "botCount cfg" and ?k = "(reconnectRatePct cfg * botCount cfg + 99) div 100"
  have "reconnectRatePct cfg * ?n \<le> 100 * ?n" using assms(1,4) by (intro mult_right_mono) auto
  then have k: "?k \<le> ?n" by linarith
  have "filter (\<lambda>k. ShouldThisBotReconnect cfg (int k)) [0..<nat ?n] = filter (\<lambda>k. k < nat ?k) [0..<nat ?n]"
    by (rule filter_cong [OF refl]) (use rate_slots [OF assms(1) _ _ assms(2)] in auto)
  also have "\<dots> = [0..<nat ?k]"
  proof -
    have "[0..<nat ?n] = [0..<nat ?k] @ [nat ?k..<nat ?n]" using upt_add_eq_append [of 0 "nat ?k" "nat ?n - nat ?k"] nat_mono [OF k] by simp
    moreover have "filter (\<lambda>k. k < nat ?k) [0..<nat ?k] = [0..<nat ?k]" "filter (\<lambda>k. k < nat ?k) [nat ?k..<nat ?n] = []"
      by (auto simp: filter_id_conv filter_empty_conv)
    ultimately show ?thesis by simp
  qed
  finally show ?thesis .
qed

section \<open>Runs of one bot\<close>

definition one_bot :: BotConfig where
  "one_bot = BotConfig_new\<lparr>botCount := 1, packetsPerBot := 2\<rparr>"

text \<open>The session is made, gets assigned, and one packet is sent; then Enter is pressed.\<close>

definition one_packet_run :: "byte list round list" where
  "one_packet_run = [([Worker good_ws], False), ([], True)]"

lemmas bot_eval = main_client_def DummyClient_Initialize_def Initialize_def resize_def one_bot_def BotConfig_new_def
  BotManager_new_def Bot_new_def Start_def clock_now_def connect_server_def upd_bot_def Run_loop_stopped Run_loop_Nil
  Run_loop.simps [of _ _ _ "_ # _"] Tick_def TryAssignSessionIDs_def FindSession_def tick_bot_def tick_send_def tick_cycle_def
  SendPacket_def round_end_def RequestStop_def seconds_def milliseconds_def PrintLiveStats_def

lemma one_packet_result:
  "\<exists>c. main_client int bytes_codec (\<lambda>_ _ _ _. [7]) one_bot 0 one_packet_run = Inr (c, Some (PrintSummary int c)) \<and>
     map sessionID (m_bots (mgr c)) = [1] \<and> map state (m_bots (mgr c)) = [Connected] \<and> m_totalSent (mgr c) = 1"
  by (simp add: bot_eval net_eval one_packet_run_def to_int64_def to_int32_def del: One_nat_def)

theorem bots_never_share_a_session_witness:
  "\<exists>c. main_client int bytes_codec (\<lambda>_ _ _ _. [7]) one_bot 0 one_packet_run = Inr (c, Some (PrintSummary int c)) \<and>
     map sessionID (m_bots (mgr c)) = [1] \<and> m_totalSent (mgr c) = 1 \<and>
     1 mod 2 ^ 32 = sum_list (map totalPacketsSent (m_bots (mgr c))) mod 2 ^ 32"
proof -
  obtain c where c: "main_client int bytes_codec (\<lambda>_ _ _ _. [7]) one_bot 0 one_packet_run = Inr (c, Some (PrintSummary int c))"
    "map sessionID (m_bots (mgr c)) = [1]" "m_totalSent (mgr c) = 1" using one_packet_result by (elim exE conjE) (rule that)
  have "packetsPerBot one_bot < 2 ^ 31" by (simp add: one_bot_def BotConfig_new_def)
  from bots_never_share_a_session [OF c(1) this] c(3)
  have m: "1 mod 2 ^ 32 = sum_list (map totalPacketsSent (m_bots (mgr c))) mod 2 ^ 32" by (simp only:)
  show ?thesis by (intro exI [of _ c] conjI c m)
qed

theorem enter_ends_the_client_witness:
  "\<exists>c. main_client int bytes_codec (\<lambda>_ _ _ _. [7]) one_bot 0 ([([Worker good_ws], False)] @ [([], True)]) =
     Inr (c, Some (PrintSummary int c))"
proof -
  obtain c where c: "main_client int bytes_codec (\<lambda>_ _ _ _. [7]) one_bot 0 ([([Worker good_ws], False)] @ ([], True) # []) =
     Inr (c, Some (PrintSummary int c))" using one_packet_result by (auto simp: one_packet_run_def)
  from enter_ends_the_client [OF c] show ?thesis by blast
qed

text \<open>The connection is made and closed by the peer before the next tick.\<close>

definition short_session :: "byte list net_event list" where
  "short_session = [Worker good_ws, Worker good_ws, Kernel 0 True 0 [], Worker good_ws, Worker good_ws, Kernel 0 False 0 [],
     Worker good_ws]"

lemma GetWriteSize_new: "\<not> GetWriteSize RingQ_new \<le> 0"
  using GetWriteSize_contents [OF RingQ_new_inv(1)] by (simp add: RingQ_new_inv)

lemmas session_eval = ConnectIO_Complete_def OnConnected_def ReceiveIO_Run_def ReceiveIO_Start_def ReceiveIO_Complete_def
  RemoveSession_def Disconnect_def GetWriteSize_new short_session_def

theorem missing_id_stalls_the_bots_witness:
  "\<exists>c c' out. main_client int bytes_codec (\<lambda>_ _ _ _. [7]) one_bot 0 [(short_session, False)] = Inr (c, None) \<and>
     main_client int bytes_codec (\<lambda>_ _ _ _. [7]) one_bot 0 ([(short_session, False)] @ [([], False), ([Worker good_ws], False)]) = Inr (c', out) \<and>
     m_lastAssignedID (mgr c') = 0 \<and> map state (m_bots (mgr c')) = [Connecting]"
proof -
  let ?later = "[([], False), ([Worker good_ws], False)] :: byte list round list"
  have "\<exists>c c'. main_client int bytes_codec (\<lambda>_ _ _ _. [7]) one_bot 0 [(short_session, False)] = Inr (c, None) \<and>
     m_lastAssignedID (mgr c) = 0 \<and> length (objs (server c)) = 1 \<and> FindSession 1 (server c) = None \<and>
     main_client int bytes_codec (\<lambda>_ _ _ _. [7]) one_bot 0 ([(short_session, False)] @ ?later) = Inr (c', None) \<and>
     length (objs (server c')) = 1 \<and> map state (m_bots (mgr c')) = [Connecting]"
    by (simp add: bot_eval net_eval session_eval to_int64_def to_int32_def del: One_nat_def)
  then obtain c c' where c: "main_client int bytes_codec (\<lambda>_ _ _ _. [7]) one_bot 0 [(short_session, False)] = Inr (c, None)"
     "m_lastAssignedID (mgr c) = 0" "length (objs (server c)) = 1" "FindSession 1 (server c) = None"
     "main_client int bytes_codec (\<lambda>_ _ _ _. [7]) one_bot 0 ([(short_session, False)] @ ?later) = Inr (c', None)"
     "length (objs (server c')) = 1" "map state (m_bots (mgr c')) = [Connecting]" by (elim exE conjE) (rule that)
  have p: "packetsPerBot one_bot < 2 ^ 31" by (simp add: one_bot_def BotConfig_new_def)
  have l: "m_lastAssignedID (mgr c) < int (length (objs (server c)))" using c(2,3) by simp
  have f: "FindSession (m_lastAssignedID (mgr c) + 1) (server c) = None" using c(2,4) by simp
  have n: "length (objs (server c')) < 2 ^ 63 - 1" using c(6) by simp
  have "m_lastAssignedID (mgr c') = 0"
    using missing_id_stalls_the_bots [OF c(1) p l f c(5) n] c(2) by (simp only:)
  then show ?thesis by (intro exI [of _ c] exI [of _ c'] exI [of _ None] conjI c)
qed

end
