(* ===== verification/Memory_Log.thy ===== *)
theory Memory_Log
  imports MMO_Prelude
begin

text \<open>
  The in-memory logs (ServerCore/Memory/MemoryLog.h): the entry types and their
  \<^verbatim>\<open>DataSettiong\<close> functions, the two typed logs \<^verbatim>\<open>MemoryLogging_New\<close> and
  \<^verbatim>\<open>MemoryLogging_ST\<close>, and \<^verbatim>\<open>MyMemoryLog\<close> with its seven overloads. All three are rings that
  a 64-bit index runs around; the interface \<open>circular_log\<close> states what they share.
  One call is one step: the index is taken by \<^verbatim>\<open>InterlockedIncrement\<close>.
\<close>

section \<open>Log entries\<close>

datatype eSendFlag =
    SENDPOST_ENTRY | BEFORE_SEND | AFTER_SEND | GQCS_SENDFLAG | SEND_COMPLETE_BEFORE
  | SEND_COMPLETE_AFTER | RECVPOST | SIZE_SHORT | YIELD | IO_PENDING

datatype eIOCP_LINE =
    GQCS | ACCEPT_BEFORE_RECV | ACCEPT_NEW_USER | ACCEPT_AFTER_RECV | RECVPOST_BEFORE_RECV
  | RECVPOST_AFTER_RECV | SENDPOST_BEFORE_SEND | SENDPACKET | SENDPOST_AFTER_SEND | RECV_COMPLETE
  | SEND_COMPLETE | LAST_COMPLETE | TRANSFER_ZERO_RECV | TRANSFER_ZERO_SEND | CLOSE_SOCKET_ENTRY
  | RELEASE_SESSION | RELASE_SESSION_CLEAR_IO_INC | RECVPOST_RECVRTN | SENDPOST_SENDRTN
  | ACCEPT_RECVRTN | ELSE_OVERLAP | CLOSE_SOCKET_INVALIDSOCKET | CLOSE_SOCKET_CLOSESOCKET
  | SENDCOMPLETE_BEFROE_GETUSEDSIZE | SENDCOMPLETE_AFTER_GETUSEDSIZE | CRASH | ON_RECV | ON_RECV_ALLOC
  | ON_RECV_FREE | ON_RECV_LAST | DEQPACKET_ENTRY | DEQPACKET_LAST | DEQPACKET_FREE
  | RELEASEPACKET_FREE | ON_CLIENTJOIN_ALLOC | ON_CLIENTJOIN_LAST | WSABUF_SETTING
  | WSABUF_SETTING_LAST | SMARTPACKET_COPY_STRUCTOR | SMARTPACKET_EXCHANGE | SMARTPACKET_DESTRUCTOR
  | SMARTPACKET_DELETE | UPDATETHREAD_JOB_SWITCH | MESSAGE_MARSHAL | MESSAGE | ACQUIRE_SESSION_SUC
  | ACQUIRE_SESSION_FAIL | ON_CLIENT_LEAVE | ON_CLIENT_JOIN | CREATE_NEW_CLIENT | DELETE_CLIENT
  | DISCONNECT_CLIENT | RECVPOST_FREESIZE_NON | PQCS_SENDPOST | DISCON_RELEASE | SENDTHREAD_SENDFAIL
  | SENDTHREAD_SENDSUC

datatype eRecvMessageType =
    NOTHING | LOGIN | SECTOR_MOVE | MESSAGE_RECV

datatype eFreeListPos =
    DEQ_POINTER | ENQ_POINTER | FREE_FLAG_CHECK | FREE_OKAY | ALLOC_OKAY | ALLOC_MEMORY

datatype ePOS =
    ENTRY_ENQ | ALLOC_NODE_ENQ | TEMP_REAR_SETTING_ENQ | CHANGEVALUE_SETTING_ENQ
  | CAS1_FAIL_BUT_CHANGE_REAR_ENQ | CAS1_FAIL_NO_CHANGE | CAS1_SUC_ENQ | CAS2_SUC_NEWNODE1_ENQ
  | CAS2_FAIL_NEWNODE1_ENQ | CAS2_SUC_NEWNODE2_ENQ | CAS2_FAIL_NEWNODE2_ENQ | LOOP_OUT_ENQ | ENTRY_DEQ
  | NODE_ZERO_DEQ1 | NODE_ZERO_DEQ2 | TEMP_FRONT_SETTING_DEQ | CHANGEVALUE_SETTING_DEQ | CAS2_SUC_DEQ
  | CAS2_FAIL_DEQ | LOOP_OUT_DEQ | FREE_NODE_DEQ | RETURN_DATA_DEQ | TEMPREAR_NEWNODE_SAME
  | NEWNODE_NEXT_NOT_NULL

text \<open>
  The entries. Every field has the width of the C++ field; a signed field is read with \<open>sint\<close>.
  \<^verbatim>\<open>DataSettiong\<close> assigns its arguments to the fields of the entry it is called on.
\<close>

record SendFlag_Log =
  sf_No :: "64 word"
  sf_Pos :: eSendFlag
  sf_ThreadID :: "32 word"
  sf_Socket :: "64 word"
  sf_CurSession :: "64 word"
  sf_RecvOL :: "64 word"
  sf_SendOL :: "64 word"
  sf_SendFlag :: "32 word"
  sf_SendQUsedSize :: "32 word"

definition SendFlag_DataSettiong ::
  "64 word \<Rightarrow> eSendFlag \<Rightarrow> 32 word \<Rightarrow> 64 word \<Rightarrow> 64 word \<Rightarrow> 64 word \<Rightarrow> 64 word \<Rightarrow> 32 word \<Rightarrow> 32 word
    \<Rightarrow> SendFlag_Log \<Rightarrow> SendFlag_Log" where
  "SendFlag_DataSettiong no pos threadid socket curSession recvOL sendOL snedFlag sendQUsedSize l =
     l\<lparr>sf_No := no, sf_Pos := pos, sf_ThreadID := threadid, sf_Socket := socket, sf_CurSession := curSession,
       sf_RecvOL := recvOL, sf_SendOL := sendOL, sf_SendFlag := snedFlag, sf_SendQUsedSize := sendQUsedSize\<rparr>"

record IOCP_Log =
  io_No :: "64 word"
  io_Pos :: eIOCP_LINE
  io_ThreadID :: "32 word"
  io_Socket :: "64 word"
  io_IOCount :: "32 word"
  io_CurSession :: "64 word"
  io_CurSessionID :: "64 word"
  io_RecvOL :: "64 word"
  io_SendOL :: "64 word"
  io_SendFlag :: "32 word"
  io_JobType :: "32 word"
  io_JobQCount :: "32 word"
  io_RecvMessageType :: eRecvMessageType
  io_PacketRefCount :: "32 word"
  io_AccountNo :: "64 word"
  io_SessionStatus :: "32 word"

definition IOCP_DataSettiong ::
  "64 word \<Rightarrow> eIOCP_LINE \<Rightarrow> 32 word \<Rightarrow> 64 word \<Rightarrow> 32 word \<Rightarrow> 64 word \<Rightarrow> 64 word \<Rightarrow> 64 word \<Rightarrow> 64 word \<Rightarrow> 32 word
    \<Rightarrow> 32 word \<Rightarrow> 32 word \<Rightarrow> eRecvMessageType \<Rightarrow> 32 word \<Rightarrow> 64 word \<Rightarrow> 32 word \<Rightarrow> IOCP_Log \<Rightarrow> IOCP_Log" where
  "IOCP_DataSettiong no pos threadid socket ioCount curSession curSessionID recvOL sendOL snedFlag
     jobType jobQCount type refCount accountNo sessionStatus l =
     l\<lparr>io_No := no, io_Pos := pos, io_ThreadID := threadid, io_Socket := socket, io_IOCount := ioCount,
       io_CurSession := curSession, io_CurSessionID := curSessionID, io_RecvOL := recvOL, io_SendOL := sendOL,
       io_SendFlag := snedFlag, io_JobType := jobType, io_JobQCount := jobQCount, io_RecvMessageType := type,
       io_PacketRefCount := refCount, io_AccountNo := accountNo, io_SessionStatus := sessionStatus\<rparr>"

text \<open>The call with the default arguments left out.\<close>

definition IOCP_DataSettiong_default ::
  "64 word \<Rightarrow> eIOCP_LINE \<Rightarrow> 32 word \<Rightarrow> 64 word \<Rightarrow> 32 word \<Rightarrow> 64 word \<Rightarrow> 64 word \<Rightarrow> 64 word \<Rightarrow> 64 word \<Rightarrow> 32 word
    \<Rightarrow> IOCP_Log \<Rightarrow> IOCP_Log" where
  "IOCP_DataSettiong_default no pos threadid socket ioCount curSession curSessionID recvOL sendOL snedFlag =
     IOCP_DataSettiong no pos threadid socket ioCount curSession curSessionID recvOL sendOL snedFlag
       (- 1) (- 1) NOTHING (- 1) (- 1) (- 1)"

record FreeList_Log =
  fl_No :: "64 word"
  fl_POS :: eFreeListPos
  fl_ThreadID :: "32 word"
  fl_TopPtr :: "64 word"
  fl_TempTopPtr :: "64 word"
  fl_FreeNode :: "64 word"
  fl_ReturnNode :: "64 word"

text \<open>
  The parameters \<^verbatim>\<open>_TopPtr\<close> and \<^verbatim>\<open>_TempTopPtr\<close> hide the fields of these names, so
  \<^verbatim>\<open>_TopPtr = _TopPtr\<close> assigns the parameter to itself and leaves the field alone.
\<close>

definition FreeList_DataSettiong ::
  "64 word \<Rightarrow> eFreeListPos \<Rightarrow> 32 word \<Rightarrow> 64 word \<Rightarrow> 64 word \<Rightarrow> 64 word \<Rightarrow> 64 word \<Rightarrow> FreeList_Log \<Rightarrow> FreeList_Log" where
  "FreeList_DataSettiong no pos threadid TopPtr TempTopPtr freeNode returnNode l =
     l\<lparr>fl_No := no, fl_POS := pos, fl_ThreadID := threadid, fl_FreeNode := freeNode, fl_ReturnNode := returnNode\<rparr>"

record Q_LOG =
  q_No :: "64 word"
  q_POS :: ePOS
  q_ThreadID :: "32 word"
  q_FrontPtr :: "64 word"
  q_RearPtr :: "64 word"
  q_TempFrontPtr :: "64 word"
  q_TempRearPtr :: "64 word"
  q_NewNodePtr :: "64 word"
  q_Data :: "64 word"
  q_RearNext :: "64 word"
  q_CurDummyNode :: "64 word"
  q_NewNext :: "64 word"
  q_Count :: "32 word"
  q_LoopCount :: "32 word"

definition Q_DataSettiong ::
  "64 word \<Rightarrow> ePOS \<Rightarrow> 32 word \<Rightarrow> 64 word \<Rightarrow> 64 word \<Rightarrow> 64 word \<Rightarrow> 64 word \<Rightarrow> 64 word \<Rightarrow> 64 word \<Rightarrow> 64 word \<Rightarrow> 64 word
    \<Rightarrow> 64 word \<Rightarrow> 32 word \<Rightarrow> 32 word \<Rightarrow> Q_LOG \<Rightarrow> Q_LOG" where
  "Q_DataSettiong no pos threadid frontPtr rearPtr tempFrontPtr tempRearPtr newNodePtr data rearNext curDummy
     newNext count loopCount l =
     l\<lparr>q_No := no, q_POS := pos, q_ThreadID := threadid, q_FrontPtr := frontPtr, q_RearPtr := rearPtr,
       q_TempFrontPtr := tempFrontPtr, q_TempRearPtr := tempRearPtr, q_NewNodePtr := newNodePtr, q_Data := data,
       q_RearNext := rearNext, q_CurDummyNode := curDummy, q_NewNext := newNext, q_Count := count,
       q_LoopCount := loopCount\<rparr>"

text \<open>An entry whose bytes are all zero (\<^verbatim>\<open>ZeroMemory\<close>, \<^verbatim>\<open>memset\<close>).\<close>

definition Q_LOG_zero :: Q_LOG where
  "Q_LOG_zero = \<lparr>q_No = 0, q_POS = ENTRY_ENQ, q_ThreadID = 0, q_FrontPtr = 0, q_RearPtr = 0, q_TempFrontPtr = 0,
     q_TempRearPtr = 0, q_NewNodePtr = 0, q_Data = 0, q_RearNext = 0, q_CurDummyNode = 0, q_NewNext = 0,
     q_Count = 0, q_LoopCount = 0\<rparr>"

section \<open>The typed logs\<close>

definition USE_LOG :: bool where
  "USE_LOG = True"

text \<open>
  \<open>MAX_SIZE\<close> is the length of the buffer; \<open>z\<close> is the entry of zero bytes of the type \<^verbatim>\<open>T\<close>.
\<close>

record 'a MemoryLogging_New =
  m_Buffer :: "'a list"
  m_Index :: "64 word"
  m_Count :: "64 word"

definition MemoryLogging_New_new :: "nat \<Rightarrow> 'a \<Rightarrow> 'a MemoryLogging_New" where
  "MemoryLogging_New_new n z = \<lparr>m_Buffer = replicate n z, m_Index = 0, m_Count = 0\<rparr>"

definition MemoryLogging :: "'a \<Rightarrow> 'a \<Rightarrow> 'a MemoryLogging_New \<Rightarrow> 'a MemoryLogging_New" where
  "MemoryLogging z logData l =
     (if \<not> USE_LOG then l
      else let index = m_Index l + 1;
               tempIndex = unat index mod length (m_Buffer l);
               b = (m_Buffer l)[tempIndex := z]
           in l\<lparr>m_Index := index, m_Buffer := b[tempIndex := logData]\<rparr>)"

definition Clear_New :: "'a \<Rightarrow> 'a MemoryLogging_New \<Rightarrow> 'a MemoryLogging_New" where
  "Clear_New z l = l\<lparr>m_Buffer := replicate (length (m_Buffer l)) z, m_Index := 0, m_Count := 0\<rparr>"

record MemoryLogging_ST =
  st_Buffer :: "Q_LOG list"
  st_Index :: "64 word"
  st_Count :: "64 word"

definition MemoryLogging_ST_new :: "nat \<Rightarrow> MemoryLogging_ST" where
  "MemoryLogging_ST_new n = \<lparr>st_Buffer = replicate n Q_LOG_zero, st_Index = 0, st_Count = 0\<rparr>"

definition ST_MemoryLogging :: "Q_LOG \<Rightarrow> MemoryLogging_ST \<Rightarrow> MemoryLogging_ST" where
  "ST_MemoryLogging logData l =
     (if \<not> USE_LOG then l
      else let index = st_Index l + 1;
               tempIndex = unat index mod length (st_Buffer l);
               b = (st_Buffer l)[tempIndex := Q_LOG_zero]
           in l\<lparr>st_Index := index, st_Buffer := b[tempIndex := logData]\<rparr>)"

definition Clear_ST :: "MemoryLogging_ST \<Rightarrow> MemoryLogging_ST" where
  "Clear_ST l = l\<lparr>st_Buffer := replicate (length (st_Buffer l)) Q_LOG_zero, st_Index := 0, st_Count := 0\<rparr>"

section \<open>MyMemoryLog\<close>

text \<open>
  \<^verbatim>\<open>T m_Buffer[MAX_SIZE][MAX_PROPERTY]\<close> is one block, row after row; \<^verbatim>\<open>T\<close> is an integer type of
  some width, and the count is cast to it.
\<close>

definition MAX_PROPERTY :: nat where
  "MAX_PROPERTY = 10"

record 'a MyMemoryLog =
  MAX_SIZE :: nat
  my_Buffer :: "'a list"
  my_Index :: "64 word"
  my_Count :: "64 word"

definition MyMemoryLog_new :: "nat \<Rightarrow> 'w::len word MyMemoryLog" where
  "MyMemoryLog_new n =
     \<lparr>MAX_SIZE = n, my_Buffer = replicate (n * MAX_PROPERTY) 0, my_Index = 0, my_Count = 0\<rparr>"

text \<open>
  What the overloads share: take the index, zero the row, number it and store the values
  from column 1 on.
\<close>

definition log_row :: "'w::len word list \<Rightarrow> 'w word MyMemoryLog \<Rightarrow> 'w word MyMemoryLog" where
  "log_row vals l =
     (if \<not> USE_LOG then l
      else let index = my_Index l + 1;
               tempIndex = unat index mod MAX_SIZE l;
               count = my_Count l + 1;
               row = ucast count # vals @ replicate (MAX_PROPERTY - Suc (length vals)) 0
           in l\<lparr>my_Index := index, my_Count := count,
                my_Buffer := take (tempIndex * MAX_PROPERTY) (my_Buffer l) @ row @
                             drop (tempIndex * MAX_PROPERTY + MAX_PROPERTY) (my_Buffer l)\<rparr>)"

definition MemoryLogging3 :: "'w::len word \<Rightarrow> 'w word \<Rightarrow> 'w word \<Rightarrow> 'w word MyMemoryLog \<Rightarrow> 'w word MyMemoryLog" where
  "MemoryLogging3 pos threadID data = log_row [threadID, pos, data]"

definition MemoryLogging4 :: "'w::len word \<Rightarrow> 'w word \<Rightarrow> 'w word \<Rightarrow> 'w word \<Rightarrow> 'w word MyMemoryLog \<Rightarrow> 'w word MyMemoryLog" where
  "MemoryLogging4 pos threadID sessionID data = log_row [sessionID, threadID, pos, data]"

definition MemoryLogging5 :: "'w::len word \<Rightarrow> 'w word \<Rightarrow> 'w word \<Rightarrow> 'w word \<Rightarrow> 'w word \<Rightarrow> 'w word MyMemoryLog \<Rightarrow> 'w word MyMemoryLog" where
  "MemoryLogging5 pos threadID sessionID data1 data2 = log_row [sessionID, threadID, pos, data1, data2]"

definition MemoryLogging6 ::
  "'w::len word \<Rightarrow> 'w word \<Rightarrow> 'w word \<Rightarrow> 'w word \<Rightarrow> 'w word \<Rightarrow> 'w word \<Rightarrow> 'w word MyMemoryLog \<Rightarrow> 'w word MyMemoryLog" where
  "MemoryLogging6 pos threadID sessionID data1 data2 data3 = log_row [sessionID, threadID, pos, data1, data2, data3]"

definition MemoryLogging7 ::
  "'w::len word \<Rightarrow> 'w word \<Rightarrow> 'w word \<Rightarrow> 'w word \<Rightarrow> 'w word \<Rightarrow> 'w word \<Rightarrow> 'w word \<Rightarrow> 'w word MyMemoryLog \<Rightarrow> 'w word MyMemoryLog" where
  "MemoryLogging7 pos threadID sessionID data1 data2 data3 data4 =
     log_row [sessionID, threadID, pos, data1, data2, data3, data4]"

definition MemoryLogging8 ::
  "'w::len word \<Rightarrow> 'w word \<Rightarrow> 'w word \<Rightarrow> 'w word \<Rightarrow> 'w word \<Rightarrow> 'w word \<Rightarrow> 'w word \<Rightarrow> 'w word
    \<Rightarrow> 'w word MyMemoryLog \<Rightarrow> 'w word MyMemoryLog" where
  "MemoryLogging8 pos threadID sessionID data1 data2 data3 data4 data5 =
     log_row [sessionID, threadID, pos, data1, data2, data3, data4, data5]"

definition MemoryLogging9 ::
  "'w::len word \<Rightarrow> 'w word \<Rightarrow> 'w word \<Rightarrow> 'w word \<Rightarrow> 'w word \<Rightarrow> 'w word \<Rightarrow> 'w word \<Rightarrow> 'w word \<Rightarrow> 'w word
    \<Rightarrow> 'w word MyMemoryLog \<Rightarrow> 'w word MyMemoryLog" where
  "MemoryLogging9 pos threadID sessionID data1 data2 data3 data4 data5 data6 =
     log_row [sessionID, threadID, pos, data1, data2, data3, data4, data5, data6]"

text \<open>\<^verbatim>\<open>memset(m_Buffer, 0, sizeof(T) * MAX_SIZE)\<close>: \<open>MAX_SIZE\<close> values, not \<open>MAX_SIZE\<close> rows.\<close>

definition Clear_My :: "'w::len word MyMemoryLog \<Rightarrow> 'w word MyMemoryLog" where
  "Clear_My l = l\<lparr>my_Buffer := replicate (MAX_SIZE l) 0 @ drop (MAX_SIZE l) (my_Buffer l), my_Index := 0, my_Count := 0\<rparr>"

text \<open>A call of one of the overloads.\<close>

datatype 'a log_call =
    Log3 'a 'a 'a
  | Log4 'a 'a 'a 'a
  | Log5 'a 'a 'a 'a 'a
  | Log6 'a 'a 'a 'a 'a 'a
  | Log7 'a 'a 'a 'a 'a 'a 'a
  | Log8 'a 'a 'a 'a 'a 'a 'a 'a
  | Log9 'a 'a 'a 'a 'a 'a 'a 'a 'a

fun log_once :: "'w::len word log_call \<Rightarrow> 'w word MyMemoryLog \<Rightarrow> 'w word MyMemoryLog" where
  "log_once (Log3 p t d) = MemoryLogging3 p t d"
| "log_once (Log4 p t s d) = MemoryLogging4 p t s d"
| "log_once (Log5 p t s d1 d2) = MemoryLogging5 p t s d1 d2"
| "log_once (Log6 p t s d1 d2 d3) = MemoryLogging6 p t s d1 d2 d3"
| "log_once (Log7 p t s d1 d2 d3 d4) = MemoryLogging7 p t s d1 d2 d3 d4"
| "log_once (Log8 p t s d1 d2 d3 d4 d5) = MemoryLogging8 p t s d1 d2 d3 d4 d5"
| "log_once (Log9 p t s d1 d2 d3 d4 d5 d6) = MemoryLogging9 p t s d1 d2 d3 d4 d5 d6"

text \<open>The row a call should leave: its number, session, thread, position and data, then zeros.\<close>

fun log_values :: "'w::len word log_call \<Rightarrow> 'w word list" where
  "log_values (Log3 p t d) = [t, p, d]"
| "log_values (Log4 p t s d) = [s, t, p, d]"
| "log_values (Log5 p t s d1 d2) = [s, t, p, d1, d2]"
| "log_values (Log6 p t s d1 d2 d3) = [s, t, p, d1, d2, d3]"
| "log_values (Log7 p t s d1 d2 d3 d4) = [s, t, p, d1, d2, d3, d4]"
| "log_values (Log8 p t s d1 d2 d3 d4 d5) = [s, t, p, d1, d2, d3, d4, d5]"
| "log_values (Log9 p t s d1 d2 d3 d4 d5 d6) = [s, t, p, d1, d2, d3, d4, d5, d6]"

definition call_row :: "nat \<Rightarrow> 'w::len word log_call \<Rightarrow> 'w word list" where
  "call_row n c = take MAX_PROPERTY (of_nat n # log_values c @ replicate MAX_PROPERTY 0)"

definition row :: "'a MyMemoryLog \<Rightarrow> nat \<Rightarrow> 'a list" where
  "row l j = take MAX_PROPERTY (drop (j * MAX_PROPERTY) (my_Buffer l))"

section \<open>A ring of entries\<close>

text \<open>
  What the logs share: the ring has \<open>places\<close> places; a call advances the 64-bit index and
  overwrites the place the index is at, with an entry that may depend on the index.
\<close>

locale circular_log =
  fixes valid :: "'s \<Rightarrow> bool" and places :: "'s \<Rightarrow> nat" and index :: "'s \<Rightarrow> nat"
    and place :: "'s \<Rightarrow> nat \<Rightarrow> 'r" and put :: "'e \<Rightarrow> 's \<Rightarrow> 's" and entry :: "nat \<Rightarrow> 'e \<Rightarrow> 'r"
  assumes put_valid: "valid s \<Longrightarrow> valid (put e s)"
    and put_size: "valid s \<Longrightarrow> places (put e s) = places s"
    and size_pos: "valid s \<Longrightarrow> 0 < places s"
    and put_index: "valid s \<Longrightarrow> Suc (index s) < 2 ^ 64 \<Longrightarrow> index (put e s) = Suc (index s)"
    and put_place: "valid s \<Longrightarrow> Suc (index s) < 2 ^ 64 \<Longrightarrow> j < places s \<Longrightarrow>
      place (put e s) j = (if j = Suc (index s) mod places s then entry (Suc (index s)) e else place s j)"
begin

lemma fold_valid: "valid s \<Longrightarrow> valid (fold put es s) \<and> places (fold put es s) = places s"
  by (induction es arbitrary: s) (auto simp: put_valid put_size)

lemma fold_index: "valid s \<Longrightarrow> index s + length es < 2 ^ 64 \<Longrightarrow> index (fold put es s) = index s + length es"
  by (induction es arbitrary: s) (auto simp: put_valid put_index)

lemma untouched_place:
  "valid s \<Longrightarrow> index s + length es < 2 ^ 64 \<Longrightarrow> j < places s \<Longrightarrow>
    (\<And>i. i < length es \<Longrightarrow> j \<noteq> (index s + Suc i) mod places s) \<Longrightarrow> place (fold put es s) j = place s j"
proof (induction es arbitrary: s)
  case (Cons e es)
  have "j \<noteq> (index (put e s) + Suc i) mod places (put e s)" if "i < length es" for i
    using Cons.prems(4) [of "Suc i"] Cons.prems that by (simp add: put_index put_size)
  then have "place (fold put es (put e s)) j = place (put e s) j"
    using Cons.prems by (intro Cons.IH) (auto simp: put_valid put_index put_size)
  also have "\<dots> = place s j" using Cons.prems(1-3) Cons.prems(4) [of 0] by (simp add: put_place)
  finally show ?case by simp
qed simp

lemma keeps_the_last:
  assumes "valid s" "index s + length es < 2 ^ 64" "k < length es" "length es \<le> k + places s"
  shows "place (fold put es s) ((index s + Suc k) mod places s) = entry (index s + Suc k) (es ! k)"
proof -
  let ?s = "fold put (take k es) s" and ?N = "places s"
  have v: "valid ?s" "places ?s = ?N" "0 < ?N" using fold_valid assms(1) size_pos by auto
  have i: "index ?s = index s + k" using fold_index [OF assms(1), of "take k es"] assms by simp
  let ?j = "(index s + Suc k) mod ?N" and ?p = "put (es ! k) ?s"
  have p: "valid ?p" "places ?p = ?N" "index ?p = index s + Suc k"
    using v i assms by (auto simp: put_valid put_size put_index)
  have ne: "?j \<noteq> (index ?p + Suc m) mod places ?p" if "m < length (drop (Suc k) es)" for m
  proof
    assume "?j = (index ?p + Suc m) mod places ?p"
    then have "(index s + Suc k + Suc m) mod ?N = (index s + Suc k) mod ?N" by (simp add: p add.assoc)
    then have "?N dvd index s + Suc k + Suc m - (index s + Suc k)" by (metis le_add1 mod_eq_dvd_iff_nat)
    then have "?N dvd Suc m" by simp
    moreover have "Suc m < ?N" using that assms(4) by simp
    ultimately show False by (auto dest: dvd_imp_le)
  qed
  have "fold put es s = fold put (drop (Suc k) es) ?p"
    using assms(3) by (metis append_take_drop_id Cons_nth_drop_Suc fold_append fold_simps(2) comp_apply)
  also have "place \<dots> ?j = place ?p ?j"
    using ne p v assms by (intro untouched_place) auto
  also have "\<dots> = entry (index s + Suc k) (es ! k)" using v i assms by (simp add: put_place)
  finally show ?thesis by simp
qed

end

section \<open>The logs are such rings\<close>

lemma unat_Suc_word: "Suc (unat w) < 2 ^ 64 \<Longrightarrow> unat (w + 1 :: 64 word) = Suc (unat w)"
  by (subst unat_plus_simple [THEN iffD1]) (auto simp: word_le_nat_alt unat_word_ariths)

lemmas log_simps = USE_LOG_def Let_def unat_Suc_word

interpretation newlog: circular_log "\<lambda>l. m_Buffer l \<noteq> []" "\<lambda>l. length (m_Buffer l)" "\<lambda>l. unat (m_Index l)"
  "\<lambda>l j. m_Buffer l ! j" "MemoryLogging z" "\<lambda>_ e. e"
  by unfold_locales (auto simp: MemoryLogging_def log_simps nth_list_update)

interpretation stlog: circular_log "\<lambda>l. st_Buffer l \<noteq> []" "\<lambda>l. length (st_Buffer l)" "\<lambda>l. unat (st_Index l)"
  "\<lambda>l j. st_Buffer l ! j" ST_MemoryLogging "\<lambda>_ e. e"
  by unfold_locales (auto simp: ST_MemoryLogging_def log_simps nth_list_update)

definition my_valid :: "'w::len word MyMemoryLog \<Rightarrow> bool" where
  "my_valid l \<longleftrightarrow> 0 < MAX_SIZE l \<and> length (my_Buffer l) = MAX_SIZE l * MAX_PROPERTY \<and> my_Index l = my_Count l"

lemma log_once_row: "log_once c = log_row (log_values c)"
  by (cases c) (simp_all add: MemoryLogging3_def MemoryLogging4_def MemoryLogging5_def MemoryLogging6_def
      MemoryLogging7_def MemoryLogging8_def MemoryLogging9_def)

lemma length_log_values: "length (log_values c) \<le> 9"
  by (cases c) simp_all

lemma call_row_eq:
  fixes c :: "'w::len word log_call"
  assumes "my_valid l" "Suc (unat (my_Index l)) < 2 ^ 64"
  shows "call_row (Suc (unat (my_Index l))) c =
    ucast (my_Count l + 1) # log_values c @ replicate (MAX_PROPERTY - Suc (length (log_values c))) 0"
proof -
  have "(of_nat (unat (my_Index l + 1)) :: 'w word) = ucast (my_Count l + 1)"
    using assms(1) unfolding my_valid_def by (simp only: of_nat_unat)
  then have "(of_nat (Suc (unat (my_Index l))) :: 'w word) = ucast (my_Count l + 1)"
    unfolding unat_Suc_word [OF assms(2)] .
  then show ?thesis using length_log_values [of c] by (auto simp: call_row_def MAX_PROPERTY_def min_def)
qed

lemma row_write:
  assumes "length b = N * M" "length r = M" "i < N" "j < N"
  shows "take M (drop (j * M) (take (i * M) b @ r @ drop (i * M + M) b)) = (if j = i then r else take M (drop (j * M) b))"
proof -
  have i: "i * M + M \<le> N * M" using assms(3) by (metis Suc_leI add.commute mult_Suc mult_le_mono1)
  have len: "length (take (i * M) b) = i * M" using i assms(1) by simp
  consider "j < i" | "j = i" | "i < j" by linarith
  then show ?thesis
  proof cases
    case 1
    then have "j * M + M \<le> i * M" by (metis Suc_leI add.commute mult_Suc mult_le_mono1)
    then have "drop (j * M) (take (i * M) b) = take (i * M - j * M) (drop (j * M) b)" "M \<le> i * M - j * M"
      "M \<le> length (take (i * M - j * M) (drop (j * M) b))" "j * M \<le> length (take (i * M) b)"
      using 1 len i assms(1) by (auto simp: drop_take)
    then show ?thesis using 1 by (simp only: drop_append take_append) (simp add: min_def)
  next
    case 2
    with len assms(2) show ?thesis by simp
  next
    case 3
    then have "i * M + M \<le> j * M" by (metis Suc_leI add.commute mult_Suc mult_le_mono1)
    with 3 len assms(2) show ?thesis by simp
  qed
qed

lemma my_valid_pos: "my_valid l \<Longrightarrow> 0 < MAX_SIZE l"
  by (simp add: my_valid_def)

lemma my_index_less: "my_valid l \<Longrightarrow> unat w mod MAX_SIZE l < MAX_SIZE l"
  by (simp add: my_valid_def)

lemma my_row_length: "i < N \<Longrightarrow> i * MAX_PROPERTY + MAX_PROPERTY \<le> N * MAX_PROPERTY"
  by (simp add: MAX_PROPERTY_def)

lemma log_once_valid: "my_valid l \<Longrightarrow> my_valid (log_once c l) \<and> MAX_SIZE (log_once c l) = MAX_SIZE l"
  using length_log_values [of c] my_row_length [OF my_index_less, of l "my_Index l + 1"]
  by (simp add: my_valid_def log_once_row log_row_def log_simps MAX_PROPERTY_def)

lemma log_once_place:
  assumes "my_valid l" "Suc (unat (my_Index l)) < 2 ^ 64" "j < MAX_SIZE l"
  shows "row (log_once c l) j =
    (if j = Suc (unat (my_Index l)) mod MAX_SIZE l then call_row (Suc (unat (my_Index l))) c else row l j)"
proof -
  let ?i = "Suc (unat (my_Index l)) mod MAX_SIZE l"
  have "length (call_row (Suc (unat (my_Index l))) c) = MAX_PROPERTY"
    by (simp add: call_row_def MAX_PROPERTY_def)
  moreover have "row (log_once c l) j = take MAX_PROPERTY (drop (j * MAX_PROPERTY)
      (take (?i * MAX_PROPERTY) (my_Buffer l) @ call_row (Suc (unat (my_Index l))) c @
       drop (?i * MAX_PROPERTY + MAX_PROPERTY) (my_Buffer l)))"
    using assms(2) by (simp add: row_def log_once_row log_row_def log_simps call_row_eq [OF assms(1,2)])
  ultimately show ?thesis using assms row_write [of "my_Buffer l" "MAX_SIZE l" MAX_PROPERTY _ ?i j]
    by (simp add: my_valid_def row_def)
qed

lemma log_once_index: "Suc (unat (my_Index l)) < 2 ^ 64 \<Longrightarrow> unat (my_Index (log_once c l)) = Suc (unat (my_Index l))"
  by (simp add: log_once_row log_row_def log_simps)

interpretation mylog: circular_log my_valid MAX_SIZE "\<lambda>l. unat (my_Index l)" row log_once call_row
  by unfold_locales (simp_all add: log_once_valid log_once_place log_once_index my_valid_pos)

section \<open>What the logs keep\<close>

lemma MyMemoryLog_new_valid: "0 < n \<Longrightarrow> my_valid (MyMemoryLog_new n)"
  by (simp add: my_valid_def MyMemoryLog_new_def)

lemma row_Clear:
  assumes "MAX_SIZE l \<le> j * MAX_PROPERTY" "my_valid l"
  shows "row (Clear_My l) j = row l j"
  using assms by (simp add: row_def Clear_My_def my_valid_def)

lemma Clear_My_valid: "my_valid l \<Longrightarrow> my_valid (Clear_My l) \<and> MAX_SIZE (Clear_My l) = MAX_SIZE l \<and> my_Index (Clear_My l) = 0"
  by (simp add: my_valid_def Clear_My_def MAX_PROPERTY_def)

text \<open>
  C38. (ServerCore/Memory/MemoryLog.h, MyMemoryLog) As long as fewer than 2^64 calls have been made,
  each of the last \<open>MAX_SIZE\<close> calls of any of the seven overloads is in the log: call number
  \<open>k\<close> is row \<open>k mod MAX_SIZE\<close>, and the row is the number of the call, its session, thread,
  position and data, and zeros. The same holds of the typed logs, whose rows are the entries.
\<close>

theorem logs_keep_the_last_calls:
  fixes cs :: "'w::len word log_call list"
  assumes "0 < n" "length cs < 2 ^ 64" "k < length cs" "length cs \<le> k + n"
    and "length es = length cs" "length qs = length cs"
  shows "row (fold log_once cs (MyMemoryLog_new n)) (Suc k mod n) = call_row (Suc k) (cs ! k) \<and>
    m_Buffer (fold (MemoryLogging z) es (MemoryLogging_New_new n z)) ! (Suc k mod n) = es ! k \<and>
    st_Buffer (fold ST_MemoryLogging qs (MemoryLogging_ST_new n)) ! (Suc k mod n) = qs ! k"
  using mylog.keeps_the_last [OF MyMemoryLog_new_valid [OF assms(1)], of cs k]
    newlog.keeps_the_last [of "MemoryLogging_New_new n z" es k z]
    stlog.keeps_the_last [of "MemoryLogging_ST_new n" qs k] assms
  by (simp add: MyMemoryLog_new_def MemoryLogging_New_new_def MemoryLogging_ST_new_def)

theorem logs_keep_the_last_calls_witness:
  "row (fold log_once [Log3 1 2 3, Log4 4 5 6 7, Log5 8 9 10 11 12 :: 16 word log_call] (MyMemoryLog_new 2)) (3 mod 2) =
     call_row 3 (Log5 8 9 10 11 12)"
  using logs_keep_the_last_calls [of 2 "[Log3 1 2 3, Log4 4 5 6 7, Log5 8 9 10 11 12 :: 16 word log_call]" 2
      "[0, 1, 2 :: nat]" "[Q_LOG_zero, Q_LOG_zero, Q_LOG_zero]"] by simp

text \<open>
  (ServerCore/Memory/MemoryLog.h, MyMemoryLog::Clear) \<^verbatim>\<open>Clear\<close> restarts the numbering but zeroes only
  the first tenth of the rows: whatever was logged, and however few calls follow, a row from
  \<open>MAX_SIZE / 10\<close> on that the new calls have not reached still holds what it held before.
\<close>

theorem Clear_keeps_nine_tenths:
  fixes l :: "'w::len word MyMemoryLog"
  assumes "my_valid l" "j < MAX_SIZE l" "MAX_SIZE l \<le> j * 10" "length cs < j" "length cs < 2 ^ 64"
  shows "row (fold log_once cs (Clear_My l)) j = row l j"
proof -
  have c: "my_valid (Clear_My l)" "MAX_SIZE (Clear_My l) = MAX_SIZE l" "my_Index (Clear_My l) = 0"
    using Clear_My_valid [OF assms(1)] by auto
  have "row (fold log_once cs (Clear_My l)) j = row (Clear_My l) j"
  proof (rule mylog.untouched_place [OF c(1)])
    show "unat (my_Index (Clear_My l)) + length cs < 2 ^ 64" using assms c by simp
    show "j < MAX_SIZE (Clear_My l)" using assms c by simp
    show "j \<noteq> (unat (my_Index (Clear_My l)) + Suc i) mod MAX_SIZE (Clear_My l)" if "i < length cs" for i
      using that assms c by simp
  qed
  also have "\<dots> = row l j" using row_Clear [of l j] assms by (simp add: MAX_PROPERTY_def)
  finally show ?thesis .
qed

theorem Clear_keeps_nine_tenths_witness:
  "row (log_once (Log3 7 8 9) (Clear_My (fold log_once [Log3 1 2 3, Log3 4 5 6] (MyMemoryLog_new 3)))) 2 =
     [2, 5, 4, 6, 0, 0, 0, 0, 0, 0 :: 64 word]"
proof -
  let ?cs = "[Log3 1 2 3, Log3 4 5 6 :: 64 word log_call]"
  let ?l = "fold log_once ?cs (MyMemoryLog_new 3)"
  have v: "my_valid ?l \<and> MAX_SIZE ?l = 3"
    using mylog.fold_valid [OF MyMemoryLog_new_valid [of 3], of ?cs] by (simp add: MyMemoryLog_new_def)
  have c: "call_row 2 (Log3 4 5 6) = [2, 5, 4, 6, 0, 0, 0, 0, 0, 0 :: 64 word]"
    by (simp add: call_row_def MAX_PROPERTY_def numeral_eq_Suc)
  have "row ?l (Suc 1 mod 3) = call_row (Suc 1) (?cs ! 1)"
    using mylog.keeps_the_last [OF MyMemoryLog_new_valid [of 3], of ?cs 1] by (simp add: MyMemoryLog_new_def)
  with c have r: "row ?l 2 = [2, 5, 4, 6, 0, 0, 0, 0, 0, 0]"
    by (simp add: numeral_2_eq_2)
  show ?thesis using Clear_keeps_nine_tenths [of ?l 2 "[Log3 7 8 9]"] v r by simp
qed

end
