(* ===== verification/Profiling.thy ===== *)
theory Profiling
  imports MMO_Prelude Complex_Main "HOL-Library.Multiset"
begin

text \<open>
  The profiler (Profiler.h, Profiler.cpp): a table of a hundred tags per thread, found through a
  TLS slot and listed in \<^verbatim>\<open>m_ProfileManager\<close>; \<^verbatim>\<open>ProfileBegin\<close> stores a start time,
  \<^verbatim>\<open>ProfileEnd\<close> adds a sample and keeps the two largest and the two smallest, and
  \<^verbatim>\<open>ProfileDataOutText\<close> reports an average without these four. The performance counter is an
  argument of each call.
\<close>

section \<open>State\<close>

definition MAXINT64 :: int where "MAXINT64 = 2 ^ 63 - 1"
definition MININT64 :: int where "MININT64 = - (2 ^ 63)"

definition TAG_MAX :: nat where "TAG_MAX = 100"
definition MAX_INFO :: nat where "MAX_INFO = 100"

record ProfileData =
  StartTime :: int64
  TotalTime :: int64
  Min0 :: int64
  Min1 :: int64
  Max0 :: int64
  Max1 :: int64
  Call :: int64

definition ProfileData_new :: ProfileData where
  "ProfileData_new = \<lparr>StartTime = 0, TotalTime = 0, Min0 = MAXINT64, Min1 = MAXINT64, Max0 = MININT64, Max1 = MININT64, Call = 0\<rparr>"

record ProfileInfo =
  TagName :: string
  SampleData :: ProfileData
  bUsed :: bool
  ThreadID :: nat

definition ProfileInfo_new :: ProfileInfo where
  "ProfileInfo_new = \<lparr>TagName = [], SampleData = ProfileData_new, bUsed = False, ThreadID = 0\<rparr>"

text \<open>
  \<open>tables\<close> are the arrays made by \<^verbatim>\<open>new ProfileInfo[100]\<close>, a pointer to one is its position;
  \<open>tls\<close> is the value of the TLS slot per thread.
\<close>

record Profiler =
  m_ProfileManager :: "nat option list"
  m_ProfileIndex :: int32
  tables :: "ProfileInfo list list"
  tls :: "nat \<Rightarrow> nat option"

text \<open>The constructor; \<open>tlsAlloc\<close> says whether \<^verbatim>\<open>TlsAlloc\<close> found an index.\<close>

definition Profiler_new :: "bool \<Rightarrow> Profiler result" where
  "Profiler_new tlsAlloc =
     (if \<not> tlsAlloc then Inl CrashCall
      else Inr \<lparr>m_ProfileManager = replicate MAX_INFO None, m_ProfileIndex = - 1, tables = [], tls = (\<lambda>_. None)\<rparr>)"

section \<open>Operations\<close>

text \<open>The two search loops: the first slot with the name, the first slot not in use.\<close>

fun find_tag :: "string \<Rightarrow> ProfileInfo list \<Rightarrow> nat option" where
  "find_tag name [] = None"
| "find_tag name (i # infos) = (if TagName i = name then Some 0 else map_option Suc (find_tag name infos))"

fun find_free :: "ProfileInfo list \<Rightarrow> nat option" where
  "find_free [] = None"
| "find_free (i # infos) = (if \<not> bUsed i then Some 0 else map_option Suc (find_free infos))"

text \<open>The first call of a thread makes its table; the array of tables has no bounds check.\<close>

definition thread_table :: "nat \<Rightarrow> Profiler \<Rightarrow> (nat \<times> Profiler) result" where
  "thread_table t p =
     (case tls p t of
        Some k \<Rightarrow> Inr (k, p)
      | None \<Rightarrow>
          let k = length (tables p); index = m_ProfileIndex p + 1 in
          if 0 \<le> index \<and> index < int MAX_INFO
          then Inr (k, p\<lparr>tables := tables p @ [replicate TAG_MAX ProfileInfo_new], m_ProfileIndex := index,
                         m_ProfileManager := (m_ProfileManager p)[nat index := Some k], tls := (tls p)(t \<mapsto> k)\<rparr>)
          else Inl OutOfBounds)"

text \<open>
  A slot's entry. \<^verbatim>\<open>wcscpy_s\<close> calls the invalid parameter handler, which ends the process, when
  the name does not fit into 128 characters with its terminator.
\<close>

definition begin_slot :: "nat \<Rightarrow> int64 \<Rightarrow> string \<Rightarrow> ProfileInfo list \<Rightarrow> ProfileInfo list result" where
  "begin_slot t beginTime name infos =
     (case find_tag name infos of
        Some i \<Rightarrow> Inr (infos[i := (infos ! i)\<lparr>SampleData := (SampleData (infos ! i))\<lparr>StartTime := beginTime\<rparr>\<rparr>])
      | None \<Rightarrow>
          (case find_free infos of
             None \<Rightarrow> Inr infos
           | Some i \<Rightarrow>
               if length name \<ge> 128 then Inl CrashCall
               else Inr (infos[i := (infos ! i)\<lparr>bUsed := True, TagName := name, ThreadID := t,
                                  SampleData := (SampleData (infos ! i))\<lparr>StartTime := beginTime\<rparr>\<rparr>])))"

definition ProfileBegin :: "nat \<Rightarrow> int64 \<Rightarrow> string \<Rightarrow> Profiler \<Rightarrow> Profiler result" where
  "ProfileBegin t beginTime name p =
     ebind (thread_table t p) (\<lambda>(k, p).
     ebind (begin_slot t beginTime name (tables p ! k)) (\<lambda>infos.
       Inr (p\<lparr>tables := (tables p)[k := infos]\<rparr>)))"

definition add_sample :: "int64 \<Rightarrow> ProfileData \<Rightarrow> ProfileData" where
  "add_sample endTime d =
     (let workingTime = to_int64 (endTime - StartTime d);
          d = d\<lparr>TotalTime := to_int64 (TotalTime d + workingTime), Call := to_int64 (Call d + 1)\<rparr>;
          d = (if Max0 d < workingTime then d\<lparr>Max1 := Max0 d, Max0 := workingTime\<rparr>
               else if Max1 d < workingTime then d\<lparr>Max1 := workingTime\<rparr> else d)
      in (if Min0 d > workingTime then d\<lparr>Min1 := Min0 d, Min0 := workingTime\<rparr>
          else if Min1 d > workingTime then d\<lparr>Min1 := workingTime\<rparr> else d))"

definition ProfileEnd :: "nat \<Rightarrow> int64 \<Rightarrow> string \<Rightarrow> Profiler \<Rightarrow> Profiler result" where
  "ProfileEnd t endTime name p =
     (case tls p t of
        None \<Rightarrow> Inl CrashCall
      | Some k \<Rightarrow>
          (case find_tag name (tables p ! k) of
             None \<Rightarrow> Inl CrashCall
           | Some i \<Rightarrow>
               let infos = tables p ! k;
                   infos = infos[i := (infos ! i)\<lparr>SampleData := add_sample endTime (SampleData (infos ! i))\<rparr>]
               in Inr (p\<lparr>tables := (tables p)[k := infos]\<rparr>)))"

text \<open>
  The report: one line per slot in use, table by table. The averages are computed in exact
  arithmetic where the code uses \<^verbatim>\<open>double\<close>; with four calls the code divides by zero (\<open>None\<close>).
\<close>

record report_line =
  r_thread :: nat
  r_name :: string
  r_average :: "rat option"
  r_min :: rat
  r_max :: rat
  r_call :: int64

definition CONVERT_US :: rat where "CONVERT_US = 10"

definition valuableResult :: "ProfileData \<Rightarrow> int64" where
  "valuableResult d = to_int64 (TotalTime d - (Max0 d + Max1 d + Min0 d + Min1 d))"

definition report_slot :: "ProfileInfo \<Rightarrow> report_line" where
  "report_slot i =
     (let d = SampleData i in
      \<lparr>r_thread = ThreadID i, r_name = TagName i,
       r_average = (if Call d = 4 then None else Some (of_int (valuableResult d) / of_int (Call d - 4) / CONVERT_US)),
       r_min = of_int (Min0 d) / CONVERT_US, r_max = of_int (Max0 d) / CONVERT_US, r_call = Call d\<rparr>)"

definition ProfileDataOutText :: "Profiler \<Rightarrow> report_line list" where
  "ProfileDataOutText p =
     concat (map (\<lambda>ptr. case ptr of None \<Rightarrow> [] | Some k \<Rightarrow> map report_slot (filter bUsed (tables p ! k)))
       (take (nat (m_ProfileIndex p + 1)) (m_ProfileManager p)))"

text \<open>The body of \<^verbatim>\<open>ProfileReset\<close> is commented out.\<close>

definition ProfileReset :: "Profiler \<Rightarrow> Profiler" where
  "ProfileReset p = p"

text \<open>Calls of the profiler by any threads, in any order.\<close>

datatype prof_op = OpBegin nat int64 string | OpEnd nat int64 string | OpReset

fun prof_step :: "prof_op \<Rightarrow> Profiler \<Rightarrow> Profiler result" where
  "prof_step (OpBegin t now nm) p = ProfileBegin t now nm p"
| "prof_step (OpEnd t now nm) p = ProfileEnd t now nm p"
| "prof_step OpReset p = Inr (ProfileReset p)"

fun prof_run :: "prof_op list \<Rightarrow> Profiler \<Rightarrow> Profiler result" where
  "prof_run [] p = Inr p"
| "prof_run (x # xs) p = ebind (prof_step x p) (prof_run xs)"

section \<open>What should be reported\<close>





text \<open>The data of a slot for given samples: the extremes are those of the sorted samples.\<close>

definition largest :: "int list \<Rightarrow> int list" where
  "largest ws = sort_key uminus (ws @ [MININT64, MININT64])"

definition smallest :: "int list \<Rightarrow> int list" where
  "smallest ws = sort (ws @ [MAXINT64, MAXINT64])"



section \<open>Samples\<close>



lemma length_extremes [simp]: "length (largest ws) = length ws + 2" "length (smallest ws) = length ws + 2"
  by (simp_all add: largest_def smallest_def)





section \<open>The tables follow the specification\<close>















section \<open>All tables\<close>










section \<open>Trimmed means\<close>













section \<open>Where the report is wrong\<close>

text \<open>
  The empty name equals the name of every unused slot, so its samples are stored in the slot the
  next new tag takes over. With a single sample the initial extremes enter the average.
\<close>

lemma empty_name_pollutes_next_tag:
  "(case ebind (Profiler_new True) (prof_run [OpBegin 0 10 [], OpEnd 0 60 [], OpBegin 0 100 ''a'', OpEnd 0 101 ''a'']) of
      Inl _ \<Rightarrow> False | Inr p \<Rightarrow> map (\<lambda>r. (r_name r, r_call r, r_max r)) (ProfileDataOutText p) = [(''a'', 2, 5)])"
  by code_simp

lemma single_sample_average:
  "(case ebind (Profiler_new True) (prof_run [OpBegin 0 100 ''a'', OpEnd 0 131 ''a'']) of
      Inl _ \<Rightarrow> False | Inr p \<Rightarrow> map r_average (ProfileDataOutText p) = [Some 1])"
  by code_simp

end
