(* ===== verification/Protocol_Messages.thy ===== *)
theory Protocol_Messages
  imports MMO_Prelude
begin

text \<open>
  The messages of the protocol as flatbuffers/ProtocoID.h declares them: the enumeration
  \<^verbatim>\<open>MessageID\<close>, the native structs of the messages, the tagged pointer \<^verbatim>\<open>MessageIDUnion\<close> that owns
  one of them, and \<^verbatim>\<open>MessageHolderT\<close>. The structs live in a heap of objects, so that who deletes
  a message, and how often, is part of the model: a \<^verbatim>\<open>delete\<close> of an object that is not there is
  \<open>Twice_Free\<close>, a use of it \<open>UseAfterFree\<close>, a use of it as another struct \<open>BadVariant\<close>.
\<close>

section \<open>The enumeration\<close>

text \<open>(\<^verbatim>\<open>CLGS_CONNECT_REQ_\<close> and \<^verbatim>\<open>CLGS_CONNECT_ACK_\<close> lose their last underscore here.)\<close>

datatype MessageID =
    NONE | F_GUEST_MESSAGE_MIN | FConnectReq | FConnectAck | FAcceptAck
  | FDisconnectReq | FDisconnectAck | FAuthenticationReq | FAuthenticationAck
  | CLGS_CONNECT_REQ | CLGS_CONNECT_ACK | CLGS_AUTHEN_REQ | CLGS_AUTHEN_ACK
  | DBGS_Authentication_REQ | F_MEMBER_MESSAGE_MAX

fun MessageID_value :: "MessageID \<Rightarrow> int32" where
  "MessageID_value NONE = 0"
| "MessageID_value F_GUEST_MESSAGE_MIN = 1"
| "MessageID_value FConnectReq = 11"
| "MessageID_value FConnectAck = 12"
| "MessageID_value FAcceptAck = 13"
| "MessageID_value FDisconnectReq = 21"
| "MessageID_value FDisconnectAck = 22"
| "MessageID_value FAuthenticationReq = 41"
| "MessageID_value FAuthenticationAck = 42"
| "MessageID_value CLGS_CONNECT_REQ = 9001"
| "MessageID_value CLGS_CONNECT_ACK = 9002"
| "MessageID_value CLGS_AUTHEN_REQ = 9003"
| "MessageID_value CLGS_AUTHEN_ACK = 9004"
| "MessageID_value DBGS_Authentication_REQ = 9005"
| "MessageID_value F_MEMBER_MESSAGE_MAX = 19999"

definition EnumValuesMessageID :: "MessageID list" where
  "EnumValuesMessageID =
     [NONE, F_GUEST_MESSAGE_MIN, FConnectReq, FConnectAck, FAcceptAck,
      FDisconnectReq, FDisconnectAck, FAuthenticationReq, FAuthenticationAck,
      CLGS_CONNECT_REQ, CLGS_CONNECT_ACK, CLGS_AUTHEN_REQ, CLGS_AUTHEN_ACK,
      DBGS_Authentication_REQ, F_MEMBER_MESSAGE_MAX]"

text \<open>
  A variable of the enumeration holds any 32-bit value (it is read from the wire); a \<^verbatim>\<open>switch\<close>
  over it takes the branch of the enumerator with that value, or the default (\<open>None\<close>).
\<close>

definition switch_MessageID :: "int32 \<Rightarrow> MessageID option" where
  "switch_MessageID v = List.find (\<lambda>m. MessageID_value m = v) EnumValuesMessageID"

text \<open>The name of a value, empty for a value that is no enumerator.\<close>

fun MessageID_name :: "MessageID \<Rightarrow> string" where
  "MessageID_name NONE = ''NONE''"
| "MessageID_name F_GUEST_MESSAGE_MIN = ''F_GUEST_MESSAGE_MIN''"
| "MessageID_name FConnectReq = ''FConnectReq''"
| "MessageID_name FConnectAck = ''FConnectAck''"
| "MessageID_name FAcceptAck = ''FAcceptAck''"
| "MessageID_name FDisconnectReq = ''FDisconnectReq''"
| "MessageID_name FDisconnectAck = ''FDisconnectAck''"
| "MessageID_name FAuthenticationReq = ''FAuthenticationReq''"
| "MessageID_name FAuthenticationAck = ''FAuthenticationAck''"
| "MessageID_name CLGS_CONNECT_REQ = ''CLGS_CONNECT_REQ_''"
| "MessageID_name CLGS_CONNECT_ACK = ''CLGS_CONNECT_ACK_''"
| "MessageID_name CLGS_AUTHEN_REQ = ''CLGS_AUTHEN_REQ''"
| "MessageID_name CLGS_AUTHEN_ACK = ''CLGS_AUTHEN_ACK''"
| "MessageID_name DBGS_Authentication_REQ = ''DBGS_Authentication_REQ''"
| "MessageID_name F_MEMBER_MESSAGE_MAX = ''F_MEMBER_MESSAGE_MAX''"

definition EnumNameMessageID :: "int32 \<Rightarrow> string" where
  "EnumNameMessageID v = (case switch_MessageID v of None \<Rightarrow> [] | Some m \<Rightarrow> MessageID_name m)"

section \<open>The native structs\<close>

type_synonym EResultID = int32

text \<open>One constructor per struct, with the members in their order.\<close>

datatype native =
    F_GUEST_MESSAGE_MINT
  | FConnectReqT (seq: int32) (ip: string) (port: int32)
  | FConnectAckT (seq: int32) (eresult: EResultID)
  | FAcceptAckT (seq: int32) (eresult: EResultID) (ip: string) (port: int32)
  | FDisconnectReqT (seq: int32)
  | FDisconnectAckT (seq: int32) (eresult: EResultID)
  | FAuthenticationReqT (seq: int32) (accounttoken: string) (reconnect: bool) (connectSessionKey: string)
  | FAuthenticationAckT (seq: int32) (eresult: EResultID) (accountID: int64)
  | CLGS_CONNECT_REQ_T (seq: int32) (accounttoken: string) (reconnect: bool) (connectSessionKey: string)
  | CLGS_CONNECT_ACK_T (seq: int32) (iresult: int32)
  | CLGS_AUTHEN_REQT (seq: int32) (accounttoken: string) (reconnect: bool) (connectSessionKey: string)
  | CLGS_AUTHEN_ACKT (seq: int32) (iresult: int32)
  | DBGS_Authentication_REQT (seq: int32) (sessionID: int32) (accounttoken: string) (reconnect: bool)
      (connectSessionKey: string)
  | F_MEMBER_MESSAGE_MAXT

text \<open>\<^verbatim>\<open>MessageIDUnionTraits<T>::enum_value\<close>.\<close>

fun enum_value :: "native \<Rightarrow> MessageID" where
  "enum_value F_GUEST_MESSAGE_MINT = F_GUEST_MESSAGE_MIN"
| "enum_value (FConnectReqT _ _ _) = FConnectReq"
| "enum_value (FConnectAckT _ _) = FConnectAck"
| "enum_value (FAcceptAckT _ _ _ _) = FAcceptAck"
| "enum_value (FDisconnectReqT _) = FDisconnectReq"
| "enum_value (FDisconnectAckT _ _) = FDisconnectAck"
| "enum_value (FAuthenticationReqT _ _ _ _) = FAuthenticationReq"
| "enum_value (FAuthenticationAckT _ _ _) = FAuthenticationAck"
| "enum_value (CLGS_CONNECT_REQ_T _ _ _ _) = CLGS_CONNECT_REQ"
| "enum_value (CLGS_CONNECT_ACK_T _ _) = CLGS_CONNECT_ACK"
| "enum_value (CLGS_AUTHEN_REQT _ _ _ _) = CLGS_AUTHEN_REQ"
| "enum_value (CLGS_AUTHEN_ACKT _ _) = CLGS_AUTHEN_ACK"
| "enum_value (DBGS_Authentication_REQT _ _ _ _ _) = DBGS_Authentication_REQ"
| "enum_value F_MEMBER_MESSAGE_MAXT = F_MEMBER_MESSAGE_MAX"

section \<open>The heap of messages\<close>

record heap =
  cells :: "nat \<rightharpoonup> native"
  fresh :: nat

type_synonym pointer = "nat option"

definition heap_new :: heap where
  "heap_new = \<lparr>cells = Map.empty, fresh = 0\<rparr>"

definition new_native :: "native \<Rightarrow> heap \<Rightarrow> nat \<times> heap" where
  "new_native x h = (fresh h, h\<lparr>cells := (cells h)(fresh h \<mapsto> x), fresh := fresh h + 1\<rparr>)"

text \<open>
  \<open>deref_as t p\<close> reads \<open>*p\<close> through a pointer to the struct of the message \<open>t\<close>; \<open>delete_as t p\<close> is
  \<^verbatim>\<open>delete\<close> through such a pointer (a null pointer is left alone).
\<close>

definition deref_as :: "MessageID \<Rightarrow> pointer \<Rightarrow> heap \<Rightarrow> native result" where
  "deref_as t p h =
     (case p of None \<Rightarrow> Inl NullDeref
      | Some a \<Rightarrow> (case cells h a of None \<Rightarrow> Inl UseAfterFree
                   | Some x \<Rightarrow> if enum_value x = t then Inr x else Inl BadVariant))"

definition delete_as :: "MessageID \<Rightarrow> pointer \<Rightarrow> heap \<Rightarrow> heap result" where
  "delete_as t p h =
     (case p of None \<Rightarrow> Inr h
      | Some a \<Rightarrow> (case cells h a of None \<Rightarrow> Inl Twice_Free
                   | Some x \<Rightarrow> if enum_value x = t then Inr (h\<lparr>cells := (cells h)(a := None)\<rparr>)
                               else Inl BadVariant))"

section \<open>MessageIDUnion\<close>

record MessageIDUnion =
  utype :: int32
  uvalue :: pointer

definition MessageIDUnion_new :: MessageIDUnion where
  "MessageIDUnion_new = \<lparr>utype = MessageID_value NONE, uvalue = None\<rparr>"

definition Reset :: "MessageIDUnion \<Rightarrow> heap \<Rightarrow> (MessageIDUnion \<times> heap) result" where
  "Reset u h =
     ebind (case switch_MessageID (utype u) of
              None \<Rightarrow> Inr h
            | Some t \<Rightarrow> if t = NONE then Inr h else delete_as t (uvalue u) h)
       (\<lambda>h. Inr (u\<lparr>uvalue := None, utype := MessageID_value NONE\<rparr>, h))"

definition Set :: "native \<Rightarrow> MessageIDUnion \<Rightarrow> heap \<Rightarrow> (MessageIDUnion \<times> heap) result" where
  "Set val u h =
     ebind (Reset u h) (\<lambda>(u, h).
       let u = u\<lparr>utype := MessageID_value (enum_value val)\<rparr>
       in if utype u \<noteq> MessageID_value NONE
          then (let (a, h) = new_native val h in Inr (u\<lparr>uvalue := Some a\<rparr>, h))
          else Inr (u, h))"

text \<open>The copy constructor, the move constructor (the source is left empty) and the assignments.\<close>

definition Union_copy :: "MessageIDUnion \<Rightarrow> heap \<Rightarrow> (MessageIDUnion \<times> heap) result" where
  "Union_copy u h =
     (let c = \<lparr>utype = utype u, uvalue = None\<rparr>
      in case switch_MessageID (utype c) of
           None \<Rightarrow> Inr (c, h)
         | Some t \<Rightarrow> if t = NONE then Inr (c, h) else
             ebind (deref_as t (uvalue u) h) (\<lambda>x. let (a, h) = new_native x h in Inr (c\<lparr>uvalue := Some a\<rparr>, h)))"

definition Union_move :: "MessageIDUnion \<Rightarrow> MessageIDUnion \<times> MessageIDUnion" where
  "Union_move u = (u, MessageIDUnion_new)"

text \<open>
  \<open>u = v\<close>: the copy is swapped in, and what it then holds (the old contents) is destroyed.
\<close>

definition Union_assign :: "MessageIDUnion \<Rightarrow> MessageIDUnion \<Rightarrow> heap \<Rightarrow> (MessageIDUnion \<times> heap) result" where
  "Union_assign u v h =
     ebind (Union_copy v h) (\<lambda>(t, h).
       ebind (Reset u h) (\<lambda>(_, h). Inr (t, h)))"

definition Union_assign_move :: "MessageIDUnion \<Rightarrow> MessageIDUnion \<Rightarrow> MessageIDUnion \<times> MessageIDUnion" where
  "Union_assign_move u v = (v, u)"

text \<open>The accessors \<^verbatim>\<open>AsFConnectReq\<close> and so on, one per message \<open>t\<close>.\<close>

definition As :: "MessageID \<Rightarrow> MessageIDUnion \<Rightarrow> pointer" where
  "As t u = (if utype u = MessageID_value t then uvalue u else None)"

section \<open>MessageHolderT\<close>

record MessageHolderT =
  accountIDs :: "int64 list"
  message :: MessageIDUnion

definition MessageHolderT_new :: MessageHolderT where
  "MessageHolderT_new = \<lparr>accountIDs = [], message = MessageIDUnion_new\<rparr>"

text \<open>
  Global.h: the holder \<^verbatim>\<open>Send\<close> packs. \<open>ids\<close> is the order in which the unordered set is walked.
\<close>

definition CreateMessageHolder :: "native \<Rightarrow> int64 list \<Rightarrow> heap \<Rightarrow> (MessageHolderT \<times> heap) result" where
  "CreateMessageHolder msg ids h =
     ebind (Set msg (message MessageHolderT_new) h) (\<lambda>(u, h).
       Inr (MessageHolderT_new\<lparr>message := u, accountIDs := accountIDs MessageHolderT_new @ ids\<rparr>, h))"

definition CreatePacketHolder :: "native \<Rightarrow> heap \<Rightarrow> (MessageHolderT \<times> heap) result" where
  "CreatePacketHolder msg h =
     ebind (Set msg (message MessageHolderT_new) h) (\<lambda>(u, h).
       Inr (MessageHolderT_new\<lparr>message := u\<rparr>, h))"

text \<open>The destructor: the union is reset.\<close>

definition MessageHolderT_delete :: "MessageHolderT \<Rightarrow> heap \<Rightarrow> heap result" where
  "MessageHolderT_delete m h = ebind (Reset (message m) h) (\<lambda>(_, h). Inr h)"

section \<open>Ownership\<close>

text \<open>
  The heap is sound when every allocated address is below the next one. A union is well formed
  in a heap when its value is null, or the object it owns is there and is the struct its type
  names.
\<close>

definition heap_ok :: "heap \<Rightarrow> bool" where
  "heap_ok h \<longleftrightarrow> dom (cells h) \<subseteq> {..<fresh h}"

definition owned :: "MessageIDUnion \<Rightarrow> nat set" where
  "owned u = set_option (uvalue u)"

definition union_ok :: "MessageIDUnion \<Rightarrow> heap \<Rightarrow> bool" where
  "union_ok u h \<longleftrightarrow>
     (case uvalue u of None \<Rightarrow> True
      | Some a \<Rightarrow> (case cells h a of None \<Rightarrow> False
                   | Some x \<Rightarrow> utype u = MessageID_value (enum_value x)))"

lemma MessageID_all: "m \<in> set EnumValuesMessageID"
  by (cases m) (simp_all add: EnumValuesMessageID_def)

lemma MessageID_value_inj [simp]: "MessageID_value m = MessageID_value n \<longleftrightarrow> m = n"
  by (cases m; cases n; simp)

lemma switch_MessageID_value [simp]: "switch_MessageID (MessageID_value m) = Some m"
  by (cases m; simp add: switch_MessageID_def EnumValuesMessageID_def)

lemma switch_MessageID_Some: "switch_MessageID v = Some m \<Longrightarrow> v = MessageID_value m"
  by (auto simp: switch_MessageID_def find_Some_iff)

lemma enum_value_not_NONE [simp]: "enum_value x \<noteq> NONE" "NONE \<noteq> enum_value x"
  by (cases x; simp)+

lemmas union_defs = Reset_def Set_def Union_copy_def Union_assign_def new_native_def deref_as_def
  delete_as_def union_ok_def owned_def heap_ok_def

lemma restrict_map_UNIV [simp]: "m |` UNIV = m"
  by (rule ext) (simp add: restrict_map_def)

text \<open>A well-formed union loses exactly the object it owns.\<close>

lemma Reset_ok:
  assumes "union_ok u h"
  shows "Reset u h = Inr (MessageIDUnion_new, h\<lparr>cells := cells h |` (- owned u)\<rparr>)"
proof (cases "uvalue u")
  case None
  then show ?thesis by (simp add: union_defs MessageIDUnion_new_def split: option.split)
next
  case (Some a)
  moreover obtain x where "cells h a = Some x" "utype u = MessageID_value (enum_value x)"
    using assms Some by (auto simp: union_ok_def split: option.splits)
  moreover have "cells h |` (- {a}) = (cells h)(a := None)"
    by (simp add: restrict_complement_singleton_eq)
  ultimately show ?thesis by (simp add: union_defs MessageIDUnion_new_def)
qed

lemma Reset_new [simp]: "Reset MessageIDUnion_new h = Inr (MessageIDUnion_new, h)"
  using Reset_ok [of MessageIDUnion_new h] by (simp add: union_ok_def MessageIDUnion_new_def owned_def)

text \<open>After \<open>Set\<close> the union owns a fresh copy of the value, and the object it owned before is gone.\<close>

lemma Set_ok:
  assumes "union_ok u h"
  shows "Set x u h =
    Inr (\<lparr>utype = MessageID_value (enum_value x), uvalue = Some (fresh h)\<rparr>,
         h\<lparr>cells := (cells h |` (- owned u))(fresh h \<mapsto> x), fresh := fresh h + 1\<rparr>)"
  using Reset_ok [OF assms] by (simp add: Set_def new_native_def MessageIDUnion_new_def del: MessageID_value.simps)

lemma Set_union_ok: "union_ok u h \<Longrightarrow> Set x u h = Inr (u', h') \<Longrightarrow> union_ok u' h'"
  by (auto simp: Set_ok union_ok_def)

lemma Union_copy_ok:
  assumes "union_ok u h" "uvalue u = Some a" "cells h a = Some x"
  shows "Union_copy u h =
    Inr (\<lparr>utype = utype u, uvalue = Some (fresh h)\<rparr>, h\<lparr>cells := (cells h)(fresh h \<mapsto> x), fresh := fresh h + 1\<rparr>)"
  using assms by (simp add: union_defs)

text \<open>A message type without a value cannot be copied: the copy constructor reads the value.\<close>

lemma Union_copy_null:
  assumes "utype u = MessageID_value t" "t \<noteq> NONE" "uvalue u = None"
  shows "Union_copy u h = Inl NullDeref"
  using assms by (simp add: union_defs)

text \<open>Assignment keeps one owner per object: the copy is fresh, the old value is deleted.\<close>

lemma Union_assign_ok:
  assumes u: "union_ok u h" and v: "union_ok v h" "uvalue v = Some a" "cells h a = Some x" and h: "heap_ok h"
  shows "Union_assign u v h =
    Inr (\<lparr>utype = utype v, uvalue = Some (fresh h)\<rparr>,
         h\<lparr>cells := ((cells h)(fresh h \<mapsto> x)) |` (- owned u), fresh := fresh h + 1\<rparr>)"
proof -
  let ?h = "h\<lparr>cells := (cells h)(fresh h \<mapsto> x), fresh := fresh h + 1\<rparr>"
  have "union_ok u ?h" using u h by (auto simp: union_ok_def heap_ok_def split: option.splits if_splits)
  from Reset_ok [OF this] show ?thesis by (simp add: Union_assign_def Union_copy_ok [OF v])
qed

lemma CreateMessageHolder_ok:
  "CreateMessageHolder x ids h =
    Inr (\<lparr>accountIDs = ids, message = \<lparr>utype = MessageID_value (enum_value x), uvalue = Some (fresh h)\<rparr>\<rparr>,
         h\<lparr>cells := (cells h)(fresh h \<mapsto> x), fresh := fresh h + 1\<rparr>)"
  by (simp add: CreateMessageHolder_def MessageHolderT_new_def Set_ok union_ok_def MessageIDUnion_new_def owned_def)

lemma MessageHolderT_delete_ok:
  "union_ok (message m) h \<Longrightarrow>
   MessageHolderT_delete m h = Inr (h\<lparr>cells := cells h |` (- owned (message m))\<rparr>)"
  by (simp add: MessageHolderT_delete_def Reset_ok)

text \<open>An accessor that returns a pointer returns one to a struct of its message, and reading through it succeeds.\<close>

lemma As_ok:
  assumes "union_ok u h" "As t u \<noteq> None"
  shows "\<exists>x. deref_as t (As t u) h = Inr x"
  using assms by (auto simp: As_def union_ok_def deref_as_def split: if_splits option.splits)

lemma As_unique: "As t u \<noteq> None \<Longrightarrow> t' \<noteq> t \<Longrightarrow> As t' u = None"
  by (auto simp: As_def split: if_splits)

lemma EnumNameMessageID_inj:
  assumes "EnumNameMessageID v = EnumNameMessageID w" "EnumNameMessageID v \<noteq> []"
  shows "v = w"
proof -
  from assms obtain m n where mn: "switch_MessageID v = Some m" "switch_MessageID w = Some n" "MessageID_name m = MessageID_name n"
    by (auto simp: EnumNameMessageID_def split: option.splits)
  then have "m = n" by (cases m; cases n) simp_all
  with mn show ?thesis by (auto dest: switch_MessageID_Some)
qed

end
