(* ===== verification/Dispatching.thy ===== *)
theory Dispatching
  imports Protocol_Messages
begin

text \<open>
  The applications' side of a message: \<^verbatim>\<open>PlayServer\<close> (PlayServer/) and \<^verbatim>\<open>DummyClient\<close>
  (DummyClient/) keep a table from message ids to handlers. \<open>RegisterPacket\<close> wraps a handler so
  that it takes the message out of its holder, \<open>MainDispatch\<close> looks the id up, and a job that has
  been executed drops its holder.
\<close>

section \<open>The table of handlers\<close>

text \<open>
  A handler gets the session id and the message (a \<^verbatim>\<open>shared_ptr\<close>); it may fail and may write a
  log of its calls, which stands for whatever else it does.
\<close>

type_synonym 'a handler = "int64 \<Rightarrow> pointer \<Rightarrow> heap \<Rightarrow> 'a result"
type_synonym 'a handler_func = "int64 \<Rightarrow> MessageHolderT \<Rightarrow> heap \<Rightarrow> ('a \<times> MessageHolderT \<times> heap) result"
type_synonym 'a handlers = "int32 \<rightharpoonup> 'a handler_func"

text \<open>
  The wrapped handler: the \<^verbatim>\<open>shared_ptr\<close> takes the value, the type is set to \<open>NONE\<close> so that the
  holder no longer owns it (the pointer itself stays), the handler runs, and the object is
  deleted when the \<^verbatim>\<open>shared_ptr\<close> goes out of scope.
\<close>

definition handlerFunc :: "MessageID \<Rightarrow> 'a handler \<Rightarrow> 'a handler_func" where
  "handlerFunc messageID handler sid holder h =
     (let msg = uvalue (message holder);
          holder = holder\<lparr>message := (message holder)\<lparr>utype := MessageID_value NONE\<rparr>\<rparr>
      in ebind (handler sid msg h) (\<lambda>r. ebind (delete_as messageID msg h) (\<lambda>h. Inr (r, holder, h))))"

text \<open>\<^verbatim>\<open>unordered_map::insert\<close> leaves an existing entry alone.\<close>

definition RegisterPacket :: "MessageID \<Rightarrow> 'a handler \<Rightarrow> 'a handlers \<Rightarrow> 'a handlers" where
  "RegisterPacket messageID handler m =
     (if m (MessageID_value messageID) = None
      then m(MessageID_value messageID \<mapsto> handlerFunc messageID handler) else m)"

text \<open>\<open>None\<close> in the result: no handler was called.\<close>

definition MainDispatch :: "'a handlers \<Rightarrow> int64 \<Rightarrow> MessageHolderT \<Rightarrow> heap \<Rightarrow> ('a option \<times> MessageHolderT \<times> heap) result" where
  "MainDispatch m_handlers key holder h =
     (case m_handlers (utype (message holder)) of
        Some f \<Rightarrow> ebind (f key holder h) (\<lambda>(r, holder, h). Inr (Some r, holder, h))
      | None \<Rightarrow> Inr (None, holder, h))"

text \<open>
  A \<^verbatim>\<open>MessageJob\<close> is executed and then destroyed, with the last reference to its holder.
\<close>

definition process_message :: "'a handlers \<Rightarrow> int64 \<times> MessageHolderT \<Rightarrow> heap \<Rightarrow> ('a option \<times> heap) result" where
  "process_message m_handlers job h =
     ebind (MainDispatch m_handlers (fst job) (snd job) h) (\<lambda>(r, holder, h).
       ebind (MessageHolderT_delete holder h) (\<lambda>h. Inr (r, h)))"

text \<open>The jobs of a queue, in their order.\<close>

fun process_messages :: "'a handlers \<Rightarrow> (int64 \<times> MessageHolderT) list \<Rightarrow> heap \<Rightarrow> ('a option list \<times> heap) result" where
  "process_messages m_handlers [] h = Inr ([], h)"
| "process_messages m_handlers (job # jobs) h =
     ebind (process_message m_handlers job h) (\<lambda>(r, h).
       ebind (process_messages m_handlers jobs h) (\<lambda>(rs, h). Inr (r # rs, h)))"

section \<open>PlayServer and DummyClient\<close>

text \<open>
  The one handler of \<^verbatim>\<open>PlayServer\<close>. Its result here is the local \<^verbatim>\<open>ack\<close>, which it drops on both
  ways out: with an empty token it returns early, with a token it ends where the database
  request is still to be written.
\<close>

definition ON_CLGS_AUTHEN_REQ :: "native handler" where
  "ON_CLGS_AUTHEN_REQ sid msg h =
     ebind (deref_as CLGS_AUTHEN_REQ msg h) (\<lambda>m.
       let ack = CLGS_AUTHEN_ACKT (seq m) 0;
           token = accounttoken m
       in if token = [] then Inr ack else Inr ack)"

definition PlayServer_handlers :: "native handlers" where
  "PlayServer_handlers = RegisterPacket CLGS_AUTHEN_REQ ON_CLGS_AUTHEN_REQ Map.empty"

text \<open>\<^verbatim>\<open>DummyClient\<close> has the same table and dispatch and registers nothing.\<close>

definition DummyClient_handlers :: "native handlers" where
  "DummyClient_handlers = Map.empty"

section \<open>What a message does\<close>

text \<open>The tables \<open>RegisterPacket\<close> makes: under each id a handler wrapped for that id.\<close>

definition handlers_ok :: "'a handlers \<Rightarrow> bool" where
  "handlers_ok m \<longleftrightarrow>
     (\<forall>v f. m v = Some f \<longrightarrow> (\<exists>t g. v = MessageID_value t \<and> t \<noteq> NONE \<and> f = handlerFunc t g))"

lemma handlers_ok_empty: "handlers_ok Map.empty"
  by (simp add: handlers_ok_def)

lemma RegisterPacket_ok: "handlers_ok m \<Longrightarrow> t \<noteq> NONE \<Longrightarrow> handlers_ok (RegisterPacket t g m)"
  by (auto simp: handlers_ok_def RegisterPacket_def)

lemma RegisterPacket_first_wins: "m (MessageID_value t) = Some f \<Longrightarrow> RegisterPacket t g m = m"
  by (simp add: RegisterPacket_def)

lemma PlayServer_handlers_ok: "handlers_ok PlayServer_handlers"
  by (simp add: PlayServer_handlers_def RegisterPacket_ok handlers_ok_empty)

lemma PlayServer_handlers_iff:
  "PlayServer_handlers v =
     (if v = MessageID_value CLGS_AUTHEN_REQ then Some (handlerFunc CLGS_AUTHEN_REQ ON_CLGS_AUTHEN_REQ) else None)"
  by (simp add: PlayServer_handlers_def RegisterPacket_def)

text \<open>
  A message that owns its object: whether or not it has a handler, exactly that object is gone
  afterwards; the handler's only chance to fail is its own body.
\<close>

lemma process_message_owned:
  assumes m: "handlers_ok m" and u: "union_ok (message holder) h" "uvalue (message holder) = Some a"
  shows "process_message m (sid, holder) h =
    (case m (utype (message holder)) of
       None \<Rightarrow> Inr (None, h\<lparr>cells := (cells h)(a := None)\<rparr>)
     | Some f \<Rightarrow> ebind (f sid holder h) (\<lambda>(r, _). Inr (Some r, h\<lparr>cells := (cells h)(a := None)\<rparr>)))"
proof (cases "m (utype (message holder))")
  case None
  have "cells h |` (- {a}) = (cells h)(a := None)" by (simp add: restrict_complement_singleton_eq)
  with None u show ?thesis
    by (simp add: process_message_def MainDispatch_def MessageHolderT_delete_ok owned_def)
next
  case (Some f)
  with m obtain t g where t: "utype (message holder) = MessageID_value t" and f: "f = handlerFunc t g"
    by (fastforce simp: handlers_ok_def)
  from u t obtain x where x: "cells h a = Some x" "enum_value x = t"
    by (auto simp: union_ok_def split: option.splits)
  have "delete_as t (Some a) h = Inr (h\<lparr>cells := (cells h)(a := None)\<rparr>)"
    using x by (simp add: delete_as_def)
  then show ?thesis using Some u
    by (cases "g sid (Some a) h")
      (simp_all add: process_message_def MainDispatch_def f handlerFunc_def MessageHolderT_delete_def Reset_def
        switch_MessageID_value [of NONE, simplified])
qed

text \<open>The handler reads the message and fills the acknowledgement with its sequence number; it needs the object.\<close>

lemma ON_CLGS_AUTHEN_REQ_ok:
  "cells h a = Some x \<Longrightarrow> enum_value x = CLGS_AUTHEN_REQ \<Longrightarrow>
   ON_CLGS_AUTHEN_REQ sid (Some a) h = Inr (CLGS_AUTHEN_ACKT (seq x) 0)"
  by (simp add: ON_CLGS_AUTHEN_REQ_def deref_as_def)

lemma ON_CLGS_AUTHEN_REQ_null: "ON_CLGS_AUTHEN_REQ sid None h = Inl NullDeref"
  by (simp add: ON_CLGS_AUTHEN_REQ_def deref_as_def)

text \<open>
  What \<^verbatim>\<open>PlayServer\<close> does with a message, as the abstract dispatch says it: an authentication request
  reaches the handler as it is (its result is the local \<^verbatim>\<open>ack\<close>), every other message is dropped.
\<close>

definition PlayServer_spec :: "native option \<Rightarrow> native option" where
  "PlayServer_spec x =
     (case x of Some (CLGS_AUTHEN_REQT s _ _ _) \<Rightarrow> Some (CLGS_AUTHEN_ACKT s 0) | _ \<Rightarrow> None)"

text \<open>What the holder of a job has for the handler.\<close>

definition job_message :: "heap \<Rightarrow> int64 \<times> MessageHolderT \<Rightarrow> native option" where
  "job_message h job = Option.bind (uvalue (message (snd job))) (cells h)"

text \<open>A job that can be processed: its union is well formed and no authentication request lacks its table.\<close>

definition job_ok :: "heap \<Rightarrow> int64 \<times> MessageHolderT \<Rightarrow> bool" where
  "job_ok h job \<longleftrightarrow> union_ok (message (snd job)) h \<and>
     (uvalue (message (snd job)) = None \<longrightarrow> utype (message (snd job)) \<noteq> MessageID_value CLGS_AUTHEN_REQ)"

definition job_owned :: "int64 \<times> MessageHolderT \<Rightarrow> nat set" where
  "job_owned job = owned (message (snd job))"

lemma PlayServer_spec_other: "enum_value x \<noteq> CLGS_AUTHEN_REQ \<Longrightarrow> PlayServer_spec (Some x) = None"
  by (cases x) (simp_all add: PlayServer_spec_def)

lemma PlayServer_spec_authen: "enum_value x = CLGS_AUTHEN_REQ \<Longrightarrow> PlayServer_spec (Some x) = Some (CLGS_AUTHEN_ACKT (seq x) 0)"
  by (cases x) (simp_all add: PlayServer_spec_def)

lemma PlayServer_message:
  assumes "job_ok h job"
  shows "process_message PlayServer_handlers job h =
    Inr (PlayServer_spec (job_message h job), h\<lparr>cells := cells h |` (- job_owned job)\<rparr>)"
proof -
  obtain sid holder where job: "job = (sid, holder)" by (cases job)
  let ?u = "message holder"
  show ?thesis
  proof (cases "uvalue ?u")
    case None
    with assms show ?thesis
      by (simp add: job job_ok_def process_message_def MainDispatch_def PlayServer_handlers_iff MessageHolderT_delete_ok
          job_message_def PlayServer_spec_def job_owned_def)
  next
    case (Some a)
    with assms obtain x where x: "cells h a = Some x" "utype ?u = MessageID_value (enum_value x)"
      by (auto simp: job job_ok_def union_ok_def split: option.splits)
    have del: "cells h |` (- {a}) = (cells h)(a := None)" by (simp add: restrict_complement_singleton_eq)
    have "process_message PlayServer_handlers job h =
      Inr (PlayServer_spec (Some x), h\<lparr>cells := (cells h)(a := None)\<rparr>)"
      using process_message_owned [OF PlayServer_handlers_ok _ Some] assms x Some
      by (cases "enum_value x = CLGS_AUTHEN_REQ")
        (simp_all add: job job_ok_def PlayServer_handlers_iff handlerFunc_def ON_CLGS_AUTHEN_REQ_ok delete_as_def
          PlayServer_spec_other PlayServer_spec_authen del: MessageID_value.simps)
    then show ?thesis using Some x by (simp add: job job_message_def job_owned_def owned_def del)
  qed
qed

lemma job_after_other:
  assumes "job_owned job \<inter> job_owned k = {}" "job_ok h k"
  shows "job_ok (h\<lparr>cells := cells h |` (- job_owned job)\<rparr>) k"
    and "job_message (h\<lparr>cells := cells h |` (- job_owned job)\<rparr>) k = job_message h k"
  using assms
  by (auto simp: job_ok_def job_message_def job_owned_def owned_def union_ok_def split: option.splits)

text \<open>A list of jobs, one after the other.\<close>

lemma PlayServer_jobs:
  assumes "\<forall>job \<in> set jobs. job_ok h job"
    and "\<forall>i < length jobs. \<forall>j < i. job_owned (jobs ! i) \<inter> job_owned (jobs ! j) = {}"
  shows "process_messages PlayServer_handlers jobs h =
    Inr (map (\<lambda>job. PlayServer_spec (job_message h job)) jobs,
         h\<lparr>cells := cells h |` (- (\<Union>job \<in> set jobs. job_owned job))\<rparr>)"
  using assms
proof (induction jobs arbitrary: h)
  case (Cons job jobs)
  let ?h = "h\<lparr>cells := cells h |` (- job_owned job)\<rparr>"
  have disj: "job_owned job \<inter> job_owned k = {}" if "k \<in> set jobs" for k
  proof -
    from that obtain i where "i < length jobs" "k = jobs ! i" by (auto simp: in_set_conv_nth)
    with Cons.prems(2) [rule_format, of "Suc i" 0] show ?thesis by (simp add: Int_commute)
  qed
  have tail: "\<forall>i < length jobs. \<forall>j < i. job_owned (jobs ! i) \<inter> job_owned (jobs ! j) = {}"
    using Cons.prems(2) [rule_format, of "Suc i" "Suc j" for i j] by simp
  have "process_messages PlayServer_handlers jobs ?h =
    Inr (map (\<lambda>job. PlayServer_spec (job_message ?h job)) jobs,
         ?h\<lparr>cells := cells ?h |` (- (\<Union>job \<in> set jobs. job_owned job))\<rparr>)"
    using Cons.prems(1) disj job_after_other(1) by (intro Cons.IH tail) auto
  moreover have "map (\<lambda>job. PlayServer_spec (job_message ?h job)) jobs = map (\<lambda>job. PlayServer_spec (job_message h job)) jobs"
    using Cons.prems(1) disj job_after_other(2) by auto
  moreover have "(- job_owned job) \<inter> (- (\<Union>job \<in> set jobs. job_owned job)) = - (\<Union>job \<in> set (job # jobs). job_owned job)"
    by auto
  ultimately show ?case
    using PlayServer_message [of h job] Cons.prems(1) by (simp del: Compl_Un)
qed simp

lemma process_messages_append:
  "process_messages m (js @ ks) h =
     ebind (process_messages m js h) (\<lambda>(rs, h). ebind (process_messages m ks h) (\<lambda>(ss, h). Inr (rs @ ss, h)))"
proof (induction js arbitrary: h)
  case Nil
  then show ?case by (cases "process_messages m ks h") auto
next
  case (Cons j js)
  show ?case
  proof (cases "process_message m j h")
    case (Inr p)
    then show ?thesis
      by (cases p; cases "process_messages m js (snd p)"; cases "process_messages m ks (snd (projr (process_messages m js (snd p))))")
        (auto simp: Cons.IH split: prod.splits)
  qed simp
qed

text \<open>
  An authentication request without its table: whatever was processed before, the handler
  dereferences the null message and no later message is processed.
\<close>

lemma authen_request_without_table:
  assumes "process_messages PlayServer_handlers before h = Inr (rs, h')"
    and "utype (message holder) = MessageID_value CLGS_AUTHEN_REQ" "uvalue (message holder) = None"
  shows "process_messages PlayServer_handlers (before @ (sid, holder) # after) h = Inl NullDeref"
  using assms
  by (simp add: process_messages_append process_message_def MainDispatch_def PlayServer_handlers_iff handlerFunc_def
      ON_CLGS_AUTHEN_REQ_null)

text \<open>\<^verbatim>\<open>DummyClient\<close> drops every message, and frees it.\<close>

lemma DummyClient_drops:
  "union_ok (message holder) h \<Longrightarrow>
   process_message DummyClient_handlers (sid, holder) h =
     Inr (None, h\<lparr>cells := cells h |` (- owned (message holder))\<rparr>)"
  by (simp add: process_message_def MainDispatch_def DummyClient_handlers_def MessageHolderT_delete_ok)

end
