(* ===== verification/Flat_Reader.thy ===== *)
theory Flat_Reader
  imports Packet_Codec
begin

text \<open>
  Reading a FlatBuffer and verifying one (flatbuffers/flatbuffers: base.h, table.h, string.h,
  vector.h, verifier.h). A buffer is a list of bytes, a pointer into it a position; every read is
  checked against the ends of the buffer and gives \<open>OutOfBounds\<close> outside them, also the reads of
  the verifier itself.
\<close>

section \<open>Scalars\<close>

definition ReadScalar :: "byte list \<Rightarrow> int \<Rightarrow> int \<Rightarrow> int result" where
  "ReadScalar buf p w = ebind (mem_read buf p w) (\<lambda>bs. Inr (le_value bs))"

definition ReadScalar_i32 :: "byte list \<Rightarrow> int \<Rightarrow> int result" where
  "ReadScalar_i32 buf p = ebind (ReadScalar buf p 4) (\<lambda>v. Inr (to_int32 v))"

definition ReadScalar_i64 :: "byte list \<Rightarrow> int \<Rightarrow> int result" where
  "ReadScalar_i64 buf p = ebind (ReadScalar buf p 8) (\<lambda>v. Inr (to_int64 v))"

section \<open>Tables\<close>

text \<open>\<open>data\<close> is the position of the table.\<close>

definition GetVTable :: "byte list \<Rightarrow> int \<Rightarrow> int result" where
  "GetVTable buf data = ebind (ReadScalar_i32 buf data) (\<lambda>so. Inr (data - so))"

definition GetOptionalFieldOffset :: "byte list \<Rightarrow> int \<Rightarrow> int \<Rightarrow> int result" where
  "GetOptionalFieldOffset buf data field =
     ebind (GetVTable buf data) (\<lambda>vtable.
     ebind (ReadScalar buf vtable 2) (\<lambda>vtsize.
       if field < vtsize then ReadScalar buf (vtable + field) 2 else Inr 0))"

definition GetField :: "(byte list \<Rightarrow> int \<Rightarrow> 'a result) \<Rightarrow> byte list \<Rightarrow> int \<Rightarrow> int \<Rightarrow> 'a \<Rightarrow> 'a result" where
  "GetField read buf data field defaultval =
     ebind (GetOptionalFieldOffset buf data field) (\<lambda>field_offset.
       if field_offset \<noteq> 0 then read buf (data + field_offset) else Inr defaultval)"

definition GetPointer :: "byte list \<Rightarrow> int \<Rightarrow> int \<Rightarrow> int option result" where
  "GetPointer buf data field =
     ebind (GetOptionalFieldOffset buf data field) (\<lambda>field_offset.
       let p = data + field_offset
       in if field_offset \<noteq> 0 then ebind (ReadScalar buf p 4) (\<lambda>o1. Inr (Some (p + o1))) else Inr None)"

text \<open>A \<^verbatim>\<open>String\<close> and a \<^verbatim>\<open>Vector<int64_t>\<close> at a position: the length, then the elements.\<close>

definition String_str :: "byte list \<Rightarrow> int \<Rightarrow> string result" where
  "String_str buf p =
     ebind (ReadScalar buf p 4) (\<lambda>n. ebind (mem_read buf (p + 4) n) (\<lambda>bs. Inr (map (\<lambda>b. char_of (unat b)) bs)))"

fun Vector_elems :: "byte list \<Rightarrow> int \<Rightarrow> nat \<Rightarrow> int list result" where
  "Vector_elems buf p 0 = Inr []"
| "Vector_elems buf p (Suc n) =
     ebind (ReadScalar_i64 buf p) (\<lambda>v. ebind (Vector_elems buf (p + 8) n) (\<lambda>vs. Inr (v # vs)))"

definition Vector_i64 :: "byte list \<Rightarrow> int \<Rightarrow> int list result" where
  "Vector_i64 buf p = ebind (ReadScalar buf p 4) (\<lambda>n. Vector_elems buf (p + 4) (nat n))"

definition GetRoot :: "byte list \<Rightarrow> int \<Rightarrow> int result" where
  "GetRoot buf p = ebind (ReadScalar buf p 4) (\<lambda>o1. Inr (p + o1))"

definition GetSizePrefixedRoot :: "byte list \<Rightarrow> int result" where
  "GetSizePrefixedRoot buf = GetRoot buf 4"

section \<open>The verifier\<close>

text \<open>The verifier's counters; its options are the defaults (depth 64, a million tables).\<close>

record Verifier =
  depth :: nat
  num_tables :: nat

definition Verifier_new :: Verifier where
  "Verifier_new = \<lparr>depth = 0, num_tables = 0\<rparr>"

definition max_size :: int where
  "max_size = 2 ^ 31 - 1"

text \<open>A check may change the counters and may read; \<open>all_checks\<close> is a chain of \<^verbatim>\<open>&&\<close>.\<close>

type_synonym check = "Verifier \<Rightarrow> (bool \<times> Verifier) result"

fun all_checks :: "check list \<Rightarrow> check" where
  "all_checks [] v = Inr (True, v)"
| "all_checks (c # cs) v = ebind (c v) (\<lambda>(ok, v). if ok then all_checks cs v else Inr (False, v))"

definition pure_check :: "bool result \<Rightarrow> check" where
  "pure_check r v = ebind r (\<lambda>ok. Inr (ok, v))"

definition VerifyRange :: "byte list \<Rightarrow> int \<Rightarrow> int \<Rightarrow> bool" where
  "VerifyRange buf elem elem_len \<longleftrightarrow> elem_len < int (length buf) \<and> elem \<le> int (length buf) - elem_len"

definition VerifyAlignment :: "int \<Rightarrow> int \<Rightarrow> bool" where
  "VerifyAlignment elem align \<longleftrightarrow> elem mod align = 0"

definition VerifyScalar :: "byte list \<Rightarrow> int \<Rightarrow> int \<Rightarrow> bool" where
  "VerifyScalar buf elem w \<longleftrightarrow> VerifyAlignment elem w \<and> VerifyRange buf elem w"

definition VerifyOffsetAt :: "byte list \<Rightarrow> int \<Rightarrow> int result" where
  "VerifyOffsetAt buf start =
     (if \<not> VerifyScalar buf start 4 then Inr 0
      else ebind (ReadScalar buf start 4) (\<lambda>o1.
        if o1 = 0 then Inr 0 else if to_int32 o1 < 0 then Inr 0
        else if \<not> VerifyRange buf (start + o1) 1 then Inr 0 else Inr o1))"

text \<open>\<open>vend\<close> is the position behind the elements, which \<open>VerifyString\<close> asks for.\<close>

definition VerifyVectorOrString :: "byte list \<Rightarrow> int \<Rightarrow> int \<Rightarrow> (bool \<times> int) result" where
  "VerifyVectorOrString buf vec elem_size =
     (if \<not> VerifyScalar buf vec 4 then Inr (False, 0)
      else ebind (ReadScalar buf vec 4) (\<lambda>n.
        let max_elems = max_size div elem_size
        in if \<not> n < max_elems then Inr (False, 0)
           else let byte_size = 4 + elem_size * n; vend = vec + byte_size
                in Inr (VerifyRange buf vec byte_size, vend)))"

definition VerifyVector :: "byte list \<Rightarrow> int \<Rightarrow> int option \<Rightarrow> bool result" where
  "VerifyVector buf elem_size vec =
     (case vec of None \<Rightarrow> Inr True
      | Some p \<Rightarrow> ebind (VerifyVectorOrString buf p elem_size) (\<lambda>(ok, _). Inr ok))"

definition VerifyString :: "byte list \<Rightarrow> int option \<Rightarrow> bool result" where
  "VerifyString buf str =
     (case str of None \<Rightarrow> Inr True
      | Some p \<Rightarrow> ebind (VerifyVectorOrString buf p 1) (\<lambda>(ok, vend).
          if \<not> ok then Inr False
          else if \<not> VerifyRange buf vend 1 then Inr False
          else ebind (ReadScalar buf vend 1) (\<lambda>b. Inr (b = 0))))"

definition VerifyComplexity :: check where
  "VerifyComplexity v =
     (let v = v\<lparr>depth := depth v + 1, num_tables := num_tables v + 1\<rparr>
      in Inr (depth v \<le> 64 \<and> num_tables v \<le> 1000000, v))"

definition Verifier_EndTable :: check where
  "Verifier_EndTable v = Inr (True, v\<lparr>depth := depth v - 1\<rparr>)"

text \<open>The vtable's position is computed in \<^verbatim>\<open>size_t\<close>.\<close>

definition size_t :: "int \<Rightarrow> int" where
  "size_t x = x mod 2 ^ 64"

definition VerifyTableStart :: "byte list \<Rightarrow> int \<Rightarrow> check" where
  "VerifyTableStart buf tableo v =
     (if \<not> VerifyScalar buf tableo 4 then Inr (False, v)
      else ebind (ReadScalar_i32 buf tableo) (\<lambda>so.
        let vtableo = size_t (tableo - so)
        in ebind (VerifyComplexity v) (\<lambda>(ok, v).
          if \<not> (ok \<and> VerifyScalar buf vtableo 2) then Inr (False, v)
          else ebind (ReadScalar buf vtableo 2) (\<lambda>vsize.
            if \<not> VerifyAlignment vsize 2 then Inr (False, v)
            else Inr (vsize mod 2 = 0 \<and> VerifyRange buf vtableo vsize, v)))))"

text \<open>The checks of one field of a table (table.h).\<close>

definition VerifyField :: "byte list \<Rightarrow> int \<Rightarrow> int \<Rightarrow> int \<Rightarrow> int \<Rightarrow> bool result" where
  "VerifyField buf data w field align =
     ebind (GetOptionalFieldOffset buf data field) (\<lambda>field_offset.
       Inr (field_offset = 0 \<or>
         (let f = data + field_offset in VerifyAlignment f align \<and> VerifyRange buf f w)))"

definition VerifyOffset :: "byte list \<Rightarrow> int \<Rightarrow> int \<Rightarrow> bool result" where
  "VerifyOffset buf data field =
     ebind (GetOptionalFieldOffset buf data field) (\<lambda>field_offset.
       if field_offset = 0 then Inr True
       else ebind (VerifyOffsetAt buf (data + field_offset)) (\<lambda>o1. Inr (o1 \<noteq> 0)))"

text \<open>The whole buffer; \<open>verify_T\<close> is the \<^verbatim>\<open>Verify\<close> of the root's type.\<close>

definition VerifyBufferFromStart :: "(int \<Rightarrow> check) \<Rightarrow> byte list \<Rightarrow> int \<Rightarrow> check" where
  "VerifyBufferFromStart verify_T buf start v =
     (if \<not> int (length buf) \<ge> 12 then Inr (False, v)
      else ebind (VerifyOffsetAt buf start) (\<lambda>o1.
        if o1 = 0 then Inr (False, v) else verify_T (start + o1) v))"

definition VerifySizePrefixedBuffer :: "(int \<Rightarrow> check) \<Rightarrow> byte list \<Rightarrow> check" where
  "VerifySizePrefixedBuffer verify_T buf v =
     (if \<not> VerifyScalar buf 0 4 then Inr (False, v)
      else ebind (ReadScalar buf 0 4) (\<lambda>n.
        if \<not> n + 4 \<le> int (length buf) then Inr (False, v) else VerifyBufferFromStart verify_T buf 4 v))"

section \<open>Reads inside the buffer\<close>

text \<open>The range of a read lies in the buffer.\<close>

definition inside :: "byte list \<Rightarrow> int \<Rightarrow> int \<Rightarrow> bool" where
  "inside buf p n \<longleftrightarrow> 0 \<le> p \<and> 0 \<le> n \<and> p + n \<le> int (length buf)"

lemma VerifyRange_inside: "VerifyRange buf p n \<Longrightarrow> 0 \<le> p \<Longrightarrow> 0 \<le> n \<Longrightarrow> inside buf p n"
  by (simp add: VerifyRange_def inside_def)

lemma VerifyScalar_inside: "VerifyScalar buf p w \<Longrightarrow> 0 \<le> p \<Longrightarrow> 0 \<le> w \<Longrightarrow> inside buf p w"
  by (simp add: VerifyScalar_def VerifyRange_inside)

lemma mem_read_inside: "inside buf p n \<Longrightarrow> \<exists>bs. mem_read buf p n = Inr bs \<and> int (length bs) = n"
  by (auto simp: inside_def mem_read_def)

lemma ReadScalar_inside:
  assumes "inside buf p w"
  shows "\<exists>v. ReadScalar buf p w = Inr v \<and> 0 \<le> v \<and> v < 256 ^ nat w"
proof -
  from mem_read_inside [OF assms] obtain bs where "mem_read buf p w = Inr bs" "int (length bs) = w" by blast
  then show ?thesis using le_value_bounds [of bs] by (auto simp: ReadScalar_def)
qed

lemma ReadScalar_i32_inside: "inside buf p 4 \<Longrightarrow> \<exists>v. ReadScalar_i32 buf p = Inr v \<and> - (2 ^ 31) \<le> v \<and> v < 2 ^ 31"
  using ReadScalar_inside [of buf p 4] by (auto simp: ReadScalar_i32_def to_int32_def)

lemma ReadScalar_i64_inside: "inside buf p 8 \<Longrightarrow> \<exists>v. ReadScalar_i64 buf p = Inr v"
  using ReadScalar_inside [of buf p 8] by (auto simp: ReadScalar_i64_def)

lemma Vector_elems_inside: "inside buf p (8 * int n) \<Longrightarrow> \<exists>vs. Vector_elems buf p n = Inr vs"
proof (induction n arbitrary: p)
  case (Suc n)
  have "inside buf p 8" "inside buf (p + 8) (8 * int n)" using Suc.prems by (auto simp: inside_def)
  with Suc.IH ReadScalar_i64_inside show ?case by fastforce
qed simp

section \<open>What the checks establish\<close>

text \<open>A check that never reads outside the buffer.\<close>

definition total_check :: "check \<Rightarrow> bool" where
  "total_check c \<longleftrightarrow> (\<forall>v. \<not> isl (c v))"

lemma isl_ebind [simp]: "isl (ebind m f) \<longleftrightarrow> (case m of Inl e \<Rightarrow> True | Inr x \<Rightarrow> isl (f x))"
  by (cases m) simp_all

lemma total_checkD: "total_check c \<Longrightarrow> \<exists>ok v'. c v = Inr (ok, v')"
  by (metis isl_def surj_pair sum.exhaust_sel total_check_def)

lemma total_all_checks: "\<forall>c \<in> set cs. total_check c \<Longrightarrow> total_check (all_checks cs)"
proof (induction cs)
  case (Cons c cs)
  have "\<not> isl (all_checks (c # cs) v)" for v
  proof -
    obtain ok v' where "c v = Inr (ok, v')" using Cons.prems total_checkD [of c v] by auto
    then show ?thesis using Cons by (simp add: total_check_def)
  qed
  then show ?case by (simp add: total_check_def)
qed (simp add: total_check_def)

lemma total_pure_check: "r = Inr b \<Longrightarrow> total_check (pure_check r)"
  by (simp add: total_check_def pure_check_def)

lemma pure_check_True [simp]: "pure_check r v = Inr (True, v') \<longleftrightarrow> r = Inr True \<and> v' = v"
  by (cases r) (auto simp: pure_check_def)

lemma all_checks_Cons_True:
  "all_checks (c # cs) v = Inr (True, v') \<longleftrightarrow> (\<exists>v1. c v = Inr (True, v1) \<and> all_checks cs v1 = Inr (True, v'))"
  by (auto split: if_splits)

text \<open>A table whose vtable is in the buffer: every field lookup stays inside.\<close>

definition table_ok :: "byte list \<Rightarrow> int \<Rightarrow> bool" where
  "table_ok buf t \<longleftrightarrow> 0 \<le> t \<and>
     (\<forall>field. 0 \<le> field \<longrightarrow> even field \<longrightarrow> (\<exists>off. GetOptionalFieldOffset buf t field = Inr off \<and> 0 \<le> off))"

lemma table_ok_nonneg: "table_ok buf t \<Longrightarrow> 0 \<le> t"
  by (simp add: table_ok_def)

lemma table_ok_field:
  assumes "table_ok buf t" "0 \<le> field" "even field"
  obtains off where "GetOptionalFieldOffset buf t field = Inr off" "0 \<le> off"
  using assms by (auto simp: table_ok_def)

lemma mod_in_range: "- (2 ^ 31) \<le> x \<Longrightarrow> x < 2 ^ 33 \<Longrightarrow> x mod 2 ^ 64 < 2 ^ 33 \<Longrightarrow> x mod 2 ^ 64 = (x :: int)"
proof -
  assume x: "- (2 ^ 31) \<le> x" "x < 2 ^ 33" "x mod 2 ^ 64 < 2 ^ 33"
  show ?thesis
  proof (cases "0 \<le> x")
    case False
    then have "x mod 2 ^ 64 = x + 2 ^ 64" using x(1) by (intro int_mod_pos_eq [where q = "- 1"]) simp_all
    with x show ?thesis by simp
  qed (use x in simp)
qed

lemma VerifyTableStart_total:
  assumes "0 \<le> t"
  shows "total_check (VerifyTableStart buf t)"
proof -
  have "\<not> isl (VerifyTableStart buf t v)" for v
  proof (cases "VerifyScalar buf t 4")
    case True
    from ReadScalar_i32_inside [OF VerifyScalar_inside [OF this assms]] obtain so where so: "ReadScalar_i32 buf t = Inr so" by auto
    let ?vt = "size_t (t - so)"
    obtain ok v1 where c: "VerifyComplexity v = Inr (ok, v1)" by (auto simp: VerifyComplexity_def)
    have "\<exists>n. ReadScalar buf ?vt 2 = Inr n" if "VerifyScalar buf ?vt 2"
      using ReadScalar_inside [OF VerifyScalar_inside [OF that]] by (auto simp: size_t_def)
    with True so c show ?thesis by (auto simp: VerifyTableStart_def Let_def)
  qed (simp add: VerifyTableStart_def)
  then show ?thesis by (simp add: total_check_def)
qed

lemma VerifyTableStart_ok:
  assumes v: "VerifyTableStart buf t v = Inr (True, v')" and t: "0 \<le> t" and len: "int (length buf) < 2 ^ 31"
  shows "table_ok buf t"
proof -
  have s: "VerifyScalar buf t 4" using v by (auto simp: VerifyTableStart_def split: if_splits)
  note ins = VerifyScalar_inside [OF s t, simplified]
  obtain so where so: "ReadScalar_i32 buf t = Inr so" "- (2 ^ 31) \<le> so" "so < 2 ^ 31"
    using ReadScalar_i32_inside [OF ins] by blast
  define vt where "vt = size_t (t - so)"
  obtain n where n: "VerifyScalar buf vt 2" "ReadScalar buf vt 2 = Inr n" "even n" "VerifyRange buf vt n"
    using v s so(1) by (auto simp: VerifyTableStart_def Let_def VerifyComplexity_def vt_def [symmetric] split: if_splits)
  have "vt < 2 ^ 31" using n(1) len by (simp add: VerifyScalar_def VerifyRange_def)
  moreover have "t < 2 ^ 31" using ins len by (simp add: inside_def)
  ultimately have vt: "vt = t - so" using so t mod_in_range [of "t - so"] by (simp add: vt_def size_t_def)
  have vt0: "0 \<le> vt" by (simp add: vt_def size_t_def)
  have n0: "0 \<le> n" using ReadScalar_inside [OF VerifyScalar_inside [OF n(1) vt0]] n(2) by simp
  have rng: "inside buf vt n" using VerifyRange_inside [OF n(4) vt0 n0] .
  have "\<exists>off. GetOptionalFieldOffset buf t field = Inr off \<and> 0 \<le> off" if f: "0 \<le> field" "even field" for field
  proof (cases "field < n")
    case True
    then have "field + 2 \<le> n" using f n(3) by presburger
    then have "inside buf (vt + field) 2" using rng f vt0 by (simp add: inside_def)
    from ReadScalar_inside [OF this] show ?thesis using so(1) n(2) True
      by (auto simp: GetOptionalFieldOffset_def GetVTable_def vt [symmetric])
  next
    case False
    then show ?thesis using so(1) n(2) by (auto simp: GetOptionalFieldOffset_def GetVTable_def vt [symmetric])
  qed
  with t show ?thesis by (simp add: table_ok_def)
qed

section \<open>Fields\<close>

lemma VerifyField_total: "table_ok buf t \<Longrightarrow> 0 \<le> field \<Longrightarrow> even field \<Longrightarrow> \<exists>ok. VerifyField buf t w field align = Inr ok"
  by (erule (2) table_ok_field) (simp add: VerifyField_def)

lemma VerifyField_reads:
  assumes t: "table_ok buf t" "0 \<le> field" "even field" and w: "0 \<le> w" and v: "VerifyField buf t w field align = Inr True"
    and read: "\<And>p. inside buf p w \<Longrightarrow> \<exists>x. read buf p = Inr x"
  shows "\<exists>x. GetField read buf t field d = Inr x"
proof -
  obtain off where off: "GetOptionalFieldOffset buf t field = Inr off" "0 \<le> off" using table_ok_field [OF t] .
  show ?thesis
  proof (cases "off = 0")
    case False
    then have "VerifyRange buf (t + off) w" using v off by (simp add: VerifyField_def Let_def)
    then have "inside buf (t + off) w" using table_ok_nonneg [OF t(1)] off w by (intro VerifyRange_inside) simp_all
    from read [OF this] show ?thesis using off False by (auto simp: GetField_def)
  qed (simp add: GetField_def off)
qed

lemma VerifyOffsetAt_total:
  assumes "0 \<le> p"
  shows "\<exists>o1. VerifyOffsetAt buf p = Inr o1 \<and> 0 \<le> o1"
proof (cases "VerifyScalar buf p 4")
  case True
  from ReadScalar_inside [OF VerifyScalar_inside [OF this assms]] obtain o1 where "ReadScalar buf p 4 = Inr o1" "0 \<le> o1" by auto
  with True show ?thesis by (simp add: VerifyOffsetAt_def)
qed (simp add: VerifyOffsetAt_def)

lemma VerifyOffsetAt_ok:
  assumes "VerifyOffsetAt buf p = Inr o1" "o1 \<noteq> 0" "0 \<le> p"
  shows "ReadScalar buf p 4 = Inr o1" "0 < o1" "p + o1 < int (length buf)"
proof -
  have s: "VerifyScalar buf p 4" using assms by (auto simp: VerifyOffsetAt_def split: if_splits)
  from ReadScalar_inside [OF VerifyScalar_inside [OF this assms(3)]] obtain r where "ReadScalar buf p 4 = Inr r" "0 \<le> r" by auto
  with s assms show "ReadScalar buf p 4 = Inr o1" "0 < o1" "p + o1 < int (length buf)"
    by (auto simp: VerifyOffsetAt_def VerifyRange_def split: if_splits)
qed

lemma VerifyOffset_total:
  assumes "table_ok buf t" "0 \<le> field" "even field"
  shows "\<exists>ok. VerifyOffset buf t field = Inr ok"
proof -
  obtain off where off: "GetOptionalFieldOffset buf t field = Inr off" "0 \<le> off" using table_ok_field [OF assms] .
  with VerifyOffsetAt_total [of "t + off" buf] table_ok_nonneg [OF assms(1)] show ?thesis by (auto simp: VerifyOffset_def)
qed

text \<open>A verified offset gives a null pointer or a pointer into the buffer.\<close>

definition pointer_ok :: "byte list \<Rightarrow> int option \<Rightarrow> bool" where
  "pointer_ok buf p \<longleftrightarrow> (case p of None \<Rightarrow> True | Some a \<Rightarrow> 0 \<le> a \<and> a < int (length buf))"

lemma VerifyOffset_pointer:
  assumes t: "table_ok buf t" "0 \<le> field" "even field" and v: "VerifyOffset buf t field = Inr True"
  shows "\<exists>p. GetPointer buf t field = Inr p \<and> pointer_ok buf p"
proof -
  obtain off where off: "GetOptionalFieldOffset buf t field = Inr off" "0 \<le> off" using table_ok_field [OF t] .
  show ?thesis
  proof (cases "off = 0")
    case False
    have p: "0 \<le> t + off" using table_ok_nonneg [OF t(1)] off by simp
    with VerifyOffsetAt_total obtain o1 where o1: "VerifyOffsetAt buf (t + off) = Inr o1" by blast
    with v off False have "o1 \<noteq> 0" by (simp add: VerifyOffset_def)
    from VerifyOffsetAt_ok [OF o1 this p] p show ?thesis using off False
      by (auto simp: GetPointer_def Let_def pointer_ok_def)
  qed (simp add: GetPointer_def off pointer_ok_def)
qed

section \<open>Strings and vectors\<close>

lemma VerifyVectorOrString_total:
  assumes "0 \<le> p" "0 \<le> w"
  shows "\<exists>ok vend. VerifyVectorOrString buf p w = Inr (ok, vend) \<and> 0 \<le> vend"
proof (cases "VerifyScalar buf p 4")
  case True
  from ReadScalar_inside [OF VerifyScalar_inside [OF this assms(1)]] obtain n where "ReadScalar buf p 4 = Inr n" "0 \<le> n" by auto
  with True assms show ?thesis by (auto simp: VerifyVectorOrString_def Let_def)
qed (auto simp: VerifyVectorOrString_def)

lemma VerifyVectorOrString_ok:
  assumes "VerifyVectorOrString buf p w = Inr (True, vend)" "0 \<le> p" "0 \<le> w"
  shows "\<exists>n. ReadScalar buf p 4 = Inr n \<and> 0 \<le> n \<and> inside buf (p + 4) (w * n) \<and> vend = p + 4 + w * n"
proof -
  have s: "VerifyScalar buf p 4" using assms by (auto simp: VerifyVectorOrString_def split: if_splits)
  from ReadScalar_inside [OF VerifyScalar_inside [OF this assms(2)]] obtain n where n: "ReadScalar buf p 4 = Inr n" "0 \<le> n" by auto
  then have "VerifyRange buf p (4 + w * n)" "vend = p + (4 + w * n)"
    using s assms by (auto simp: VerifyVectorOrString_def Let_def split: if_splits)
  moreover have "0 \<le> w * n" using assms n by simp
  ultimately show ?thesis using VerifyRange_inside [of buf p "4 + w * n"] assms n by (auto simp: inside_def)
qed

lemma VerifyVector_total:
  assumes "pointer_ok buf p" "0 \<le> w"
  shows "\<exists>ok. VerifyVector buf w p = Inr ok"
  using assms VerifyVectorOrString_total [of "the p" w buf] by (cases p) (auto simp: VerifyVector_def pointer_ok_def)

lemma VerifyVector_reads:
  assumes "pointer_ok buf (Some p)" "VerifyVector buf 8 (Some p) = Inr True"
  shows "\<exists>vs. Vector_i64 buf p = Inr vs"
proof -
  have p: "0 \<le> p" using assms by (simp add: pointer_ok_def)
  obtain vend where "VerifyVectorOrString buf p 8 = Inr (True, vend)" using assms by (auto simp: VerifyVector_def)
  from VerifyVectorOrString_ok [OF this p] obtain n where n: "ReadScalar buf p 4 = Inr n" "0 \<le> n" "inside buf (p + 4) (8 * n)"
    by auto
  then show ?thesis using Vector_elems_inside [of buf "p + 4" "nat n"] by (simp add: Vector_i64_def)
qed

lemma VerifyString_total:
  assumes "pointer_ok buf p"
  shows "\<exists>ok. VerifyString buf p = Inr ok"
proof (cases p)
  case (Some a)
  then have a: "0 \<le> a" using assms by (simp add: pointer_ok_def)
  from VerifyVectorOrString_total [OF a, of 1 buf] obtain ok vend where
    v: "VerifyVectorOrString buf a 1 = Inr (ok, vend)" "0 \<le> vend" by auto
  have "\<exists>b. ReadScalar buf vend 1 = Inr b" if "VerifyRange buf vend 1"
    using ReadScalar_inside [OF VerifyRange_inside [OF that v(2)]] by auto
  with v Some show ?thesis by (cases ok; cases "VerifyRange buf vend 1") (auto simp: VerifyString_def)
qed (auto simp: VerifyString_def)

lemma VerifyString_reads:
  assumes "pointer_ok buf (Some p)" "VerifyString buf (Some p) = Inr True"
  shows "\<exists>s. String_str buf p = Inr s"
proof -
  have p: "0 \<le> p" using assms by (simp add: pointer_ok_def)
  obtain vend where "VerifyVectorOrString buf p 1 = Inr (True, vend)"
    using assms by (auto simp: VerifyString_def split: if_splits)
  from VerifyVectorOrString_ok [OF this p] obtain n where n: "ReadScalar buf p 4 = Inr n" "inside buf (p + 4) n" by auto
  then show ?thesis using mem_read_inside [OF n(2)] by (auto simp: String_str_def)
qed

section \<open>Tables of fields\<close>

text \<open>
  The checks the generated code makes for a scalar field, a string field and a vector of
  \<^verbatim>\<open>int64_t\<close>, and reading a string field as \<^verbatim>\<open>UnPackTo\<close> does.
\<close>

definition scalar_check :: "byte list \<Rightarrow> int \<Rightarrow> int \<Rightarrow> int \<Rightarrow> int \<Rightarrow> check list" where
  "scalar_check buf t w field align = [pure_check (VerifyField buf t w field align)]"

definition string_check :: "byte list \<Rightarrow> int \<Rightarrow> int \<Rightarrow> check list" where
  "string_check buf t field =
     [pure_check (VerifyOffset buf t field), pure_check (ebind (GetPointer buf t field) (VerifyString buf))]"

definition vector_check :: "byte list \<Rightarrow> int \<Rightarrow> int \<Rightarrow> check list" where
  "vector_check buf t field =
     [pure_check (VerifyOffset buf t field), pure_check (ebind (GetPointer buf t field) (VerifyVector buf 8))]"

definition field_string :: "byte list \<Rightarrow> int \<Rightarrow> int \<Rightarrow> string result" where
  "field_string buf t field =
     ebind (GetPointer buf t field) (\<lambda>e. case e of None \<Rightarrow> Inr [] | Some p \<Rightarrow> String_str buf p)"

definition field_vector :: "byte list \<Rightarrow> int \<Rightarrow> int \<Rightarrow> int list result" where
  "field_vector buf t field =
     ebind (GetPointer buf t field) (\<lambda>e. case e of None \<Rightarrow> Inr [] | Some p \<Rightarrow> Vector_i64 buf p)"

abbreviation field_i32 :: "byte list \<Rightarrow> int \<Rightarrow> int \<Rightarrow> int result" where
  "field_i32 buf t field \<equiv> GetField ReadScalar_i32 buf t field 0"

abbreviation field_i64 :: "byte list \<Rightarrow> int \<Rightarrow> int \<Rightarrow> int result" where
  "field_i64 buf t field \<equiv> GetField ReadScalar_i64 buf t field 0"

definition field_bool :: "byte list \<Rightarrow> int \<Rightarrow> int \<Rightarrow> bool result" where
  "field_bool buf t field = ebind (GetField (\<lambda>b p. ReadScalar b p 1) buf t field 0) (\<lambda>v. Inr (v \<noteq> 0))"

text \<open>A table: start, the fields' checks, end.\<close>

definition table_check :: "byte list \<Rightarrow> int \<Rightarrow> check list \<Rightarrow> check" where
  "table_check buf t cs = all_checks (VerifyTableStart buf t # cs @ [Verifier_EndTable])"

lemma all_checks_append:
  "all_checks (cs @ ds) v = ebind (all_checks cs v) (\<lambda>(ok, v). if ok then all_checks ds v else Inr (False, v))"
proof (induction cs arbitrary: v)
  case (Cons c cs)
  then show ?case by (cases "c v") auto
qed simp

lemma all_checks_append_True:
  "all_checks (cs @ ds) v = Inr (True, v') \<longleftrightarrow> (\<exists>v1. all_checks cs v = Inr (True, v1) \<and> all_checks ds v1 = Inr (True, v'))"
  by (auto simp: all_checks_append split: if_splits)

lemma total_append_after:
  assumes "total_check (all_checks cs)" "\<And>v v'. all_checks cs v = Inr (True, v') \<Longrightarrow> total_check (all_checks ds)"
  shows "total_check (all_checks (cs @ ds))"
proof -
  have "\<not> isl (all_checks (cs @ ds) v)" for v
  proof -
    obtain ok v1 where "all_checks cs v = Inr (ok, v1)" using total_checkD [OF assms(1)] by blast
    then show ?thesis using assms(2) [of v v1] by (cases ok) (simp_all add: all_checks_append total_check_def)
  qed
  then show ?thesis by (simp add: total_check_def)
qed

lemma total_append: "total_check (all_checks cs) \<Longrightarrow> total_check (all_checks ds) \<Longrightarrow> total_check (all_checks (cs @ ds))"
  by (rule total_append_after)

lemma total_Nil: "total_check (all_checks [])"
  by (simp add: total_check_def)

lemma total_scalar: "table_ok buf t \<Longrightarrow> 0 \<le> field \<Longrightarrow> even field \<Longrightarrow> total_check (all_checks (scalar_check buf t w field align))"
  using VerifyField_total [of buf t field w align] by (auto simp: total_check_def scalar_check_def pure_check_def split: if_splits)

lemma total_pointer:
  assumes t: "table_ok buf t" "0 \<le> field" "even field" and f: "\<And>p. pointer_ok buf p \<Longrightarrow> \<exists>ok. f p = Inr ok"
  shows "total_check (all_checks [pure_check (VerifyOffset buf t field), pure_check (ebind (GetPointer buf t field) f)])"
proof -
  obtain ok where ok: "VerifyOffset buf t field = Inr ok" using VerifyOffset_total [OF t] by blast
  show ?thesis
  proof (cases ok)
    case True
    with VerifyOffset_pointer [OF t] ok obtain p where "GetPointer buf t field = Inr p" "pointer_ok buf p" by auto
    with f [of p] ok show ?thesis by (auto simp: total_check_def pure_check_def split: if_splits)
  qed (use ok in \<open>simp add: total_check_def pure_check_def\<close>)
qed

lemma total_string: "table_ok buf t \<Longrightarrow> 0 \<le> field \<Longrightarrow> even field \<Longrightarrow> total_check (all_checks (string_check buf t field))"
  unfolding string_check_def by (intro total_pointer VerifyString_total)

lemma total_vector: "table_ok buf t \<Longrightarrow> 0 \<le> field \<Longrightarrow> even field \<Longrightarrow> total_check (all_checks (vector_check buf t field))"
  unfolding vector_check_def by (intro total_pointer VerifyVector_total) simp_all

lemma total_table:
  assumes "0 \<le> t" "int (length buf) < 2 ^ 31" "table_ok buf t \<Longrightarrow> total_check (all_checks cs)"
  shows "total_check (table_check buf t cs)"
proof -
  have "\<not> isl (table_check buf t cs v)" for v
  proof -
    obtain ok v1 where s: "VerifyTableStart buf t v = Inr (ok, v1)"
      using total_checkD [OF VerifyTableStart_total [OF assms(1)]] by blast
    show ?thesis
    proof (cases ok)
      case True
      with s have "VerifyTableStart buf t v = Inr (True, v1)" by simp
      from assms(3) [OF VerifyTableStart_ok [OF this assms(1,2)]] have "total_check (all_checks cs)" .
      from total_checkD [OF this, of v1] s True show ?thesis
        by (auto simp: table_check_def all_checks_append Verifier_EndTable_def split: if_splits)
    qed (use s in \<open>simp add: table_check_def\<close>)
  qed
  then show ?thesis by (simp add: total_check_def)
qed

text \<open>What a verified table gives: its fields can be read.\<close>

lemma table_check_ok:
  assumes "table_check buf t cs v = Inr (True, v')" "0 \<le> t" "int (length buf) < 2 ^ 31"
  shows "table_ok buf t" "\<exists>v1 v2. all_checks cs v1 = Inr (True, v2)"
proof -
  obtain v1 v2 where v: "VerifyTableStart buf t v = Inr (True, v1)" "all_checks cs v1 = Inr (True, v2)"
    using assms(1) unfolding table_check_def all_checks_Cons_True all_checks_append_True by blast
  show "table_ok buf t" by (rule VerifyTableStart_ok [OF v(1) assms(2,3)])
  show "\<exists>v1 v2. all_checks cs v1 = Inr (True, v2)" using v(2) by blast
qed

lemma scalar_check_True: "all_checks (scalar_check buf t w field align) v = Inr (True, v') \<longleftrightarrow> VerifyField buf t w field align = Inr True \<and> v' = v"
  unfolding scalar_check_def all_checks_Cons_True by auto

lemma scalar_reads:
  assumes "table_ok buf t" "0 \<le> field" "even field"
  shows "VerifyField buf t 4 field align = Inr True \<Longrightarrow> \<exists>x. field_i32 buf t field = Inr x"
    and "VerifyField buf t 8 field align = Inr True \<Longrightarrow> \<exists>x. field_i64 buf t field = Inr x"
    and "VerifyField buf t 1 field align = Inr True \<Longrightarrow> \<exists>x. field_bool buf t field = Inr x"
proof -
  show "VerifyField buf t 4 field align = Inr True \<Longrightarrow> \<exists>x. field_i32 buf t field = Inr x"
    by (rule VerifyField_reads [OF assms, of 4]) (auto dest: ReadScalar_i32_inside)
  show "VerifyField buf t 8 field align = Inr True \<Longrightarrow> \<exists>x. field_i64 buf t field = Inr x"
    by (rule VerifyField_reads [OF assms, of 8]) (auto dest: ReadScalar_i64_inside)
  show "VerifyField buf t 1 field align = Inr True \<Longrightarrow> \<exists>x. field_bool buf t field = Inr x"
    unfolding field_bool_def ebind_eq_Inr
    using VerifyField_reads [OF assms, of 1 align "\<lambda>b p. ReadScalar b p 1" 0] ReadScalar_inside [of buf _ 1] by auto
qed

lemma string_check_reads:
  assumes "table_ok buf t" "0 \<le> field" "even field" "all_checks (string_check buf t field) v = Inr (True, v')"
  shows "v' = v \<and> (\<exists>s. field_string buf t field = Inr s)"
proof -
  have v: "VerifyOffset buf t field = Inr True" "ebind (GetPointer buf t field) (VerifyString buf) = Inr True" "v' = v"
    using assms(4) unfolding string_check_def all_checks_Cons_True by auto
  from VerifyOffset_pointer [OF assms(1-3) v(1)] obtain p where p: "GetPointer buf t field = Inr p" "pointer_ok buf p" by blast
  then show ?thesis using v VerifyString_reads [of buf "the p"] by (cases p) (auto simp: field_string_def)
qed

lemma vector_check_reads:
  assumes "table_ok buf t" "0 \<le> field" "even field" "all_checks (vector_check buf t field) v = Inr (True, v')"
  shows "v' = v \<and> (\<exists>s. field_vector buf t field = Inr s)"
proof -
  have v: "VerifyOffset buf t field = Inr True" "ebind (GetPointer buf t field) (VerifyVector buf 8) = Inr True" "v' = v"
    using assms(4) unfolding vector_check_def all_checks_Cons_True by auto
  from VerifyOffset_pointer [OF assms(1-3) v(1)] obtain p where p: "GetPointer buf t field = Inr p" "pointer_ok buf p" by blast
  then show ?thesis using v VerifyVector_reads [of buf "the p"] by (cases p) (auto simp: field_vector_def)
qed

text \<open>
  Rules for whole tables: after the checks \<open>cs\<close> have passed, the reader \<open>r\<close> gives a result with \<open>P\<close>.
\<close>

definition reads_after :: "check list \<Rightarrow> 'a result \<Rightarrow> ('a \<Rightarrow> bool) \<Rightarrow> bool" where
  "reads_after cs r P \<longleftrightarrow> (\<forall>v v'. all_checks cs v = Inr (True, v') \<longrightarrow> (\<exists>x. r = Inr x \<and> P x))"

lemma reads_Inr: "P x \<Longrightarrow> reads_after cs (Inr x) P"
  by (simp add: reads_after_def)

lemma reads_i32:
  assumes "table_ok buf t" "0 \<le> f" "even f" "\<And>x. reads_after cs (k x) P"
  shows "reads_after (scalar_check buf t 4 f a @ cs) (ebind (field_i32 buf t f) k) P"
  using assms(4) scalar_reads(1) [OF assms(1-3)] unfolding reads_after_def all_checks_append_True scalar_check_True by fastforce

lemma reads_i64:
  assumes "table_ok buf t" "0 \<le> f" "even f" "\<And>x. reads_after cs (k x) P"
  shows "reads_after (scalar_check buf t 8 f a @ cs) (ebind (field_i64 buf t f) k) P"
  using assms(4) scalar_reads(2) [OF assms(1-3)] unfolding reads_after_def all_checks_append_True scalar_check_True by fastforce

lemma reads_bool:
  assumes "table_ok buf t" "0 \<le> f" "even f" "\<And>x. reads_after cs (k x) P"
  shows "reads_after (scalar_check buf t 1 f a @ cs) (ebind (field_bool buf t f) k) P"
  using assms(4) scalar_reads(3) [OF assms(1-3)] unfolding reads_after_def all_checks_append_True scalar_check_True by fastforce

lemma reads_string:
  assumes "table_ok buf t" "0 \<le> f" "even f" "\<And>x. reads_after cs (k x) P"
  shows "reads_after (string_check buf t f @ cs) (ebind (field_string buf t f) k) P"
  using assms(4) string_check_reads [OF assms(1-3)] unfolding reads_after_def all_checks_append_True by fastforce

lemma reads_vector:
  assumes "table_ok buf t" "0 \<le> f" "even f" "\<And>x. reads_after cs (k x) P"
  shows "reads_after (vector_check buf t f @ cs) (ebind (field_vector buf t f) k) P"
  using assms(4) vector_check_reads [OF assms(1-3)] unfolding reads_after_def all_checks_append_True by fastforce

lemma reads_table:
  assumes "table_check buf t cs v = Inr (True, v')" "0 \<le> t" "int (length buf) < 2 ^ 31"
    and "table_ok buf t \<Longrightarrow> reads_after (cs @ []) r P"
  shows "\<exists>x. r = Inr x \<and> P x"
  using table_check_ok [OF assms(1-3)] assms(4) by (auto simp: reads_after_def)

end
