(* ===== verification/Protocol_Codec.thy ===== *)
theory Protocol_Codec
  imports Flat_Reader Protocol_Messages
begin

text \<open>
  The generated code of the messages (flatbuffers/ProtocoID.h) on the reading side: for each table its
  \<^verbatim>\<open>Verify\<close> and its \<^verbatim>\<open>UnPack\<close>, \<^verbatim>\<open>VerifyMessageID\<close> and \<^verbatim>\<open>MessageIDUnion::UnPack\<close> over the message's type, and
  \<^verbatim>\<open>MessageHolder\<close> around them; then \<^verbatim>\<open>NetworkSession::OnRecvMessage\<close>'s use of them on a received packet.
  Field numbers are the vtable offsets of the generated enumerations.
\<close>

section \<open>The tables\<close>

definition Verify_F_GUEST_MESSAGE_MIN :: "byte list \<Rightarrow> int \<Rightarrow> check" where
  "Verify_F_GUEST_MESSAGE_MIN buf t = table_check buf t ([])"

definition UnPack_F_GUEST_MESSAGE_MIN :: "byte list \<Rightarrow> int \<Rightarrow> native result" where
  "UnPack_F_GUEST_MESSAGE_MIN buf t = Inr F_GUEST_MESSAGE_MINT"

definition Verify_FConnectReq :: "byte list \<Rightarrow> int \<Rightarrow> check" where
  "Verify_FConnectReq buf t = table_check buf t (scalar_check buf t 4 4 4 @ string_check buf t 6 @
     scalar_check buf t 4 8 4)"

definition UnPack_FConnectReq :: "byte list \<Rightarrow> int \<Rightarrow> native result" where
  "UnPack_FConnectReq buf t =
     ebind (field_i32 buf t 4) (\<lambda>sq.
     ebind (field_string buf t 6) (\<lambda>ad.
     ebind (field_i32 buf t 8) (\<lambda>po.
       Inr (FConnectReqT sq ad po))))"

definition Verify_FConnectAck :: "byte list \<Rightarrow> int \<Rightarrow> check" where
  "Verify_FConnectAck buf t = table_check buf t (scalar_check buf t 4 4 4 @ scalar_check buf t 4 6 4)"

definition UnPack_FConnectAck :: "byte list \<Rightarrow> int \<Rightarrow> native result" where
  "UnPack_FConnectAck buf t =
     ebind (field_i32 buf t 4) (\<lambda>sq.
     ebind (field_i32 buf t 6) (\<lambda>rs.
       Inr (FConnectAckT sq rs)))"

definition Verify_FAcceptAck :: "byte list \<Rightarrow> int \<Rightarrow> check" where
  "Verify_FAcceptAck buf t = table_check buf t (scalar_check buf t 4 4 4 @ scalar_check buf t 4 6 4 @
     string_check buf t 8 @ scalar_check buf t 4 10 4)"

definition UnPack_FAcceptAck :: "byte list \<Rightarrow> int \<Rightarrow> native result" where
  "UnPack_FAcceptAck buf t =
     ebind (field_i32 buf t 4) (\<lambda>sq.
     ebind (field_i32 buf t 6) (\<lambda>rs.
     ebind (field_string buf t 8) (\<lambda>ad.
     ebind (field_i32 buf t 10) (\<lambda>po.
       Inr (FAcceptAckT sq rs ad po)))))"

definition Verify_FDisconnectReq :: "byte list \<Rightarrow> int \<Rightarrow> check" where
  "Verify_FDisconnectReq buf t = table_check buf t (scalar_check buf t 4 4 4)"

definition UnPack_FDisconnectReq :: "byte list \<Rightarrow> int \<Rightarrow> native result" where
  "UnPack_FDisconnectReq buf t =
     ebind (field_i32 buf t 4) (\<lambda>sq.
       Inr (FDisconnectReqT sq))"

definition Verify_FDisconnectAck :: "byte list \<Rightarrow> int \<Rightarrow> check" where
  "Verify_FDisconnectAck buf t = table_check buf t (scalar_check buf t 4 4 4 @ scalar_check buf t 4 6 4)"

definition UnPack_FDisconnectAck :: "byte list \<Rightarrow> int \<Rightarrow> native result" where
  "UnPack_FDisconnectAck buf t =
     ebind (field_i32 buf t 4) (\<lambda>sq.
     ebind (field_i32 buf t 6) (\<lambda>rs.
       Inr (FDisconnectAckT sq rs)))"

definition Verify_FAuthenticationReq :: "byte list \<Rightarrow> int \<Rightarrow> check" where
  "Verify_FAuthenticationReq buf t = table_check buf t (scalar_check buf t 4 4 4 @ string_check buf t 6 @
     scalar_check buf t 1 8 1 @ string_check buf t 10)"

definition UnPack_FAuthenticationReq :: "byte list \<Rightarrow> int \<Rightarrow> native result" where
  "UnPack_FAuthenticationReq buf t =
     ebind (field_i32 buf t 4) (\<lambda>sq.
     ebind (field_string buf t 6) (\<lambda>tk.
     ebind (field_bool buf t 8) (\<lambda>rc.
     ebind (field_string buf t 10) (\<lambda>ky.
       Inr (FAuthenticationReqT sq tk rc ky)))))"

definition Verify_FAuthenticationAck :: "byte list \<Rightarrow> int \<Rightarrow> check" where
  "Verify_FAuthenticationAck buf t = table_check buf t (scalar_check buf t 4 4 4 @ scalar_check buf t 4 6 4 @
     scalar_check buf t 8 8 8)"

definition UnPack_FAuthenticationAck :: "byte list \<Rightarrow> int \<Rightarrow> native result" where
  "UnPack_FAuthenticationAck buf t =
     ebind (field_i32 buf t 4) (\<lambda>sq.
     ebind (field_i32 buf t 6) (\<lambda>rs.
     ebind (field_i64 buf t 8) (\<lambda>ac.
       Inr (FAuthenticationAckT sq rs ac))))"

definition Verify_CLGS_CONNECT_REQ :: "byte list \<Rightarrow> int \<Rightarrow> check" where
  "Verify_CLGS_CONNECT_REQ buf t = table_check buf t (scalar_check buf t 4 4 4 @ string_check buf t 6 @
     scalar_check buf t 1 8 1 @ string_check buf t 10)"

definition UnPack_CLGS_CONNECT_REQ :: "byte list \<Rightarrow> int \<Rightarrow> native result" where
  "UnPack_CLGS_CONNECT_REQ buf t =
     ebind (field_i32 buf t 4) (\<lambda>sq.
     ebind (field_string buf t 6) (\<lambda>tk.
     ebind (field_bool buf t 8) (\<lambda>rc.
     ebind (field_string buf t 10) (\<lambda>ky.
       Inr (CLGS_CONNECT_REQ_T sq tk rc ky)))))"

definition Verify_CLGS_CONNECT_ACK :: "byte list \<Rightarrow> int \<Rightarrow> check" where
  "Verify_CLGS_CONNECT_ACK buf t = table_check buf t (scalar_check buf t 4 4 4 @ scalar_check buf t 4 6 4)"

definition UnPack_CLGS_CONNECT_ACK :: "byte list \<Rightarrow> int \<Rightarrow> native result" where
  "UnPack_CLGS_CONNECT_ACK buf t =
     ebind (field_i32 buf t 4) (\<lambda>sq.
     ebind (field_i32 buf t 6) (\<lambda>rs.
       Inr (CLGS_CONNECT_ACK_T sq rs)))"

definition Verify_CLGS_AUTHEN_REQ :: "byte list \<Rightarrow> int \<Rightarrow> check" where
  "Verify_CLGS_AUTHEN_REQ buf t = table_check buf t (scalar_check buf t 4 4 4 @ string_check buf t 6 @
     scalar_check buf t 1 8 1 @ string_check buf t 10)"

definition UnPack_CLGS_AUTHEN_REQ :: "byte list \<Rightarrow> int \<Rightarrow> native result" where
  "UnPack_CLGS_AUTHEN_REQ buf t =
     ebind (field_i32 buf t 4) (\<lambda>sq.
     ebind (field_string buf t 6) (\<lambda>tk.
     ebind (field_bool buf t 8) (\<lambda>rc.
     ebind (field_string buf t 10) (\<lambda>ky.
       Inr (CLGS_AUTHEN_REQT sq tk rc ky)))))"

definition Verify_CLGS_AUTHEN_ACK :: "byte list \<Rightarrow> int \<Rightarrow> check" where
  "Verify_CLGS_AUTHEN_ACK buf t = table_check buf t (scalar_check buf t 4 4 4 @ scalar_check buf t 4 6 4)"

definition UnPack_CLGS_AUTHEN_ACK :: "byte list \<Rightarrow> int \<Rightarrow> native result" where
  "UnPack_CLGS_AUTHEN_ACK buf t =
     ebind (field_i32 buf t 4) (\<lambda>sq.
     ebind (field_i32 buf t 6) (\<lambda>rs.
       Inr (CLGS_AUTHEN_ACKT sq rs)))"

definition Verify_DBGS_Authentication_REQ :: "byte list \<Rightarrow> int \<Rightarrow> check" where
  "Verify_DBGS_Authentication_REQ buf t = table_check buf t (scalar_check buf t 4 4 4 @ scalar_check buf t 4 6 4 @ string_check buf t 8 @
     scalar_check buf t 1 10 1 @ string_check buf t 12)"

definition UnPack_DBGS_Authentication_REQ :: "byte list \<Rightarrow> int \<Rightarrow> native result" where
  "UnPack_DBGS_Authentication_REQ buf t =
     ebind (field_i32 buf t 4) (\<lambda>sq.
     ebind (field_i32 buf t 6) (\<lambda>si.
     ebind (field_string buf t 8) (\<lambda>tk.
     ebind (field_bool buf t 10) (\<lambda>rc.
     ebind (field_string buf t 12) (\<lambda>ky.
       Inr (DBGS_Authentication_REQT sq si tk rc ky))))))"

definition Verify_F_MEMBER_MESSAGE_MAX :: "byte list \<Rightarrow> int \<Rightarrow> check" where
  "Verify_F_MEMBER_MESSAGE_MAX buf t = table_check buf t ([])"

definition UnPack_F_MEMBER_MESSAGE_MAX :: "byte list \<Rightarrow> int \<Rightarrow> native result" where
  "UnPack_F_MEMBER_MESSAGE_MAX buf t = Inr F_MEMBER_MESSAGE_MAXT"

section \<open>The union\<close>

text \<open>\<^verbatim>\<open>VerifyMessageID\<close>; an absent table and an unknown type are accepted.\<close>

fun Verify_table :: "MessageID \<Rightarrow> byte list \<Rightarrow> int \<Rightarrow> check" where
  "Verify_table NONE buf t = pure_check (Inr True)"
| "Verify_table F_GUEST_MESSAGE_MIN buf t = Verify_F_GUEST_MESSAGE_MIN buf t"
| "Verify_table FConnectReq buf t = Verify_FConnectReq buf t"
| "Verify_table FConnectAck buf t = Verify_FConnectAck buf t"
| "Verify_table FAcceptAck buf t = Verify_FAcceptAck buf t"
| "Verify_table FDisconnectReq buf t = Verify_FDisconnectReq buf t"
| "Verify_table FDisconnectAck buf t = Verify_FDisconnectAck buf t"
| "Verify_table FAuthenticationReq buf t = Verify_FAuthenticationReq buf t"
| "Verify_table FAuthenticationAck buf t = Verify_FAuthenticationAck buf t"
| "Verify_table CLGS_CONNECT_REQ buf t = Verify_CLGS_CONNECT_REQ buf t"
| "Verify_table CLGS_CONNECT_ACK buf t = Verify_CLGS_CONNECT_ACK buf t"
| "Verify_table CLGS_AUTHEN_REQ buf t = Verify_CLGS_AUTHEN_REQ buf t"
| "Verify_table CLGS_AUTHEN_ACK buf t = Verify_CLGS_AUTHEN_ACK buf t"
| "Verify_table DBGS_Authentication_REQ buf t = Verify_DBGS_Authentication_REQ buf t"
| "Verify_table F_MEMBER_MESSAGE_MAX buf t = Verify_F_MEMBER_MESSAGE_MAX buf t"

definition VerifyMessageID :: "byte list \<Rightarrow> int option \<Rightarrow> int32 \<Rightarrow> check" where
  "VerifyMessageID buf obj type =
     (case switch_MessageID type of
        None \<Rightarrow> pure_check (Inr True)
      | Some m \<Rightarrow> (if m = NONE then pure_check (Inr True)
                    else case obj of None \<Rightarrow> pure_check (Inr True) | Some t \<Rightarrow> Verify_table m buf t))"

text \<open>\<^verbatim>\<open>MessageIDUnion::UnPack\<close> of a table; \<open>None\<close> is the null pointer of the default branch.\<close>

fun UnPack_table :: "MessageID \<Rightarrow> byte list \<Rightarrow> int \<Rightarrow> native option result" where
  "UnPack_table NONE buf t = Inr None"
| "UnPack_table F_GUEST_MESSAGE_MIN buf t = ebind (UnPack_F_GUEST_MESSAGE_MIN buf t) (\<lambda>x. Inr (Some x))"
| "UnPack_table FConnectReq buf t = ebind (UnPack_FConnectReq buf t) (\<lambda>x. Inr (Some x))"
| "UnPack_table FConnectAck buf t = ebind (UnPack_FConnectAck buf t) (\<lambda>x. Inr (Some x))"
| "UnPack_table FAcceptAck buf t = ebind (UnPack_FAcceptAck buf t) (\<lambda>x. Inr (Some x))"
| "UnPack_table FDisconnectReq buf t = ebind (UnPack_FDisconnectReq buf t) (\<lambda>x. Inr (Some x))"
| "UnPack_table FDisconnectAck buf t = ebind (UnPack_FDisconnectAck buf t) (\<lambda>x. Inr (Some x))"
| "UnPack_table FAuthenticationReq buf t = ebind (UnPack_FAuthenticationReq buf t) (\<lambda>x. Inr (Some x))"
| "UnPack_table FAuthenticationAck buf t = ebind (UnPack_FAuthenticationAck buf t) (\<lambda>x. Inr (Some x))"
| "UnPack_table CLGS_CONNECT_REQ buf t = ebind (UnPack_CLGS_CONNECT_REQ buf t) (\<lambda>x. Inr (Some x))"
| "UnPack_table CLGS_CONNECT_ACK buf t = ebind (UnPack_CLGS_CONNECT_ACK buf t) (\<lambda>x. Inr (Some x))"
| "UnPack_table CLGS_AUTHEN_REQ buf t = ebind (UnPack_CLGS_AUTHEN_REQ buf t) (\<lambda>x. Inr (Some x))"
| "UnPack_table CLGS_AUTHEN_ACK buf t = ebind (UnPack_CLGS_AUTHEN_ACK buf t) (\<lambda>x. Inr (Some x))"
| "UnPack_table DBGS_Authentication_REQ buf t = ebind (UnPack_DBGS_Authentication_REQ buf t) (\<lambda>x. Inr (Some x))"
| "UnPack_table F_MEMBER_MESSAGE_MAX buf t = ebind (UnPack_F_MEMBER_MESSAGE_MAX buf t) (\<lambda>x. Inr (Some x))"

definition Union_UnPack :: "byte list \<Rightarrow> int \<Rightarrow> int32 \<Rightarrow> native option result" where
  "Union_UnPack buf obj type =
     (case switch_MessageID type of None \<Rightarrow> Inr None | Some m \<Rightarrow> UnPack_table m buf obj)"

section \<open>MessageHolder\<close>

definition MessageHolder_Verify :: "byte list \<Rightarrow> int \<Rightarrow> check" where
  "MessageHolder_Verify buf t =
     table_check buf t
       (vector_check buf t 4 @ scalar_check buf t 4 6 1 @
        [pure_check (VerifyOffset buf t 8),
         \<lambda>v. ebind (GetPointer buf t 8) (\<lambda>obj. ebind (field_i32 buf t 6) (\<lambda>type. VerifyMessageID buf obj type v))])"

text \<open>
  The contents of a holder before its message is put on the heap: the account ids, the type
  and the message (\<open>None\<close> for a null value).
\<close>

record packet =
  p_accountIDs :: "int64 list"
  p_type :: int32
  p_message :: "native option"

definition MessageHolder_UnPack :: "byte list \<Rightarrow> int \<Rightarrow> packet result" where
  "MessageHolder_UnPack buf t =
     ebind (field_vector buf t 4) (\<lambda>ids.
     ebind (field_i32 buf t 6) (\<lambda>type.
     ebind (GetPointer buf t 8) (\<lambda>obj.
     ebind (case obj of None \<Rightarrow> Inr None | Some p \<Rightarrow> Union_UnPack buf p type) (\<lambda>m.
       Inr \<lparr>p_accountIDs = ids, p_type = type, p_message = m\<rparr>))))"

text \<open>The holder with its message on the heap.\<close>

definition holder_of :: "packet \<Rightarrow> heap \<Rightarrow> MessageHolderT \<times> heap" where
  "holder_of p h =
     (case p_message p of
        None \<Rightarrow> (\<lparr>accountIDs = p_accountIDs p, message = \<lparr>utype = p_type p, uvalue = None\<rparr>\<rparr>, h)
      | Some x \<Rightarrow> let (a, h) = new_native x h
                  in (\<lparr>accountIDs = p_accountIDs p, message = \<lparr>utype = p_type p, uvalue = Some a\<rparr>\<rparr>, h))"

section \<open>A received packet\<close>

definition VerifySizePrefixedMessageHolderBuffer :: "byte list \<Rightarrow> bool result" where
  "VerifySizePrefixedMessageHolderBuffer buf =
     ebind (VerifySizePrefixedBuffer (MessageHolder_Verify buf) buf Verifier_new) (\<lambda>(ok, _). Inr ok)"

text \<open>
  \<^verbatim>\<open>OnRecvMessage\<close> up to the job: verify, then unpack the root; \<open>None\<close> when the verifier refuses.
\<close>

definition decode_packet :: "byte list \<Rightarrow> packet option result" where
  "decode_packet buf =
     ebind (VerifySizePrefixedMessageHolderBuffer buf) (\<lambda>ok.
       if \<not> ok then Inr None
       else ebind (GetSizePrefixedRoot buf) (\<lambda>t. ebind (MessageHolder_UnPack buf t) (\<lambda>p. Inr (Some p))))"

section \<open>The verifier never reads outside, and protects the reader\<close>

lemmas verify_defs = Verify_F_GUEST_MESSAGE_MIN_def Verify_FConnectReq_def Verify_FConnectAck_def Verify_FAcceptAck_def
  Verify_FDisconnectReq_def Verify_FDisconnectAck_def Verify_FAuthenticationReq_def Verify_FAuthenticationAck_def
  Verify_CLGS_CONNECT_REQ_def Verify_CLGS_CONNECT_ACK_def Verify_CLGS_AUTHEN_REQ_def Verify_CLGS_AUTHEN_ACK_def
  Verify_DBGS_Authentication_REQ_def Verify_F_MEMBER_MESSAGE_MAX_def

lemmas unpack_defs = UnPack_F_GUEST_MESSAGE_MIN_def UnPack_FConnectReq_def UnPack_FConnectAck_def UnPack_FAcceptAck_def
  UnPack_FDisconnectReq_def UnPack_FDisconnectAck_def UnPack_FAuthenticationReq_def UnPack_FAuthenticationAck_def
  UnPack_CLGS_CONNECT_REQ_def UnPack_CLGS_CONNECT_ACK_def UnPack_CLGS_AUTHEN_REQ_def UnPack_CLGS_AUTHEN_ACK_def
  UnPack_DBGS_Authentication_REQ_def UnPack_F_MEMBER_MESSAGE_MAX_def

lemmas total_intros = total_table total_append total_scalar total_string total_vector total_Nil

lemma Verify_table_total:
  assumes "0 \<le> t" "int (length buf) < 2 ^ 31"
  shows "total_check (Verify_table m buf t)"
proof (cases "m = NONE")
  case False
  with assms show ?thesis
    by (cases m) (simp_all add: verify_defs, (intro total_intros; simp)+)
qed (simp add: total_pure_check)

lemma VerifyMessageID_total:
  assumes "pointer_ok buf obj" "int (length buf) < 2 ^ 31"
  shows "total_check (VerifyMessageID buf obj type)"
  using assms Verify_table_total [of "the obj" buf]
  by (auto simp: VerifyMessageID_def total_pure_check pointer_ok_def split: option.splits)

text \<open>A verified table unpacks to the struct of its type.\<close>

lemmas reads_intros = reads_Inr reads_i32 reads_i64 reads_bool reads_string reads_vector

lemma Verify_table_reads:
  assumes v: "Verify_table m buf t v = Inr (True, v')" and m: "m \<noteq> NONE"
    and t: "0 \<le> t" "int (length buf) < 2 ^ 31"
  shows "\<exists>x. UnPack_table m buf t = Inr (Some x) \<and> enum_value x = m"
proof -
  have "\<exists>x. UnPack_table m buf t = Inr x \<and> (\<exists>y. x = Some y \<and> enum_value y = m)"
    using m v
    apply (cases m)
    apply (simp_all only: Verify_table.simps verify_defs)
    apply simp
    apply (rule reads_table [OF _ t], assumption,
      simp only: UnPack_table.simps unpack_defs ebind_assoc ebind_simps append_assoc; intro reads_intros; simp)+
    done
  then show ?thesis by auto
qed

text \<open>The union's check, after its two fields have been verified.\<close>

lemma union_check_total:
  assumes t: "table_ok buf t" "int (length buf) < 2 ^ 31" and ty: "field_i32 buf t 6 = Inr ty"
  shows "total_check (all_checks [pure_check (VerifyOffset buf t 8),
    \<lambda>v. ebind (GetPointer buf t 8) (\<lambda>obj. ebind (field_i32 buf t 6) (\<lambda>type. VerifyMessageID buf obj type v))])"
proof -
  obtain ok where ok: "VerifyOffset buf t 8 = Inr ok" using VerifyOffset_total [of buf t 8] t by auto
  show ?thesis
  proof (cases ok)
    case True
    with VerifyOffset_pointer [of buf t 8] t ok obtain p where p: "GetPointer buf t 8 = Inr p" "pointer_ok buf p" by auto
    have "\<exists>b w. VerifyMessageID buf p ty v = Inr (b, w)" for v
      by (rule total_checkD [OF VerifyMessageID_total [OF p(2) t(2)]])
    then have "\<not> isl (ebind (VerifyMessageID buf p ty v) (\<lambda>(ok, v). if ok then all_checks [] v else Inr (False, v)))" for v
      by (metis (mono_tags, lifting) all_checks.simps(1) case_prod_conv ebind_simps(2) sum.disc(2))
    with p ok True ty show ?thesis by (simp add: total_check_def pure_check_def)
  qed (use ok in \<open>simp add: total_check_def pure_check_def\<close>)
qed

lemma MessageHolder_Verify_total:
  assumes "0 \<le> t" "int (length buf) < 2 ^ 31"
  shows "total_check (MessageHolder_Verify buf t)"
  unfolding MessageHolder_Verify_def
proof (rule total_table [OF assms])
  assume t: "table_ok buf t"
  note rest = union_check_total [OF t assms(2)]
  show "total_check (all_checks (vector_check buf t 4 @ scalar_check buf t 4 6 1 @
        [pure_check (VerifyOffset buf t 8),
         \<lambda>v. ebind (GetPointer buf t 8) (\<lambda>obj. ebind (field_i32 buf t 6) (\<lambda>type. VerifyMessageID buf obj type v))]))"
    using t by (intro total_append_after total_vector total_scalar; simp only: scalar_check_True)
      (auto dest: scalar_reads(1) [OF t, rotated 2] intro: rest)
qed

text \<open>What a verified holder unpacks to: a message, if there is one, is the struct of the type.\<close>

definition packet_ok :: "packet \<Rightarrow> bool" where
  "packet_ok p \<longleftrightarrow> (case p_message p of None \<Rightarrow> True | Some x \<Rightarrow> p_type p = MessageID_value (enum_value x))"

lemma union_reads:
  assumes t: "table_ok buf t" "int (length buf) < 2 ^ 31" and ty: "field_i32 buf t 6 = Inr ty"
    and off: "VerifyOffset buf t 8 = Inr True"
    and v: "ebind (GetPointer buf t 8) (\<lambda>obj. ebind (field_i32 buf t 6) (\<lambda>type. VerifyMessageID buf obj type v)) = Inr (True, v')"
  shows "\<exists>obj m. GetPointer buf t 8 = Inr obj \<and>
    (case obj of None \<Rightarrow> Inr None | Some p \<Rightarrow> Union_UnPack buf p ty) = Inr m \<and>
    packet_ok \<lparr>p_accountIDs = ids, p_type = ty, p_message = m\<rparr>"
proof -
  obtain obj where obj: "GetPointer buf t 8 = Inr obj" "pointer_ok buf obj"
    using VerifyOffset_pointer [of buf t 8] t off by auto
  show ?thesis
  proof (cases obj)
    case (Some p)
    then have p: "0 \<le> p" using obj by (simp add: pointer_ok_def)
    have v': "VerifyMessageID buf (Some p) ty v = Inr (True, v')" using v obj ty Some by simp
    show ?thesis
    proof (cases "switch_MessageID ty")
      case None
      then show ?thesis using obj Some by (simp add: Union_UnPack_def packet_ok_def)
    next
      case (Some m)
      show ?thesis
      proof (cases "m = NONE")
        case False
        then have "Verify_table m buf p v = Inr (True, v')" using v' Some by (simp add: VerifyMessageID_def)
        from Verify_table_reads [OF this False p t(2)] obtain x where "UnPack_table m buf p = Inr (Some x)" "enum_value x = m" by blast
        then show ?thesis using obj Some \<open>obj = Some p\<close> switch_MessageID_Some [OF Some]
          by (simp add: Union_UnPack_def packet_ok_def)
      qed (use obj Some \<open>obj = Some p\<close> in \<open>simp add: Union_UnPack_def packet_ok_def\<close>)
    qed
  qed (use obj in \<open>simp add: packet_ok_def\<close>)
qed

lemma MessageHolder_Verify_reads:
  assumes v: "MessageHolder_Verify buf t v = Inr (True, v')" and t: "0 \<le> t" "int (length buf) < 2 ^ 31"
  shows "\<exists>p. MessageHolder_UnPack buf t = Inr p \<and> packet_ok p"
  unfolding MessageHolder_UnPack_def
proof (rule reads_table [OF v [unfolded MessageHolder_Verify_def] t], unfold append_assoc, rule reads_vector)
  fix ids
  assume tok: "table_ok buf t"
  show "reads_after (scalar_check buf t 4 6 1 @
      [pure_check (VerifyOffset buf t 8),
       \<lambda>v. ebind (GetPointer buf t 8) (\<lambda>obj. ebind (field_i32 buf t 6) (\<lambda>type. VerifyMessageID buf obj type v))] @ [])
     (ebind (field_i32 buf t 6) (\<lambda>type. ebind (GetPointer buf t 8) (\<lambda>obj.
        ebind (case obj of None \<Rightarrow> Inr None | Some p \<Rightarrow> Union_UnPack buf p type)
          (\<lambda>m. Inr \<lparr>p_accountIDs = ids, p_type = type, p_message = m\<rparr>)))) packet_ok"
    unfolding reads_after_def append_Nil2 all_checks_append_True scalar_check_True all_checks_Cons_True pure_check_True
    using scalar_reads(1) [OF tok, of 6 1] union_reads [OF tok t(2), where ids = ids] by fastforce
qed simp_all

lemma VerifyBuffer_total:
  assumes "int (length buf) < 2 ^ 31"
  shows "total_check (VerifySizePrefixedBuffer (MessageHolder_Verify buf) buf)"
proof -
  have "\<not> isl (VerifySizePrefixedBuffer (MessageHolder_Verify buf) buf v)" for v
  proof (cases "VerifyScalar buf 0 4")
    case True
    from ReadScalar_inside [OF VerifyScalar_inside [OF this]] obtain n where n: "ReadScalar buf 0 4 = Inr n" by auto
    obtain o1 where o1: "VerifyOffsetAt buf 4 = Inr o1" "0 \<le> o1" using VerifyOffsetAt_total [of 4 buf] by auto
    have "total_check (MessageHolder_Verify buf (4 + o1))" using o1(2) assms by (intro MessageHolder_Verify_total) simp_all
    with True n o1 show ?thesis
      by (simp add: VerifySizePrefixedBuffer_def VerifyBufferFromStart_def total_check_def)
  qed (simp add: VerifySizePrefixedBuffer_def)
  then show ?thesis by (simp add: total_check_def)
qed

lemma VerifyBuffer_root:
  assumes "VerifySizePrefixedMessageHolderBuffer buf = Inr True" "int (length buf) < 2 ^ 31"
  shows "\<exists>t p. GetSizePrefixedRoot buf = Inr t \<and> MessageHolder_UnPack buf t = Inr p \<and> packet_ok p"
proof -
  obtain v' where v: "VerifySizePrefixedBuffer (MessageHolder_Verify buf) buf Verifier_new = Inr (True, v')"
    using assms(1) by (auto simp: VerifySizePrefixedMessageHolderBuffer_def)
  then have s: "VerifyScalar buf 0 4" by (auto simp: VerifySizePrefixedBuffer_def split: if_splits)
  from ReadScalar_inside [OF VerifyScalar_inside [OF this]] obtain n where n: "ReadScalar buf 0 4 = Inr n" by auto
  obtain o1 where o1: "VerifyOffsetAt buf 4 = Inr o1" "0 \<le> o1" using VerifyOffsetAt_total [of 4 buf] by auto
  have nz: "o1 \<noteq> 0" and h: "MessageHolder_Verify buf (4 + o1) Verifier_new = Inr (True, v')"
    using v s n o1 by (auto simp: VerifySizePrefixedBuffer_def VerifyBufferFromStart_def split: if_splits)
  have "GetSizePrefixedRoot buf = Inr (4 + o1)"
    using VerifyOffsetAt_ok(1) [OF o1(1) nz] by (simp add: GetSizePrefixedRoot_def GetRoot_def)
  moreover obtain p where "MessageHolder_UnPack buf (4 + o1) = Inr p" "packet_ok p"
    using MessageHolder_Verify_reads [OF h _ assms(2)] o1(2) by auto
  ultimately show ?thesis by blast
qed

lemma decode_packet_ok:
  assumes "int (length buf) < 2 ^ 31"
  shows "\<exists>r. decode_packet buf = Inr r \<and> (\<forall>p. r = Some p \<longrightarrow> packet_ok p)"
proof -
  obtain ok v' where "VerifySizePrefixedBuffer (MessageHolder_Verify buf) buf Verifier_new = Inr (ok, v')"
    using total_checkD [OF VerifyBuffer_total [OF assms]] by blast
  then have ver: "VerifySizePrefixedMessageHolderBuffer buf = Inr ok"
    by (simp add: VerifySizePrefixedMessageHolderBuffer_def)
  show ?thesis
  proof (cases ok)
    case True
    with VerifyBuffer_root [OF _ assms] ver show ?thesis by (auto simp: decode_packet_def)
  qed (use ver in \<open>simp add: decode_packet_def\<close>)
qed

lemma packet_ok_union: "packet_ok p \<Longrightarrow> holder_of p h = (holder, h') \<Longrightarrow> union_ok (message holder) h'"
  by (auto simp: packet_ok_def holder_of_def union_ok_def new_native_def split: option.splits)

text \<open>
  C6. Decoding is memory safe for every packet anybody can send: whatever the bytes, neither the
  verifier nor, once it has accepted, the unpacking of the holder and its message reads outside
  the packet; and a message that is unpacked is the struct its type names, so the holder made
  of it owns a well-formed union.
\<close>

theorem decoding_is_memory_safe:
  assumes "int (length buf) < 2 ^ 31"
  shows "\<exists>r. decode_packet buf = Inr r \<and>
    (\<forall>p h holder h'. r = Some p \<longrightarrow> holder_of p h = (holder, h') \<longrightarrow> union_ok (message holder) h')"
  using decode_packet_ok [OF assms] packet_ok_union by blast

theorem decoding_is_memory_safe_witness:
  "\<exists>r. decode_packet [1, 2, 3] = Inr r \<and> r = None"
  using decoding_is_memory_safe [of "[1, 2, 3]"]
  by (simp add: decode_packet_def VerifySizePrefixedMessageHolderBuffer_def VerifySizePrefixedBuffer_def VerifyScalar_def
      VerifyRange_def)

end
