(* ===== verification/Message_Path.thy ===== *)
theory Message_Path
  imports Dispatching Protocol_Codec
begin

text \<open>
  The way of a packet through the application: \<open>decode_packet\<close> on the received bytes
  (\<^verbatim>\<open>NetworkSession::OnRecvMessage\<close>), the holder on the heap, the job, the dispatch and the end of the
  job. The theorems are about the bytes a client sends and the memory of the server.
\<close>

section \<open>Packets become jobs\<close>

fun enqueue_packets :: "int64 \<Rightarrow> byte list list \<Rightarrow> heap \<Rightarrow> ((int64 \<times> MessageHolderT) list \<times> heap) result" where
  "enqueue_packets sid [] h = Inr ([], h)"
| "enqueue_packets sid (b # bs) h =
     ebind (decode_packet b) (\<lambda>r.
       case r of
         None \<Rightarrow> enqueue_packets sid bs h
       | Some p \<Rightarrow> (let (holder, h) = holder_of p h
                    in ebind (enqueue_packets sid bs h) (\<lambda>(jobs, h). Inr ((sid, holder) # jobs, h))))"

text \<open>The packets the verifier accepts, and the one thing the handler cannot take.\<close>

definition accepted :: "byte list \<Rightarrow> packet option" where
  "accepted b = (case decode_packet b of Inr r \<Rightarrow> r | Inl e \<Rightarrow> None)"

definition lacks_table :: "packet \<Rightarrow> bool" where
  "lacks_table p \<longleftrightarrow> p_type p = MessageID_value CLGS_AUTHEN_REQ \<and> p_message p = None"

lemma decode_accepted:
  assumes "int (length b) < 2 ^ 31"
  shows "decode_packet b = Inr (accepted b)" "accepted b = Some p \<Longrightarrow> packet_ok p"
  using decode_packet_ok [OF assms] by (auto simp: accepted_def)

section \<open>The heap while packets arrive\<close>

text \<open>
  \<open>h1\<close> is \<open>h\<close> with the messages of \<open>jobs\<close> added: old cells are as they were, the new ones belong to the jobs.
\<close>

definition arrived :: "heap \<Rightarrow> (int64 \<times> MessageHolderT) list \<Rightarrow> heap \<Rightarrow> bool" where
  "arrived h jobs h1 \<longleftrightarrow> fresh h \<le> fresh h1 \<and> heap_ok h1 \<and>
     (\<forall>a < fresh h. cells h1 a = cells h a) \<and>
     (\<forall>a. fresh h \<le> a \<longrightarrow> (cells h1 a \<noteq> None \<longleftrightarrow> a \<in> (\<Union>job \<in> set jobs. job_owned job))) \<and>
     (\<forall>job \<in> set jobs. job_owned job \<subseteq> {fresh h..<fresh h1}) \<and>
     (\<forall>i < length jobs. \<forall>j < i. job_owned (jobs ! i) \<inter> job_owned (jobs ! j) = {})"

lemma arrived_Nil: "heap_ok h \<Longrightarrow> arrived h [] h"
  by (auto simp: arrived_def heap_ok_def)

lemma holder_of_arrives:
  assumes "holder_of p h = (holder, h')" "heap_ok h"
  shows "heap_ok h'" "job_owned (sid, holder) = {fresh h..<fresh h'}" "fresh h \<le> fresh h'" "fresh h' \<le> fresh h + 1"
    "\<forall>a < fresh h. cells h' a = cells h a" "\<forall>a \<ge> fresh h. (cells h' a \<noteq> None \<longleftrightarrow> a \<in> {fresh h..<fresh h'})"
    "job_message h' (sid, holder) = p_message p"
    "utype (message holder) = p_type p" "uvalue (message holder) = None \<longleftrightarrow> p_message p = None"
    "packet_ok p \<Longrightarrow> union_ok (message holder) h'"
proof -
  have less: "a < fresh h" if "cells h a = Some y" for a y using that assms(2) by (auto simp: heap_ok_def)
  show "heap_ok h'" "job_owned (sid, holder) = {fresh h..<fresh h'}" "fresh h \<le> fresh h'" "fresh h' \<le> fresh h + 1"
    "\<forall>a < fresh h. cells h' a = cells h a" "\<forall>a \<ge> fresh h. (cells h' a \<noteq> None \<longleftrightarrow> a \<in> {fresh h..<fresh h'})"
    "job_message h' (sid, holder) = p_message p"
    "utype (message holder) = p_type p" "uvalue (message holder) = None \<longleftrightarrow> p_message p = None"
    "packet_ok p \<Longrightarrow> union_ok (message holder) h'"
    using assms
    by (auto simp: holder_of_def new_native_def heap_ok_def job_owned_def owned_def job_message_def packet_ok_def union_ok_def
        split: option.splits if_splits dest!: less)
qed

text \<open>A job keeps its message while others arrive.\<close>

lemma job_stays:
  assumes "\<forall>a < n. cells h1 a = cells h a" "job_owned job \<subseteq> {..<n}"
  shows "job_ok h1 job = job_ok h job" "job_message h1 job = job_message h job"
  using assms by (cases "uvalue (message (snd job))"; auto simp: job_ok_def union_ok_def job_message_def job_owned_def owned_def)+

lemma arrived_Cons:
  assumes p: "holder_of p h = (holder, h')" and h: "heap_ok h" and js: "arrived h' jobs h1"
  shows "arrived h ((sid, holder) # jobs) h1"
proof -
  note ho = holder_of_arrives [OF p h]
  have own: "job_owned (sid, holder) = {fresh h..<fresh h'}" by (rule ho(2))
  have 1: "fresh h \<le> fresh h1" "heap_ok h1" "\<forall>a < fresh h. cells h1 a = cells h a"
    using js ho(3,5) by (auto simp: arrived_def)
  have 2: "cells h1 a \<noteq> None \<longleftrightarrow> a \<in> (\<Union>job \<in> set ((sid, holder) # jobs). job_owned job)" if "fresh h \<le> a" for a
  proof (cases "a < fresh h'")
    case True
    with js ho(6) that have "cells h1 a \<noteq> None" "a \<in> {fresh h..<fresh h'}" by (auto simp: arrived_def)
    then show ?thesis using own by auto
  next
    case False
    with js show ?thesis using own by (auto simp: arrived_def)
  qed
  have 3: "\<forall>job \<in> set ((sid, holder) # jobs). job_owned job \<subseteq> {fresh h..<fresh h1}"
  proof -
    have "\<forall>job \<in> set jobs. job_owned job \<subseteq> {fresh h'..<fresh h1}" "fresh h' \<le> fresh h1" using js by (simp_all add: arrived_def)
    moreover have "{fresh h'..<fresh h1} \<subseteq> {fresh h..<fresh h1}" using ho(3) by auto
    ultimately have "\<forall>job \<in> set jobs. job_owned job \<subseteq> {fresh h..<fresh h1}" by blast
    with own \<open>fresh h' \<le> fresh h1\<close> show ?thesis by simp
  qed
  have 4: "\<forall>i < length ((sid, holder) # jobs). \<forall>j < i.
    job_owned (((sid, holder) # jobs) ! i) \<inter> job_owned (((sid, holder) # jobs) ! j) = {}"
  proof (intro allI impI)
    fix i j assume i: "i < length ((sid, holder) # jobs)" and j: "j < i"
    then obtain i' where i': "i = Suc i'" "i' < length jobs" by (cases i) auto
    show "job_owned (((sid, holder) # jobs) ! i) \<inter> job_owned (((sid, holder) # jobs) ! j) = {}"
    proof (cases j)
      case 0
      have "job_owned (jobs ! i') \<subseteq> {fresh h'..<fresh h1}" using js i' by (auto simp: arrived_def)
      then show ?thesis using 0 i' own by auto
    next
      case (Suc j')
      then show ?thesis using js i' j by (simp add: arrived_def)
    qed
  qed
  show ?thesis unfolding arrived_def using 1 2 3 4 by blast
qed

text \<open>All packets: the jobs are the accepted packets in order, each with its message on the heap.\<close>

lemma enqueue_packets_arrive:
  assumes "\<forall>b \<in> set packets. int (length b) < 2 ^ 31"
    and "\<forall>p \<in> set (List.map_filter accepted packets). \<not> lacks_table p" and "heap_ok h"
  shows "\<exists>jobs h1. enqueue_packets sid packets h = Inr (jobs, h1) \<and> arrived h jobs h1 \<and>
    (\<forall>job \<in> set jobs. job_ok h1 job) \<and> map (job_message h1) jobs = map p_message (List.map_filter accepted packets)"
  using assms
proof (induction packets arbitrary: h)
  case Nil
  then show ?case by (simp add: arrived_Nil List.map_filter_simps)
next
  case (Cons b packets)
  have len: "int (length b) < 2 ^ 31" using Cons.prems by simp
  show ?case
  proof (cases "accepted b")
    case None
    with Cons decode_accepted(1) [OF len] show ?thesis by (simp add: List.map_filter_simps)
  next
    case (Some p)
    note dec = decode_accepted [OF len]
    obtain holder h' where p: "holder_of p h = (holder, h')" by (cases "holder_of p h")
    note ho = holder_of_arrives [OF p Cons.prems(3)]
    have ok: "job_ok h' (sid, holder)"
      using ho(8,9,10) dec(2) [OF Some] Cons.prems(2) Some by (auto simp: job_ok_def lacks_table_def List.map_filter_simps)
    have "\<forall>p \<in> set (List.map_filter accepted packets). \<not> lacks_table p"
      using Cons.prems(2) Some by (simp add: List.map_filter_simps)
    with Cons.IH [OF _ _ ho(1)] Cons.prems(1) obtain jobs h1 where
      js: "enqueue_packets sid packets h' = Inr (jobs, h1)" "arrived h' jobs h1" "\<forall>job \<in> set jobs. job_ok h1 job"
        "map (job_message h1) jobs = map p_message (List.map_filter accepted packets)" by auto
    have "\<forall>a < fresh h'. cells h1 a = cells h' a" using js(2) by (simp add: arrived_def)
    moreover have "job_owned (sid, holder) \<subseteq> {..<fresh h'}" unfolding ho(2) by auto
    ultimately have "job_ok h1 (sid, holder) = job_ok h' (sid, holder)" "job_message h1 (sid, holder) = job_message h' (sid, holder)"
      by (rule job_stays)+
    then have
      "job_ok h1 (sid, holder)" "job_message h1 (sid, holder) = p_message p" using ok ho(7) by auto
    moreover have "enqueue_packets sid (b # packets) h = Inr ((sid, holder) # jobs, h1)" using dec(1) Some p js(1) by simp
    ultimately show ?thesis using js(3,4) arrived_Cons [OF p Cons.prems(3) js(2)] Some
      by (intro exI [of _ "(sid, holder) # jobs"] exI [of _ h1]) (simp del: enqueue_packets.simps add: List.map_filter_simps)
  qed
qed

lemma packets_processed:
  assumes "\<forall>b \<in> set packets. int (length b) < 2 ^ 31"
    and "\<forall>p \<in> set (List.map_filter accepted packets). \<not> lacks_table p" and "heap_ok h"
  shows "\<exists>jobs h1 h2. enqueue_packets sid packets h = Inr (jobs, h1) \<and>
    process_messages PlayServer_handlers jobs h1 =
      Inr (map (\<lambda>p. PlayServer_spec (p_message p)) (List.map_filter accepted packets), h2) \<and>
    cells h2 = cells h"
proof -
  from enqueue_packets_arrive [OF assms] obtain jobs h1 where
    js: "enqueue_packets sid packets h = Inr (jobs, h1)" "arrived h jobs h1" "\<forall>job \<in> set jobs. job_ok h1 job"
      "map (job_message h1) jobs = map p_message (List.map_filter accepted packets)" by blast
  let ?h2 = "h1\<lparr>cells := cells h1 |` (- (\<Union>job \<in> set jobs. job_owned job))\<rparr>"
  have "process_messages PlayServer_handlers jobs h1 = Inr (map (\<lambda>job. PlayServer_spec (job_message h1 job)) jobs, ?h2)"
    using js(2,3) by (intro PlayServer_jobs) (auto simp: arrived_def)
  moreover have "map (\<lambda>job. PlayServer_spec (job_message h1 job)) jobs =
      map PlayServer_spec (map p_message (List.map_filter accepted packets))"
    unfolding js(4) [symmetric] by simp
  moreover have "cells ?h2 = cells h"
  proof
    fix a
    show "cells ?h2 a = cells h a"
    proof (cases "a < fresh h")
      case True
      then have "a \<notin> (\<Union>job \<in> set jobs. job_owned job)" using js(2) by (fastforce simp: arrived_def)
      then show ?thesis using True js(2) by (simp add: arrived_def)
    next
      case False
      have "cells h a = None" using False assms(3) by (auto simp: heap_ok_def)
      moreover have "cells h1 a = None" if "a \<notin> (\<Union>job \<in> set jobs. job_owned job)"
        using that False js(2) unfolding arrived_def by (metis not_le)
      ultimately show ?thesis by (auto simp: restrict_map_def)
    qed
  qed
  ultimately show ?thesis using js(1) by (auto simp: comp_def)
qed

text \<open>
  C13. From bytes to an empty heap: whatever packets a client sends (no authentication request
  without its table among those the verifier accepts), decoding reads inside the packets, the
  jobs are processed to the end, the handler of \<^verbatim>\<open>PlayServer\<close> runs on exactly the authentication
  requests, in order, every other message is dropped, and afterwards the heap is what it was:
  every message has been deleted, once.
\<close>

theorem packets_processed_and_freed:
  assumes "\<forall>b \<in> set packets. int (length b) < 2 ^ 31"
    and "\<forall>p \<in> set (List.map_filter accepted packets). \<not> lacks_table p" and "heap_ok h"
  shows "\<exists>jobs h1 h2. enqueue_packets sid packets h = Inr (jobs, h1) \<and>
    process_messages PlayServer_handlers jobs h1 =
      Inr (map (\<lambda>p. PlayServer_spec (p_message p)) (List.map_filter accepted packets), h2) \<and>
    cells h2 = cells h"
  by (rule packets_processed [OF assms])

theorem packets_processed_and_freed_witness:
  "\<exists>jobs h1 h2. enqueue_packets 7 [[1, 2, 3]] heap_new = Inr (jobs, h1) \<and>
    process_messages PlayServer_handlers jobs h1 =
      Inr (map (\<lambda>p. PlayServer_spec (p_message p)) (List.map_filter accepted [[1, 2, 3]]), h2) \<and>
    cells h2 = cells heap_new"
  by (rule packets_processed_and_freed)
    (simp_all add: List.map_filter_simps accepted_def decode_packet_def VerifySizePrefixedMessageHolderBuffer_def
      VerifySizePrefixedBuffer_def VerifyScalar_def VerifyRange_def heap_ok_def heap_new_def)

section \<open>One packet that ends the server\<close>

text \<open>
  Twenty-four bytes: the size, the root, a vtable with two fields, a holder with the type
  \<^verbatim>\<open>CLGS_AUTHEN_REQ\<close> and nothing else.
\<close>

definition crash_packet :: "byte list" where
  "crash_packet = [20, 0, 0, 0, 12, 0, 0, 0, 8, 0, 8, 0, 0, 0, 4, 0, 8, 0, 0, 0, 0x2B, 0x23, 0, 0]"

lemma crash_reads:
  "length crash_packet = 24" "ReadScalar crash_packet 0 4 = Inr 20" "ReadScalar crash_packet 4 4 = Inr 12"
  "ReadScalar crash_packet 8 2 = Inr 8" "ReadScalar crash_packet 12 2 = Inr 0" "ReadScalar crash_packet 14 2 = Inr 4"
  "ReadScalar crash_packet 16 4 = Inr 8" "ReadScalar crash_packet 20 4 = Inr 9003"
  by (simp_all add: crash_packet_def ReadScalar_def mem_read_def le_value_def)

lemma crash_fields:
  "GetOptionalFieldOffset crash_packet 16 4 = Inr 0" "GetOptionalFieldOffset crash_packet 16 6 = Inr 4"
  "GetOptionalFieldOffset crash_packet 16 8 = Inr 0"
  by (simp_all add: GetOptionalFieldOffset_def GetVTable_def ReadScalar_i32_def crash_reads to_int32_def)

lemma crash_gets:
  "GetPointer crash_packet 16 4 = Inr None" "GetPointer crash_packet 16 8 = Inr None"
  "field_i32 crash_packet 16 6 = Inr 9003"
  by (simp_all add: GetPointer_def GetField_def crash_fields ReadScalar_i32_def crash_reads to_int32_def)

lemma crash_verify: "MessageHolder_Verify crash_packet 16 Verifier_new = Inr (True, \<lparr>depth = 0, num_tables = 1\<rparr>)"
  by (simp add: MessageHolder_Verify_def table_check_def vector_check_def scalar_check_def pure_check_def VerifyTableStart_def
      VerifyScalar_def VerifyAlignment_def VerifyRange_def crash_reads crash_gets crash_fields ReadScalar_i32_def to_int32_def
      size_t_def VerifyComplexity_def Verifier_new_def VerifyOffset_def VerifyField_def VerifyVector_def VerifyMessageID_def
      Verifier_EndTable_def Let_def switch_MessageID_def EnumValuesMessageID_def)

lemma crash_decodes: "decode_packet crash_packet = Inr (Some \<lparr>p_accountIDs = [], p_type = 9003, p_message = None\<rparr>)"
  by (simp add: decode_packet_def VerifySizePrefixedMessageHolderBuffer_def VerifySizePrefixedBuffer_def
      VerifyBufferFromStart_def VerifyOffsetAt_def VerifyScalar_def VerifyAlignment_def VerifyRange_def crash_reads
      to_int32_def crash_verify GetSizePrefixedRoot_def GetRoot_def MessageHolder_UnPack_def field_vector_def crash_gets)

lemma enqueue_packets_append:
  "enqueue_packets sid (bs @ cs) h = ebind (enqueue_packets sid bs h) (\<lambda>(js, h).
     ebind (enqueue_packets sid cs h) (\<lambda>(ks, h). Inr (js @ ks, h)))"
proof (induction bs arbitrary: h)
  case Nil
  then show ?case by (cases "enqueue_packets sid cs h") auto
next
  case (Cons b bs)
  show ?case
  proof (cases "decode_packet b")
    case (Inr r)
    then show ?thesis
      by (cases r) (auto simp: Cons.IH ebind_assoc split_beta intro!: arg_cong [where f = "ebind _"])
  qed simp
qed

lemma arrived_heap_ok: "arrived h jobs h1 \<Longrightarrow> heap_ok h1"
  by (simp add: arrived_def)

lemma process_jobs_later:
  assumes "arrived h jobs h1" "\<forall>job \<in> set jobs. job_ok h1 job"
  shows "\<exists>rs h2. process_messages PlayServer_handlers jobs h1 = Inr (rs, h2)"
  using PlayServer_jobs [of jobs h1] assms by (auto simp: arrived_def)

text \<open>
  C14. The packet passes the verifier, and after any packets that were processed without it, it
  makes the server dereference null: the job of the packet fails in the handler.
\<close>

theorem crash_packet_ends_the_server:
  assumes "\<forall>b \<in> set packets. int (length b) < 2 ^ 31"
    and "\<forall>p \<in> set (List.map_filter accepted packets). \<not> lacks_table p" and "heap_ok h"
  shows "\<exists>jobs h1. enqueue_packets sid (packets @ [crash_packet]) h = Inr (jobs, h1) \<and>
    process_messages PlayServer_handlers jobs h1 = Inl NullDeref"
proof -
  from enqueue_packets_arrive [OF assms] obtain jobs h1 where
    js: "enqueue_packets sid packets h = Inr (jobs, h1)" "arrived h jobs h1" "\<forall>job \<in> set jobs. job_ok h1 job" by blast
  let ?holder = "\<lparr>accountIDs = [], message = \<lparr>utype = 9003, uvalue = None\<rparr>\<rparr>"
  have "enqueue_packets sid (packets @ [crash_packet]) h = Inr (jobs @ [(sid, ?holder)], h1)"
    using js(1) by (simp add: enqueue_packets_append crash_decodes holder_of_def)
  moreover obtain rs h2 where "process_messages PlayServer_handlers jobs h1 = Inr (rs, h2)"
    using process_jobs_later [OF js(2,3)] by blast
  then have "process_messages PlayServer_handlers (jobs @ [(sid, ?holder)]) h1 = Inl NullDeref"
    by (rule authen_request_without_table) simp_all
  ultimately show ?thesis by blast
qed

theorem crash_packet_ends_the_server_witness:
  "\<exists>jobs h1. enqueue_packets 7 ([] @ [crash_packet]) heap_new = Inr (jobs, h1) \<and>
    process_messages PlayServer_handlers jobs h1 = Inl NullDeref"
  by (rule crash_packet_ends_the_server) (simp_all add: List.map_filter_simps heap_ok_def heap_new_def)

end
