(* ===== verification/Flat_Builder.thy ===== *)
theory Flat_Builder
  imports Flat_Reader
begin

text \<open>
  Building a FlatBuffer (flatbuffers/flatbuffers: vector_downward.h, flatbuffer_builder.h), as far as
  the generated code of the messages uses it. The buffer grows towards lower addresses: it is
  the list of its bytes, lowest first, and writing is prepending. An offset of the builder is a
  distance from the end of the buffer, so it stays valid while the buffer grows. An assertion
  of the library that does not hold is the failure \<open>AssertionFailed\<close>.
\<close>

section \<open>The buffer\<close>

text \<open>
  The bytes from \<^verbatim>\<open>cur_\<close> to the end of the block, and \<^verbatim>\<open>size_\<close>, a \<^verbatim>\<open>uint32_t\<close>. That the block is
  reallocated when it is full does not show in them.
\<close>

record vector_downward =
  vd_data :: "byte list"
  vd_size :: int

definition vector_downward_new :: vector_downward where
  "vector_downward_new = \<lparr>vd_data = [], vd_size = 0\<rparr>"

definition assert :: "bool \<Rightarrow> unit result" where
  "assert b = (if b then Inr () else Inl AssertionFailed)"

definition ensure_space :: "vector_downward \<Rightarrow> unit result" where
  "ensure_space v = assert (vd_size v < max_size)"

definition push :: "byte list \<Rightarrow> vector_downward \<Rightarrow> vector_downward result" where
  "push bytes v =
     (if bytes = [] then Inr v
      else ebind (ensure_space v) (\<lambda>_.
        Inr \<lparr>vd_data = bytes @ vd_data v, vd_size = (vd_size v + int (length bytes)) mod 2 ^ 32\<rparr>))"

definition fill :: "int \<Rightarrow> vector_downward \<Rightarrow> vector_downward result" where
  "fill zero_pad_bytes v = push (replicate (nat zero_pad_bytes) 0) v"

definition vd_pop :: "int \<Rightarrow> vector_downward \<Rightarrow> vector_downward" where
  "vd_pop n v = \<lparr>vd_data = drop (nat n) (vd_data v), vd_size = (vd_size v - n) mod 2 ^ 32\<rparr>"

text \<open>The position of an offset in the bytes.\<close>

definition data_at :: "int \<Rightarrow> vector_downward \<Rightarrow> int" where
  "data_at off v = int (length (vd_data v)) - off"

definition WriteScalar :: "nat \<Rightarrow> int \<Rightarrow> int \<Rightarrow> vector_downward \<Rightarrow> vector_downward result" where
  "WriteScalar w p x v = ebind (mem_write (vd_data v) p (le_bytes w x)) (\<lambda>d. Inr (v\<lparr>vd_data := d\<rparr>))"

section \<open>The builder\<close>

text \<open>
  The scratch pad holds the offsets of the vtables written so far (\<open>vtables\<close>) and behind them
  the offset and id of each field of the table being built (\<open>field_locs\<close>, \<^verbatim>\<open>num_field_loc\<close> of them).
  Defaults are not forced, vtables are shared, and there is no 64-bit region.
\<close>

record FlatBufferBuilder =
  buf :: vector_downward
  vtables :: "int list"
  field_locs :: "(int \<times> int) list"
  max_voffset :: int
  nested :: bool
  finished :: bool
  minalign :: int

definition FlatBufferBuilder_new :: FlatBufferBuilder where
  "FlatBufferBuilder_new =
     \<lparr>buf = vector_downward_new, vtables = [], field_locs = [], max_voffset = 0, nested = False,
      finished = False, minalign = 1\<rparr>"

definition GetSize :: "FlatBufferBuilder \<Rightarrow> int" where
  "GetSize b = vd_size (buf b)"

definition with_buf :: "(vector_downward \<Rightarrow> vector_downward result) \<Rightarrow> FlatBufferBuilder \<Rightarrow> FlatBufferBuilder result" where
  "with_buf f b = ebind (f (buf b)) (\<lambda>v. Inr (b\<lparr>buf := v\<rparr>))"

definition PaddingBytes :: "int \<Rightarrow> int \<Rightarrow> int" where
  "PaddingBytes buf_size scalar_size = (NOT buf_size + 1) AND (scalar_size - 1)"

definition TrackMinAlign :: "int \<Rightarrow> FlatBufferBuilder \<Rightarrow> FlatBufferBuilder" where
  "TrackMinAlign elem_size b = (if elem_size > minalign b then b\<lparr>minalign := elem_size\<rparr> else b)"

definition Align :: "int \<Rightarrow> FlatBufferBuilder \<Rightarrow> FlatBufferBuilder result" where
  "Align elem_size b = with_buf (fill (PaddingBytes (GetSize b) elem_size)) (TrackMinAlign elem_size b)"

definition PreAlign :: "int \<Rightarrow> int \<Rightarrow> FlatBufferBuilder \<Rightarrow> FlatBufferBuilder result" where
  "PreAlign len alignment b =
     (if len = 0 then Inr b
      else with_buf (fill (PaddingBytes (GetSize b + len) alignment)) (TrackMinAlign alignment b))"

definition PushElement :: "nat \<Rightarrow> int \<Rightarrow> FlatBufferBuilder \<Rightarrow> (int \<times> FlatBufferBuilder) result" where
  "PushElement w element b =
     ebind (Align (int w) b) (\<lambda>b.
     ebind (with_buf (push (le_bytes w element)) b) (\<lambda>b. Inr (GetSize b, b)))"

definition TrackField :: "int \<Rightarrow> int \<Rightarrow> FlatBufferBuilder \<Rightarrow> FlatBufferBuilder result" where
  "TrackField field off b =
     ebind (ensure_space (buf b)) (\<lambda>_.
       let b = b\<lparr>field_locs := field_locs b @ [(off, field)]\<rparr>
       in Inr (if field > max_voffset b then b\<lparr>max_voffset := field\<rparr> else b))"

definition AddElement :: "nat \<Rightarrow> int \<Rightarrow> int \<Rightarrow> int \<Rightarrow> FlatBufferBuilder \<Rightarrow> FlatBufferBuilder result" where
  "AddElement w field e def b =
     (if e = def then Inr b
      else ebind (PushElement w e b) (\<lambda>(off, b). TrackField field off b))"

definition ReferTo :: "int \<Rightarrow> FlatBufferBuilder \<Rightarrow> (int \<times> FlatBufferBuilder) result" where
  "ReferTo off b =
     ebind (Align 4 b) (\<lambda>b.
     ebind (assert (off \<noteq> 0 \<and> off \<le> GetSize b)) (\<lambda>_. Inr (GetSize b - off + 4, b)))"

definition AddOffset :: "int \<Rightarrow> int \<Rightarrow> FlatBufferBuilder \<Rightarrow> FlatBufferBuilder result" where
  "AddOffset field off b =
     (if off = 0 then Inr b
      else ebind (ReferTo off b) (\<lambda>(r, b). AddElement 4 field r 0 b))"

definition NotNested :: "FlatBufferBuilder \<Rightarrow> unit result" where
  "NotNested b = ebind (assert (\<not> nested b)) (\<lambda>_. assert (field_locs b = []))"

definition StartTable :: "FlatBufferBuilder \<Rightarrow> (int \<times> FlatBufferBuilder) result" where
  "StartTable b = ebind (NotNested b) (\<lambda>_. Inr (GetSize b, b\<lparr>nested := True\<rparr>))"

text \<open>
  \<open>EndTable\<close>: the field positions are written into the new vtable, then an equal vtable is looked
  for among the older ones. A \<^verbatim>\<open>voffset_t\<close> has 16 bits.
\<close>

definition u16 :: "int \<Rightarrow> int" where
  "u16 x = x mod 2 ^ 16"

fun write_fields :: "int \<Rightarrow> (int \<times> int) list \<Rightarrow> vector_downward \<Rightarrow> vector_downward result" where
  "write_fields loc [] v = Inr v"
| "write_fields loc ((off, field) # locs) v =
     ebind (ReadScalar (vd_data v) field 2) (\<lambda>old.
     ebind (assert (old = 0)) (\<lambda>_.
     ebind (WriteScalar 2 field (u16 (loc - off)) v) (write_fields loc locs)))"

fun find_vtable :: "int \<Rightarrow> vector_downward \<Rightarrow> int list \<Rightarrow> int option result" where
  "find_vtable vt1_size v [] = Inr None"
| "find_vtable vt1_size v (vt # vts) =
     ebind (ReadScalar (vd_data v) (data_at vt v) 2) (\<lambda>vt2_size.
       if vt1_size \<noteq> vt2_size then find_vtable vt1_size v vts
       else ebind (mem_read (vd_data v) (data_at vt v) vt1_size) (\<lambda>vt2.
            ebind (mem_read (vd_data v) 0 vt1_size) (\<lambda>vt1.
              if vt2 \<noteq> vt1 then find_vtable vt1_size v vts else Inr (Some vt))))"

definition ClearOffsets :: "FlatBufferBuilder \<Rightarrow> FlatBufferBuilder" where
  "ClearOffsets b = b\<lparr>field_locs := [], max_voffset := 0\<rparr>"

definition write_vtable :: "int \<Rightarrow> int \<Rightarrow> FlatBufferBuilder \<Rightarrow> FlatBufferBuilder result" where
  "write_vtable start loc b =
     (let mv = max (u16 (max_voffset b + 2)) 4 in
      ebind (with_buf (fill mv) b) (\<lambda>b.
      let table_object_size = loc - start in
      ebind (assert (table_object_size < 0x10000)) (\<lambda>_.
      ebind (with_buf (WriteScalar 2 2 (u16 table_object_size)) b) (\<lambda>b.
      ebind (with_buf (WriteScalar 2 0 mv) b) (\<lambda>b.
      ebind (with_buf (write_fields loc (field_locs b)) b) (\<lambda>b.
      Inr (ClearOffsets b)))))))"

definition share_vtable :: "int \<Rightarrow> FlatBufferBuilder \<Rightarrow> (int \<times> FlatBufferBuilder) result" where
  "share_vtable loc b =
     ebind (ReadScalar (vd_data (buf b)) 0 2) (\<lambda>vt1_size.
     ebind (find_vtable vt1_size (buf b) (vtables b)) (\<lambda>old.
       let vt_use = (case old of None \<Rightarrow> GetSize b | Some vt \<Rightarrow> vt);
           b = (case old of None \<Rightarrow> b | Some vt \<Rightarrow> b\<lparr>buf := vd_pop (GetSize b - loc) (buf b)\<rparr>)
       in if vt_use = GetSize b
          then ebind (ensure_space (buf b)) (\<lambda>_. Inr (vt_use, b\<lparr>vtables := vtables b @ [vt_use]\<rparr>))
          else Inr (vt_use, b)))"

definition EndTable :: "int \<Rightarrow> FlatBufferBuilder \<Rightarrow> (int \<times> FlatBufferBuilder) result" where
  "EndTable start b =
     ebind (assert (nested b)) (\<lambda>_.
     ebind (PushElement 4 0 b) (\<lambda>(vtable_offset_loc, b).
     ebind (write_vtable start vtable_offset_loc b) (\<lambda>b.
     ebind (share_vtable vtable_offset_loc b) (\<lambda>(vt_use, b).
     ebind (with_buf (\<lambda>v. WriteScalar 4 (data_at vtable_offset_loc v) (vt_use - vtable_offset_loc) v) b) (\<lambda>b.
     Inr (vtable_offset_loc, b\<lparr>nested := False\<rparr>))))))"

text \<open>Strings, vectors of \<^verbatim>\<open>int64_t\<close> and the end of the buffer.\<close>

definition CreateString :: "string \<Rightarrow> FlatBufferBuilder \<Rightarrow> (int \<times> FlatBufferBuilder) result" where
  "CreateString str b =
     ebind (NotNested b) (\<lambda>_.
     ebind (PreAlign (int (length str) + 1) 4 b) (\<lambda>b.
     ebind (with_buf (fill 1) b) (\<lambda>b.
     ebind (with_buf (push (map of_char str)) b) (\<lambda>b.
     PushElement 4 (int (length str) mod 2 ^ 32) b))))"

definition StartVector :: "int \<Rightarrow> int \<Rightarrow> int \<Rightarrow> FlatBufferBuilder \<Rightarrow> FlatBufferBuilder result" where
  "StartVector len elemsize alignment b =
     ebind (NotNested b) (\<lambda>_.
     ebind (PreAlign (len * elemsize) 4 (b\<lparr>nested := True\<rparr>)) (\<lambda>b.
     PreAlign (len * elemsize) alignment b))"

definition EndVector :: "int \<Rightarrow> FlatBufferBuilder \<Rightarrow> (int \<times> FlatBufferBuilder) result" where
  "EndVector len b =
     ebind (assert (nested b)) (\<lambda>_. PushElement 4 (len mod 2 ^ 32) (b\<lparr>nested := False\<rparr>))"

definition CreateVector :: "int64 list \<Rightarrow> FlatBufferBuilder \<Rightarrow> (int \<times> FlatBufferBuilder) result" where
  "CreateVector xs b =
     ebind (StartVector (int (length xs)) 8 8 b) (\<lambda>b.
     ebind (with_buf (push (concat (map (le_bytes 8) xs))) b) (\<lambda>b.
     EndVector (int (length xs)) b))"

definition FinishSizePrefixed :: "int \<Rightarrow> FlatBufferBuilder \<Rightarrow> FlatBufferBuilder result" where
  "FinishSizePrefixed root b =
     ebind (assert (\<not> finished b)) (\<lambda>_.
     ebind (NotNested b) (\<lambda>_.
     let b = TrackMinAlign 4 (b\<lparr>vtables := []\<rparr>) in
     ebind (PreAlign (4 + 4) (minalign b) b) (\<lambda>b.
     ebind (ReferTo root b) (\<lambda>(r, b).
     ebind (PushElement 4 r b) (\<lambda>(_, b).
     ebind (PushElement 4 (GetSize b) b) (\<lambda>(_, b). Inr (b\<lparr>finished := True\<rparr>)))))))"

definition Release :: "FlatBufferBuilder \<Rightarrow> byte list result" where
  "Release b = ebind (assert (finished b)) (\<lambda>_. Inr (take (nat (GetSize b)) (vd_data (buf b))))"

text \<open>A generated table builder: the calls of its \<^verbatim>\<open>add_\<close> functions between start and end.\<close>

fun run_adds :: "(FlatBufferBuilder \<Rightarrow> FlatBufferBuilder result) list \<Rightarrow> FlatBufferBuilder \<Rightarrow> FlatBufferBuilder result" where
  "run_adds [] b = Inr b"
| "run_adds (add # adds) b = ebind (add b) (run_adds adds)"

definition build_table :: "(FlatBufferBuilder \<Rightarrow> FlatBufferBuilder result) list \<Rightarrow> FlatBufferBuilder \<Rightarrow> (int \<times> FlatBufferBuilder) result" where
  "build_table adds b = ebind (StartTable b) (\<lambda>(start, b). ebind (run_adds adds b) (EndTable start))"

section \<open>Growing\<close>

abbreviation dat :: "FlatBufferBuilder \<Rightarrow> byte list" where
  "dat b \<equiv> vd_data (buf b)"

abbreviation dlen :: "FlatBufferBuilder \<Rightarrow> int" where
  "dlen b \<equiv> int (length (dat b))"

definition builder_ok :: "FlatBufferBuilder \<Rightarrow> bool" where
  "builder_ok b \<longleftrightarrow> GetSize b = dlen b \<and> minalign b \<in> {1, 2, 4, 8} \<and> \<not> finished b"

definition grow :: "byte list \<Rightarrow> FlatBufferBuilder \<Rightarrow> FlatBufferBuilder" where
  "grow bs b = b\<lparr>buf := \<lparr>vd_data = bs @ dat b, vd_size = int (length bs) + dlen b\<rparr>\<rparr>"

lemma grow_simps [simp]:
  "dat (grow bs b) = bs @ dat b" "vtables (grow bs b) = vtables b" "field_locs (grow bs b) = field_locs b"
  "max_voffset (grow bs b) = max_voffset b" "nested (grow bs b) = nested b" "finished (grow bs b) = finished b"
  "minalign (grow bs b) = minalign b" "GetSize (grow bs b) = int (length bs) + dlen b"
  by (simp_all add: grow_def GetSize_def)

lemma grow_grow [simp]: "grow bs (grow cs b) = grow (bs @ cs) b"
  by (simp add: grow_def)

lemma builder_ok_grow [simp]: "builder_ok b \<Longrightarrow> builder_ok (grow bs b)"
  by (simp add: builder_ok_def)

lemma grow_Nil: "builder_ok b \<Longrightarrow> grow [] b = b"
  by (simp add: builder_ok_def grow_def GetSize_def)

lemma track_simps [simp]:
  "buf (TrackMinAlign w b) = buf b" "vtables (TrackMinAlign w b) = vtables b" "field_locs (TrackMinAlign w b) = field_locs b"
  "max_voffset (TrackMinAlign w b) = max_voffset b" "nested (TrackMinAlign w b) = nested b"
  "finished (TrackMinAlign w b) = finished b" "GetSize (TrackMinAlign w b) = GetSize b"
  "minalign (TrackMinAlign w b) = max w (minalign b)"
  by (simp_all add: TrackMinAlign_def GetSize_def)

lemma builder_ok_track [simp]: "builder_ok b \<Longrightarrow> w \<in> {1, 2, 4, 8} \<Longrightarrow> builder_ok (TrackMinAlign w b)"
  by (auto simp: builder_ok_def max_def)

lemma builder_ok_fields [simp]:
  "builder_ok (b\<lparr>nested := x\<rparr>) = builder_ok b" "builder_ok (b\<lparr>vtables := vts\<rparr>) = builder_ok b"
  by (simp_all add: builder_ok_def GetSize_def)

lemma GetSize_finished [simp]: "GetSize (b\<lparr>finished := x\<rparr>) = GetSize b"
  by (simp add: GetSize_def)

text \<open>Alignments are powers of two: the larger one is a multiple of the smaller.\<close>

lemma max_dvd: "w \<in> {1, 2, 4, 8} \<Longrightarrow> a \<in> {1, 2, 4, 8} \<Longrightarrow> w dvd max w a \<and> a dvd max w (a :: int)"
  by (auto simp: max_def)

lemma PaddingBytes_eq: "w \<in> {1, 2, 4, 8} \<Longrightarrow> PaddingBytes n w = (- n) mod w"
proof -
  assume "w \<in> {1, 2, 4, 8}"
  moreover have "NOT n + 1 = - n" by (simp add: not_int_def)
  moreover have "x AND 1 = x mod 2" "x AND 3 = x mod 4" "x AND 7 = x mod 8" for x :: int
    using take_bit_eq_mask [of 1 x] take_bit_eq_mask [of 2 x] take_bit_eq_mask [of 3 x]
    by (simp_all add: take_bit_eq_mod mask_eq_exp_minus_1)
  ultimately show ?thesis by (auto simp: PaddingBytes_def)
qed

lemma push_grow:
  assumes "builder_ok b" "dlen b + int (length bs) < max_size"
  shows "with_buf (push bs) b = Inr (grow bs b)"
proof (cases "bs = []")
  case True
  then show ?thesis using grow_Nil [OF assms(1)] by (simp add: with_buf_def push_def)
next
  case False
  with assms show ?thesis
    by (simp add: with_buf_def push_def ensure_space_def assert_def builder_ok_def GetSize_def grow_def max_size_def)
qed

lemma fill_eq: "fill n = push (replicate (nat n) 0)"
  by (simp add: fun_eq_iff fill_def)

definition pad :: "int \<Rightarrow> int \<Rightarrow> byte list" where
  "pad n w = replicate (nat ((- n) mod w)) 0"

lemma length_pad: "0 < w \<Longrightarrow> int (length (pad n w)) = (- n) mod w"
  by (simp add: pad_def)

lemma pad_aligns: "0 < w \<Longrightarrow> (n + int (length (pad n w))) mod w = 0"
  by (simp add: length_pad mod_add_right_eq)

lemma pad_less: "0 < w \<Longrightarrow> int (length (pad n w)) < w"
  by (simp add: length_pad)

lemma Align_grow:
  assumes "builder_ok b" "w \<in> {1, 2, 4, 8}" "dlen b + w < max_size"
  shows "Align w b = Inr (grow (pad (dlen b) w) (TrackMinAlign w b))"
proof -
  have w: "0 < w" using assms(2) by auto
  have "GetSize b = dlen b" using assms(1) by (simp add: builder_ok_def)
  moreover have "with_buf (push (pad (dlen b) w)) (TrackMinAlign w b) = Inr (grow (pad (dlen b) w) (TrackMinAlign w b))"
    using assms pad_less [OF w, of "dlen b"] by (intro push_grow) simp_all
  ultimately show ?thesis
    by (simp add: Align_def PaddingBytes_eq [OF assms(2)] fill_eq pad_def)
qed

lemma PreAlign_grow:
  assumes "builder_ok b" "w \<in> {1, 2, 4, 8}" "dlen b + w < max_size" "n \<noteq> 0"
  shows "PreAlign n w b = Inr (grow (pad (dlen b + n) w) (TrackMinAlign w b))"
proof -
  have w: "0 < w" using assms(2) by auto
  have "GetSize b = dlen b" using assms(1) by (simp add: builder_ok_def)
  moreover have "with_buf (push (pad (dlen b + n) w)) (TrackMinAlign w b) = Inr (grow (pad (dlen b + n) w) (TrackMinAlign w b))"
    using assms pad_less [OF w, of "dlen b + n"] by (intro push_grow) simp_all
  ultimately show ?thesis using assms(4)
    by (simp add: PreAlign_def PaddingBytes_eq [OF assms(2)] fill_eq pad_def)
qed

definition element :: "nat \<Rightarrow> int \<Rightarrow> FlatBufferBuilder \<Rightarrow> byte list" where
  "element w x b = le_bytes w x @ pad (dlen b) (int w)"

lemma PushElement_grow:
  assumes "builder_ok b" "int w \<in> {1, 2, 4, 8}" "dlen b + 2 * int w < max_size"
  shows "PushElement w x b =
    Inr (int (length (element w x b)) + dlen b, grow (element w x b) (TrackMinAlign (int w) b))"
proof -
  let ?b = "grow (pad (dlen b) (int w)) (TrackMinAlign (int w) b)"
  have w: "0 < int w" using assms(2) by auto
  have b: "builder_ok ?b" using assms(1,2) by simp
  have "Align (int w) b = Inr ?b" using assms w by (intro Align_grow) simp_all
  moreover have "with_buf (push (le_bytes w x)) ?b = Inr (grow (le_bytes w x) ?b)"
    using assms pad_less [OF w, of "dlen b"] by (intro push_grow b) simp_all
  ultimately show ?thesis by (simp add: PushElement_def element_def)
qed

lemma length_element:
  assumes "int w \<in> {1, 2, 4, 8}"
  shows "int (length (element w x b)) < 2 * int w" "0 < length (element w x b)"
    "(int (length (element w x b)) + dlen b) mod int w = 0"
proof -
  have w: "0 < int w" using assms by auto
  then show "int (length (element w x b)) < 2 * int w" "0 < length (element w x b)"
    using pad_less [OF w, of "dlen b"] by (auto simp: element_def)
  show "(int (length (element w x b)) + dlen b) mod int w = 0"
    using pad_aligns [OF w, of "dlen b"] by (simp add: element_def add.assoc add.commute [of "int (length (pad _ _))"])
qed

lemma ReferTo_grow:
  assumes "builder_ok b" "dlen b + 4 < max_size" "0 < off" "off \<le> dlen b"
  shows "ReferTo off b = Inr (dlen b + int (length (pad (dlen b) 4)) - off + 4, grow (pad (dlen b) 4) (TrackMinAlign 4 b))"
  using Align_grow [OF assms(1), of 4] assms by (simp add: ReferTo_def assert_def)

section \<open>Bytes at an offset\<close>

text \<open>\<open>bs\<close> stand at offset \<open>off\<close>, counted from the end; prepending does not move them.\<close>

definition bytes_at :: "byte list \<Rightarrow> int \<Rightarrow> byte list \<Rightarrow> bool" where
  "bytes_at d off bs \<longleftrightarrow> (\<exists>pre post. d = pre @ bs @ post \<and> off = int (length bs) + int (length post))"

lemma bytes_at_prepend: "bytes_at d off bs \<Longrightarrow> bytes_at (xs @ d) off bs"
  unfolding bytes_at_def by (metis append.assoc)

lemma bytes_at_head: "off = int (length (bs @ d)) \<Longrightarrow> bytes_at (bs @ d) off bs"
  unfolding bytes_at_def by (intro exI [of _ "[]"] exI [of _ d]) simp

lemma bytes_at_le: "bytes_at d off bs \<Longrightarrow> int (length bs) \<le> off \<and> off \<le> int (length d)"
  by (auto simp: bytes_at_def)

lemma mem_read_append:
  assumes "0 \<le> i" "0 \<le> n" "i + n \<le> int (length bs)"
  shows "mem_read (pre @ bs @ post) (int (length pre) + i) n = mem_read bs i n"
  using assms by (simp add: mem_read_def nat_add_distrib nat_le_iff)

lemma bytes_at_read:
  assumes "bytes_at d off bs" "0 \<le> i" "0 \<le> n" "i + n \<le> int (length bs)"
  shows "mem_read d (int (length d) - off + i) n = mem_read bs i n"
proof -
  obtain pre post where d: "d = pre @ bs @ post" "off = int (length bs) + int (length post)"
    using assms(1) by (auto simp: bytes_at_def)
  then have p: "int (length d) - off + i = int (length pre) + i" by simp
  show ?thesis by (simp only: p) (simp only: d(1) mem_read_append [OF assms(2-4)])
qed

lemma bytes_at_ReadScalar:
  assumes "bytes_at d off bs" "0 \<le> i" "0 \<le> n" "i + n \<le> int (length bs)"
  shows "ReadScalar d (int (length d) - off + i) n = ReadScalar bs i n"
  by (simp add: ReadScalar_def bytes_at_read [OF assms])

lemma le_value_mod: "le_value (le_bytes k v) = v mod 256 ^ k"
proof (induction k arbitrary: v)
  case (Suc k)
  then show ?case
    by (simp add: le_value_Cons uint_word_of_int take_bit_eq_mod zmod_zmult2_eq)
qed (simp add: le_value_def)

lemma ReadScalar_le_bytes: "ReadScalar (le_bytes w v) 0 (int w) = Inr (v mod 256 ^ w)"
  by (simp add: ReadScalar_def mem_read_def le_value_mod)

lemma bytes_at_scalar:
  assumes "bytes_at d off (le_bytes w v)"
  shows "ReadScalar d (int (length d) - off) (int w) = Inr (v mod 256 ^ w)"
  using bytes_at_ReadScalar [OF assms, of 0 "int w"] ReadScalar_le_bytes [of w v] by simp

lemma WriteScalar_head:
  assumes "0 \<le> p" "p + int w \<le> int (length vt)"
  shows "WriteScalar w p x \<lparr>vd_data = vt @ d, vd_size = s\<rparr> =
    ebind (mem_write vt p (le_bytes w x)) (\<lambda>vt'. Inr \<lparr>vd_data = vt' @ d, vd_size = s\<rparr>)"
proof -
  have "nat p + w \<le> length vt" using assms by linarith
  then show ?thesis using assms by (simp add: WriteScalar_def mem_write_def)
qed

lemma ReadScalar_head:
  assumes "0 \<le> p" "0 \<le> n" "p + n \<le> int (length vt)"
  shows "ReadScalar (vt @ d) p n = ReadScalar vt p n"
  using mem_read_append [OF assms, of "[]" d] by (simp add: ReadScalar_def)

lemma mem_write_ReadScalar:
  assumes "mem_write m p (le_bytes w x) = Inr m'"
  shows "ReadScalar m' p (int w) = Inr (x mod 256 ^ w)"
    and "0 \<le> q \<Longrightarrow> 0 \<le> n \<Longrightarrow> q + n \<le> p \<or> p + int w \<le> q \<Longrightarrow> ReadScalar m' q n = ReadScalar m q n"
proof -
  have m': "m' = take (nat p) m @ le_bytes w x @ drop (nat p + w) m" and p: "0 \<le> p" "p + int w \<le> int (length m)"
    using assms by (auto simp: mem_write_def split: if_splits)
  have len: "length (take (nat p) m) = nat p" using p by simp
  show "ReadScalar m' p (int w) = Inr (x mod 256 ^ w)"
    using mem_read_append [of 0 "int w" "le_bytes w x" "take (nat p) m" "drop (nat p + w) m"] p len ReadScalar_le_bytes [of w x]
    by (simp add: m' ReadScalar_def)
  assume q: "0 \<le> q" "0 \<le> n" "q + n \<le> p \<or> p + int w \<le> q"
  have "mem_read m' q n = mem_read m q n"
  proof (cases "q + n \<le> int (length m)")
    case True
    have "take (nat n) (drop (nat q) m') = take (nat n) (drop (nat q) m)"
    proof (rule nth_equalityI)
      show "length (take (nat n) (drop (nat q) m')) = length (take (nat n) (drop (nat q) m))"
        using mem_write_length [OF assms] by simp
      fix i assume "i < length (take (nat n) (drop (nat q) m'))"
      then have i: "nat q + i < length m" "i < nat n" using mem_write_length [OF assms] by auto
      have "\<not> (nat p \<le> nat q + i \<and> nat q + i < nat p + w)" using q p i(2) by linarith
      then show "take (nat n) (drop (nat q) m') ! i = take (nat n) (drop (nat q) m) ! i"
        using mem_write_nth [OF assms i(1)] i mem_write_length [OF assms] by auto
    qed
    then show ?thesis using q mem_write_length [OF assms] by (simp add: mem_read_def)
  qed (use mem_write_length [OF assms] in \<open>simp add: mem_read_def\<close>)
  then show "ReadScalar m' q n = ReadScalar m q n" by (simp add: ReadScalar_def)
qed

section \<open>Vtables\<close>

text \<open>The vtables of the scratch pad are in the buffer and start with their length.\<close>

definition vtables_ok :: "byte list \<Rightarrow> int list \<Rightarrow> bool" where
  "vtables_ok d vts \<longleftrightarrow>
     (\<forall>o1 \<in> set vts. even o1 \<and> (\<exists>vt. bytes_at d o1 vt \<and> 4 \<le> length vt \<and> ReadScalar vt 0 2 = Inr (int (length vt))))"

lemma vtables_ok_prepend: "vtables_ok d vts \<Longrightarrow> vtables_ok (xs @ d) vts"
  unfolding vtables_ok_def using bytes_at_prepend by blast

lemma find_vtable_ok:
  assumes "vtables_ok d vts"
  shows "\<exists>r. find_vtable (int (length vt)) \<lparr>vd_data = vt @ d, vd_size = s\<rparr> vts = Inr r \<and>
    (\<forall>o1. r = Some o1 \<longrightarrow> o1 \<in> set vts \<and> bytes_at d o1 vt)"
  using assms
proof (induction vts)
  case (Cons o1 vts)
  let ?v = "\<lparr>vd_data = vt @ d, vd_size = s\<rparr>"
  obtain vt2 where vt2: "bytes_at d o1 vt2" "4 \<le> length vt2" "ReadScalar vt2 0 2 = Inr (int (length vt2))"
    using Cons.prems by (auto simp: vtables_ok_def)
  obtain r where r: "find_vtable (int (length vt)) ?v vts = Inr r" "\<forall>o1. r = Some o1 \<longrightarrow> o1 \<in> set vts \<and> bytes_at d o1 vt"
    using Cons.IH Cons.prems by (auto simp: vtables_ok_def)
  note b = bytes_at_prepend [OF vt2(1), of vt]
  have size2: "ReadScalar (vd_data ?v) (data_at o1 ?v) 2 = Inr (int (length vt2))"
    using bytes_at_ReadScalar [OF b, of 0 2] vt2(2,3) by (simp add: data_at_def)
  show ?case
  proof (cases "length vt = length vt2")
    case True
    have "mem_read (vd_data ?v) (data_at o1 ?v) (int (length vt)) = Inr vt2"
      using bytes_at_read [OF b, of 0 "int (length vt)"] True by (simp add: data_at_def mem_read_def)
    moreover have "mem_read (vd_data ?v) 0 (int (length vt)) = Inr vt" by (simp add: mem_read_def)
    ultimately have "find_vtable (int (length vt)) ?v (o1 # vts) = (if vt2 = vt then Inr (Some o1) else Inr r)"
      using size2 True r(1) by (simp del: find_vtable.simps add: find_vtable.simps(2))
    then show ?thesis using vt2(1) r(2) by (cases "vt2 = vt") (simp_all del: find_vtable.simps)
  next
    case False
    then have "find_vtable (int (length vt)) ?v (o1 # vts) = Inr r" using size2 r(1) by simp
    then show ?thesis using r(2) by (simp del: find_vtable.simps)
  qed
qed simp

text \<open>Writing the fields' positions into a vtable that has none yet.\<close>

abbreviation locs_map :: "(int \<times> int) list \<Rightarrow> int \<rightharpoonup> int" where
  "locs_map locs \<equiv> map_of (map (\<lambda>(off, field). (field, off)) locs)"

lemma locs_map_None: "locs_map locs f = None \<longleftrightarrow> f \<notin> snd ` set locs"
  by (induction locs) auto

lemma write_fields_ok:
  assumes "distinct (map snd locs)" "\<forall>f \<in> snd ` set locs. even f \<and> 0 \<le> f \<and> f + 2 \<le> int (length vt) \<and> ReadScalar vt f 2 = Inr 0"
  shows "\<exists>vt'. write_fields loc locs \<lparr>vd_data = vt @ d, vd_size = s\<rparr> = Inr \<lparr>vd_data = vt' @ d, vd_size = s\<rparr> \<and>
    length vt' = length vt \<and>
    (\<forall>f. 0 \<le> f \<longrightarrow> even f \<longrightarrow> ReadScalar vt' f 2 =
       (case locs_map locs f of None \<Rightarrow> ReadScalar vt f 2 | Some off \<Rightarrow> Inr (u16 (loc - off))))"
  using assms
proof (induction locs arbitrary: vt)
  case (Cons l locs)
  obtain off f where l: "l = (off, f)" by (cases l)
  have f: "even f" "0 \<le> f" "f + 2 \<le> int (length vt)" "ReadScalar vt f 2 = Inr 0" using Cons.prems(2) l by auto
  obtain vt1 where vt1: "mem_write vt f (le_bytes 2 (u16 (loc - off))) = Inr vt1"
    using f by (simp add: mem_write_def)
  note len = mem_write_length [OF vt1]
  note rd = mem_write_ReadScalar [OF vt1, simplified]
  have other: "ReadScalar vt1 g 2 = ReadScalar vt g 2" if "even g" "0 \<le> g" "g \<noteq> f" for g
  proof -
    have "g + 2 \<le> f \<or> f + 2 \<le> g" using that f(1) by presburger
    with rd(2) [of g 2] that(2) show ?thesis by simp
  qed
  have "\<forall>g \<in> snd ` set locs. even g \<and> 0 \<le> g \<and> g + 2 \<le> int (length vt1) \<and> ReadScalar vt1 g 2 = Inr 0"
  proof
    fix g assume g: "g \<in> snd ` set locs"
    then have "g \<noteq> f" using Cons.prems(1) l by auto
    moreover have "even g" "0 \<le> g" "g + 2 \<le> int (length vt)" "ReadScalar vt g 2 = Inr 0" using Cons.prems(2) g by fastforce+
    ultimately show "even g \<and> 0 \<le> g \<and> g + 2 \<le> int (length vt1) \<and> ReadScalar vt1 g 2 = Inr 0" using other len by simp
  qed
  moreover have "distinct (map snd locs)" using Cons.prems(1) by simp
  ultimately obtain vt' where
    vt': "write_fields loc locs \<lparr>vd_data = vt1 @ d, vd_size = s\<rparr> = Inr \<lparr>vd_data = vt' @ d, vd_size = s\<rparr>" "length vt' = length vt1"
    "\<forall>g. 0 \<le> g \<longrightarrow> even g \<longrightarrow> ReadScalar vt' g 2 =
       (case locs_map locs g of None \<Rightarrow> ReadScalar vt1 g 2 | Some off \<Rightarrow> Inr (u16 (loc - off)))"
    using Cons.IH [of vt1] by blast
  have "write_fields loc (l # locs) \<lparr>vd_data = vt @ d, vd_size = s\<rparr> = Inr \<lparr>vd_data = vt' @ d, vd_size = s\<rparr>"
    using l f vt1 vt'(1) by (simp add: ReadScalar_head assert_def WriteScalar_head)
  moreover have "locs_map locs f = None" using Cons.prems(1) l locs_map_None [of locs f] by simp
  then have "\<forall>g. 0 \<le> g \<longrightarrow> even g \<longrightarrow> ReadScalar vt' g 2 =
       (case locs_map (l # locs) g of None \<Rightarrow> ReadScalar vt g 2 | Some off \<Rightarrow> Inr (u16 (loc - off)))"
    using vt'(3) l rd(1) other by (simp add: u16_def split: option.splits)
  moreover have "length vt' = length vt" using vt'(2) len by simp
  ultimately show ?case by metis
qed simp

text \<open>A vtable for the field offsets \<open>F\<close>.\<close>

definition vtable_for :: "byte list \<Rightarrow> (int \<rightharpoonup> int) \<Rightarrow> bool" where
  "vtable_for vt F \<longleftrightarrow> 4 \<le> length vt \<and> even (length vt) \<and> int (length vt) < 2 ^ 16 \<and> ReadScalar vt 0 2 = Inr (int (length vt)) \<and>
     (\<forall>f. 4 \<le> f \<longrightarrow> even f \<longrightarrow> f < int (length vt) \<longrightarrow> ReadScalar vt f 2 = Inr (case F f of None \<Rightarrow> 0 | Some x \<Rightarrow> x)) \<and>
     (\<forall>f x. F f = Some x \<longrightarrow> f < int (length vt) \<and> x \<noteq> 0)"

definition locs_ok :: "int \<Rightarrow> int \<Rightarrow> (int \<times> int) list \<Rightarrow> bool" where
  "locs_ok start mv locs \<longleftrightarrow> distinct (map snd locs) \<and>
     (\<forall>(off, f) \<in> set locs. start < off \<and> even f \<and> 4 \<le> f \<and> f \<le> mv)"

lemma replicate_zero_read:
  assumes "0 \<le> p" "p + 2 \<le> int n"
  shows "ReadScalar (replicate n 0) p 2 = Inr 0"
proof -
  have "min (n - nat p) 2 = 2" using assms by linarith
  then have "mem_read (replicate n (0 :: byte)) p 2 = Inr [0, 0]"
    using assms by (simp add: mem_read_def numeral_eq_Suc)
  then show ?thesis by (simp add: ReadScalar_def le_value_def)
qed

lemma write_vtable_ok:
  assumes b: "builder_ok b" "dlen b + mv + 4 < max_size" and mv: "max_voffset b = mv" "0 \<le> mv" "even mv" "mv < 1000"
    and locs: "locs_ok start mv (field_locs b)" and loc: "loc - start < 2 ^ 16" "\<forall>(off, f) \<in> set (field_locs b). off < loc"
      "start < loc"
  shows "\<exists>vt. write_vtable start loc b = Inr (ClearOffsets (grow vt b)) \<and>
    vtable_for vt (\<lambda>f. map_option (\<lambda>off. loc - off) (locs_map (field_locs b) f)) \<and> int (length vt) = max (mv + 2) 4"
proof -
  let ?n = "max (mv + 2) 4" and ?locs = "field_locs b"
  define v where "v d = \<lparr>vd_data = d @ dat b, vd_size = ?n + dlen b\<rparr>" for d
  have n: "u16 (mv + 2) = mv + 2" "even ?n" "4 \<le> ?n" "?n < 2 ^ 16" "int (nat ?n) = ?n" using mv by (auto simp: u16_def max_def)
  have f0: "with_buf (fill ?n) b = Inr (b\<lparr>buf := v (replicate (nat ?n) 0)\<rparr>)"
    using push_grow [OF b(1), of "replicate (nat ?n) 0"] b(2) n(3) mv
    by (simp add: fill_eq grow_def v_def)
  obtain vt1 where vt1: "mem_write (replicate (nat ?n) 0) 2 (le_bytes 2 (u16 (loc - start))) = Inr vt1"
    using n(3) by (simp add: mem_write_def)
  note l1 = mem_write_length [OF vt1, simplified]
  obtain vt2 where vt2: "mem_write vt1 0 (le_bytes 2 ?n) = Inr vt2" using n(3) l1 by (simp add: mem_write_def)
  note l2 = mem_write_length [OF vt2, unfolded l1]
  have r0: "ReadScalar vt2 0 2 = Inr ?n" using mem_write_ReadScalar(1) [OF vt2] n(3,4) by simp
  have rf: "ReadScalar vt2 f 2 = Inr 0" if "4 \<le> f" "f + 2 \<le> ?n" for f
    using mem_write_ReadScalar(2) [OF vt2, of f 2] mem_write_ReadScalar(2) [OF vt1, of f 2] replicate_zero_read [of f "nat ?n"] that n(5)
    by simp
  have lo: "distinct (map snd ?locs)" "\<forall>f \<in> snd ` set ?locs. even f \<and> 4 \<le> f \<and> f \<le> mv"
    using locs by (auto simp: locs_ok_def)
  then have "\<forall>f \<in> snd ` set ?locs. even f \<and> 0 \<le> f \<and> f + 2 \<le> int (length vt2) \<and> ReadScalar vt2 f 2 = Inr 0"
    using rf l2 n(5) by fastforce
  from write_fields_ok [OF lo(1) this, of loc "dat b" "?n + dlen b"] obtain vt where
    vt: "write_fields loc ?locs (v vt2) = Inr (v vt)" "length vt = length vt2"
      "\<forall>f. 0 \<le> f \<longrightarrow> even f \<longrightarrow> ReadScalar vt f 2 =
         (case locs_map ?locs f of None \<Rightarrow> ReadScalar vt2 f 2 | Some off \<Rightarrow> Inr (u16 (loc - off)))" by (auto simp: v_def)
  have len: "int (length vt) = ?n" using vt(2) l2 n(5) by simp
  have "WriteScalar 2 2 (u16 (loc - start)) (v (replicate (nat ?n) 0)) = Inr (v vt1)"
    using vt1 n(3,5) by (simp only: v_def) (subst WriteScalar_head; simp)
  moreover have "WriteScalar 2 0 ?n (v vt1) = Inr (v vt2)"
    using vt2 n(3,5) l1 by (simp only: v_def) (subst WriteScalar_head; simp)
  ultimately have "write_vtable start loc b = Inr (ClearOffsets (b\<lparr>buf := v vt\<rparr>))"
    unfolding write_vtable_def Let_def mv(1) n(1) f0
    using loc(1) vt(1) by (simp add: assert_def with_buf_def)
  moreover have "b\<lparr>buf := v vt\<rparr> = grow vt b" using len by (simp add: v_def grow_def)
  moreover have "vtable_for vt (\<lambda>f. map_option (\<lambda>off. loc - off) (locs_map ?locs f))"
  proof -
    have in_locs: "(off, f) \<in> set ?locs" if "locs_map ?locs f = Some off" for f off using map_of_SomeD [OF that] by auto
    have off: "0 < loc - off \<and> u16 (loc - off) = loc - off \<and> f < ?n" if "locs_map ?locs f = Some off" for f off
      using in_locs [OF that] locs loc by (fastforce simp: locs_ok_def u16_def)
    have none: "locs_map ?locs 0 = None" using lo(2) by (force simp: locs_map_None)
    show ?thesis unfolding vtable_for_def
    proof (intro conjI allI impI)
      show "4 \<le> length vt" "even (length vt)" "int (length vt) < 2 ^ 16" using len n by presburger+
      show "ReadScalar vt 0 2 = Inr (int (length vt))" using vt(3) none r0 len by simp
      fix f assume f: "4 \<le> f" "even f" "f < int (length vt)"
      then have "f + 2 \<le> ?n" using len n(2) by presburger
      with f vt(3) rf [of f] off [of f] show "ReadScalar vt f 2 =
        Inr (case map_option (\<lambda>off. loc - off) (locs_map ?locs f) of None \<Rightarrow> 0 | Some x \<Rightarrow> x)"
        by (simp split: option.splits)
    next
      fix f x assume "map_option (\<lambda>off. loc - off) (locs_map ?locs f) = Some x"
      then show "f < int (length vt)" "x \<noteq> 0" using off [of f] len by auto
    qed
  qed
  ultimately show ?thesis using len by auto
qed

lemma clear_simps [simp]:
  "buf (ClearOffsets b) = buf b" "vtables (ClearOffsets b) = vtables b" "field_locs (ClearOffsets b) = []"
  "max_voffset (ClearOffsets b) = 0" "nested (ClearOffsets b) = nested b" "finished (ClearOffsets b) = finished b"
  "minalign (ClearOffsets b) = minalign b" "GetSize (ClearOffsets b) = GetSize b"
  by (simp_all add: ClearOffsets_def GetSize_def)

text \<open>The vtable is kept in front of the table, or an equal one further behind is used.\<close>

lemma share_vtable_ok:
  assumes vts: "vtables_ok d (vtables b)" and dat: "dat b = vt @ le_bytes 4 0 @ d" "GetSize b = dlen b" "dlen b < max_size"
    and vt: "4 \<le> length vt" "ReadScalar vt 0 2 = Inr (int (length vt))" and loc: "loc = 4 + int (length d)"
  shows "\<exists>vo xs vts. share_vtable loc b =
      Inr (vo, b\<lparr>buf := \<lparr>vd_data = xs @ le_bytes 4 0 @ d, vd_size = int (length xs) + loc\<rparr>, vtables := vts\<rparr>) \<and>
    (xs = vt \<and> vo = int (length vt) + loc \<and> vts = vtables b @ [vo] \<or> xs = [] \<and> bytes_at d vo vt \<and> even vo \<and> vts = vtables b)"
proof -
  have buf: "buf b = \<lparr>vd_data = vt @ le_bytes 4 0 @ d, vd_size = int (length vt) + loc\<rparr>"
    using dat(1,2) loc by (simp add: GetSize_def)
  have r: "ReadScalar (dat b) 0 2 = Inr (int (length vt))" using vt by (simp add: dat(1) ReadScalar_head)
  obtain old where old: "find_vtable (int (length vt)) (buf b) (vtables b) = Inr old"
    "\<forall>o1. old = Some o1 \<longrightarrow> o1 \<in> set (vtables b) \<and> bytes_at (le_bytes 4 0 @ d) o1 vt"
    using find_vtable_ok [OF vtables_ok_prepend [OF vts], of vt "le_bytes 4 0"] unfolding buf by blast
  show ?thesis
  proof (cases old)
    case None
    then have "share_vtable loc b = Inr (int (length vt) + loc, b\<lparr>buf := buf b, vtables := vtables b @ [int (length vt) + loc]\<rparr>)"
      using r old(1) dat loc by (simp add: share_vtable_def ensure_space_def assert_def GetSize_def Let_def)
    then show ?thesis unfolding buf by blast
  next
    case (Some o1)
    obtain vt2 where vt2: "even o1" "bytes_at d o1 vt2" "4 \<le> length vt2" "ReadScalar vt2 0 2 = Inr (int (length vt2))"
      using old(2) Some vts by (auto simp: vtables_ok_def)
    have o1: "o1 \<le> int (length d)" using bytes_at_le [OF vt2(2)] by simp
    have "bytes_at d o1 vt"
    proof -
      obtain pre post where *: "le_bytes 4 0 @ d = pre @ vt @ post" "o1 = int (length vt) + int (length post)"
        using old(2) Some by (auto simp: bytes_at_def)
      then have "length pre \<ge> 4" using o1 by (auto dest!: arg_cong [where f = length])
      moreover have "drop 4 (le_bytes 4 0 @ d) = drop 4 (pre @ vt @ post)" by (simp only: *(1))
      ultimately have "d = drop 4 pre @ vt @ post" by simp
      then show ?thesis using *(2) by (auto simp: bytes_at_def)
    qed
    moreover have "share_vtable loc b = Inr (o1, b\<lparr>buf := \<lparr>vd_data = [] @ le_bytes 4 0 @ d, vd_size = int (length ([] :: byte list)) + loc\<rparr>, vtables := vtables b\<rparr>)"
      using r old(1) Some dat loc o1 by (simp add: share_vtable_def vd_pop_def buf GetSize_def max_size_def Let_def)
    ultimately show ?thesis using vt2(1) by blast
  qed
qed

lemma EndTable_ok:
  assumes b: "builder_ok b" "nested b" "vtables_ok (dat b) (vtables b)" "dlen b + 1100 < max_size"
    and mv: "0 \<le> max_voffset b" "even (max_voffset b)" "max_voffset b < 1000"
    and locs: "locs_ok start (max_voffset b) (field_locs b)" "\<forall>(off, f) \<in> set (field_locs b). off \<le> dlen b"
    and start: "start \<le> dlen b" "dlen b - start < 60000"
  shows "\<exists>loc b' xs vo vt. EndTable start b = Inr (loc, b') \<and> builder_ok b' \<and> \<not> nested b' \<and> field_locs b' = [] \<and>
    max_voffset b' = 0 \<and> vtables_ok (dat b') (vtables b') \<and> minalign b' = max 4 (minalign b) \<and>
    dat b' = xs @ dat b \<and> length xs < 1100 \<and> loc mod 4 = 0 \<and> dlen b < loc \<and>
    bytes_at (dat b') loc (le_bytes 4 (vo - loc)) \<and> bytes_at (dat b') vo vt \<and> even vo \<and>
    int (length vt) < dlen b' \<and> vtable_for vt (\<lambda>f. map_option (\<lambda>off. loc - off) (locs_map (field_locs b) f))"
proof -
  define d where "d = pad (dlen b) 4 @ dat b"
  define loc where "loc = 4 + int (length d)"
  define b1 where "b1 = grow (element 4 0 b) (TrackMinAlign 4 b)"
  have el: "element 4 0 b @ dat b = le_bytes 4 0 @ d" by (simp add: element_def d_def)
  have p: "int (length (pad (dlen b) 4)) < 4" by (rule pad_less) simp
  have loc: "dlen b < loc" "loc < dlen b + 8" "loc mod 4 = 0"
    using p pad_aligns [of 4 "dlen b"] by (simp_all add: loc_def d_def) presburger
  have len: "int (length (element 4 0 b)) + dlen b = loc" by (simp add: element_def d_def loc_def)
  then have b1: "builder_ok b1" "dat b1 = le_bytes 4 0 @ d" "dlen b1 = loc" "GetSize b1 = loc"
    using b(1) el by (simp_all add: b1_def loc_def)
  have pe: "PushElement 4 0 b = Inr (loc, b1)" using PushElement_grow [OF b(1), of 4 0] b(4) len by (simp add: b1_def)
  have fb: "max_voffset b1 = max_voffset b" "field_locs b1 = field_locs b" by (simp_all add: b1_def)
  have "dlen b1 + max_voffset b + 4 < max_size" "loc - start < 2 ^ 16" "start < loc" "\<forall>(off, f) \<in> set (field_locs b). off < loc"
    using b(4) mv locs(2) start loc b1(3) by (simp, simp, simp, fastforce)
  then obtain vt where vt: "write_vtable start loc b1 = Inr (ClearOffsets (grow vt b1))"
    "vtable_for vt (\<lambda>f. map_option (\<lambda>off. loc - off) (locs_map (field_locs b) f))" "int (length vt) = max (max_voffset b + 2) 4"
    using write_vtable_ok [OF b1(1) _ fb(1) mv, of start loc, unfolded fb(2)] locs(1) by blast
  have vt': "4 \<le> length vt" "even (length vt)" "ReadScalar vt 0 2 = Inr (int (length vt))" "length vt < 1002"
    using vt(2,3) mv by (auto simp: vtable_for_def)
  have vd: "vtables_ok d (vtables b)" using vtables_ok_prepend [OF b(3)] by (simp add: d_def)
  let ?b2 = "ClearOffsets (grow vt b1)"
  obtain vo xs vts where sh: "share_vtable loc ?b2 =
      Inr (vo, ?b2\<lparr>buf := \<lparr>vd_data = xs @ le_bytes 4 0 @ d, vd_size = int (length xs) + loc\<rparr>, vtables := vts\<rparr>)"
    "xs = vt \<and> vo = int (length vt) + loc \<and> vts = vtables b @ [vo] \<or> xs = [] \<and> bytes_at d vo vt \<and> even vo \<and> vts = vtables b"
    using share_vtable_ok [of d ?b2 vt loc] vd vt' b(4) loc b1 by (auto simp: loc_def b1_def)
  define b' where "b' = ?b2\<lparr>buf := \<lparr>vd_data = xs @ le_bytes 4 (vo - loc) @ d, vd_size = int (length xs) + loc\<rparr>, vtables := vts, nested := False\<rparr>"
  have "EndTable start b = Inr (loc, b')"
    using b(2) pe vt(1) sh(1)
    by (simp add: EndTable_def assert_def with_buf_def WriteScalar_def data_at_def mem_write_def loc_def b'_def)
  moreover have D: "dat b' = (xs @ le_bytes 4 (vo - loc) @ pad (dlen b) 4) @ dat b" by (simp add: b'_def d_def)
  moreover have "length (xs @ le_bytes 4 (vo - loc) @ pad (dlen b) 4) < 1100" using sh(2) vt'(4) p by auto
  moreover have "builder_ok b'" using b1(1) by (simp add: builder_ok_def b'_def GetSize_def loc_def)
  moreover have "bytes_at (dat b') loc (le_bytes 4 (vo - loc))"
    by (auto simp: b'_def loc_def intro!: bytes_at_prepend bytes_at_head)
  moreover have at: "bytes_at (dat b') vo vt"
    using sh(2)
  proof (elim disjE conjE)
    assume "xs = vt" "vo = int (length vt) + loc"
    then show ?thesis by (simp add: b'_def loc_def bytes_at_head)
  next
    assume "xs = []" "bytes_at d vo vt"
    then show ?thesis by (simp add: b'_def bytes_at_prepend)
  qed
  moreover have "even loc" using loc(3) by presburger
  then have ev: "even vo" using sh(2) vt'(2) by auto
  moreover have "vtables_ok (dat b') (vtables b')"
    using sh(2) vtables_ok_prepend [OF b(3), of "xs @ le_bytes 4 (vo - loc) @ pad (dlen b) 4"] at ev vt'
    unfolding D by (auto simp: vtables_ok_def b'_def)
  moreover have "int (length vt) < dlen b'"
    using sh(2) by (auto simp: b'_def loc_def dest: bytes_at_le)
  moreover have "\<not> nested b'" "field_locs b' = []" "max_voffset b' = 0" "minalign b' = max 4 (minalign b)"
    by (simp_all add: b'_def b1_def)
  ultimately show ?thesis using loc(1,3) vt(2)
    by - (rule exI [of _ loc], rule exI [of _ b'], rule exI [of _ "xs @ le_bytes 4 (vo - loc) @ pad (dlen b) 4"],
      rule exI [of _ vo], rule exI [of _ vt], intro conjI; assumption)
qed

section \<open>Tables as lists of fields\<close>

text \<open>
  What a field holds: a scalar of \<open>w\<close> bytes, which is not stored when it is 0, or a reference to an
  object with the property \<open>P\<close>; \<open>nul\<close> says that it may be absent. \<open>P\<close> depends on the buffer, the
  alignment and the object's offset. \<open>field_is d a off val\<close>: the field at \<open>off\<close> (or absent) holds \<open>val\<close>.
\<close>

datatype fval = Scalar nat int | Ref (nul: bool) (obj: "byte list \<Rightarrow> int \<Rightarrow> int \<Rightarrow> bool")

definition stable :: "(byte list \<Rightarrow> int \<Rightarrow> int \<Rightarrow> bool) \<Rightarrow> bool" where
  "stable P \<longleftrightarrow> (\<forall>d a off xs a'. P d a off \<longrightarrow> a dvd a' \<longrightarrow> P (xs @ d) a' off)"

fun stable_val :: "fval \<Rightarrow> bool" where
  "stable_val (Scalar w v) = True"
| "stable_val (Ref n P) = stable P"

fun field_is :: "byte list \<Rightarrow> int \<Rightarrow> int option \<Rightarrow> fval \<Rightarrow> bool" where
  "field_is d a None (Scalar w v) = (v = 0)"
| "field_is d a (Some off) (Scalar w v) = (bytes_at d off (le_bytes w v) \<and> off mod int w = 0 \<and> int w dvd a)"
| "field_is d a None (Ref n P) = n"
| "field_is d a (Some off) (Ref n P) =
     (\<exists>u. bytes_at d off (le_bytes 4 u) \<and> off mod 4 = 0 \<and> 0 < u \<and> u < 2 ^ 31 \<and> P d a (off - u))"

lemma field_is_mono:
  assumes "field_is d a off val" "stable_val val" "a dvd a'"
  shows "field_is (xs @ d) a' off val"
proof (cases off)
  case None
  then show ?thesis using assms by (cases val) auto
next
  case (Some o1)
  show ?thesis
  proof (cases val)
    case (Ref n P)
    have P: "P (xs @ d) a' o2" if "P d a o2" for o2 using that assms(2,3) Ref by (simp add: stable_def)
    obtain u where "bytes_at d o1 (le_bytes 4 u)" "o1 mod 4 = 0" "0 < u" "u < 2 ^ 31" "P d a (o1 - u)"
      using assms(1) Some Ref by auto
    then show ?thesis using Some Ref P bytes_at_prepend by (auto intro!: exI [of _ u])
  qed (use assms Some in \<open>auto intro: bytes_at_prepend dvd_trans\<close>)
qed

definition table_at :: "byte list \<Rightarrow> int \<Rightarrow> int \<Rightarrow> (int \<times> fval) list \<Rightarrow> bool" where
  "table_at d a loc vals \<longleftrightarrow> loc mod 4 = 0 \<and> (\<forall>(fid, val) \<in> set vals. stable_val val) \<and>
     (\<exists>vo vt F. bytes_at d loc (le_bytes 4 (vo - loc)) \<and> bytes_at d vo vt \<and> even vo \<and> int (length vt) < int (length d) \<and>
        vtable_for vt F \<and>
        (\<forall>(fid, val) \<in> set vals. field_is d a (map_option (\<lambda>x. loc - x) (F fid)) val))"

lemma table_at_stable: "stable (\<lambda>d a loc. table_at d a loc vals)"
  unfolding stable_def table_at_def by (fastforce intro: bytes_at_prepend field_is_mono)

section \<open>Building a table\<close>

definition closed :: "FlatBufferBuilder \<Rightarrow> bool" where
  "closed b \<longleftrightarrow> builder_ok b \<and> \<not> nested b \<and> field_locs b = [] \<and> max_voffset b = 0 \<and> vtables_ok (dat b) (vtables b)"

text \<open>Between start and end: \<open>d\<close> is the buffer at the start, \<open>vals\<close> the fields added so far.\<close>

definition open_table :: "byte list \<Rightarrow> FlatBufferBuilder \<Rightarrow> (int \<times> fval) list \<Rightarrow> bool" where
  "open_table d b vals \<longleftrightarrow> builder_ok b \<and> nested b \<and> vtables_ok (dat b) (vtables b) \<and>
     (\<exists>xs. dat b = xs @ d \<and> length xs \<le> 16 * length vals) \<and>
     0 \<le> max_voffset b \<and> even (max_voffset b) \<and> max_voffset b < 1000 \<and>
     locs_ok (int (length d)) (max_voffset b) (field_locs b) \<and>
     (\<forall>(off, f) \<in> set (field_locs b). off \<le> dlen b \<and> f \<in> fst ` set vals) \<and>
     (\<forall>(fid, val) \<in> set vals. stable_val val \<and> field_is (dat b) (minalign b) (locs_map (field_locs b) fid) val)"

lemma open_table_start: "closed b \<Longrightarrow> open_table (dat b) (b\<lparr>nested := True\<rparr>) []"
  by (simp add: closed_def open_table_def builder_ok_def GetSize_def locs_ok_def)

lemma track_grow: "TrackMinAlign w (grow bs b) = grow bs (TrackMinAlign w b)"
  by (simp add: TrackMinAlign_def grow_def)

lemma track_track [simp]: "TrackMinAlign w (TrackMinAlign w b) = TrackMinAlign w b"
  by (simp add: TrackMinAlign_def)

lemma minalign_dvd: "builder_ok b \<Longrightarrow> w \<in> {1, 2, 4, 8} \<Longrightarrow> minalign b dvd max w (minalign b) \<and> w dvd max w (minalign b)"
  using max_dvd [of w "minalign b"] by (simp add: builder_ok_def)

text \<open>A field that is not stored.\<close>

lemma open_skip:
  assumes "open_table d b vals" "fid \<notin> fst ` set vals" "stable_val val" "\<And>a. field_is (dat b) a None val"
  shows "open_table d b ((fid, val) # vals)"
proof -
  have "locs_map (field_locs b) fid = None" using assms(1,2) unfolding locs_map_None by (force simp: open_table_def)
  with assms show ?thesis by (auto simp: open_table_def)
qed

lemma locs_ok_snoc:
  assumes "locs_ok s mv locs" "locs_map locs f = None" "s < off" "even f" "4 \<le> f"
  shows "locs_ok s (max f mv) (locs @ [(off, f)])"
proof -
  have "f \<notin> set (map snd locs)" using assms(2) by (simp add: locs_map_None)
  moreover have "s < o1 \<and> even g \<and> 4 \<le> g \<and> g \<le> max f mv" if "(o1, g) \<in> set locs" for o1 g
    using assms(1) that by (auto simp: locs_ok_def)
  ultimately show ?thesis using assms by (auto simp: locs_ok_def)
qed

text \<open>A field that is: the bytes are pushed, then tracked.\<close>

lemma open_track:
  assumes op: "open_table d b vals" "fid \<notin> fst ` set vals" "stable_val val" and fid: "even fid" "4 \<le> fid" "fid < 1000"
    and w: "w \<in> {1, 2, 4, 8}" and b1: "b1 = grow bs (TrackMinAlign w b)" and bs: "0 < length bs" "length bs \<le> 16"
    and off: "off = dlen b1" "off < max_size" and val: "field_is (dat b1) (minalign b1) (Some off) val"
  shows "\<exists>b'. TrackField fid off b1 = Inr b' \<and> open_table d b' ((fid, val) # vals) \<and> minalign b' = minalign b1"
proof -
  let ?b = "b1\<lparr>field_locs := field_locs b @ [(off, fid)], max_voffset := max fid (max_voffset b)\<rparr>"
  obtain xs where xs: "dat b = xs @ d" "length xs \<le> 16 * length vals" using op(1) by (auto simp: open_table_def)
  have ok: "builder_ok b1" using op(1) w by (simp add: b1 open_table_def)
  then have size: "vd_size (buf b1) = off" using off by (simp add: builder_ok_def GetSize_def)
  have fresh: "locs_map (field_locs b) fid = None" using op(1,2) unfolding locs_map_None by (force simp: open_table_def)
  have "TrackField fid off b1 = Inr ?b"
    using size off(2) by (simp add: TrackField_def ensure_space_def assert_def Let_def b1 max_def)
  moreover have "open_table d ?b ((fid, val) # vals)"
    unfolding open_table_def
  proof (intro conjI)
    show "builder_ok ?b" using ok by (simp add: builder_ok_def GetSize_def)
    show "\<exists>xs. dat ?b = xs @ d \<and> length xs \<le> 16 * length ((fid, val) # vals)"
      using xs bs(2) by (intro exI [of _ "bs @ xs"]) (simp add: b1)
    show "locs_ok (int (length d)) (max_voffset ?b) (field_locs ?b)"
    proof -
      have "locs_ok (int (length d)) (max_voffset b) (field_locs b)" using op(1) by (simp add: open_table_def)
      moreover have "int (length d) < off" using bs(1) xs(1) off(1) by (cases bs) (simp_all add: b1)
      ultimately show ?thesis using locs_ok_snoc [OF _ fresh] fid by simp
    qed
    show "\<forall>(o1, f) \<in> set (field_locs ?b). o1 \<le> dlen ?b \<and> f \<in> fst ` set ((fid, val) # vals)"
      using op(1) off(1) by (auto simp: open_table_def b1)
    have "field_is (dat ?b) (minalign ?b) (locs_map (field_locs ?b) i) v" if "(i, v) \<in> set vals" for i v
    proof -
      have "i \<noteq> fid" using that op(2) by force
      moreover have "field_is (dat b) (minalign b) (locs_map (field_locs b) i) v" "stable_val v" using op(1) that by (auto simp: open_table_def)
      then have "field_is (bs @ dat b) (max w (minalign b)) (locs_map (field_locs b) i) v"
        using minalign_dvd [of b w] op(1) w by (intro field_is_mono) (auto simp: open_table_def)
      ultimately show ?thesis by (cases "locs_map (field_locs b) i") (simp_all add: b1 map_add_def)
    qed
    moreover have "field_is (dat ?b) (minalign ?b) (locs_map (field_locs ?b) fid) val"
      using val fresh by (simp add: map_add_def split: option.splits)
    ultimately show "\<forall>(i, v) \<in> set ((fid, val) # vals). stable_val v \<and> field_is (dat ?b) (minalign ?b) (locs_map (field_locs ?b) i) v"
      using op(1,3) by (auto simp: open_table_def)
    show "even (max_voffset ?b)" using op(1) fid by (simp add: open_table_def max_def)
  qed (use op(1) fid vtables_ok_prepend in \<open>auto simp: open_table_def b1\<close>)
  ultimately show ?thesis by auto
qed

text \<open>
  \<open>add_ok d a add fid val\<close>: in a table started on the buffer \<open>d\<close> with alignment \<open>a\<close>, \<open>add\<close> adds the
  field \<open>fid\<close> with the contents \<open>val\<close>.
\<close>

definition add_ok :: "byte list \<Rightarrow> int \<Rightarrow> (FlatBufferBuilder \<Rightarrow> FlatBufferBuilder result) \<Rightarrow> int \<times> fval \<Rightarrow> bool" where
  "add_ok d a add fv \<longleftrightarrow> (\<forall>b vals. open_table d b vals \<longrightarrow> a dvd minalign b \<longrightarrow> fst fv \<notin> fst ` set vals \<longrightarrow>
     length vals < 50 \<longrightarrow> int (length d) + 2000 < max_size \<longrightarrow>
     (\<exists>b'. add b = Inr b' \<and> open_table d b' (fv # vals) \<and> minalign b dvd minalign b'))"

lemma open_table_room:
  assumes "open_table d b vals" "length vals < 50" "int (length d) + 2000 < max_size"
  shows "dlen b + 1200 < max_size" "int (length d) \<le> dlen b" "builder_ok b" "dlen b - int (length d) < 800"
    "\<exists>xs. dat b = xs @ d"
proof -
  obtain xs where "dat b = xs @ d" "length xs \<le> 16 * length vals" "builder_ok b" using assms(1) by (auto simp: open_table_def)
  with assms show "dlen b + 1200 < max_size" "int (length d) \<le> dlen b" "builder_ok b" "dlen b - int (length d) < 800"
    "\<exists>xs. dat b = xs @ d" by auto
qed

lemma AddElement_ok:
  assumes w: "int w \<in> {1, 2, 4, 8}" and fid: "even fid" "4 \<le> fid" "fid < 1000"
  shows "add_ok d a (AddElement w fid e 0) (fid, Scalar w e)"
  unfolding add_ok_def
proof (intro allI impI)
  fix b vals
  assume op: "open_table d b vals" and len: "length vals < 50" "int (length d) + 2000 < max_size"
    and new: "fst (fid, Scalar w e) \<notin> fst ` set vals"
  note room = open_table_room [OF op len]
  show "\<exists>b'. AddElement w fid e 0 b = Inr b' \<and> open_table d b' ((fid, Scalar w e) # vals) \<and> minalign b dvd minalign b'"
  proof (cases "e = 0")
    case True
    then show ?thesis using open_skip [OF op] new by (simp add: AddElement_def)
  next
    case False
    let ?b1 = "grow (element w e b) (TrackMinAlign (int w) b)" and ?off = "int (length (element w e b)) + dlen b"
    have w8: "int w \<le> 8" using w by auto
    note le = length_element [OF w, of e b]
    have pe: "PushElement w e b = Inr (?off, ?b1)" using room w8 by (intro PushElement_grow w) auto
    have "field_is (dat ?b1) (minalign ?b1) (Some ?off) (Scalar w e)"
      using minalign_dvd [OF room(3) w] le(3) by (auto simp: element_def intro!: bytes_at_head)
    with open_track [OF op _ _ fid w refl, of "Scalar w e" "element w e b" ?off] le room w8 new
    obtain b' where "TrackField fid ?off ?b1 = Inr b'" "open_table d b' ((fid, Scalar w e) # vals)" "minalign b' = minalign ?b1"
      by auto
    then show ?thesis using pe False minalign_dvd [OF room(3) w] by (simp add: AddElement_def)
  qed
qed

text \<open>An offset the generated code passes: 0 for an absent object, or the offset of an object with \<open>P\<close>.\<close>

definition ref_ok :: "byte list \<Rightarrow> int \<Rightarrow> bool \<Rightarrow> (byte list \<Rightarrow> int \<Rightarrow> int \<Rightarrow> bool) \<Rightarrow> int \<Rightarrow> bool" where
  "ref_ok d a n P off \<longleftrightarrow> off = 0 \<and> n \<or> 0 < off \<and> off \<le> int (length d) \<and> P d a off"

lemma ref_ok_mono: "ref_ok d a n P off \<Longrightarrow> stable P \<Longrightarrow> a dvd a' \<Longrightarrow> ref_ok (xs @ d) a' n P off"
  by (auto simp: ref_ok_def stable_def)

lemma AddOffset_ok:
  assumes fid: "even fid" "4 \<le> fid" "fid < 1000" and P: "stable P" and ref: "ref_ok d a n P off"
  shows "add_ok d a (AddOffset fid off) (fid, Ref n P)"
  unfolding add_ok_def
proof (intro allI impI)
  fix b vals
  assume op: "open_table d b vals" and a: "a dvd minalign b" and len: "length vals < 50" "int (length d) + 2000 < max_size"
    and new: "fst (fid, Ref n P) \<notin> fst ` set vals"
  note room = open_table_room [OF op len] and off = ref [unfolded ref_ok_def]
  show "\<exists>b'. AddOffset fid off b = Inr b' \<and> open_table d b' ((fid, Ref n P) # vals) \<and> minalign b dvd minalign b'"
  proof (cases "off = 0")
    case True
    then show ?thesis using open_skip [OF op] new P off by (simp add: AddOffset_def)
  next
    case False
    then have o1: "0 < off" "off \<le> int (length d)" "P d a off" using off by auto
    define p where "p = pad (dlen b) 4"
    define r where "r = dlen b + int (length p) - off + 4"
    let ?b1 = "grow p (TrackMinAlign 4 b)" and ?bs = "le_bytes 4 r @ p" and ?off = "dlen b + int (length p) + 4"
    let ?b2 = "grow ?bs (TrackMinAlign 4 b)"
    have p: "int (length p) < 4" "(dlen b + int (length p)) mod 4 = 0"
      using pad_less [of 4 "dlen b"] pad_aligns [of 4 "dlen b"] by (simp_all add: p_def)
    have rt: "ReferTo off b = Inr (r, ?b1)" using ReferTo_grow [OF room(3), of off] room o1 by (simp add: p_def r_def)
    have "pad (dlen ?b1) 4 = []" using p(2) by (simp add: pad_def add.commute) presburger
    then have el: "element 4 r ?b1 = le_bytes 4 r" by (simp add: element_def)
    have "PushElement 4 r ?b1 = Inr (?off, ?b2)"
      using PushElement_grow [of ?b1 4 r] room p(1) by (simp add: el track_grow)
    moreover have "r \<noteq> 0" using o1 room by (simp add: r_def)
    ultimately have ae: "AddOffset fid off b = TrackField fid ?off ?b2" using rt False by (simp add: AddOffset_def AddElement_def)
    have dv: "a dvd max 4 (minalign b)" using a minalign_dvd [OF room(3), of 4] by (auto intro: dvd_trans)
    obtain xs where xs: "dat b = xs @ d" using room(5) by blast
    have "P (dat ?b2) (minalign ?b2) (?off - r)"
      using P o1(3) dv unfolding stable_def by (simp add: xs r_def) (metis append.assoc)
    then have val: "field_is (dat ?b2) (minalign ?b2) (Some ?off) (Ref n P)"
      using p o1 room by (auto simp: r_def max_size_def mod_add_self2 intro!: exI [of _ r] bytes_at_head)
    have "\<exists>b'. TrackField fid ?off ?b2 = Inr b' \<and> open_table d b' ((fid, Ref n P) # vals) \<and> minalign b' = minalign ?b2"
      by (rule open_track [OF op _ _ fid _ refl _ _ _ _ val]) (use new P p room in simp_all)
    then show ?thesis using ae minalign_dvd [OF room(3), of 4] by auto
  qed
qed

lemma run_adds_ok:
  assumes "list_all2 (add_ok d a) adds vals" "open_table d b before" "a dvd minalign b"
    and "distinct (map fst vals)" "fst ` set vals \<inter> fst ` set before = {}" "length vals + length before < 50"
    and "int (length d) + 2000 < max_size"
  shows "\<exists>b'. run_adds adds b = Inr b' \<and> open_table d b' (rev vals @ before) \<and> minalign b dvd minalign b'"
  using assms
proof (induction adds vals arbitrary: b before rule: list_all2_induct)
  case (Cons add adds v vals)
  have "fst v \<notin> fst ` set before" "length before < 50" using Cons.prems by auto
  with Cons.hyps(1) Cons.prems(1,2,6) obtain b1 where b1: "add b = Inr b1" "open_table d b1 (v # before)" "minalign b dvd minalign b1"
    unfolding add_ok_def by blast
  have "\<exists>b'. run_adds adds b1 = Inr b' \<and> open_table d b' (rev vals @ v # before) \<and> minalign b1 dvd minalign b'"
    using Cons.prems b1(3) by (intro Cons.IH b1(2)) (auto intro: dvd_trans)
  with b1 show ?case by (auto intro: dvd_trans)
qed simp

lemma table_at_perm: "table_at d a loc vals \<Longrightarrow> set vals' \<subseteq> set vals \<Longrightarrow> table_at d a loc vals'"
  unfolding table_at_def by blast

text \<open>What creating an object does to the builder, up to the object itself.\<close>

definition extends :: "FlatBufferBuilder \<Rightarrow> FlatBufferBuilder \<Rightarrow> int \<Rightarrow> bool" where
  "extends b b' n \<longleftrightarrow> closed b' \<and> minalign b dvd minalign b' \<and> (\<exists>xs. dat b' = xs @ dat b \<and> int (length xs) \<le> n)"

lemma extends_len: "extends b b' n \<Longrightarrow> dlen b' \<le> dlen b + n \<and> dlen b \<le> dlen b'"
  by (auto simp: extends_def)

lemma extends_trans: "extends b b' n \<Longrightarrow> extends b' b'' m \<Longrightarrow> extends b b'' (n + m)"
  by (force simp: extends_def intro: dvd_trans)

lemma extends_ref: "extends b b' n \<Longrightarrow> ref_ok (dat b) (minalign b) nl P off \<Longrightarrow> stable P \<Longrightarrow> ref_ok (dat b') (minalign b') nl P off"
  by (auto simp: extends_def ref_ok_mono)

lemma build_table_ok:
  assumes b: "closed b" "dlen b + 3000 < max_size" and adds: "list_all2 (add_ok (dat b) (minalign b)) adds vals"
    and vals: "distinct (map fst vals)" "length vals < 50"
  shows "\<exists>loc b'. build_table adds b = Inr (loc, b') \<and> extends b b' 2000 \<and> 0 < loc \<and> loc \<le> dlen b' \<and>
    table_at (dat b') (minalign b') loc vals"
proof -
  let ?b0 = "b\<lparr>nested := True\<rparr>"
  have st: "StartTable b = Inr (dlen b, ?b0)" using b(1) by (simp add: StartTable_def NotNested_def assert_def closed_def builder_ok_def)
  obtain b1 where b1: "run_adds adds ?b0 = Inr b1" "open_table (dat b) b1 (rev vals)" "minalign b dvd minalign b1"
    using run_adds_ok [OF adds open_table_start [OF b(1)]] vals b(2) by auto
  have "length (rev vals) < 50" using vals by simp
  note room = open_table_room [OF b1(2) this] b(2)
  obtain ys where ys: "dat b1 = ys @ dat b" "length ys \<le> 16 * length vals" using b1(2) by (auto simp: open_table_def)
  have "\<forall>(off, f) \<in> set (field_locs b1). off \<le> dlen b1" using b1(2) by (auto simp: open_table_def)
  then obtain loc b' xs vo vt where e: "EndTable (dlen b) b1 = Inr (loc, b')" "builder_ok b'" "\<not> nested b'" "field_locs b' = []"
    "max_voffset b' = 0" "vtables_ok (dat b') (vtables b')" "minalign b' = max 4 (minalign b1)" "dat b' = xs @ dat b1" "length xs < 1100"
    "loc mod 4 = 0" "dlen b1 < loc" "bytes_at (dat b') loc (le_bytes 4 (vo - loc))" "bytes_at (dat b') vo vt" "even vo"
    "vtable_for vt (\<lambda>f. map_option (\<lambda>off. loc - off) (locs_map (field_locs b1) f))" "int (length vt) < dlen b'"
    using EndTable_ok [of b1 "dlen b"] b1(2) room unfolding open_table_def by auto
  have dv: "minalign b1 dvd minalign b'" using minalign_dvd [of b1 4] b1(2) e(7) by (simp add: open_table_def)
  have val: "stable_val val \<and> field_is (dat b') (minalign b') (map_option (\<lambda>x. loc - x) (map_option (\<lambda>off. loc - off) (locs_map (field_locs b1) fid))) val"
    if "(fid, val) \<in> set vals" for fid val
  proof -
    have "stable_val val" "field_is (dat b1) (minalign b1) (locs_map (field_locs b1) fid) val" using b1(2) that by (auto simp: open_table_def)
    moreover have "map_option (\<lambda>x. loc - x) (map_option (\<lambda>off. loc - off) z) = z" for z by (cases z) simp_all
    ultimately show ?thesis using field_is_mono [OF _ _ dv, of "dat b1" _ val xs] e(8) by simp
  qed
  have "table_at (dat b') (minalign b') loc vals" unfolding table_at_def using e(10,12-16) val by blast
  moreover have "extends b b' 2000" unfolding extends_def closed_def
    using e b1(3) dv ys vals(2) by (auto intro: dvd_trans)
  moreover have "build_table adds b = Inr (loc, b')" using st b1(1) e(1) by (simp add: build_table_def)
  moreover have "loc \<le> dlen b'" using bytes_at_le [OF e(12)] by simp
  ultimately show ?thesis using e(11) by auto
qed

section \<open>Strings and vectors\<close>

definition str_at :: "string \<Rightarrow> byte list \<Rightarrow> int \<Rightarrow> int \<Rightarrow> bool" where
  "str_at s d a off \<longleftrightarrow> off mod 4 = 0 \<and> bytes_at d off (le_bytes 4 (int (length s)) @ map of_char s @ [0])"

definition vec_at :: "int64 list \<Rightarrow> byte list \<Rightarrow> int \<Rightarrow> int \<Rightarrow> bool" where
  "vec_at xs d a off \<longleftrightarrow> off mod 4 = 0 \<and> bytes_at d off (le_bytes 4 (int (length xs)) @ concat (map (le_bytes 8) xs))"

lemma str_at_stable: "stable (str_at s)"
  by (auto simp: stable_def str_at_def bytes_at_prepend)

lemma vec_at_stable: "stable (vec_at xs)"
  by (auto simp: stable_def vec_at_def bytes_at_prepend)

lemma closed_grow: "closed b \<Longrightarrow> closed (grow bs b)"
  using vtables_ok_prepend by (auto simp: closed_def)

lemma closed_track: "closed b \<Longrightarrow> w \<in> {1, 2, 4, 8} \<Longrightarrow> closed (TrackMinAlign w b)"
  by (auto simp: closed_def)

lemma extends_grow:
  assumes "closed b" "w \<in> {1, 2, 4, 8}" "int (length bs) \<le> n"
  shows "extends b (grow bs (TrackMinAlign w b)) n"
  using assms minalign_dvd [of b w] closed_grow closed_track unfolding extends_def by (auto simp: closed_def)

lemma element_aligned: "dlen b mod int w = 0 \<Longrightarrow> element w x b = le_bytes w x"
  by (simp add: element_def pad_def zmod_zminus1_eq_if)

lemma CreateString_ok:
  assumes b: "closed b" "dlen b + int (length s) + 20 < max_size"
  shows "\<exists>off b'. CreateString s b = Inr (off, b') \<and> extends b b' (int (length s) + 10) \<and>
    0 < off \<and> off \<le> dlen b' \<and> str_at s (dat b') (minalign b') off"
proof -
  define p where "p = pad (dlen b + (int (length s) + 1)) 4"
  let ?n = "int (length s)" and ?bs = "map of_char s @ [0] @ p"
  let ?b1 = "grow p (TrackMinAlign 4 b)" and ?b2 = "grow ?bs (TrackMinAlign 4 b)"
  have ok: "builder_ok b" using b(1) by (simp add: closed_def)
  have p: "int (length p) < 4" "(dlen b + (?n + 1) + int (length p)) mod 4 = 0"
    unfolding p_def by (rule pad_less, simp, rule pad_aligns, simp)
  have p2: "dlen ?b2 mod 4 = 0" using p(2) by (simp add: algebra_simps)
  have n: "?n mod 2 ^ 32 = ?n" using b(2) by (simp add: max_size_def)
  have "PreAlign (?n + 1) 4 b = Inr ?b1" using PreAlign_grow [OF ok, of 4 "?n + 1"] b(2) by (simp add: p_def)
  moreover have "with_buf (fill 1) ?b1 = Inr (grow ([0] @ p) (TrackMinAlign 4 b))"
    using push_grow [of ?b1 "[0]"] ok b(2) p(1) by (simp add: fill_eq)
  moreover have "with_buf (push (map of_char s)) (grow ([0] @ p) (TrackMinAlign 4 b)) = Inr ?b2"
    using push_grow [of "grow ([0] @ p) (TrackMinAlign 4 b)" "map of_char s"] ok b(2) p(1) by simp
  moreover have "element 4 (?n mod 2 ^ 32) ?b2 = le_bytes 4 ?n" unfolding n by (rule element_aligned) (use p2 in simp)
  then have "PushElement 4 (?n mod 2 ^ 32) ?b2 = Inr (4 + dlen ?b2, grow (le_bytes 4 ?n @ ?bs) (TrackMinAlign 4 b))"
    using PushElement_grow [of ?b2 4 "?n mod 2 ^ 32"] ok b(2) p(1) by (simp add: track_grow)
  ultimately have "CreateString s b = Inr (4 + dlen ?b2, grow (le_bytes 4 ?n @ ?bs) (TrackMinAlign 4 b))"
    using b(1) by (simp add: CreateString_def NotNested_def assert_def closed_def)
  moreover have "str_at s (dat (grow (le_bytes 4 ?n @ ?bs) (TrackMinAlign 4 b))) a (4 + dlen ?b2)" for a
  proof -
    have "(4 + dlen ?b2) mod 4 = 0" using p2 by presburger
    moreover have "bytes_at ((le_bytes 4 ?n @ map of_char s @ [0]) @ p @ dat b) (4 + dlen ?b2) (le_bytes 4 ?n @ map of_char s @ [0])"
      by (rule bytes_at_head) simp
    ultimately show ?thesis by (simp add: str_at_def)
  qed
  moreover have "extends b (grow (le_bytes 4 ?n @ ?bs) (TrackMinAlign 4 b)) (?n + 10)"
    using p(1) by (intro extends_grow b(1)) simp_all
  ultimately show ?thesis by auto
qed

lemma length_concat_le_bytes: "length (concat (map (le_bytes 8) xs)) = 8 * length xs"
  by (induction xs) simp_all

lemma CreateVector_ok:
  assumes b: "closed b" "dlen b + 8 * int (length xs) + 40 < max_size" and xs: "xs \<noteq> []"
  shows "\<exists>off b'. CreateVector xs b = Inr (off, b') \<and> extends b b' (8 * int (length xs) + 20) \<and>
    0 < off \<and> off \<le> dlen b' \<and> vec_at xs (dat b') (minalign b') off"
proof -
  let ?n = "int (length xs) * 8" and ?c = "concat (map (le_bytes 8) xs)"
  define b0 where "b0 = b\<lparr>nested := True\<rparr>"
  define p where "p = pad (dlen b + ?n) 4"
  define b1 where "b1 = grow p (TrackMinAlign 4 b0)"
  define q where "q = pad (dlen b1 + ?n) 8"
  define b2 where "b2 = grow (?c @ q) (TrackMinAlign 8 b1)"
  have d0: "dat b0 = dat b" "dat b1 = p @ dat b" by (simp_all add: b0_def b1_def)
  have ok0: "builder_ok b0" using b(1) by (simp add: b0_def closed_def builder_ok_def GetSize_def)
  then have ok: "builder_ok b0" "builder_ok b1" by (simp_all add: b1_def)
  have lc: "int (length ?c) = ?n" by (simp add: length_concat_le_bytes)
  have p: "int (length p) < 4" unfolding p_def by (rule pad_less) simp
  have q: "int (length q) < 8" "(dlen b1 + ?n + int (length q)) mod 8 = 0" unfolding q_def by (rule pad_less, simp, rule pad_aligns, simp)
  have a: "dlen b2 mod 8 = 0" using q(2) lc by (simp add: b2_def algebra_simps)
  have "PreAlign ?n 4 b0 = Inr b1"
    using PreAlign_grow [OF ok(1), of 4 ?n] b(2) xs by (simp add: b1_def p_def d0)
  moreover have "PreAlign ?n 8 b1 = Inr (grow q (TrackMinAlign 8 b1))"
    using PreAlign_grow [OF ok(2), of 8 ?n] b(2) xs p by (simp add: q_def d0)
  moreover have "with_buf (push ?c) (grow q (TrackMinAlign 8 b1)) = Inr b2"
    using push_grow [of "grow q (TrackMinAlign 8 b1)" ?c] ok b(2) p q(1) lc by (simp add: b2_def d0)
  moreover have "nested b2" by (simp add: b2_def b1_def b0_def)
  moreover have el: "element 4 (int (length xs) mod 2 ^ 32) (b2\<lparr>nested := False\<rparr>) = le_bytes 4 (int (length xs))"
  proof -
    have "dlen b2 mod 4 = 0" using a by presburger
    then show ?thesis using element_aligned [of "b2\<lparr>nested := False\<rparr>" 4] b(2) by (simp add: max_size_def)
  qed
  define b3 where "b3 = grow (le_bytes 4 (int (length xs))) (TrackMinAlign 4 (b2\<lparr>nested := False\<rparr>))"
  have ok2: "builder_ok (b2\<lparr>nested := False\<rparr>)" using ok(2) by (simp add: b2_def)
  have "PushElement 4 (int (length xs) mod 2 ^ 32) (b2\<lparr>nested := False\<rparr>) = Inr (4 + dlen b2, b3)"
    using PushElement_grow [OF ok2, of 4 "int (length xs) mod 2 ^ 32"] el b(2) p q(1) lc by (simp add: b3_def b2_def d0)
  ultimately have "CreateVector xs b = Inr (4 + dlen b2, b3)"
    using b(1) by (simp add: CreateVector_def StartVector_def EndVector_def NotNested_def assert_def closed_def b0_def)
  moreover have d3: "dat b3 = (le_bytes 4 (int (length xs)) @ ?c) @ q @ p @ dat b" by (simp add: b3_def b2_def d0)
  have "vec_at xs (dat b3) (minalign b3) (4 + dlen b2)"
  proof -
    have "(4 + dlen b2) mod 4 = 0" using a by presburger
    moreover have "bytes_at (dat b3) (4 + dlen b2) (le_bytes 4 (int (length xs)) @ ?c)"
      unfolding d3 by (rule bytes_at_head) (simp add: b2_def d0)
    ultimately show ?thesis by (simp add: vec_at_def)
  qed
  moreover have "extends b b3 (8 * int (length xs) + 20)"
  proof -
    have "minalign b dvd minalign b3" "builder_ok b3"
      using minalign_dvd [of b 8] b(1) ok2 by (auto simp: b3_def b2_def b1_def b0_def closed_def max_def)
    moreover have "vtables_ok (dat b3) (vtables b3)"
      using vtables_ok_prepend [of "dat b" "vtables b" "(le_bytes 4 (int (length xs)) @ ?c) @ q @ p"] b(1)
      unfolding d3 by (simp add: b3_def b2_def b1_def b0_def closed_def)
    ultimately show ?thesis using b(1) p q(1) lc unfolding extends_def closed_def
      by (auto simp: d3) (simp_all add: b3_def b2_def b1_def b0_def)
  qed
  moreover have "4 + dlen b2 = dlen b3" by (simp add: b3_def)
  ultimately show ?thesis by auto
qed

section \<open>The finished buffer\<close>

lemma FinishSizePrefixed_ok:
  assumes b: "closed b" "dlen b + 50 < max_size" and root: "0 < root" "root \<le> dlen b"
  shows "\<exists>b' xs d. FinishSizePrefixed root b = Inr b' \<and> Release b' = Inr d \<and> d = xs @ dat b \<and> 8 \<le> length xs \<and> length xs \<le> 20 \<and>
    d = le_bytes 4 (int (length d) - 4) @ le_bytes 4 (int (length d) - 4 - root) @ drop 8 d \<and>
    max 4 (minalign b) dvd int (length d)"
proof -
  define b0 where "b0 = TrackMinAlign 4 (b\<lparr>vtables := []\<rparr>)"
  let ?a = "max 4 (minalign b)"
  have ok: "builder_ok b0" "dat b0 = dat b" "minalign b0 = ?a" using b(1) by (simp_all add: b0_def closed_def)
  have a: "?a \<in> {1, 2, 4, 8}" "4 dvd ?a" using b(1) by (auto simp: closed_def builder_ok_def max_def)
  then have a8: "0 < ?a" "?a \<le> 8" by auto
  define p where "p = pad (dlen b + 8) ?a"
  define b1 where "b1 = grow p (TrackMinAlign ?a b0)"
  have p: "int (length p) < ?a" "(dlen b + 8 + int (length p)) mod ?a = 0"
    unfolding p_def by (rule pad_less [OF a8(1)], rule pad_aligns [OF a8(1)])
  have d1: "dlen b1 = int (length p) + dlen b" "builder_ok b1" using ok a(1) by (simp_all add: b1_def)
  have al: "dlen b1 mod 4 = 0"
  proof -
    have "4 dvd dlen b + 8 + int (length p)" using p(2) a(2) by (auto simp: dvd_eq_mod_eq_0 [symmetric] intro: dvd_trans)
    then show ?thesis using d1(1) by presburger
  qed
  let ?r = "dlen b1 - root + 4"
  have pre: "PreAlign 8 ?a b0 = Inr b1" using PreAlign_grow [OF ok(1) a(1), of 8] ok(2) b(2) a8 by (simp add: p_def b1_def)
  have "pad (dlen b1) 4 = []" using al by (simp add: pad_def zmod_zminus1_eq_if)
  then have ref: "ReferTo root b1 = Inr (?r, grow [] (TrackMinAlign 4 b1))"
    using ReferTo_grow [OF d1(2), of root] root d1(1) p(1) a8 b(2) by simp
  define b2 where "b2 = grow (le_bytes 4 ?r) (TrackMinAlign 4 b1)"
  have g: "builder_ok (TrackMinAlign 4 b1)" "grow [] (TrackMinAlign 4 b1) = TrackMinAlign 4 b1" using d1(2) grow_Nil by simp_all
  have "element 4 ?r (TrackMinAlign 4 b1) = le_bytes 4 ?r" by (rule element_aligned) (use al in simp)
  then have p1: "PushElement 4 ?r (TrackMinAlign 4 b1) = Inr (4 + dlen b1, b2)"
    using PushElement_grow [OF g(1), of 4 ?r] b(2) d1(1) p(1) a8 by (simp add: b2_def)
  have ok2: "builder_ok b2" "dlen b2 = 4 + dlen b1" "GetSize b2 = 4 + dlen b1" using g(1) by (simp_all add: b2_def)
  have "element 4 (4 + dlen b1) b2 = le_bytes 4 (4 + dlen b1)" by (rule element_aligned) (use al ok2(2) in \<open>simp add: mod_add_self1\<close>)
  then have p2: "PushElement 4 (4 + dlen b1) b2 = Inr (8 + dlen b1, grow (le_bytes 4 (4 + dlen b1)) (TrackMinAlign 4 b2))"
    using PushElement_grow [OF ok2(1), of 4] b(2) d1(1) p(1) a8 ok2(2) by simp
  define b3 where "b3 = grow (le_bytes 4 (4 + dlen b1)) (TrackMinAlign 4 b2) \<lparr>finished := True\<rparr>"
  have fin: "FinishSizePrefixed root b = Inr b3"
    using b(1) pre ref p1 p2 ok(3) g(2) ok2(3)
    by (simp add: FinishSizePrefixed_def NotNested_def assert_def closed_def builder_ok_def b0_def [symmetric] b3_def Let_def)
  let ?d = "le_bytes 4 (4 + dlen b1) @ le_bytes 4 ?r @ p @ dat b"
  have d: "dat b3 = ?d" by (simp add: b3_def b2_def b1_def ok(2))
  have "GetSize b3 = dlen b3" by (simp add: b3_def)
  then have "Release b3 = Inr ?d" using d by (simp add: Release_def assert_def) (simp add: b3_def)
  moreover have len: "int (length ?d) = 8 + dlen b1" using d1(1) by simp
  moreover have "?a dvd int (length ?d)"
  proof -
    have "8 + dlen b1 = dlen b + 8 + int (length p)" using d1(1) by simp
    then show ?thesis using p(2) len by (simp only: dvd_eq_mod_eq_0)
  qed
  moreover have "?d = le_bytes 4 (int (length ?d) - 4) @ le_bytes 4 (int (length ?d) - 4 - root) @ drop 8 ?d"
  proof -
    have "int (length ?d) - 4 = 4 + dlen b1" "int (length ?d) - 4 - root = ?r" using d1(1) by simp_all
    then show ?thesis by (simp add: algebra_simps)
  qed
  moreover have "?d = (le_bytes 4 (4 + dlen b1) @ le_bytes 4 ?r @ p) @ dat b" "length (le_bytes 4 (4 + dlen b1) @ le_bytes 4 ?r @ p) \<le> 20"
    "8 \<le> length (le_bytes 4 (4 + dlen b1) @ le_bytes 4 ?r @ p)"
    using p(1) a8 by simp_all
  ultimately show ?thesis using fin by metis
qed

end
