(* ===== verification/Flat_Access.thy ===== *)
theory Flat_Access
  imports Flat_Builder
begin

text \<open>
  Reading back what the builder has written: on a finished buffer the verifier accepts every
  table that was built, and each accessor returns the value the field was given.
\<close>

text \<open>A finished buffer: its length is a multiple of the alignment it was built with.\<close>

definition final :: "byte list \<Rightarrow> int \<Rightarrow> bool" where
  "final d a \<longleftrightarrow> a dvd int (length d) \<and> 4 dvd a \<and> 12 \<le> length d \<and> int (length d) + 100 < max_size"

lemma final_mod:
  assumes "final d a" "w dvd a" "off mod w = 0"
  shows "(int (length d) - off) mod w = 0"
proof -
  have "w dvd int (length d)" using assms(1,2) dvd_trans unfolding final_def by blast
  moreover have "w dvd off" using assms(3) by (simp add: dvd_eq_mod_eq_0)
  ultimately show ?thesis using dvd_diff by (simp add: dvd_eq_mod_eq_0 [symmetric])
qed

lemma final_mod2:
  assumes "final d a" "even off"
  shows "(int (length d) - off) mod 2 = 0"
proof (rule final_mod [OF assms(1)])
  show "2 dvd a" using assms(1) dvd_trans [of 2 4 a] by (simp add: final_def)
qed (use assms(2) in presburger)

lemma final_mod4: "final d a \<Longrightarrow> off mod 4 = 0 \<Longrightarrow> (int (length d) - off) mod 4 = 0"
  by (rule final_mod) (auto simp: final_def)

lemma bytes_at_VerifyRange:
  assumes "bytes_at d off bs" "0 \<le> i" "i + n \<le> int (length bs)" "n < int (length d)"
  shows "VerifyRange d (int (length d) - off + i) n"
  using bytes_at_le [OF assms(1)] assms by (simp add: VerifyRange_def)

section \<open>Tables\<close>

lemma table_vtable:
  assumes f: "final d a" and at: "bytes_at d loc (le_bytes 4 (vo - loc))" "bytes_at d vo vt"
  shows "ReadScalar_i32 d (int (length d) - loc) = Inr (vo - loc)"
    and "GetVTable d (int (length d) - loc) = Inr (int (length d) - vo)"
proof -
  have b: "4 \<le> loc" "loc \<le> int (length d)" "0 \<le> vo" "vo \<le> int (length d)"
    using bytes_at_le [OF at(1)] bytes_at_le [OF at(2)] by simp_all
  have "to_int32 ((vo - loc) mod 2 ^ 32) = to_int32 (vo - loc)" by (simp add: to_int32_def mod_add_left_eq)
  also have "... = vo - loc" using b f by (intro to_int32_id) (auto simp: final_def max_size_def)
  finally show r: "ReadScalar_i32 d (int (length d) - loc) = Inr (vo - loc)"
    using bytes_at_scalar [OF at(1)] by (simp add: ReadScalar_i32_def)
  then show "GetVTable d (int (length d) - loc) = Inr (int (length d) - vo)" by (simp add: GetVTable_def)
qed

text \<open>The lookup of a field finds it, or finds that it is absent.\<close>

lemma table_field:
  assumes f: "final d a" and t: "table_at d a loc vals" "(fid, val) \<in> set vals" and fid: "even fid" "4 \<le> fid"
  obtains o1 where "GetOptionalFieldOffset d (int (length d) - loc) fid = Inr (case o1 of None \<Rightarrow> 0 | Some off \<Rightarrow> loc - off)"
    "field_is d a o1 val" "\<forall>off. o1 = Some off \<longrightarrow> off \<noteq> loc"
proof -
  obtain vo vt F where at: "bytes_at d loc (le_bytes 4 (vo - loc))" "bytes_at d vo vt" "vtable_for vt F"
    "field_is d a (map_option (\<lambda>x. loc - x) (F fid)) val" using t by (fastforce simp: table_at_def)
  have vt: "4 \<le> length vt" "even (length vt)" "ReadScalar vt 0 2 = Inr (int (length vt))"
    "\<And>f x. F f = Some x \<Longrightarrow> f < int (length vt) \<and> x \<noteq> 0" using at(3) by (auto simp: vtable_for_def)
  have n: "ReadScalar d (int (length d) - vo) 2 = Inr (int (length vt))"
    using bytes_at_ReadScalar [OF at(2), of 0 2] vt by simp
  have "GetOptionalFieldOffset d (int (length d) - loc) fid = Inr (case F fid of None \<Rightarrow> 0 | Some x \<Rightarrow> x)"
  proof (cases "fid < int (length vt)")
    case True
    then have "fid + 2 \<le> int (length vt)" using fid vt(2) by presburger
    then have "ReadScalar d (int (length d) - vo + fid) 2 = Inr (case F fid of None \<Rightarrow> 0 | Some x \<Rightarrow> x)"
      using bytes_at_ReadScalar [OF at(2), of fid 2] at(3) True fid by (simp add: vtable_for_def)
    then show ?thesis using table_vtable(2) [OF f at(1,2)] n True by (simp add: GetOptionalFieldOffset_def)
  next
    case False
    then have "F fid = None" using vt(4) [of fid] by fastforce
    then show ?thesis using table_vtable(2) [OF f at(1,2)] n False by (simp add: GetOptionalFieldOffset_def)
  qed
  moreover have "\<forall>off. map_option (\<lambda>x. loc - x) (F fid) = Some off \<longrightarrow> off \<noteq> loc" using vt(4) by auto
  ultimately show ?thesis using at(4) by (intro that [of "map_option (\<lambda>x. loc - x) (F fid)"]) (simp_all split: option.splits)
qed

lemma table_VerifyTableStart:
  assumes f: "final d a" and t: "table_at d a loc vals" and v: "depth v < 64" "num_tables v < 1000000"
  shows "VerifyTableStart d (int (length d) - loc) v = Inr (True, v\<lparr>depth := depth v + 1, num_tables := num_tables v + 1\<rparr>)"
proof -
  obtain vo vt F where at: "bytes_at d loc (le_bytes 4 (vo - loc))" "bytes_at d vo vt" "vtable_for vt F" "even vo" "loc mod 4 = 0"
    "int (length vt) < int (length d)" using t by (auto simp: table_at_def)
  have vt: "4 \<le> length vt" "even (length vt)" "ReadScalar vt 0 2 = Inr (int (length vt))" using at(3) by (auto simp: vtable_for_def)
  have n: "ReadScalar d (int (length d) - vo) 2 = Inr (int (length vt))"
    using bytes_at_ReadScalar [OF at(2), of 0 2] vt by simp
  have L: "12 \<le> length d" "int (length d) < 2 ^ 31" using f by (auto simp: final_def max_size_def)
  have vo: "vo \<le> int (length d)" "int (length vt) \<le> vo" using bytes_at_le [OF at(2)] by simp_all
  have sz: "size_t (int (length d) - vo) = int (length d) - vo" using vo L by (simp add: size_t_def)
  have "VerifyScalar d (int (length d) - loc) 4"
    using final_mod4 [OF f at(5)] bytes_at_VerifyRange [OF at(1), of 0 4] L by (simp add: VerifyScalar_def VerifyAlignment_def)
  moreover have "VerifyScalar d (int (length d) - vo) 2"
    using final_mod2 [OF f at(4)] bytes_at_VerifyRange [OF at(2), of 0 2] vt L by (simp add: VerifyScalar_def VerifyAlignment_def)
  moreover have "VerifyRange d (int (length d) - vo) (int (length vt))"
    using bytes_at_VerifyRange [OF at(2), of 0 "int (length vt)"] at(6) by simp
  ultimately show ?thesis
    using table_vtable(1) [OF f at(1,2)] n v vt(2)
    by (simp add: VerifyTableStart_def Let_def sz VerifyComplexity_def VerifyAlignment_def)
qed

section \<open>Scalars\<close>

lemma stored_read:
  assumes "bytes_at d off (le_bytes w v)"
  shows "ReadScalar d (int (length d) - loc + (loc - off)) (int w) = Inr (v mod 256 ^ w)"
proof -
  have "int (length d) - loc + (loc - off) = int (length d) - off" by simp
  then show ?thesis using bytes_at_scalar [OF assms] by (simp only:)
qed

lemma scalar_passes:
  assumes f: "final d a" and t: "table_at d a loc vals" "(fid, Scalar w v) \<in> set vals" and fid: "even fid" "4 \<le> fid"
    and w: "al dvd int w" "int w < 12"
  shows "VerifyField d (int (length d) - loc) (int w) fid al = Inr True"
proof -
  obtain o1 where o1: "GetOptionalFieldOffset d (int (length d) - loc) fid = Inr (case o1 of None \<Rightarrow> 0 | Some off \<Rightarrow> loc - off)"
    "field_is d a o1 (Scalar w v)" using table_field [OF f t fid] by metis
  show ?thesis
  proof (cases o1)
    case (Some off)
    have L: "12 \<le> length d" using f by (simp add: final_def)
    have p: "int (length d) - loc + (loc - off) = int (length d) - off" by simp
    have "(int (length d) - off) mod al = 0"
      using o1(2) Some w(1) by (intro final_mod [OF f]) (auto simp: dvd_eq_mod_eq_0 [symmetric] intro: dvd_trans)
    moreover have "VerifyRange d (int (length d) - off) (int w)"
      using bytes_at_VerifyRange [of d off "le_bytes w v" 0 "int w"] o1(2) Some w(2) L by simp
    ultimately show ?thesis using o1(1) Some by (simp add: VerifyField_def Let_def VerifyAlignment_def)
  qed (use o1 in \<open>simp add: VerifyField_def\<close>)
qed

lemma scalar_GetField:
  assumes f: "final d a" and t: "table_at d a loc vals" "(fid, Scalar w v) \<in> set vals" and fid: "even fid" "4 \<le> fid"
    and rd: "\<And>p. ReadScalar d p (int w) = Inr (v mod 256 ^ w) \<Longrightarrow> read d p = Inr x" and x: "v = 0 \<Longrightarrow> x = def"
  shows "GetField read d (int (length d) - loc) fid def = Inr x"
proof -
  obtain o1 where o1: "GetOptionalFieldOffset d (int (length d) - loc) fid = Inr (case o1 of None \<Rightarrow> 0 | Some off \<Rightarrow> loc - off)"
    "field_is d a o1 (Scalar w v)" "\<forall>off. o1 = Some off \<longrightarrow> off \<noteq> loc" using table_field [OF f t fid] by metis
  show ?thesis
  proof (cases o1)
    case (Some off)
    then have "read d (int (length d) - loc + (loc - off)) = Inr x" using rd stored_read [of d off w v loc] o1(2) by simp
    then show ?thesis using o1 Some by (simp add: GetField_def)
  qed (use o1 x in \<open>simp add: GetField_def\<close>)
qed

definition int32_ok :: "int \<Rightarrow> bool" where
  "int32_ok v \<longleftrightarrow> - (2 ^ 31) \<le> v \<and> v < 2 ^ 31"

definition int64_ok :: "int \<Rightarrow> bool" where
  "int64_ok v \<longleftrightarrow> - (2 ^ 63) \<le> v \<and> v < 2 ^ 63"

lemma to_int32_mod: "int32_ok v \<Longrightarrow> to_int32 (v mod 256 ^ 4) = v"
  using to_int32_id [of v] by (simp add: int32_ok_def to_int32_def mod_add_left_eq)

lemma to_int64_mod_id: "int64_ok v \<Longrightarrow> to_int64 (v mod 256 ^ 8) = v"
  using to_int64_id [of v] by (simp add: int64_ok_def to_int64_def mod_add_left_eq)

lemma i32_reads:
  assumes "final d a" "table_at d a loc vals" "(fid, Scalar 4 v) \<in> set vals" "even fid" "4 \<le> fid" "int32_ok v"
  shows "field_i32 d (int (length d) - loc) fid = Inr v"
  by (rule scalar_GetField [OF assms(1-5)]) (use to_int32_mod [OF assms(6)] in \<open>simp_all add: ReadScalar_i32_def\<close>)

lemma i64_reads:
  assumes "final d a" "table_at d a loc vals" "(fid, Scalar 8 v) \<in> set vals" "even fid" "4 \<le> fid" "int64_ok v"
  shows "field_i64 d (int (length d) - loc) fid = Inr v"
  by (rule scalar_GetField [OF assms(1-5)]) (use to_int64_mod_id [OF assms(6)] in \<open>simp_all add: ReadScalar_i64_def\<close>)

lemma bool_reads:
  assumes "final d a" "table_at d a loc vals" "(fid, Scalar 1 (of_bool b)) \<in> set vals" "even fid" "4 \<le> fid"
  shows "field_bool d (int (length d) - loc) fid = Inr b"
  using scalar_GetField [OF assms, of "\<lambda>b p. ReadScalar b p 1" "of_bool b" 0] by (simp add: field_bool_def)

section \<open>References\<close>

lemma ref_passes:
  assumes f: "final d a" and t: "table_at d a loc vals" "(fid, Ref n P) \<in> set vals" and fid: "even fid" "4 \<le> fid"
    and P: "\<And>off. P d a off \<Longrightarrow> 0 < off"
  obtains (Null) "n" "VerifyOffset d (int (length d) - loc) fid = Inr True" "GetPointer d (int (length d) - loc) fid = Inr None"
  | (Ref) off where "P d a off" "off < int (length d)" "VerifyOffset d (int (length d) - loc) fid = Inr True"
      "GetPointer d (int (length d) - loc) fid = Inr (Some (int (length d) - off))"
proof -
  obtain o1 where o1: "GetOptionalFieldOffset d (int (length d) - loc) fid = Inr (case o1 of None \<Rightarrow> 0 | Some off \<Rightarrow> loc - off)"
    "field_is d a o1 (Ref n P)" "\<forall>off. o1 = Some off \<longrightarrow> off \<noteq> loc" using table_field [OF f t fid] by metis
  show ?thesis
  proof (cases o1)
    case None
    show ?thesis by (rule Null) (use o1 None in \<open>simp_all add: VerifyOffset_def GetPointer_def\<close>)
  next
    case (Some off)
    then obtain u where u: "bytes_at d off (le_bytes 4 u)" "off mod 4 = 0" "0 < u" "u < 2 ^ 31" "P d a (off - u)" using o1(2) by auto
    have L: "12 \<le> length d" using f by (simp add: final_def)
    have p: "int (length d) - loc + (loc - off) = int (length d) - off" by simp
    have r: "ReadScalar d (int (length d) - off) 4 = Inr u" using bytes_at_scalar [OF u(1)] u(3,4) by simp
    have le: "off \<le> int (length d)" using bytes_at_le [OF u(1)] by simp
    have s: "VerifyScalar d (int (length d) - off) 4"
      using final_mod4 [OF f u(2)] bytes_at_VerifyRange [OF u(1), of 0 4] L by (simp add: VerifyScalar_def VerifyAlignment_def)
    have "0 < off - u" by (rule P [OF u(5)])
    then have "VerifyOffsetAt d (int (length d) - off) = Inr u"
      using s r u(3,4) L by (simp add: VerifyOffsetAt_def to_int32_small VerifyRange_def)
    then have "VerifyOffset d (int (length d) - loc) fid = Inr True" using o1 Some u(3) by (simp add: VerifyOffset_def p)
    moreover have "GetPointer d (int (length d) - loc) fid = Inr (Some (int (length d) - (off - u)))"
      using o1 Some r by (simp add: GetPointer_def p)
    ultimately show ?thesis using u(3,5) le by (intro Ref [of "off - u"]) simp_all
  qed
qed

section \<open>Strings and vectors\<close>

lemma char_of_of_char: "char_of (unat (of_char c :: byte)) = c"
proof -
  have "(of_char c :: byte) = of_nat (of_char c)" by (simp add: of_nat_of_char)
  then have "unat (of_char c :: byte) = of_char c" by (simp only: unat_of_nat) simp
  then show ?thesis by simp
qed

lemma vector_start:
  assumes f: "final d a" and at: "bytes_at d off (le_bytes 4 (int n) @ bs)" "off mod 4 = 0" "off < int (length d)"
    and k: "int (length bs) \<ge> k * int n" "0 < k" "int n < max_size div k"
  shows "ReadScalar d (int (length d) - off) 4 = Inr (int n)"
    and "VerifyVectorOrString d (int (length d) - off) k = Inr (True, int (length d) - off + (4 + k * int n))"
proof -
  have L: "12 \<le> length d" using f by (simp add: final_def)
  have le: "4 + int (length bs) \<le> off" "off \<le> int (length d)" using bytes_at_le [OF at(1)] by simp_all
  have n0: "int n \<le> int (length bs)" using k mult_right_mono [of 1 k "int n"] by simp
  have "int n < 2 ^ 32" using n0 le f by (simp add: final_def max_size_def)
  then show r: "ReadScalar d (int (length d) - off) 4 = Inr (int n)"
    using bytes_at_ReadScalar [OF at(1), of 0 4] ReadScalar_head [of 0 4 "le_bytes 4 (int n)" bs] ReadScalar_le_bytes [of 4 "int n"] by simp
  have "VerifyScalar d (int (length d) - off) 4"
    using final_mod4 [OF f at(2)] bytes_at_VerifyRange [OF at(1), of 0 4] L by (simp add: VerifyScalar_def VerifyAlignment_def)
  moreover have "VerifyRange d (int (length d) - off) (4 + k * int n)"
    using bytes_at_VerifyRange [OF at(1), of 0 "4 + k * int n"] k(1) le at(3) by simp
  ultimately show "VerifyVectorOrString d (int (length d) - off) k = Inr (True, int (length d) - off + (4 + k * int n))"
    using r k(3) by (simp add: VerifyVectorOrString_def Let_def)
qed

lemma str_at_reads:
  assumes f: "final d a" and at: "str_at s d a off" "off < int (length d)"
  shows "VerifyString d (Some (int (length d) - off)) = Inr True" "String_str d (int (length d) - off) = Inr s"
proof -
  let ?n = "length s" and ?bs = "map of_char s @ [0 :: byte]"
  have b: "bytes_at d off (le_bytes 4 (int ?n) @ ?bs)" "off mod 4 = 0" using at by (simp_all add: str_at_def)
  have le: "4 + int ?n + 1 \<le> off" using bytes_at_le [OF b(1)] by simp
  have n: "int ?n < max_size div 1" using le at(2) f by (simp add: final_def)
  note v = vector_start [OF f b(1) b(2) at(2), of 1, simplified, OF n [simplified]]
  have L: "12 \<le> length d" using f by (simp add: final_def)
  have p: "int (length d) - off + (4 + int ?n) = int (length d) - off + (4 + int ?n)" by simp
  have "VerifyRange d (int (length d) - off + (4 + int ?n)) 1"
    using bytes_at_VerifyRange [OF b(1), of "4 + int ?n" 1] L by simp
  moreover have "ReadScalar d (int (length d) - off + (4 + int ?n)) 1 = Inr 0"
    using bytes_at_ReadScalar [OF b(1), of "4 + int ?n" 1]
    by (simp add: ReadScalar_def mem_read_def nat_add_distrib le_value_def)
  ultimately show "VerifyString d (Some (int (length d) - off)) = Inr True" using v(2) by (simp add: VerifyString_def)
  have "mem_read d (int (length d) - off + 4) (int ?n) = Inr (map of_char s)"
    using bytes_at_read [OF b(1), of 4 "int ?n"] by (simp add: mem_read_def)
  then show "String_str d (int (length d) - off) = Inr s"
    using v(1) char_of_of_char by (simp add: String_str_def comp_def)
qed

lemma Vector_elems_reads:
  assumes "bytes_at d off (concat (map (le_bytes 8) xs))" "\<forall>x \<in> set xs. int64_ok x"
  shows "Vector_elems d (int (length d) - off) (length xs) = Inr xs"
  using assms
proof (induction xs arbitrary: off)
  case (Cons x xs)
  obtain pre post where d: "d = pre @ (le_bytes 8 x @ concat (map (le_bytes 8) xs)) @ post"
    "off = int (length (le_bytes 8 x @ concat (map (le_bytes 8) xs))) + int (length post)" using Cons.prems(1) by (auto simp: bytes_at_def)
  have "bytes_at d off (le_bytes 8 x)" unfolding bytes_at_def
    by (rule exI [of _ pre], rule exI [of _ "concat (map (le_bytes 8) xs) @ post"]) (simp add: d)
  then have "ReadScalar_i64 d (int (length d) - off) = Inr x"
    using bytes_at_scalar [of d off 8 x] to_int64_mod_id [of x] Cons.prems(2) by (simp add: ReadScalar_i64_def)
  moreover have "bytes_at d (off - 8) (concat (map (le_bytes 8) xs))" unfolding bytes_at_def
    by (rule exI [of _ "pre @ le_bytes 8 x"], rule exI [of _ post]) (simp add: d)
  then have "Vector_elems d (int (length d) - (off - 8)) (length xs) = Inr xs" using Cons.IH Cons.prems(2) by simp
  ultimately show ?case by (simp add: algebra_simps)
qed simp

lemma vec_at_reads:
  assumes f: "final d a" and at: "vec_at xs d a off" "off < int (length d)" and xs: "\<forall>x \<in> set xs. int64_ok x"
  shows "VerifyVector d 8 (Some (int (length d) - off)) = Inr True" "Vector_i64 d (int (length d) - off) = Inr xs"
proof -
  let ?bs = "concat (map (le_bytes 8) xs)"
  have b: "bytes_at d off (le_bytes 4 (int (length xs)) @ ?bs)" "off mod 4 = 0" using at by (simp_all add: vec_at_def)
  have len: "int (length ?bs) = 8 * int (length xs)" by (simp add: length_concat_le_bytes)
  have le: "4 + 8 * int (length xs) \<le> off" using bytes_at_le [OF b(1)] len by simp
  have n: "int (length xs) < max_size div 8" using le at(2) f by (simp add: final_def max_size_def)
  note v = vector_start [OF f b(1) b(2) at(2), of 8, OF _ _ n]
  show "VerifyVector d 8 (Some (int (length d) - off)) = Inr True" using v(2) len by (simp add: VerifyVector_def)
  have "bytes_at d (off - 4) ?bs"
  proof -
    obtain pre post where "d = pre @ (le_bytes 4 (int (length xs)) @ ?bs) @ post"
      "off = int (length (le_bytes 4 (int (length xs)) @ ?bs)) + int (length post)" using b(1) by (auto simp: bytes_at_def)
    then show ?thesis unfolding bytes_at_def by (intro exI [of _ "pre @ le_bytes 4 (int (length xs))"] exI [of _ post]) simp
  qed
  from Vector_elems_reads [OF this xs] show "Vector_i64 d (int (length d) - off) = Inr xs"
    using v(1) len by (simp add: Vector_i64_def algebra_simps)
qed

section \<open>Checks that pass\<close>

definition passes :: "check list \<Rightarrow> bool" where
  "passes cs \<longleftrightarrow> (\<forall>v. all_checks cs v = Inr (True, v))"

lemma passes_Nil: "passes []"
  by (simp add: passes_def)

lemma passes_append: "passes cs \<Longrightarrow> passes ds \<Longrightarrow> passes (cs @ ds)"
  by (simp add: passes_def all_checks_append)

lemma passes_scalar:
  assumes "final d a" "table_at d a loc vals" "(fid, Scalar w v) \<in> set vals" "even fid" "4 \<le> fid" "al dvd int w" "int w < 12"
    and "wi = int w"
  shows "passes (scalar_check d (int (length d) - loc) wi fid al)"
  using scalar_passes [OF assms(1-7)] assms(8) by (simp add: passes_def scalar_check_def pure_check_def)

abbreviation StrF :: "string \<Rightarrow> fval" where
  "StrF s \<equiv> Ref (s = []) (str_at s)"

abbreviation VecF :: "int64 list \<Rightarrow> fval" where
  "VecF xs \<equiv> Ref (xs = []) (vec_at xs)"

lemma string_field:
  assumes f: "final d a" and t: "table_at d a loc vals" "(fid, StrF s) \<in> set vals" and fid: "even fid" "4 \<le> fid"
  shows "passes (string_check d (int (length d) - loc) fid)" "field_string d (int (length d) - loc) fid = Inr s"
proof -
  have "0 < off" if "str_at s d a off" for off using that by (auto simp: str_at_def dest: bytes_at_le)
  then have "passes (string_check d (int (length d) - loc) fid) \<and> field_string d (int (length d) - loc) fid = Inr s"
  proof (cases rule: ref_passes [OF f t fid])
    case 2
    then show ?thesis by (simp add: passes_def string_check_def pure_check_def field_string_def VerifyString_def)
  next
    case (3 off)
    then show ?thesis using str_at_reads [OF f 3(1,2)]
      by (simp add: passes_def string_check_def pure_check_def field_string_def)
  qed
  then show "passes (string_check d (int (length d) - loc) fid)" "field_string d (int (length d) - loc) fid = Inr s" by simp_all
qed

lemma vector_field:
  assumes f: "final d a" and t: "table_at d a loc vals" "(fid, VecF xs) \<in> set vals" and fid: "even fid" "4 \<le> fid"
    and xs: "\<forall>x \<in> set xs. int64_ok x"
  shows "passes (vector_check d (int (length d) - loc) fid)" "field_vector d (int (length d) - loc) fid = Inr xs"
proof -
  have "0 < off" if "vec_at xs d a off" for off using that by (auto simp: vec_at_def dest: bytes_at_le)
  then have "passes (vector_check d (int (length d) - loc) fid) \<and> field_vector d (int (length d) - loc) fid = Inr xs"
  proof (cases rule: ref_passes [OF f t fid])
    case 2
    then show ?thesis by (simp add: passes_def vector_check_def pure_check_def field_vector_def VerifyVector_def)
  next
    case (3 off)
    then show ?thesis using vec_at_reads [OF f 3(1,2) xs]
      by (simp add: passes_def vector_check_def pure_check_def field_vector_def)
  qed
  then show "passes (vector_check d (int (length d) - loc) fid)" "field_vector d (int (length d) - loc) fid = Inr xs" by simp_all
qed

lemma table_check_pass:
  assumes "final d a" "table_at d a loc vals" "depth v < 64" "num_tables v < 1000000"
    and "all_checks cs (v\<lparr>depth := depth v + 1, num_tables := num_tables v + 1\<rparr>) = Inr (True, v')"
  shows "table_check d (int (length d) - loc) cs v = Inr (True, v'\<lparr>depth := depth v' - 1\<rparr>)"
  using table_VerifyTableStart [OF assms(1-4)] assms(5) by (simp add: table_check_def all_checks_append Verifier_EndTable_def)

lemma table_check_passes:
  assumes "final d a" "table_at d a loc vals" "depth v < 64" "num_tables v < 1000000" "passes cs"
  shows "table_check d (int (length d) - loc) cs v = Inr (True, v\<lparr>num_tables := num_tables v + 1\<rparr>)"
  using table_check_pass [OF assms(1-4), of cs] assms(5) by (simp add: passes_def)

text \<open>
  A table read after its checks: \<open>decodes cs r x\<close> says that the checks pass and the reader gives \<open>x\<close>.
  The rules follow the fields.
\<close>

definition decodes :: "check list \<Rightarrow> 'a result \<Rightarrow> 'a \<Rightarrow> bool" where
  "decodes cs r x \<longleftrightarrow> passes cs \<and> r = Inr x"

lemma decodes_Nil: "decodes [] (Inr x) x"
  by (simp add: decodes_def passes_Nil)

lemma decodes_i32:
  assumes "final d a" "table_at d a loc vals" "(fid, Scalar 4 v) \<in> set vals" "even fid" "4 \<le> fid" "int32_ok v" "al dvd 4"
    and "decodes cs (k v) x"
  shows "decodes (scalar_check d (int (length d) - loc) 4 fid al @ cs) (ebind (field_i32 d (int (length d) - loc) fid) k) x"
proof -
  have "passes (scalar_check d (int (length d) - loc) 4 fid al)"
    by (rule passes_scalar [OF assms(1-5)]) (use assms(7) in simp_all)
  with assms(8) i32_reads [OF assms(1-6)] show ?thesis by (simp only: decodes_def passes_append ebind_simps)
qed

lemma decodes_i64:
  assumes "final d a" "table_at d a loc vals" "(fid, Scalar 8 v) \<in> set vals" "even fid" "4 \<le> fid" "int64_ok v" "al dvd 8"
    and "decodes cs (k v) x"
  shows "decodes (scalar_check d (int (length d) - loc) 8 fid al @ cs) (ebind (field_i64 d (int (length d) - loc) fid) k) x"
proof -
  have "passes (scalar_check d (int (length d) - loc) 8 fid al)"
    by (rule passes_scalar [OF assms(1-5)]) (use assms(7) in simp_all)
  with assms(8) i64_reads [OF assms(1-6)] show ?thesis by (simp only: decodes_def passes_append ebind_simps)
qed

lemma decodes_bool:
  assumes "final d a" "table_at d a loc vals" "(fid, Scalar 1 (of_bool b)) \<in> set vals" "even fid" "4 \<le> fid" "al dvd 1"
    and "decodes cs (k b) x"
  shows "decodes (scalar_check d (int (length d) - loc) 1 fid al @ cs) (ebind (field_bool d (int (length d) - loc) fid) k) x"
proof -
  have "passes (scalar_check d (int (length d) - loc) 1 fid al)"
    by (rule passes_scalar [OF assms(1-5)]) (use assms(6) in simp_all)
  with assms(7) bool_reads [OF assms(1-5)] show ?thesis by (simp only: decodes_def passes_append ebind_simps)
qed

lemma decodes_string:
  assumes "final d a" "table_at d a loc vals" "(fid, StrF s) \<in> set vals" "even fid" "4 \<le> fid" "decodes cs (k s) x"
  shows "decodes (string_check d (int (length d) - loc) fid @ cs) (ebind (field_string d (int (length d) - loc) fid) k) x"
  using assms(6) string_field [OF assms(1-5)] by (simp add: decodes_def passes_append)

lemma decodes_table:
  assumes "final d a" "table_at d a loc vals" "depth v < 64" "num_tables v < 1000000" "decodes (cs @ []) r x"
  shows "table_check d (int (length d) - loc) cs v = Inr (True, v\<lparr>num_tables := num_tables v + 1\<rparr>) \<and>
    ebind r (\<lambda>x. Inr (Some x)) = Inr (Some x)"
  using table_check_passes [OF assms(1-4), of cs] assms(5) by (simp add: decodes_def)

section \<open>The root\<close>

lemma root_reads:
  assumes f: "final d a" and d: "d = le_bytes 4 (int (length d) - 4) @ le_bytes 4 (int (length d) - 4 - root) @ drop 8 d"
    and root: "0 < root" "root \<le> int (length d) - 8"
    and T: "verify_T (int (length d) - root) v = Inr (True, v')"
  shows "VerifySizePrefixedBuffer verify_T d v = Inr (True, v')" "GetSizePrefixedRoot d = Inr (int (length d) - root)"
proof -
  let ?n = "int (length d)"
  have L: "12 \<le> ?n" "?n < 2 ^ 31" using f by (auto simp: final_def max_size_def)
  have r0: "ReadScalar d 0 4 = Inr (?n - 4)"
    using ReadScalar_head [of 0 4 "le_bytes 4 (?n - 4)" "le_bytes 4 (?n - 4 - root) @ drop 8 d"] ReadScalar_le_bytes [of 4 "?n - 4"] L
    by (subst d) simp
  have r4: "ReadScalar d 4 4 = Inr (?n - 4 - root)"
    using mem_read_append [of 0 4 "le_bytes 4 (?n - 4 - root)" "le_bytes 4 (?n - 4)" "drop 8 d"] ReadScalar_le_bytes [of 4 "?n - 4 - root"] root L
    unfolding ReadScalar_def by (subst d) simp
  show "GetSizePrefixedRoot d = Inr (?n - root)" using r4 by (simp add: GetSizePrefixedRoot_def GetRoot_def)
  have "VerifyOffsetAt d 4 = Inr (?n - 4 - root)"
    using r4 root L by (simp add: VerifyOffsetAt_def VerifyScalar_def VerifyAlignment_def VerifyRange_def to_int32_small)
  then have "VerifyBufferFromStart verify_T d 4 v = Inr (True, v')" using L root T by (simp add: VerifyBufferFromStart_def)
  then show "VerifySizePrefixedBuffer verify_T d v = Inr (True, v')"
    using r0 L by (simp add: VerifySizePrefixedBuffer_def VerifyScalar_def VerifyAlignment_def VerifyRange_def)
qed

end
