(* ===== verification/Protocol_Pack.thy ===== *)
theory Protocol_Pack
  imports Protocol_Codec Flat_Access
begin

text \<open>
  The generated code of the messages (flatbuffers/ProtocoID.h) on the writing side: for each table
  its builder (\<^verbatim>\<open>Create\<close> with the table's fields) and its \<^verbatim>\<open>Pack\<close> from the native struct,
  \<^verbatim>\<open>MessageIDUnion::Pack\<close> over the message's type, \<^verbatim>\<open>MessageHolder::Pack\<close> around it; then the buffer
  \<^verbatim>\<open>NetworkSession::Send\<close> makes of a message. The receiver decodes that buffer to the message.
\<close>

section \<open>The tables\<close>

text \<open>\<^verbatim>\<open>_o->s.empty() ? 0 : _fbb.CreateString(_o->s)\<close>\<close>

definition string_offset :: "string \<Rightarrow> FlatBufferBuilder \<Rightarrow> (int \<times> FlatBufferBuilder) result" where
  "string_offset s b = (if s = [] then Inr (0, b) else CreateString s b)"

definition CreateF_GUEST_MESSAGE_MIN :: "FlatBufferBuilder \<Rightarrow> (int \<times> FlatBufferBuilder) result" where
  "CreateF_GUEST_MESSAGE_MIN =
     build_table []"

definition Pack_F_GUEST_MESSAGE_MIN :: "native option \<Rightarrow> FlatBufferBuilder \<Rightarrow> (int \<times> FlatBufferBuilder) result" where
  "Pack_F_GUEST_MESSAGE_MIN o1 b = CreateF_GUEST_MESSAGE_MIN b"

definition CreateFConnectReq :: "int \<Rightarrow> int \<Rightarrow> int \<Rightarrow> FlatBufferBuilder \<Rightarrow> (int \<times> FlatBufferBuilder) result" where
  "CreateFConnectReq sq ad po =
     build_table [AddElement 4 8 po 0, AddOffset 6 ad, AddElement 4 4 sq 0]"

definition Pack_FConnectReq :: "native \<Rightarrow> FlatBufferBuilder \<Rightarrow> (int \<times> FlatBufferBuilder) result" where
  "Pack_FConnectReq o1 b =
     ebind (string_offset (ip o1) b) (\<lambda>(ad, b).
     CreateFConnectReq (seq o1) ad (port o1) b)"

definition CreateFConnectAck :: "int \<Rightarrow> int \<Rightarrow> FlatBufferBuilder \<Rightarrow> (int \<times> FlatBufferBuilder) result" where
  "CreateFConnectAck sq rs =
     build_table [AddElement 4 6 rs 0, AddElement 4 4 sq 0]"

definition Pack_FConnectAck :: "native \<Rightarrow> FlatBufferBuilder \<Rightarrow> (int \<times> FlatBufferBuilder) result" where
  "Pack_FConnectAck o1 b =
     CreateFConnectAck (seq o1) (eresult o1) b"

definition CreateFAcceptAck :: "int \<Rightarrow> int \<Rightarrow> int \<Rightarrow> int \<Rightarrow> FlatBufferBuilder \<Rightarrow> (int \<times> FlatBufferBuilder) result" where
  "CreateFAcceptAck sq rs ad po =
     build_table [AddElement 4 10 po 0, AddOffset 8 ad, AddElement 4 6 rs 0, AddElement 4 4 sq 0]"

definition Pack_FAcceptAck :: "native \<Rightarrow> FlatBufferBuilder \<Rightarrow> (int \<times> FlatBufferBuilder) result" where
  "Pack_FAcceptAck o1 b =
     ebind (string_offset (ip o1) b) (\<lambda>(ad, b).
     CreateFAcceptAck (seq o1) (eresult o1) ad (port o1) b)"

definition CreateFDisconnectReq :: "int \<Rightarrow> FlatBufferBuilder \<Rightarrow> (int \<times> FlatBufferBuilder) result" where
  "CreateFDisconnectReq sq =
     build_table [AddElement 4 4 sq 0]"

definition Pack_FDisconnectReq :: "native \<Rightarrow> FlatBufferBuilder \<Rightarrow> (int \<times> FlatBufferBuilder) result" where
  "Pack_FDisconnectReq o1 b =
     CreateFDisconnectReq (seq o1) b"

definition CreateFDisconnectAck :: "int \<Rightarrow> int \<Rightarrow> FlatBufferBuilder \<Rightarrow> (int \<times> FlatBufferBuilder) result" where
  "CreateFDisconnectAck sq rs =
     build_table [AddElement 4 6 rs 0, AddElement 4 4 sq 0]"

definition Pack_FDisconnectAck :: "native \<Rightarrow> FlatBufferBuilder \<Rightarrow> (int \<times> FlatBufferBuilder) result" where
  "Pack_FDisconnectAck o1 b =
     CreateFDisconnectAck (seq o1) (eresult o1) b"

definition CreateFAuthenticationReq :: "int \<Rightarrow> int \<Rightarrow> bool \<Rightarrow> int \<Rightarrow> FlatBufferBuilder \<Rightarrow> (int \<times> FlatBufferBuilder) result" where
  "CreateFAuthenticationReq sq tk rc ky =
     build_table [AddOffset 10 ky, AddOffset 6 tk, AddElement 4 4 sq 0, AddElement 1 8 (of_bool rc) 0]"

definition Pack_FAuthenticationReq :: "native \<Rightarrow> FlatBufferBuilder \<Rightarrow> (int \<times> FlatBufferBuilder) result" where
  "Pack_FAuthenticationReq o1 b =
     ebind (string_offset (accounttoken o1) b) (\<lambda>(tk, b).
     ebind (string_offset (connectSessionKey o1) b) (\<lambda>(ky, b).
     CreateFAuthenticationReq (seq o1) tk (reconnect o1) ky b))"

definition CreateFAuthenticationAck :: "int \<Rightarrow> int \<Rightarrow> int \<Rightarrow> FlatBufferBuilder \<Rightarrow> (int \<times> FlatBufferBuilder) result" where
  "CreateFAuthenticationAck sq rs ac =
     build_table [AddElement 8 8 ac 0, AddElement 4 6 rs 0, AddElement 4 4 sq 0]"

definition Pack_FAuthenticationAck :: "native \<Rightarrow> FlatBufferBuilder \<Rightarrow> (int \<times> FlatBufferBuilder) result" where
  "Pack_FAuthenticationAck o1 b =
     CreateFAuthenticationAck (seq o1) (eresult o1) (accountID o1) b"

definition CreateCLGS_CONNECT_REQ :: "int \<Rightarrow> int \<Rightarrow> bool \<Rightarrow> int \<Rightarrow> FlatBufferBuilder \<Rightarrow> (int \<times> FlatBufferBuilder) result" where
  "CreateCLGS_CONNECT_REQ sq tk rc ky =
     build_table [AddOffset 10 ky, AddOffset 6 tk, AddElement 4 4 sq 0, AddElement 1 8 (of_bool rc) 0]"

definition Pack_CLGS_CONNECT_REQ :: "native \<Rightarrow> FlatBufferBuilder \<Rightarrow> (int \<times> FlatBufferBuilder) result" where
  "Pack_CLGS_CONNECT_REQ o1 b =
     ebind (string_offset (accounttoken o1) b) (\<lambda>(tk, b).
     ebind (string_offset (connectSessionKey o1) b) (\<lambda>(ky, b).
     CreateCLGS_CONNECT_REQ (seq o1) tk (reconnect o1) ky b))"

definition CreateCLGS_CONNECT_ACK :: "int \<Rightarrow> int \<Rightarrow> FlatBufferBuilder \<Rightarrow> (int \<times> FlatBufferBuilder) result" where
  "CreateCLGS_CONNECT_ACK sq rs =
     build_table [AddElement 4 6 rs 0, AddElement 4 4 sq 0]"

definition Pack_CLGS_CONNECT_ACK :: "native \<Rightarrow> FlatBufferBuilder \<Rightarrow> (int \<times> FlatBufferBuilder) result" where
  "Pack_CLGS_CONNECT_ACK o1 b =
     CreateCLGS_CONNECT_ACK (seq o1) (iresult o1) b"

definition CreateCLGS_AUTHEN_REQ :: "int \<Rightarrow> int \<Rightarrow> bool \<Rightarrow> int \<Rightarrow> FlatBufferBuilder \<Rightarrow> (int \<times> FlatBufferBuilder) result" where
  "CreateCLGS_AUTHEN_REQ sq tk rc ky =
     build_table [AddOffset 10 ky, AddOffset 6 tk, AddElement 4 4 sq 0, AddElement 1 8 (of_bool rc) 0]"

definition Pack_CLGS_AUTHEN_REQ :: "native \<Rightarrow> FlatBufferBuilder \<Rightarrow> (int \<times> FlatBufferBuilder) result" where
  "Pack_CLGS_AUTHEN_REQ o1 b =
     ebind (string_offset (accounttoken o1) b) (\<lambda>(tk, b).
     ebind (string_offset (connectSessionKey o1) b) (\<lambda>(ky, b).
     CreateCLGS_AUTHEN_REQ (seq o1) tk (reconnect o1) ky b))"

definition CreateCLGS_AUTHEN_ACK :: "int \<Rightarrow> int \<Rightarrow> FlatBufferBuilder \<Rightarrow> (int \<times> FlatBufferBuilder) result" where
  "CreateCLGS_AUTHEN_ACK sq rs =
     build_table [AddElement 4 6 rs 0, AddElement 4 4 sq 0]"

definition Pack_CLGS_AUTHEN_ACK :: "native \<Rightarrow> FlatBufferBuilder \<Rightarrow> (int \<times> FlatBufferBuilder) result" where
  "Pack_CLGS_AUTHEN_ACK o1 b =
     CreateCLGS_AUTHEN_ACK (seq o1) (iresult o1) b"

definition CreateDBGS_Authentication_REQ :: "int \<Rightarrow> int \<Rightarrow> int \<Rightarrow> bool \<Rightarrow> int \<Rightarrow> FlatBufferBuilder \<Rightarrow> (int \<times> FlatBufferBuilder) result" where
  "CreateDBGS_Authentication_REQ sq si tk rc ky =
     build_table [AddOffset 12 ky, AddOffset 8 tk, AddElement 4 6 si 0, AddElement 4 4 sq 0, AddElement 1 10 (of_bool rc) 0]"

definition Pack_DBGS_Authentication_REQ :: "native \<Rightarrow> FlatBufferBuilder \<Rightarrow> (int \<times> FlatBufferBuilder) result" where
  "Pack_DBGS_Authentication_REQ o1 b =
     ebind (string_offset (accounttoken o1) b) (\<lambda>(tk, b).
     ebind (string_offset (connectSessionKey o1) b) (\<lambda>(ky, b).
     CreateDBGS_Authentication_REQ (seq o1) (sessionID o1) tk (reconnect o1) ky b))"

definition CreateF_MEMBER_MESSAGE_MAX :: "FlatBufferBuilder \<Rightarrow> (int \<times> FlatBufferBuilder) result" where
  "CreateF_MEMBER_MESSAGE_MAX =
     build_table []"

definition Pack_F_MEMBER_MESSAGE_MAX :: "native option \<Rightarrow> FlatBufferBuilder \<Rightarrow> (int \<times> FlatBufferBuilder) result" where
  "Pack_F_MEMBER_MESSAGE_MAX o1 b = CreateF_MEMBER_MESSAGE_MAX b"

section \<open>The union and the holder\<close>

text \<open>
  \<^verbatim>\<open>MessageIDUnion::Pack\<close>: the value is read as the struct of the type, except for the two messages
  without members, whose pointer is not followed.
\<close>

fun Pack_table :: "MessageID \<Rightarrow> pointer \<Rightarrow> heap \<Rightarrow> FlatBufferBuilder \<Rightarrow> (int \<times> FlatBufferBuilder) result" where
  "Pack_table NONE p h b = Inr (0, b)"
| "Pack_table F_GUEST_MESSAGE_MIN p h b = Pack_F_GUEST_MESSAGE_MIN None b"
| "Pack_table FConnectReq p h b = ebind (deref_as FConnectReq p h) (\<lambda>o1. Pack_FConnectReq o1 b)"
| "Pack_table FConnectAck p h b = ebind (deref_as FConnectAck p h) (\<lambda>o1. Pack_FConnectAck o1 b)"
| "Pack_table FAcceptAck p h b = ebind (deref_as FAcceptAck p h) (\<lambda>o1. Pack_FAcceptAck o1 b)"
| "Pack_table FDisconnectReq p h b = ebind (deref_as FDisconnectReq p h) (\<lambda>o1. Pack_FDisconnectReq o1 b)"
| "Pack_table FDisconnectAck p h b = ebind (deref_as FDisconnectAck p h) (\<lambda>o1. Pack_FDisconnectAck o1 b)"
| "Pack_table FAuthenticationReq p h b = ebind (deref_as FAuthenticationReq p h) (\<lambda>o1. Pack_FAuthenticationReq o1 b)"
| "Pack_table FAuthenticationAck p h b = ebind (deref_as FAuthenticationAck p h) (\<lambda>o1. Pack_FAuthenticationAck o1 b)"
| "Pack_table CLGS_CONNECT_REQ p h b = ebind (deref_as CLGS_CONNECT_REQ p h) (\<lambda>o1. Pack_CLGS_CONNECT_REQ o1 b)"
| "Pack_table CLGS_CONNECT_ACK p h b = ebind (deref_as CLGS_CONNECT_ACK p h) (\<lambda>o1. Pack_CLGS_CONNECT_ACK o1 b)"
| "Pack_table CLGS_AUTHEN_REQ p h b = ebind (deref_as CLGS_AUTHEN_REQ p h) (\<lambda>o1. Pack_CLGS_AUTHEN_REQ o1 b)"
| "Pack_table CLGS_AUTHEN_ACK p h b = ebind (deref_as CLGS_AUTHEN_ACK p h) (\<lambda>o1. Pack_CLGS_AUTHEN_ACK o1 b)"
| "Pack_table DBGS_Authentication_REQ p h b = ebind (deref_as DBGS_Authentication_REQ p h) (\<lambda>o1. Pack_DBGS_Authentication_REQ o1 b)"
| "Pack_table F_MEMBER_MESSAGE_MAX p h b = Pack_F_MEMBER_MESSAGE_MAX None b"

definition Union_Pack :: "MessageIDUnion \<Rightarrow> heap \<Rightarrow> FlatBufferBuilder \<Rightarrow> (int \<times> FlatBufferBuilder) result" where
  "Union_Pack u h b =
     (case switch_MessageID (utype u) of None \<Rightarrow> Inr (0, b) | Some t \<Rightarrow> Pack_table t (uvalue u) h b)"

definition CreateMessageHolder_table :: "int \<Rightarrow> int32 \<Rightarrow> int \<Rightarrow> FlatBufferBuilder \<Rightarrow> (int \<times> FlatBufferBuilder) result" where
  "CreateMessageHolder_table ids type msg = build_table [AddOffset 8 msg, AddOffset 4 ids, AddElement 4 6 type 0]"

definition MessageHolder_Pack :: "MessageHolderT \<Rightarrow> heap \<Rightarrow> FlatBufferBuilder \<Rightarrow> (int \<times> FlatBufferBuilder) result" where
  "MessageHolder_Pack holder h b =
     ebind (if accountIDs holder \<noteq> [] then CreateVector (accountIDs holder) b else Inr (0, b)) (\<lambda>(ids, b).
     ebind (Union_Pack (message holder) h b) (\<lambda>(msg, b).
     CreateMessageHolder_table ids (utype (message holder)) msg b))"

section \<open>The buffer of a message\<close>

text \<open>
  \<^verbatim>\<open>NetworkSession::Send\<close> up to the released buffer, with the destruction of the holder at its end.
\<close>

definition holder_buffer :: "MessageHolderT \<Rightarrow> heap \<Rightarrow> byte list result" where
  "holder_buffer holder h =
     ebind (MessageHolder_Pack holder h FlatBufferBuilder_new) (\<lambda>(off, fbb).
     ebind (FinishSizePrefixed off fbb) Release)"

definition Send_buffer :: "native \<Rightarrow> heap \<Rightarrow> (byte list \<times> heap) result" where
  "Send_buffer msg h =
     ebind (CreateMessageHolder msg [] h) (\<lambda>(holder, h).
     ebind (holder_buffer holder h) (\<lambda>buffer.
     ebind (MessageHolderT_delete holder h) (\<lambda>h. Inr (buffer, h))))"

section \<open>What is written\<close>

text \<open>The fields of a message's table, in the order the builder adds them.\<close>

fun native_fields :: "native \<Rightarrow> (int \<times> fval) list" where
  "native_fields F_GUEST_MESSAGE_MINT = []"
| "native_fields (FConnectReqT sq ad po) = [(8, Scalar 4 po), (6, StrF ad), (4, Scalar 4 sq)]"
| "native_fields (FConnectAckT sq rs) = [(6, Scalar 4 rs), (4, Scalar 4 sq)]"
| "native_fields (FAcceptAckT sq rs ad po) = [(10, Scalar 4 po), (8, StrF ad), (6, Scalar 4 rs), (4, Scalar 4 sq)]"
| "native_fields (FDisconnectReqT sq) = [(4, Scalar 4 sq)]"
| "native_fields (FDisconnectAckT sq rs) = [(6, Scalar 4 rs), (4, Scalar 4 sq)]"
| "native_fields (FAuthenticationReqT sq tk rc ky) = [(10, StrF ky), (6, StrF tk), (4, Scalar 4 sq), (8, Scalar 1 (of_bool rc))]"
| "native_fields (FAuthenticationAckT sq rs ac) = [(8, Scalar 8 ac), (6, Scalar 4 rs), (4, Scalar 4 sq)]"
| "native_fields (CLGS_CONNECT_REQ_T sq tk rc ky) = [(10, StrF ky), (6, StrF tk), (4, Scalar 4 sq), (8, Scalar 1 (of_bool rc))]"
| "native_fields (CLGS_CONNECT_ACK_T sq rs) = [(6, Scalar 4 rs), (4, Scalar 4 sq)]"
| "native_fields (CLGS_AUTHEN_REQT sq tk rc ky) = [(10, StrF ky), (6, StrF tk), (4, Scalar 4 sq), (8, Scalar 1 (of_bool rc))]"
| "native_fields (CLGS_AUTHEN_ACKT sq rs) = [(6, Scalar 4 rs), (4, Scalar 4 sq)]"
| "native_fields (DBGS_Authentication_REQT sq si tk rc ky) =
     [(12, StrF ky), (8, StrF tk), (6, Scalar 4 si), (4, Scalar 4 sq), (10, Scalar 1 (of_bool rc))]"
| "native_fields F_MEMBER_MESSAGE_MAXT = []"

text \<open>The characters of a message, and its integers within their C types.\<close>

fun native_length :: "native \<Rightarrow> int" where
  "native_length (FConnectReqT sq ad po) = int (length ad)"
| "native_length (FAcceptAckT sq rs ad po) = int (length ad)"
| "native_length (FAuthenticationReqT sq tk rc ky) = int (length tk) + int (length ky)"
| "native_length (CLGS_CONNECT_REQ_T sq tk rc ky) = int (length tk) + int (length ky)"
| "native_length (CLGS_AUTHEN_REQT sq tk rc ky) = int (length tk) + int (length ky)"
| "native_length (DBGS_Authentication_REQT sq si tk rc ky) = int (length tk) + int (length ky)"
| "native_length x = 0"

definition field_int_ok :: "int \<times> fval \<Rightarrow> bool" where
  "field_int_ok fv \<longleftrightarrow> (case snd fv of Scalar w v \<Rightarrow> if w = 8 then int64_ok v else int32_ok v | Ref n P \<Rightarrow> True)"

definition native_ok :: "native \<Rightarrow> bool" where
  "native_ok x \<longleftrightarrow> list_all field_int_ok (native_fields x) \<and> native_length x < 2 ^ 30"

text \<open>An object was written: the builder has grown by at most \<open>n\<close> bytes and the table is there.\<close>

definition wrote :: "(int \<times> FlatBufferBuilder) result \<Rightarrow> FlatBufferBuilder \<Rightarrow> int \<Rightarrow> (int \<times> fval) list \<Rightarrow> bool" where
  "wrote r b n vals \<longleftrightarrow> (\<exists>loc b'. r = Inr (loc, b') \<and> extends b b' n \<and> 0 < loc \<and> loc \<le> dlen b' \<and>
     table_at (dat b') (minalign b') loc vals)"

lemma string_offset_ok:
  assumes "closed b" "dlen b + int (length s) + 20 < max_size"
  shows "\<exists>off b'. string_offset s b = Inr (off, b') \<and> extends b b' (int (length s) + 10) \<and>
    ref_ok (dat b') (minalign b') (s = []) (str_at s) off"
  using CreateString_ok [OF assms] assms(1) by (auto simp: string_offset_def ref_ok_def extends_def)

lemma wrote_table:
  assumes "closed b" "dlen b + 3000 < max_size" "list_all2 (add_ok (dat b) (minalign b)) adds vals"
    "distinct (map fst vals)" "length vals < 50"
  shows "wrote (build_table adds b) b 2000 vals"
  using build_table_ok [OF assms] by (auto simp: wrote_def)

lemma wrote_string:
  assumes b: "closed b" "dlen b + int (length s) + n + 2000 < max_size" "0 \<le> n"
    and rest: "\<And>off b'. extends b b' (int (length s) + 10) \<Longrightarrow> ref_ok (dat b') (minalign b') (s = []) (str_at s) off \<Longrightarrow>
      wrote (k off b') b' n vals"
  shows "wrote (ebind (string_offset s b) (\<lambda>(off, b). k off b)) b (int (length s) + 10 + n) vals"
proof -
  obtain off b' where s: "string_offset s b = Inr (off, b')" "extends b b' (int (length s) + 10)"
    "ref_ok (dat b') (minalign b') (s = []) (str_at s) off" using string_offset_ok [OF b(1), of s] b(2,3) by auto
  from rest [OF s(2,3)] obtain loc b'' where "k off b' = Inr (loc, b'')" "extends b' b'' n" "0 < loc" "loc \<le> dlen b''"
    "table_at (dat b'') (minalign b'') loc vals" by (auto simp: wrote_def)
  then show ?thesis using s(1) extends_trans [OF s(2), of b'' n] by (auto simp: wrote_def)
qed

lemmas add_intros = AddElement_ok AddOffset_ok [OF _ _ _ str_at_stable]

lemmas pack_defs = Pack_F_GUEST_MESSAGE_MIN_def Pack_FConnectReq_def Pack_FConnectAck_def Pack_FAcceptAck_def
  Pack_FDisconnectReq_def Pack_FDisconnectAck_def Pack_FAuthenticationReq_def Pack_FAuthenticationAck_def
  Pack_CLGS_CONNECT_REQ_def Pack_CLGS_CONNECT_ACK_def Pack_CLGS_AUTHEN_REQ_def Pack_CLGS_AUTHEN_ACK_def
  Pack_DBGS_Authentication_REQ_def Pack_F_MEMBER_MESSAGE_MAX_def

lemmas create_defs = CreateF_GUEST_MESSAGE_MIN_def CreateFConnectReq_def CreateFConnectAck_def CreateFAcceptAck_def
  CreateFDisconnectReq_def CreateFDisconnectAck_def CreateFAuthenticationReq_def CreateFAuthenticationAck_def
  CreateCLGS_CONNECT_REQ_def CreateCLGS_CONNECT_ACK_def CreateCLGS_AUTHEN_REQ_def CreateCLGS_AUTHEN_ACK_def
  CreateDBGS_Authentication_REQ_def CreateF_MEMBER_MESSAGE_MAX_def

lemma extends_closed: "extends b b' n \<Longrightarrow> closed b'"
  by (simp add: extends_def)

text \<open>Messages with no string, with one and with two.\<close>

lemma wrote_plain:
  assumes "closed b" "dlen b + 3000 < max_size" "list_all2 (add_ok (dat b) (minalign b)) adds vals"
    "distinct (map fst vals)" "length vals < 50"
  shows "wrote (build_table adds b) b 2020 vals"
  using wrote_table [OF assms] by (force simp: wrote_def extends_def)

lemma wrote_one:
  assumes b: "closed b" "dlen b + int (length s) + 5000 < max_size" and vals: "distinct (map fst vals)" "length vals < 50"
    and adds: "\<And>d a off. ref_ok d a (s = []) (str_at s) off \<Longrightarrow> list_all2 (add_ok d a) (adds off) vals"
  shows "wrote (ebind (string_offset s b) (\<lambda>(off, b). build_table (adds off) b)) b (int (length s) + 2020) vals"
proof -
  have "wrote (build_table (adds off) b') b' 2000 vals"
    if "extends b b' (int (length s) + 10)" "ref_ok (dat b') (minalign b') (s = []) (str_at s) off" for off b'
    using extends_len [OF that(1)] b(2) by (intro wrote_table extends_closed [OF that(1)] adds [OF that(2)] vals) simp
  from wrote_string [OF b(1) _ _ this] b(2)
  have "wrote (ebind (string_offset s b) (\<lambda>(off, b). build_table (adds off) b)) b (int (length s) + 10 + 2000) vals" by simp
  then show ?thesis by (force simp: wrote_def extends_def)
qed

lemma wrote_two:
  assumes b: "closed b" "dlen b + int (length s) + int (length t) + 5000 < max_size" and vals: "distinct (map fst vals)" "length vals < 50"
    and adds: "\<And>d a off1 off2. ref_ok d a (s = []) (str_at s) off1 \<Longrightarrow> ref_ok d a (t = []) (str_at t) off2 \<Longrightarrow>
      list_all2 (add_ok d a) (adds off1 off2) vals"
  shows "wrote (ebind (string_offset s b) (\<lambda>(off1, b). ebind (string_offset t b) (\<lambda>(off2, b). build_table (adds off1 off2) b))) b
    (int (length s) + int (length t) + 2020) vals"
proof -
  have "wrote (ebind (string_offset t b1) (\<lambda>(off2, b). build_table (adds off1 off2) b)) b1 (int (length t) + 10 + 2000) vals"
    if e1: "extends b b1 (int (length s) + 10)" and r1: "ref_ok (dat b1) (minalign b1) (s = []) (str_at s) off1" for off1 b1
  proof (rule wrote_string [OF extends_closed [OF e1]])
    show "dlen b1 + int (length t) + 2000 + 2000 < max_size" using extends_len [OF e1] b(2) by simp
    fix off2 b2 assume e2: "extends b1 b2 (int (length t) + 10)" and r2: "ref_ok (dat b2) (minalign b2) (t = []) (str_at t) off2"
    show "wrote (build_table (adds off1 off2) b2) b2 2000 vals"
      using extends_len [OF e1] extends_len [OF e2] b(2)
      by (intro wrote_table extends_closed [OF e2] adds [OF extends_ref [OF e2 r1 str_at_stable] r2] vals) simp
  qed simp
  from wrote_string [OF b(1) _ _ this] b(2)
  have "wrote (ebind (string_offset s b) (\<lambda>(off1, b). ebind (string_offset t b) (\<lambda>(off2, b). build_table (adds off1 off2) b))) b
    (int (length s) + 10 + (int (length t) + 10 + 2000)) vals" by simp
  then show ?thesis by (simp add: algebra_simps)
qed

lemma Pack_table_ok:
  assumes b: "closed b" "dlen b + native_length x + 5000 < max_size" and p: "deref_as (enum_value x) p h = Inr x"
  shows "wrote (Pack_table (enum_value x) p h b) b (native_length x + 2020) (native_fields x)"
proof (cases x)
  case (FConnectReqT sq ad po)
  then show ?thesis using p b by (simp add: pack_defs create_defs) (intro wrote_one; simp add: add_intros)
next
  case (FAcceptAckT sq rs ad po)
  then show ?thesis using p b by (simp add: pack_defs create_defs) (intro wrote_one; simp add: add_intros)
next
  case (FAuthenticationReqT sq tk rc ky)
  then show ?thesis using p b by (simp add: pack_defs create_defs split del: split_of_bool)
      (intro wrote_two; simp add: add_intros split del: split_of_bool)
next
  case (CLGS_CONNECT_REQ_T sq tk rc ky)
  then show ?thesis using p b by (simp add: pack_defs create_defs split del: split_of_bool)
      (intro wrote_two; simp add: add_intros split del: split_of_bool)
next
  case (CLGS_AUTHEN_REQT sq tk rc ky)
  then show ?thesis using p b by (simp add: pack_defs create_defs split del: split_of_bool)
      (intro wrote_two; simp add: add_intros split del: split_of_bool)
next
  case (DBGS_Authentication_REQT sq si tk rc ky)
  then show ?thesis using p b by (simp add: pack_defs create_defs split del: split_of_bool)
      (intro wrote_two; simp add: add_intros split del: split_of_bool)
qed (use p b in \<open>simp_all add: pack_defs create_defs wrote_plain add_intros\<close>)

section \<open>What is read\<close>

lemma native_decodes:
  assumes f: "final d a" and v: "depth v < 64" "num_tables v < 1000000"
  shows "table_at d a loc (native_fields x) \<longrightarrow> list_all field_int_ok (native_fields x) \<longrightarrow>
    Verify_table (enum_value x) d (int (length d) - loc) v = Inr (True, v\<lparr>num_tables := num_tables v + 1\<rparr>) \<and>
    UnPack_table (enum_value x) d (int (length d) - loc) = Inr (Some x)"
  by (cases x; hypsubst_thin; intro impI;
      unfold enum_value.simps Verify_table.simps UnPack_table.simps verify_defs unpack_defs native_fields.simps;
      rule decodes_table [OF f _ v], assumption; (unfold append_assoc append_Nil)?;
      (rule decodes_Nil | (rule decodes_i32 [OF f], assumption) | (rule decodes_i64 [OF f], assumption) |
       (rule decodes_bool [OF f], assumption) | (rule decodes_string [OF f], assumption) |
       rule list.set_intros(1) | rule list.set_intros(2) | simp add: field_int_ok_def)+)

section \<open>The holder\<close>

definition table_of :: "native \<Rightarrow> byte list \<Rightarrow> int \<Rightarrow> int \<Rightarrow> bool" where
  "table_of x d a loc \<longleftrightarrow> table_at d a loc (native_fields x)"

lemma table_of_stable: "stable (table_of x)"
  using table_at_stable [of "native_fields x"] by (simp add: table_of_def [abs_def])

definition holder_fields :: "int64 list \<Rightarrow> int32 \<Rightarrow> native \<Rightarrow> (int \<times> fval) list" where
  "holder_fields ids type x = [(8, Ref False (table_of x)), (4, VecF ids), (6, Scalar 4 type)]"

lemma int32_ok_MessageID: "int32_ok (MessageID_value m)"
  by (cases m) (simp_all add: int32_ok_def)

lemma vector_offset_ok:
  assumes "closed b" "dlen b + 8 * int (length ids) + 40 < max_size"
  shows "\<exists>off b'. (if ids \<noteq> [] then CreateVector ids b else Inr (0, b)) = Inr (off, b') \<and>
    extends b b' (8 * int (length ids) + 20) \<and> ref_ok (dat b') (minalign b') (ids = []) (vec_at ids) off"
  using CreateVector_ok [OF assms] assms(1) by (auto simp: ref_ok_def extends_def)

lemma MessageHolder_Pack_ok:
  assumes b: "closed b" "dlen b + 8 * int (length ids) + native_length x + 9000 < max_size"
    and u: "utype (message holder) = MessageID_value (enum_value x)" "deref_as (enum_value x) (uvalue (message holder)) h = Inr x"
    and ids: "accountIDs holder = ids"
  shows "wrote (MessageHolder_Pack holder h b) b (8 * int (length ids) + native_length x + 4040)
    (holder_fields ids (utype (message holder)) x)"
proof -
  obtain vo b1 where v: "(if ids \<noteq> [] then CreateVector ids b else Inr (0, b)) = Inr (vo, b1)"
    "extends b b1 (8 * int (length ids) + 20)" "ref_ok (dat b1) (minalign b1) (ids = []) (vec_at ids) vo"
    using vector_offset_ok [OF b(1), of ids] b(2) by (cases x) auto
  have "0 \<le> native_length x" by (cases x) simp_all
  with extends_len [OF v(2)] b(2) have room: "dlen b1 + native_length x + 8900 < max_size" by simp
  then have "wrote (Pack_table (enum_value x) (uvalue (message holder)) h b1) b1 (native_length x + 2020) (native_fields x)"
    by (intro Pack_table_ok extends_closed [OF v(2)] u(2)) simp
  then obtain mo b2 where m: "Pack_table (enum_value x) (uvalue (message holder)) h b1 = Inr (mo, b2)"
    "extends b1 b2 (native_length x + 2020)" "0 < mo" "mo \<le> dlen b2" "table_at (dat b2) (minalign b2) mo (native_fields x)"
    by (auto simp: wrote_def)
  have ref: "ref_ok (dat b2) (minalign b2) False (table_of x) mo" using m by (simp add: ref_ok_def table_of_def)
  note vref = extends_ref [OF m(2) v(3) vec_at_stable]
  have "wrote (CreateMessageHolder_table vo (utype (message holder)) mo b2) b2 2000 (holder_fields ids (utype (message holder)) x)"
    unfolding CreateMessageHolder_table_def holder_fields_def
    using extends_len [OF m(2)] room
    by (intro wrote_table extends_closed [OF m(2)])
      (simp_all add: AddElement_ok AddOffset_ok [OF _ _ _ table_of_stable ref] AddOffset_ok [OF _ _ _ vec_at_stable vref])
  then obtain loc b3 where c: "CreateMessageHolder_table vo (utype (message holder)) mo b2 = Inr (loc, b3)" "extends b2 b3 2000" "0 < loc"
    "loc \<le> dlen b3" "table_at (dat b3) (minalign b3) loc (holder_fields ids (utype (message holder)) x)" by (auto simp: wrote_def)
  moreover have "extends b b3 (8 * int (length ids) + 20 + (native_length x + 2020) + 2000)"
    using extends_trans [OF extends_trans [OF v(2) m(2)]] calculation(2) by blast
  moreover have "MessageHolder_Pack holder h b = Inr (loc, b3)"
    unfolding MessageHolder_Pack_def ids v(1) using m(1) u(1) c(1) by (simp add: Union_Pack_def)
  ultimately show ?thesis by (simp add: wrote_def algebra_simps)
qed

lemma MessageHolder_decodes:
  assumes f: "final d a" and t: "table_at d a loc (holder_fields ids (MessageID_value (enum_value x)) x)"
    and x: "native_ok x" "\<forall>i \<in> set ids. int64_ok i"
  shows "\<exists>v'. MessageHolder_Verify d (int (length d) - loc) Verifier_new = Inr (True, v')"
    and "MessageHolder_UnPack d (int (length d) - loc) =
      Inr \<lparr>p_accountIDs = ids, p_type = MessageID_value (enum_value x), p_message = Some x\<rparr>"
proof -
  let ?t = "int (length d) - loc" and ?ty = "MessageID_value (enum_value x)"
  have mem: "(8, Ref False (table_of x)) \<in> set (holder_fields ids ?ty x)" "(4, VecF ids) \<in> set (holder_fields ids ?ty x)"
    "(6, Scalar 4 ?ty) \<in> set (holder_fields ids ?ty x)" by (simp_all add: holder_fields_def)
  note vec = vector_field [OF f t mem(2) _ _ x(2), simplified]
  have ty: "field_i32 d ?t 6 = Inr ?ty" by (rule i32_reads [OF f t mem(3)]) (simp_all add: int32_ok_MessageID)
  have sc: "passes (scalar_check d ?t 4 6 1)" by (rule passes_scalar [OF f t mem(3)]) simp_all
  have pos: "0 < off" if "table_of x d a off" for off using that by (auto simp: table_of_def table_at_def dest!: bytes_at_le)
  obtain off where off: "table_of x d a off" "VerifyOffset d ?t 8 = Inr True" "GetPointer d ?t 8 = Inr (Some (int (length d) - off))"
    by (rule ref_passes [OF f t mem(1)]) (use pos in simp_all)
  let ?v = "Verifier_new\<lparr>depth := 1, num_tables := 1\<rparr>"
  have nt: "Verify_table (enum_value x) d (int (length d) - off) ?v = Inr (True, ?v\<lparr>num_tables := 2\<rparr>)"
    "UnPack_table (enum_value x) d (int (length d) - off) = Inr (Some x)"
    using native_decodes [OF f, of ?v off x] off(1) x(1) by (simp_all add: table_of_def native_ok_def)
  have "all_checks (vector_check d ?t 4 @ scalar_check d ?t 4 6 1 @ [pure_check (VerifyOffset d ?t 8),
      \<lambda>v. ebind (GetPointer d ?t 8) (\<lambda>obj. ebind (field_i32 d ?t 6) (\<lambda>type. VerifyMessageID d obj type v))]) ?v =
      Inr (True, ?v\<lparr>num_tables := 2\<rparr>)"
    using vec(1) sc ty off(2,3) nt(1)
    by (simp add: all_checks_append passes_def pure_check_def VerifyMessageID_def switch_MessageID_value)
  then show "\<exists>v'. MessageHolder_Verify d ?t Verifier_new = Inr (True, v')"
    using table_check_pass [OF f t, of Verifier_new] by (simp add: MessageHolder_Verify_def Verifier_new_def)
  show "MessageHolder_UnPack d ?t = Inr \<lparr>p_accountIDs = ids, p_type = ?ty, p_message = Some x\<rparr>"
    using vec(2) ty off(3) nt(2) by (simp add: MessageHolder_UnPack_def Union_UnPack_def switch_MessageID_value)
qed

lemma closed_new: "closed FlatBufferBuilder_new"
  by (simp add: closed_def builder_ok_def FlatBufferBuilder_new_def vector_downward_new_def GetSize_def vtables_ok_def)

lemma holder_buffer_decodes:
  assumes size: "8 * int (length ids) + native_length x < 2 ^ 30"
    and u: "utype (message holder) = MessageID_value (enum_value x)" "deref_as (enum_value x) (uvalue (message holder)) h = Inr x"
    and ids: "accountIDs holder = ids" "\<forall>i \<in> set ids. int64_ok i" and x: "native_ok x"
  shows "\<exists>d. holder_buffer holder h = Inr d \<and> int (length d) \<le> 8 * int (length ids) + native_length x + 4060 \<and>
    4 dvd length d \<and> d = size_prefixed (drop 4 d) \<and>
    decode_packet d = Inr (Some \<lparr>p_accountIDs = ids, p_type = MessageID_value (enum_value x), p_message = Some x\<rparr>)"
proof -
  let ?b0 = FlatBufferBuilder_new
  have d0: "dat ?b0 = []" by (simp add: FlatBufferBuilder_new_def vector_downward_new_def)
  have "wrote (MessageHolder_Pack holder h ?b0) ?b0 (8 * int (length ids) + native_length x + 4040)
    (holder_fields ids (utype (message holder)) x)"
    using size by (intro MessageHolder_Pack_ok closed_new u ids(1)) (simp add: d0 max_size_def)
  then obtain loc b where p: "MessageHolder_Pack holder h ?b0 = Inr (loc, b)" "extends ?b0 b (8 * int (length ids) + native_length x + 4040)"
    "0 < loc" "loc \<le> dlen b" "table_at (dat b) (minalign b) loc (holder_fields ids (MessageID_value (enum_value x)) x)"
    by (auto simp: wrote_def u(1))
  have len: "dlen b \<le> 8 * int (length ids) + native_length x + 4040" using extends_len [OF p(2)] d0 by simp
  then have room: "dlen b + 50 < max_size" using size by (simp add: max_size_def)
  obtain b' xs d where fin: "FinishSizePrefixed loc b = Inr b'" "Release b' = Inr d" "d = xs @ dat b" "length xs \<le> 20"
    "d = le_bytes 4 (int (length d) - 4) @ le_bytes 4 (int (length d) - 4 - loc) @ drop 8 d" "8 \<le> length xs"
    "max 4 (minalign b) dvd int (length d)"
    using FinishSizePrefixed_ok [OF extends_closed [OF p(2)] room p(3,4)] by blast
  have dv: "minalign b dvd max 4 (minalign b)" "4 dvd max 4 (minalign b)"
    using minalign_dvd [of b 4] extends_closed [OF p(2)] by (simp_all add: closed_def)
  have t: "table_at d (max 4 (minalign b)) loc (holder_fields ids (MessageID_value (enum_value x)) x)"
    using table_at_stable p(5) dv(1) unfolding stable_def fin(3) by blast
  have loc4: "4 \<le> loc" using p(5) by (auto simp: table_at_def dest!: bytes_at_le)
  have hd8: "loc \<le> int (length d) - 8" using fin(3,6) p(4) by simp
  have f: "final d (max 4 (minalign b))"
    using fin(3,4,7) dv(2) len size loc4 hd8 by (simp add: final_def max_size_def)
  note dec = MessageHolder_decodes [OF f t x ids(2)]
  obtain v' where v': "VerifySizePrefixedBuffer (MessageHolder_Verify d) d Verifier_new = Inr (True, v')"
    using dec(1) root_reads(1) [OF f fin(5) p(3) hd8] by blast
  have "decode_packet d = Inr (Some \<lparr>p_accountIDs = ids, p_type = MessageID_value (enum_value x), p_message = Some x\<rparr>)"
    using v' root_reads(2) [OF f fin(5) p(3) hd8] dec
    by (simp add: decode_packet_def VerifySizePrefixedMessageHolderBuffer_def)
  moreover have "d = size_prefixed (drop 4 d)"
  proof -
    have "drop 4 d = le_bytes 4 (int (length d) - 4 - loc) @ drop 8 d" by (subst fin(5)) simp
    moreover have "int (length (drop 4 d)) = int (length d) - 4" using hd8 p(3) by simp
    ultimately show ?thesis unfolding size_prefixed_def using fin(5) by simp
  qed
  moreover have "4 dvd length d"
  proof -
    have "4 dvd int (length d)" using f dvd_trans unfolding final_def by blast
    then show ?thesis by presburger
  qed
  moreover have "holder_buffer holder h = Inr d" using p(1) fin(1,2) by (simp add: holder_buffer_def)
  moreover have "int (length d) \<le> 8 * int (length ids) + native_length x + 4060" using fin(3,4) len by simp
  ultimately show ?thesis by blast
qed

section \<open>Round trip\<close>

text \<open>What a message is to the receiver.\<close>

definition packet_of :: "native \<Rightarrow> packet" where
  "packet_of x = \<lparr>p_accountIDs = [], p_type = MessageID_value (enum_value x), p_message = Some x\<rparr>"

lemma Send_buffer_ok:
  assumes x: "native_ok x" and h: "heap_ok h"
  shows "\<exists>d h'. Send_buffer x h = Inr (d, h') \<and> cells h' = cells h \<and> heap_ok h' \<and>
    int (length d) \<le> native_length x + 4060 \<and> 4 dvd length d \<and> d = size_prefixed (drop 4 d) \<and>
    decode_packet d = Inr (Some (packet_of x))"
proof -
  let ?u = "\<lparr>utype = MessageID_value (enum_value x), uvalue = Some (fresh h)\<rparr>"
  let ?holder = "\<lparr>accountIDs = [], message = ?u\<rparr>" and ?h = "h\<lparr>cells := (cells h)(fresh h \<mapsto> x), fresh := fresh h + 1\<rparr>"
  have u: "union_ok ?u ?h" by (simp add: union_ok_def)
  have none: "cells h (fresh h) = None" using h by (auto simp: heap_ok_def)
  have "cells ?h |` (- owned ?u) = cells h" using none by (auto simp: owned_def restrict_map_def fun_eq_iff)
  then have del: "MessageHolderT_delete ?holder ?h = Inr (?h\<lparr>cells := cells h\<rparr>)"
    using MessageHolderT_delete_ok [of ?holder ?h] u by simp
  obtain d where d: "holder_buffer ?holder ?h = Inr d" "int (length d) \<le> native_length x + 4060" "4 dvd length d"
    "d = size_prefixed (drop 4 d)" "decode_packet d = Inr (Some (packet_of x))"
    using holder_buffer_decodes [of "[]" x ?holder ?h] x by (auto simp: packet_of_def native_ok_def deref_as_def)
  have "Send_buffer x h = Inr (d, ?h\<lparr>cells := cells h\<rparr>)"
    using d(1) del by (simp add: Send_buffer_def CreateMessageHolder_ok)
  moreover have "heap_ok (?h\<lparr>cells := cells h\<rparr>)" using h by (auto simp: heap_ok_def)
  ultimately show ?thesis using d(2-5) by (intro exI [of _ d] exI [of _ "?h\<lparr>cells := cells h\<rparr>"]) simp
qed

text \<open>
  C5. What is sent is what is received: for every message whose members are values of their C
  types (and whose strings together are shorter than 1 GB), \<^verbatim>\<open>Send\<close> builds a buffer without failing
  an assertion and deletes its copy of the message; the buffer is its own length followed by
  that many bytes, the receiver's verifier accepts it, and unpacking it gives the message.
\<close>

theorem message_roundtrip:
  assumes "native_ok x" "heap_ok h"
  shows "\<exists>buffer h'. Send_buffer x h = Inr (buffer, h') \<and> cells h' = cells h \<and> buffer = size_prefixed (drop 4 buffer) \<and>
    decode_packet buffer = Inr (Some (packet_of x))"
  using Send_buffer_ok [OF assms] by blast

theorem message_roundtrip_witness:
  "\<exists>buffer h'. Send_buffer (CLGS_AUTHEN_REQT (- 3) ''token'' True '''') heap_new = Inr (buffer, h') \<and>
    cells h' = cells heap_new \<and> buffer = size_prefixed (drop 4 buffer) \<and>
    decode_packet buffer = Inr (Some (packet_of (CLGS_AUTHEN_REQT (- 3) ''token'' True '''')))"
  by (rule message_roundtrip) (simp_all add: native_ok_def field_int_ok_def int32_ok_def heap_ok_def heap_new_def)

end
