(* ===== verification/End_To_End.thy ===== *)
theory End_To_End
  imports Receive_Stream Message_Path Protocol_Pack
begin

text \<open>
  From a message to the handler of the peer: the bytes \<^verbatim>\<open>NetworkSession::Send\<close> puts on the wire for
  a message, a sequence of messages as one stream, the receive task on it, the decoding and
  the dispatch.
\<close>

section \<open>Sending\<close>

definition Send_bytes :: "native \<Rightarrow> heap \<Rightarrow> (byte list \<times> heap) result" where
  "Send_bytes msg h =
     ebind (Send_buffer msg h) (\<lambda>(buffer, h).
       let messageSize = to_int32 (int (length buffer) - PACKET_HEADER_SIZE)
       in ebind (if messageSize > 0 then Convert buffer PACKET_HEADER_SIZE messageSize else Inr buffer)
            (\<lambda>bytes. Inr (bytes, h)))"

text \<open>The packets of a session leave in the order they were sent.\<close>

fun Send_all :: "native list \<Rightarrow> heap \<Rightarrow> (byte list \<times> heap) result" where
  "Send_all [] h = Inr ([], h)"
| "Send_all (m # ms) h =
     ebind (Send_bytes m h) (\<lambda>(bs, h). ebind (Send_all ms h) (\<lambda>(cs, h). Inr (bs @ cs, h)))"

section \<open>The stream\<close>

lemma Send_bytes_ok:
  assumes "native_ok x" "heap_ok h"
  shows "\<exists>pl h'. Send_bytes x h = Inr (frame pl, h') \<and> cells h' = cells h \<and> heap_ok h' \<and>
    int (length pl) \<le> native_length x + 4056 \<and> 4 dvd length pl \<and> decode_packet (size_prefixed pl) = Inr (Some (packet_of x))"
proof -
  obtain d h' where d: "Send_buffer x h = Inr (d, h')" "cells h' = cells h" "heap_ok h'" "int (length d) \<le> native_length x + 4060"
    "4 dvd length d" "d = size_prefixed (drop 4 d)" "decode_packet d = Inr (Some (packet_of x))"
    using Send_buffer_ok [OF assms] by blast
  let ?pl = "drop 4 d"
  have len: "4 + length ?pl = length d" by (subst (2) d(6)) (simp add: size_prefixed_def)
  have small: "length ?pl < 2 ^ 31" using d(4) len assms(1) by (simp add: native_ok_def)
  have "packet_bytes ?pl = Inr (frame ?pl)" by (rule frame_packet_bytes [OF small])
  then have "Send_bytes x h = Inr (frame ?pl, h')"
    using d(1) d(6) [symmetric] by (auto simp: Send_bytes_def packet_bytes_def Let_def)
  moreover have "4 dvd length ?pl" using d(5) len by presburger
  moreover have "int (length ?pl) \<le> native_length x + 4056" using d(4) len by simp
  ultimately show ?thesis using d(2,3,7) d(6) [symmetric] by (intro exI [of _ ?pl] exI [of _ h']) simp
qed

text \<open>The payloads of a stream of messages.\<close>

definition payloads_of :: "native list \<Rightarrow> byte list list \<Rightarrow> bool" where
  "payloads_of xs pls \<longleftrightarrow> list_all2 (\<lambda>x pl. int (length pl) \<le> native_length x + 4056 \<and> 4 dvd length pl \<and>
     decode_packet (size_prefixed pl) = Inr (Some (packet_of x))) xs pls"

lemma Send_all_ok:
  assumes "\<forall>x \<in> set xs. native_ok x" "heap_ok h"
  shows "\<exists>pls h'. Send_all xs h = Inr (concat (map frame pls), h') \<and> cells h' = cells h \<and> heap_ok h' \<and> payloads_of xs pls"
  using assms
proof (induction xs arbitrary: h)
  case (Cons x xs)
  obtain pl h1 where 1: "Send_bytes x h = Inr (frame pl, h1)" "cells h1 = cells h" "heap_ok h1"
    "int (length pl) \<le> native_length x + 4056" "4 dvd length pl" "decode_packet (size_prefixed pl) = Inr (Some (packet_of x))"
    using Send_bytes_ok [of x h] Cons.prems by auto
  obtain pls h' where 2: "Send_all xs h1 = Inr (concat (map frame pls), h')" "cells h' = cells h1" "heap_ok h'" "payloads_of xs pls"
    using Cons.IH [OF _ 1(3)] Cons.prems(1) by auto
  show ?case using 1 2 by (intro exI [of _ "pl # pls"] exI [of _ h']) (simp add: payloads_of_def)
qed (simp add: payloads_of_def)

lemma payloads_accepted:
  assumes "payloads_of xs pls"
  shows "List.map_filter accepted (map size_prefixed pls) = map packet_of xs"
  using assms unfolding payloads_of_def
  by (induction xs pls rule: list_all2_induct) (simp_all add: List.map_filter_simps accepted_def)

lemma packet_of_table: "\<not> lacks_table (packet_of x)"
  by (simp add: lacks_table_def packet_of_def)

lemma payload_in_stream: "pl \<in> set pls \<Longrightarrow> length pl + 4 \<le> length (concat (map frame pls))"
  by (auto dest!: split_list)

lemma stream_processed:
  assumes "\<forall>x \<in> set xs. native_ok x" "payloads_of xs pls" "heap_ok h" "length (concat (map frame pls)) \<le> 6999"
  shows "\<exists>jobs h1 h2. enqueue_packets sid (map size_prefixed pls) h = Inr (jobs, h1) \<and>
    process_messages PlayServer_handlers jobs h1 = Inr (map (\<lambda>x. PlayServer_spec (Some x)) xs, h2) \<and> cells h2 = cells h"
proof -
  have "\<forall>b \<in> set (map size_prefixed pls). int (length b) < 2 ^ 31"
    using assms(4) payload_in_stream [of _ pls] by (fastforce simp: size_prefixed_def)
  moreover have "\<forall>p \<in> set (List.map_filter accepted (map size_prefixed pls)). \<not> lacks_table p"
    unfolding payloads_accepted [OF assms(2)] by (auto simp: packet_of_table)
  ultimately have "\<exists>jobs h1 h2. enqueue_packets sid (map size_prefixed pls) h = Inr (jobs, h1) \<and>
    process_messages PlayServer_handlers jobs h1 =
      Inr (map (\<lambda>p. PlayServer_spec (p_message p)) (List.map_filter accepted (map size_prefixed pls)), h2) \<and> cells h2 = cells h"
    using assms(3) by (rule packets_processed)
  then show ?thesis unfolding payloads_accepted [OF assms(2)] by (simp add: packet_of_def comp_def)
qed

section \<open>Delivery, and where it ends\<close>

text \<open>
  C3. End to end: messages sent one after another, at most 6999 bytes of them on the wire, and
  the stream cut into receives in any way: the receive task hands out whole packets, every
  packet becomes a job, and \<^verbatim>\<open>PlayServer\<close>'s dispatch processes exactly the messages that were
  sent, in order (the handler runs on the authentication requests, the others are dropped); sender and
  receiver have freed everything at the end.
\<close>

theorem messages_delivered:
  assumes "\<forall>x \<in> set xs. native_ok x" "heap_ok hs" "heap_ok hr"
    and "Send_all xs hs = Inr (stream, hs')" "length stream \<le> 6999"
    and "\<forall>n \<in> set ns. 0 < n" "length stream \<le> length ns"
  shows "cells hs' = cells hs \<and> (\<exists>q packets jobs h1 h2. recv_loop RingQ_new stream ns = (q, packets, Waiting) \<and>
    enqueue_packets sid packets hr = Inr (jobs, h1) \<and>
    process_messages PlayServer_handlers jobs h1 = Inr (map (\<lambda>x. PlayServer_spec (Some x)) xs, h2) \<and> cells h2 = cells hr)"
proof -
  obtain pls where pls: "stream = concat (map frame pls)" "cells hs' = cells hs" "payloads_of xs pls"
    using Send_all_ok [OF assms(1,2)] assms(4) by auto
  have "\<forall>pl \<in> set pls. length pl \<le> 6995" using payload_in_stream [of _ pls] assms(5) pls(1) by fastforce
  moreover have "unsplit 1 pls = pls" using assms(5) pls(1) by (intro unsplit_all) simp_all
  ultimately obtain q where "recv_loop RingQ_new stream ns = (q, map size_prefixed pls, Waiting)"
    using recv_loop_frames [of pls ns] assms(6,7) pls(1) by (auto simp: stream_status_def recv_status_of_def)
  with stream_processed [OF assms(1) pls(3) assms(3)] assms(5) pls(1,2) show ?thesis by blast
qed

theorem messages_delivered_witness:
  "\<exists>stream hs'. Send_all [CLGS_AUTHEN_REQT 5 ''t'' False ''''] heap_new = Inr (stream, hs') \<and>
    (\<exists>q packets jobs h1 h2. recv_loop RingQ_new stream (replicate (length stream) 1) = (q, packets, Waiting) \<and>
      enqueue_packets 7 packets heap_new = Inr (jobs, h1) \<and>
      process_messages PlayServer_handlers jobs h1 = Inr ([Some (CLGS_AUTHEN_ACKT 5 0)], h2) \<and> cells h2 = cells heap_new)"
proof -
  let ?xs = "[CLGS_AUTHEN_REQT 5 ''t'' False '''']"
  have ok: "\<forall>x \<in> set ?xs. native_ok x" "heap_ok heap_new"
    by (simp_all add: native_ok_def field_int_ok_def int32_ok_def heap_ok_def heap_new_def)
  obtain pls hs' where s: "Send_all ?xs heap_new = Inr (concat (map frame pls), hs')" "payloads_of ?xs pls"
    using Send_all_ok [OF ok] by blast
  have "length (concat (map frame pls)) \<le> 6999" using s(2) by (auto simp: payloads_of_def list_all2_Cons1)
  from messages_delivered [OF ok ok(2) s(1) this, of "replicate (length (concat (map frame pls))) 1" 7]
  show ?thesis using s(1) by (simp add: PlayServer_spec_def del: Send_all.simps)
qed

lemma decoded_length:
  assumes "decode_packet d = Inr (Some p)"
  shows "12 \<le> length d"
proof (rule ccontr)
  assume "\<not> 12 \<le> length d"
  then have "\<not> 12 \<le> int (length d)" by simp
  then have "VerifySizePrefixedMessageHolderBuffer d \<noteq> Inr True"
    by (auto simp: VerifySizePrefixedMessageHolderBuffer_def VerifySizePrefixedBuffer_def VerifyBufferFromStart_def split: if_splits)
  then show False using assms by (auto simp: decode_packet_def split: if_splits)
qed

lemma stream_length:
  assumes "payloads_of xs pls"
  shows "12 * length xs \<le> length (concat (map frame pls))"
  using assms unfolding payloads_of_def
proof (induction xs pls rule: list_all2_induct)
  case (Cons x xs pl pls)
  then have "12 \<le> length (size_prefixed pl)" using decoded_length by blast
  then show ?case using Cons by (simp add: size_prefixed_def)
qed simp

text \<open>
  C4. The server does not survive the end of its receive buffer: the payloads the builder makes are
  multiples of four bytes long, the buffer is read from its second byte on, so whatever
  messages a peer sends (of strings of at most 2900 characters, so that each fits the buffer), as
  soon as they come to 7000 bytes one of them lies across the end of the array and is read
  outside it, however the stream is cut.
\<close>

theorem messages_break_at_the_wrap:
  assumes "\<forall>x \<in> set xs. native_ok x \<and> native_length x \<le> 2900" "heap_ok hs"
    and "Send_all xs hs = Inr (stream, hs')" "7000 \<le> length stream"
    and "\<forall>n \<in> set ns. 0 < n" "length stream \<le> length ns"
  shows "\<exists>q packets. recv_loop RingQ_new stream ns = (q, packets, RecvFault (Fault OutOfBounds))"
proof -
  obtain pls where pls: "stream = concat (map frame pls)" "payloads_of xs pls"
    using Send_all_ok [of xs hs] assms(1-3) by auto
  have "\<forall>pl \<in> set pls. length pl \<le> 6995 \<and> even (length pl)"
  proof
    fix pl assume "pl \<in> set pls"
    then obtain x where x: "x \<in> set xs" "int (length pl) \<le> native_length x + 4056" "4 dvd length pl"
      using pls(2) unfolding payloads_of_def list_all2_iff by (auto simp: set_zip in_set_conv_nth) fastforce
    then show "length pl \<le> 6995 \<and> even (length pl)" using assms(1) by auto
  qed
  then have "unsplit 1 pls \<noteq> pls" "\<forall>pl \<in> set pls. length pl \<le> 6995"
    using assms(4) pls(1) unsplit_odd [of 1 pls] by auto
  then show ?thesis using recv_loop_frames [of pls ns] assms(5,6) pls(1) by (auto simp: stream_status_def recv_status_of_def)
qed

theorem messages_break_at_the_wrap_witness:
  "\<exists>stream hs'. Send_all (replicate 1000 (FDisconnectReqT 1)) heap_new = Inr (stream, hs') \<and>
    (\<exists>q packets. recv_loop RingQ_new stream (replicate (length stream) 100) = (q, packets, RecvFault (Fault OutOfBounds)))"
proof -
  let ?xs = "replicate 1000 (FDisconnectReqT 1)"
  have ok: "\<forall>x \<in> set ?xs. native_ok x" "heap_ok heap_new" "\<forall>x \<in> set ?xs. native_ok x \<and> native_length x \<le> 2900"
    by (simp_all add: native_ok_def field_int_ok_def int32_ok_def heap_ok_def heap_new_def)
  obtain pls hs' where s: "Send_all ?xs heap_new = Inr (concat (map frame pls), hs')" "payloads_of ?xs pls"
    using Send_all_ok [OF ok(1,2)] by blast
  have "7000 \<le> length (concat (map frame pls))" using stream_length [OF s(2)] by simp
  then have "\<exists>q packets. recv_loop RingQ_new (concat (map frame pls)) (replicate (length (concat (map frame pls))) 100) =
      (q, packets, RecvFault (Fault OutOfBounds))"
    by (intro messages_break_at_the_wrap [OF ok(3,2) s(1)]) simp_all
  then show ?thesis using s(1) by blast
qed

end
