(* ===== verification/Network_Protocol.thy ===== *)
theory Network_Protocol
  imports Network End_To_End
begin

text \<open>
  The interface between the sessions and the generated packet code, as the locale
  \<open>lossless_codec\<close>: what is packed is unpacked to the same message. The code of the protocol
  (\<open>Protocol_Pack\<close>, \<open>Protocol_Codec\<close>) provides it, and so the messages one server sends become
  the jobs of the other.
\<close>

section \<open>The interface\<close>

locale lossless_codec =
  fixes cdc :: "'m codec" and sendable :: "'m \<Rightarrow> bool"
  assumes pack_small: "sendable m \<Longrightarrow> length (pack cdc m) < 2 ^ 31"
    and unpack_pack: "sendable m \<Longrightarrow> unpack cdc (size_prefixed (pack cdc m)) = Some m"
begin

lemma unpack_stream: "\<forall>m \<in> set ms. sendable m \<Longrightarrow> List.map_filter (unpack cdc) (map (\<lambda>m. size_prefixed (pack cdc m)) ms) = ms"
  by (induction ms) (simp_all add: List.map_filter_simps unpack_pack)

text \<open>\<open>Send\<close> does not fail: the packet is queued behind those already there.\<close>

lemma Send_enqueues:
  assumes "sendable m" "o1 < length (objs st)"
  shows "\<exists>st'. Send cdc o1 m st = Inr st' \<and>
    m_sendQueue (objs st' ! o1) = m_sendQueue (objs st ! o1) @ [frame (pack cdc m)] \<and> length (objs st') = length (objs st)"
  using frame_packet_bytes [OF pack_small [OF assms(1)]] assms(2)
  by (simp add: Send_def Let_def upd_session_def WorkerPush_def)

text \<open>A completed receive of such packets turns them back into the messages, as jobs of the session.\<close>

lemma received_messages:
  assumes "iocp st = []" "i < length (pending st)" "tasks st (pending st ! i) = Some (TaskReceiveIO (Some o1) ERunning)"
    and "o1 < length (objs st)" "m_recvRingQueue (objs st ! o1) = RingQ_new"
    and "\<forall>m \<in> set ms. sendable m" "ms \<noteq> []" "data = concat (map (\<lambda>m. frame (pack cdc m)) ms)" "length data \<le> 6999"
  shows "\<exists>st'. net_run cdc [Kernel i True n data, Worker ws] st = Inr st' \<and>
    m_jobQueue (objs st' ! o1) = m_jobQueue (objs st ! o1) @
      map (\<lambda>m. \<lparr>m_message = m, MessageJob.m_sessionID = m_sessionID (objs st ! o1)\<rparr>) ms"
proof -
  let ?pls = "map (pack cdc) ms"
  have d: "data = concat (map frame ?pls)" using assms(8) by (simp add: comp_def)
  have w: "int (length data) \<le> GetWriteSize RingQ_new"
    using assms(9) by (simp add: GetWriteSize_def RingQ_new_def RING_BUFFER_SIZE_def crem_nonneg)
  have "unsplit 1 ?pls = ?pls" using assms(9) d by (intro unsplit_all) simp_all
  moreover have "length pl < 2 ^ 31" if "pl \<in> set ?pls" for pl using that assms(6) pack_small by auto
  ultimately obtain rest where "parse_bytes 1 data = (map size_prefixed ?pls, rest, Parsed)"
    using parse_frames [of ?pls 1] d by (auto simp: stream_status_def)
  then obtain q where "receive RingQ_new data = (q, map size_prefixed ?pls, Parsed)"
    using receive_correct [OF RingQ_new_inv(1) w] by (auto simp: RingQ_new_inv(2)) (auto simp: RingQ_new_def)
  moreover have "data \<noteq> []" using assms(7,8) by (cases ms) (auto simp: frame_def dest: arg_cong [where f = length])
  ultimately show ?thesis
    using receive_completes [OF assms(1-4), of data q "map size_prefixed ?pls" cdc n ws] unpack_stream [OF assms(6)] assms(5)
    by (auto simp: comp_def simp del: net_run.simps)
qed

end

section \<open>The protocol provides it\<close>

text \<open>The payload of a packet, packed from a holder of its own; the connect acknowledgement carries \<^verbatim>\<open>R_SUCCESS\<close>.\<close>

definition packet_payload :: "packet \<Rightarrow> byte list" where
  "packet_payload p =
     (let (holder, h) = holder_of p heap_new
      in case holder_buffer holder h of Inl e \<Rightarrow> [] | Inr d \<Rightarrow> drop 4 d)"

definition protocol_codec :: "packet codec" where
  "protocol_codec = \<lparr>pack = packet_payload, unpack = accepted, connect_ack = packet_of (FConnectAckT 0 1)\<rparr>"

definition sendable_packet :: "packet \<Rightarrow> bool" where
  "sendable_packet p \<longleftrightarrow> (case p_message p of None \<Rightarrow> False | Some x \<Rightarrow> native_ok x \<and> p = packet_of x)"

text \<open>Packing depends on the message only, not on where it lies.\<close>

lemma Pack_table_cong: "deref_as t p h = deref_as t p' h' \<Longrightarrow> Pack_table t p h b = Pack_table t p' h' b"
  by (cases t) simp_all

lemma holder_buffer_cong:
  assumes "deref_as t p h = deref_as t p' h'" "ty = MessageID_value t"
  shows "holder_buffer \<lparr>accountIDs = ids, message = \<lparr>utype = ty, uvalue = p\<rparr>\<rparr> h =
    holder_buffer \<lparr>accountIDs = ids, message = \<lparr>utype = ty, uvalue = p'\<rparr>\<rparr> h'"
  using Pack_table_cong [OF assms(1)] assms(2) by (simp add: holder_buffer_def MessageHolder_Pack_def Union_Pack_def)

lemma Send_buffer_payload:
  assumes "native_ok x" "heap_ok h"
  shows "\<exists>h'. Send_buffer x h = Inr (size_prefixed (packet_payload (packet_of x)), h')"
proof -
  obtain d h' where d: "Send_buffer x h = Inr (d, h')" "d = size_prefixed (drop 4 d)" using Send_buffer_ok [OF assms] by blast
  then have "holder_buffer \<lparr>accountIDs = [], message = \<lparr>utype = MessageID_value (enum_value x), uvalue = Some (fresh h)\<rparr>\<rparr>
      (h\<lparr>cells := (cells h)(fresh h \<mapsto> x), fresh := fresh h + 1\<rparr>) = Inr d"
    by (auto simp: Send_buffer_def CreateMessageHolder_ok)
  moreover have "deref_as (enum_value x) (Some (fresh h)) (h\<lparr>cells := (cells h)(fresh h \<mapsto> x), fresh := fresh h + 1\<rparr>) =
      deref_as (enum_value x) (Some 0) \<lparr>cells = [0 \<mapsto> x], fresh = 1\<rparr>" by (simp add: deref_as_def)
  ultimately have "holder_buffer \<lparr>accountIDs = [], message = \<lparr>utype = MessageID_value (enum_value x), uvalue = Some 0\<rparr>\<rparr>
      \<lparr>cells = [0 \<mapsto> x], fresh = 1\<rparr> = Inr d" using holder_buffer_cong by metis
  then have "packet_payload (packet_of x) = drop 4 d"
    by (simp add: packet_payload_def holder_of_def packet_of_def new_native_def heap_new_def)
  then show ?thesis using d by simp
qed

interpretation protocol: lossless_codec protocol_codec sendable_packet
proof
  fix p assume "sendable_packet p"
  then obtain x where x: "native_ok x" "p = packet_of x" by (auto simp: sendable_packet_def split: option.splits)
  have h: "heap_ok heap_new" by (simp add: heap_ok_def heap_new_def)
  obtain d h' where d: "Send_buffer x heap_new = Inr (d, h')" "int (length d) \<le> native_length x + 4060"
    "decode_packet d = Inr (Some (packet_of x))" using Send_buffer_ok [OF x(1) h] by blast
  have e: "d = size_prefixed (packet_payload p)" using Send_buffer_payload [OF x(1) h] d(1) x(2) by auto
  then show "length (pack protocol_codec p) < 2 ^ 31"
    using d(2) x(1) by (simp add: protocol_codec_def native_ok_def size_prefixed_def)
  show "unpack protocol_codec (size_prefixed (pack protocol_codec p)) = Some p"
    using d(3) e x(2) by (simp add: protocol_codec_def accepted_def)
qed

section \<open>Messages become jobs\<close>

lemma Send_bytes_frame:
  assumes "native_ok x" "heap_ok h" "Send_bytes x h = Inr (bs, h')"
  shows "bs = frame (pack protocol_codec (packet_of x))" "heap_ok h'"
proof -
  have s: "sendable_packet (packet_of x)" using assms(1) by (simp add: sendable_packet_def packet_of_def)
  have "packet_bytes (packet_payload (packet_of x)) = Inr (frame (packet_payload (packet_of x)))"
    using frame_packet_bytes protocol.pack_small [OF s] by (simp add: protocol_codec_def)
  then show "bs = frame (pack protocol_codec (packet_of x))"
    using Send_buffer_payload [OF assms(1,2)] assms(3) by (auto simp: Send_bytes_def packet_bytes_def Let_def protocol_codec_def)
  show "heap_ok h'" using Send_bytes_ok [OF assms(1,2)] assms(3) by auto
qed

lemma Send_all_frames:
  assumes "\<forall>x \<in> set xs. native_ok x" "heap_ok h" "Send_all xs h = Inr (stream, h')"
  shows "stream = concat (map (\<lambda>p. frame (pack protocol_codec p)) (map packet_of xs))"
  using assms
proof (induction xs arbitrary: h stream)
  case (Cons x xs)
  then obtain bs h1 cs where c: "Send_bytes x h = Inr (bs, h1)" "Send_all xs h1 = Inr (cs, h')" "stream = bs @ cs" by auto
  then show ?case using Cons.IH [OF _ _ c(2)] Cons.prems(1,2) Send_bytes_frame [OF _ _ c(1)] by simp
qed simp

end
