(* ===== verification/Log_Text.thy ===== *)
theory Log_Text
  imports MMO_Prelude
begin

text \<open>
  \<^verbatim>\<open>LogManager\<close> (ServerCore/Utill/LogManager.h, LogManager.cpp): the text of a log line. Arguments
  become strings (\<^verbatim>\<open>LogValue\<close>), and \<open>AppendDetailInfo\<close> puts them in place of the \<^verbatim>\<open>%\<close> signs of the
  format. The sinks are calls into spdlog; what is modelled of them is that a finished line, or a
  new logger, is handed over.
\<close>

section \<open>LogValue\<close>

text \<open>
  The three constructors: a value of any other type, already as \<^verbatim>\<open>operator<<\<close> of its type writes it;
  a \<^verbatim>\<open>std::string\<close>; a \<^verbatim>\<open>const char*\<close>, which may be null.
\<close>

datatype log_arg = Streamed string | Text string | CText "string option"

text \<open>A string as a \<^verbatim>\<open>const char*\<close> reader sees it: up to the first NUL.\<close>

definition c_str :: "string \<Rightarrow> string" where
  "c_str s = takeWhile (\<lambda>c. c \<noteq> CHR 0x00) s"

text \<open>
  \<^verbatim>\<open>regex_match\<close> with the pattern \<^verbatim>\<open>\{.*\}\<close>; the dot stands for any character but a line terminator.
\<close>

definition matches_json :: "string \<Rightarrow> bool" where
  "matches_json s \<longleftrightarrow> length s \<ge> 2 \<and> hd s = CHR ''{'' \<and> last s = CHR ''}'' \<and>
     list_all (\<lambda>c. c \<noteq> CHR 0x0A \<and> c \<noteq> CHR 0x0D) (butlast (tl s))"

definition WrapText :: "string \<Rightarrow> string" where
  "WrapText text = [CHR 0x27] @ text @ [CHR 0x27]"

definition LogValue_string :: "string \<Rightarrow> string" where
  "LogValue_string value = (if matches_json value then value else WrapText value)"

fun LogValue :: "log_arg \<Rightarrow> string result" where
  "LogValue (Streamed s) = Inr s"
| "LogValue (Text s) = Inr (LogValue_string s)"
| "LogValue (CText (Some s)) = Inr (LogValue_string (c_str s))"
| "LogValue (CText None) = Inl NullDeref"

section \<open>The text of a line\<close>

fun AddArgs :: "string list \<Rightarrow> log_arg list \<Rightarrow> string list result" where
  "AddArgs storage [] = Inr storage"
| "AddArgs storage (value # args) = ebind (LogValue value) (\<lambda>v. AddArgs (storage @ [v]) args)"

text \<open>
  The loop: \<open>fmt\<close> and \<open>vals\<close> are what the two iterators still have in front of them.
\<close>

fun AppendDetailInfo :: "string \<Rightarrow> string \<Rightarrow> string list \<Rightarrow> string" where
  "AppendDetailInfo result [] vals = result"
| "AppendDetailInfo result (c # fmt) vals =
     (if c = CHR ''%'' then
        (case vals of v # vals \<Rightarrow> AppendDetailInfo (result @ c_str v) fmt vals | [] \<Rightarrow> result)
      else AppendDetailInfo (result @ [c]) fmt vals)"

definition GetLogText :: "string \<Rightarrow> log_arg list \<Rightarrow> string result" where
  "GetLogText fmt args = ebind (AddArgs [] args) (\<lambda>storage. Inr (AppendDetailInfo [] fmt storage))"

section \<open>LogManager\<close>

datatype level = Debug | Info | Warning | Error | Critical

text \<open>\<open>loggers\<close> counts the default loggers made, \<open>lines\<close> lists what went to the sinks.\<close>

record LogManager =
  m_updateTime :: int64
  m_packetLogActivate :: int32
  loggers :: nat
  lines :: "(level \<times> string) list"

definition LogManager_new :: LogManager where
  "LogManager_new = \<lparr>m_updateTime = 0, m_packetLogActivate = 1, loggers = 0, lines = []\<rparr>"

definition sink :: "level \<Rightarrow> string \<Rightarrow> LogManager \<Rightarrow> LogManager" where
  "sink l text lm = lm\<lparr>lines := lines lm @ [(l, text)]\<rparr>"

text \<open>
  The five prints: without arguments the format itself is the line, with its \<^verbatim>\<open>%\<close> signs.
\<close>

definition Print :: "level \<Rightarrow> string \<Rightarrow> log_arg list \<Rightarrow> LogManager \<Rightarrow> LogManager result" where
  "Print l fmt args lm =
     (if args = [] then Inr (sink l fmt lm)
      else ebind (GetLogText fmt args) (\<lambda>text. Inr (sink l text lm)))"

definition PrintPacket :: "string \<Rightarrow> string \<Rightarrow> LogManager \<Rightarrow> LogManager" where
  "PrintPacket tag log lm = sink Info (([] @ tag) @ log) lm"

text \<open>
  A new default logger with one console sink. The file name made from \<^verbatim>\<open>m_updateTime\<close> is not used
  and the assignment that would advance \<^verbatim>\<open>m_updateTime\<close> is commented out.
\<close>

definition CreateLog :: "LogManager \<Rightarrow> LogManager" where
  "CreateLog lm = lm\<lparr>loggers := loggers lm + 1\<rparr>"

definition Init :: "LogManager \<Rightarrow> LogManager" where
  "Init lm = CreateLog lm"

definition Update :: "int64 \<Rightarrow> LogManager \<Rightarrow> LogManager" where
  "Update now lm = (if m_updateTime lm < now then CreateLog lm else lm)"

definition SetPacketLogActivate :: "int32 \<Rightarrow> LogManager \<Rightarrow> LogManager" where
  "SetPacketLogActivate packetLogActivate lm = lm\<lparr>m_packetLogActivate := packetLogActivate\<rparr>"

definition GetPacketLogActivate :: "LogManager \<Rightarrow> int32" where
  "GetPacketLogActivate lm = m_packetLogActivate lm"

section \<open>Format and values woven\<close>

text \<open>The format cut at its \<^verbatim>\<open>%\<close> signs, and glued together again.\<close>

fun pieces :: "string \<Rightarrow> string list" where
  "pieces [] = [[]]"
| "pieces (c # s) = (if c = CHR ''%'' then [] # pieces s else (c # hd (pieces s)) # tl (pieces s))"

lemma pieces_nonempty [simp]: "pieces s \<noteq> []"
  by (cases s) simp_all

lemma pieces_length: "length (pieces s) = count_list s (CHR ''%'') + 1"
  by (induction s) simp_all

lemma pieces_no_percent: "p \<in> set (pieces s) \<Longrightarrow> CHR ''%'' \<notin> set p"
proof (induction s arbitrary: p)
  case (Cons c s)
  have "hd (pieces s) \<in> set (pieces s)" by simp
  with Cons show ?case by (auto split: if_splits dest: list.set_sel(2) [rotated])
qed simp

lemma pieces_join: "hd (pieces s) @ concat (map (\<lambda>p. CHR ''%'' # p) (tl (pieces s))) = s"
proof (induction s)
  case (Cons c s)
  obtain q qs where q: "pieces s = q # qs" by (cases "pieces s") simp_all
  with Cons.IH have "concat (map (\<lambda>p. CHR ''%'' # p) (pieces s)) = CHR ''%'' # s" by simp
  with Cons.IH show ?case by simp
qed simp

text \<open>The closed form: each value is followed by the piece behind its \<^verbatim>\<open>%\<close>.\<close>

lemma AppendDetailInfo_woven:
  "AppendDetailInfo result fmt vals =
     result @ hd (pieces fmt) @ concat (map2 (\<lambda>v p. c_str v @ p) vals (tl (pieces fmt)))"
proof (induction fmt arbitrary: result vals)
  case (Cons c fmt)
  show ?case
  proof (cases "c = CHR ''%''")
    case True
    then show ?thesis
    proof (cases vals)
      case (Cons v vs)
      moreover have "concat (map2 (\<lambda>v p. c_str v @ p) (v # vs) (pieces fmt)) =
        c_str v @ hd (pieces fmt) @ concat (map2 (\<lambda>v p. c_str v @ p) vs (tl (pieces fmt)))"
        by (cases "pieces fmt") simp_all
      ultimately show ?thesis using True Cons.IH by simp
    qed simp
  qed (simp add: Cons.IH)
qed simp

lemma AddArgs_map:
  "AddArgs storage args = Inr vs \<longleftrightarrow> (\<exists>us. vs = storage @ us \<and> map LogValue args = map Inr us)"
proof (induction args arbitrary: storage)
  case (Cons a args)
  then show ?case by (cases "LogValue a") (auto simp: Cons_eq_map_conv intro: exI [of _ "_ # _"])
qed auto

lemma LogValue_total: "a \<noteq> CText None \<Longrightarrow> \<exists>v. LogValue a = Inr v"
  by (cases a rule: LogValue.cases) auto

lemma AddArgs_total:
  assumes "CText None \<notin> set args"
  shows "\<exists>vs. AddArgs [] args = Inr vs \<and> map LogValue args = map Inr vs"
proof -
  have "\<exists>vs. map LogValue args = map Inr vs" using assms
  proof (induction args)
    case (Cons a args)
    then obtain v vs where "LogValue a = Inr v" "map LogValue args = map Inr vs"
      using LogValue_total [of a] by auto
    then have "map LogValue (a # args) = map Inr (v # vs)" by simp
    then show ?case by blast
  qed simp
  then show ?thesis using AddArgs_map [of "[]" args] by auto
qed

text \<open>
  C35. The text of a log line, for every format and all arguments (a null \<^verbatim>\<open>const char*\<close> apart): the
  format is cut at its percent signs into \<open>p\<close> and \<open>ps\<close>, and behind \<open>p\<close> come the arguments' values, each
  cut at its first NUL and followed by the piece behind its percent sign, until the values or
  the percent signs run out. In particular surplus arguments are ignored, and the text behind the
  first percent sign without an argument is lost.
\<close>

theorem log_text_woven:
  assumes "CText None \<notin> set args"
  shows "\<exists>p ps vs. fmt = p @ concat (map (\<lambda>q. CHR ''%'' # q) ps) \<and> (\<forall>q \<in> set (p # ps). CHR ''%'' \<notin> set q) \<and>
    map LogValue args = map Inr vs \<and>
    GetLogText fmt args = Inr (p @ concat (map2 (\<lambda>v q. c_str v @ q) vs ps))"
proof -
  from AddArgs_total [OF assms] obtain vs where vs: "AddArgs [] args = Inr vs" "map LogValue args = map Inr vs" by blast
  let ?p = "hd (pieces fmt)" and ?ps = "tl (pieces fmt)"
  have "fmt = ?p @ concat (map (\<lambda>q. CHR ''%'' # q) ?ps)" by (rule pieces_join [symmetric])
  moreover have "\<forall>q \<in> set (?p # ?ps). CHR ''%'' \<notin> set q" using pieces_no_percent [of _ fmt] by auto
  moreover have "GetLogText fmt args = Inr (?p @ concat (map2 (\<lambda>v q. c_str v @ q) vs ?ps))"
    using vs(1) by (simp add: GetLogText_def AppendDetailInfo_woven)
  ultimately show ?thesis using vs(2) by blast
qed

theorem log_text_woven_witness:
  "\<exists>p ps vs. ''id % at % of %'' = p @ concat (map (\<lambda>q. CHR ''%'' # q) ps) \<and>
    map LogValue [Streamed ''7'', Text ''lobby''] = map Inr vs \<and>
    GetLogText ''id % at % of %'' [Streamed ''7'', Text ''lobby''] = Inr (p @ concat (map2 (\<lambda>v q. c_str v @ q) vs ps))"
proof -
  have "CText None \<notin> set [Streamed ''7'', Text ''lobby'']" by simp
  from log_text_woven [OF this, of "''id % at % of %''"] show ?thesis by blast
qed

text \<open>What is behind the first percent sign without an argument does not appear.\<close>

lemma log_text_truncated:
  assumes "count_list a (CHR ''%'') = length vals"
  shows "AppendDetailInfo result (a @ CHR ''%'' # b) vals = AppendDetailInfo result a vals"
  using assms by (induction result a vals rule: AppendDetailInfo.induct) (auto split: list.splits)

lemma log_text_truncated_sample:
  "GetLogText ''50% of % done'' [Streamed ''8''] = Inr ''508 of ''"
  by (simp add: GetLogText_def c_str_def)

text \<open>
  Every call of \<open>Update\<close> after 1970 makes another default logger: \<^verbatim>\<open>m_updateTime\<close> stays where it is.
\<close>

lemma Update_recreates:
  assumes "\<forall>now \<in> set nows. m_updateTime lm < now"
  shows "fold Update nows lm = lm\<lparr>loggers := loggers lm + length nows\<rparr>"
  using assms by (induction nows arbitrary: lm) (simp_all add: Update_def CreateLog_def)

lemma Print_plain: "Print l fmt [] lm = Inr (lm\<lparr>lines := lines lm @ [(l, fmt)]\<rparr>)"
  by (simp add: Print_def sink_def)

lemma Print_null: "CText None \<in> set args \<Longrightarrow> Print l fmt args lm = Inl NullDeref"
proof -
  assume a: "CText None \<in> set args"
  then have "AddArgs storage args = Inl NullDeref" for storage
  proof (induction args arbitrary: storage)
    case (Cons b args)
    then show ?case by (cases b rule: LogValue.cases) auto
  qed simp
  with a show ?thesis by (auto simp: Print_def GetLogText_def)
qed

end
