(* ===== verification/Server_App.thy ===== *)
theory Server_App
  imports Network Log_Text
begin

text \<open>
  Starting a server (NetworkServer.cpp: \<^verbatim>\<open>Initialize\<close>, \<^verbatim>\<open>InitializeWorkerThread\<close>; PlayServer.cpp and
  PlayServer/main.cpp). What creating the completion port answers is a parameter.
\<close>

datatype HANDLE = NULL_HANDLE | INVALID_HANDLE_VALUE | PORT

record 'm server_app =
  m_IOCP :: HANDLE
  m_WorkerThreadCount :: nat
  m_workerThread :: nat
  net :: "'m NetworkServer"
  log_manager :: LogManager

definition server_app_new :: "'m server_app" where
  "server_app_new = \<lparr>m_IOCP = INVALID_HANDLE_VALUE, m_WorkerThreadCount = 0, m_workerThread = 0, net = NetworkServer_new,
     log_manager = LogManager_new\<rparr>"

text \<open>\<open>m_workerThread\<close> counts the threads in the vector; each runs \<open>WorkerThread_round\<close> again and again.\<close>

definition InitializeWorkerThread :: "nat \<Rightarrow> 'm server_app \<Rightarrow> bool \<times> 'm server_app" where
  "InitializeWorkerThread workerThreadCount s =
     (let s = s\<lparr>m_WorkerThreadCount := workerThreadCount\<rparr>
      in (True, s\<lparr>m_workerThread := fold (\<lambda>_ n. n + 1) [0..<m_WorkerThreadCount s] (m_workerThread s)\<rparr>))"

definition Server_Initialize :: "HANDLE \<Rightarrow> 'm server_app \<Rightarrow> bool \<times> 'm server_app" where
  "Server_Initialize port s =
     (let s = s\<lparr>m_IOCP := port\<rparr>
      in if m_IOCP s = NULL_HANDLE \<or> m_IOCP s = INVALID_HANDLE_VALUE then (False, s\<lparr>m_IOCP := INVALID_HANDLE_VALUE\<rparr>)
         else (True, snd (InitializeWorkerThread 5 s)))"

text \<open>Posting to a port that is not there fails, which nobody looks at: the task is allocated, and that is all.\<close>

definition app_WorkerPush :: "NetworkTask \<Rightarrow> 'm server_app \<Rightarrow> bool \<times> 'm server_app" where
  "app_WorkerPush task s =
     (True, s\<lparr>net := if m_IOCP s = PORT then WorkerPush task (net s) else (WorkerPush task (net s))\<lparr>iocp := iocp (net s)\<rparr>\<rparr>)"

text \<open>The application; the dispatcher \<^verbatim>\<open>m_main\<close> has number 0.\<close>

definition PlayServer_Initialize :: "HANDLE \<Rightarrow> 'm server_app \<Rightarrow> bool \<times> 'm server_app" where
  "PlayServer_Initialize port s =
     (let s = s\<lparr>log_manager := Init (log_manager s)\<rparr>; (_, s) = Server_Initialize port s in (True, s))"

definition PlayServer_Start :: "'m server_app \<Rightarrow> bool \<times> 'm server_app" where
  "PlayServer_Start s = (let (_, s) = app_WorkerPush (TaskListen 7777 0) s in (True, s))"

text \<open>\<^verbatim>\<open>Run\<close> writes one line and then sleeps, second after second; \<open>place\<close> is the position the macro adds to the line.\<close>

fun sleep_seconds :: "nat \<Rightarrow> 'm server_app \<Rightarrow> 'm server_app" where
  "sleep_seconds 0 s = s"
| "sleep_seconds (Suc n) s = sleep_seconds n s"

definition PlayServer_Run :: "string \<Rightarrow> nat \<Rightarrow> 'm server_app \<Rightarrow> 'm server_app result" where
  "PlayServer_Run place seconds s =
     ebind (Print Info (place @ ''Server Start'') [] (log_manager s)) (\<lambda>lm. Inr (sleep_seconds seconds (s\<lparr>log_manager := lm\<rparr>)))"

definition main :: "HANDLE \<Rightarrow> string \<Rightarrow> nat \<Rightarrow> 'm server_app result" where
  "main port place seconds =
     (let s = server_app_new; (_, s) = PlayServer_Initialize port s; (_, s) = PlayServer_Start s
      in PlayServer_Run place seconds s)"

section \<open>What is running\<close>

lemma sleep_seconds_id [simp]: "sleep_seconds n s = s"
  by (induction n) simp_all

lemma fold_count: "fold (\<lambda>_. Suc) xs k = k + length xs"
  by (induction xs arbitrary: k) simp_all

lemmas start_defs = main_def PlayServer_Run_def PlayServer_Start_def PlayServer_Initialize_def Server_Initialize_def
  InitializeWorkerThread_def app_WorkerPush_def server_app_new_def Print_def sink_def Init_def CreateLog_def

text \<open>With a port: five workers, and the request to listen on port 7777 is the first thing they will find.\<close>

lemma main_serves:
  "\<exists>s. main PORT place n = Inr s \<and> m_workerThread s = 5 \<and> iocp (net s) = [(0, True, 0)] \<and>
     tasks (net s) 0 = Some (TaskListen 7777 0) \<and> lines (log_manager s) = [(Info, place @ ''Server Start'')]"
  by (simp add: start_defs Let_def fold_count WorkerPush_def NetworkServer_new_def LogManager_new_def del: upt_Suc)

text \<open>
  Without one the program reports the same and goes on, with no worker and nothing queued.
\<close>

lemma main_serves_nobody:
  assumes "port \<noteq> PORT"
  shows "\<exists>s. main port place n = Inr s \<and> m_workerThread s = 0 \<and> iocp (net s) = [] \<and>
     lines (log_manager s) = [(Info, place @ ''Server Start'')]"
  using assms
  by (cases port) (simp_all add: start_defs Let_def WorkerPush_def NetworkServer_new_def LogManager_new_def)

text \<open>
  From start to accept: if the socket calls succeed, the first round of a worker makes the
  listening session and the second leaves an accept pending on it.
\<close>

lemma server_starts_accepting:
  assumes "main PORT place n = Inr s" "ws_socket ws \<noteq> None" "ws_bind ws" "ws_listen ws" "ws_accept ws"
  shows "\<exists>st a client. net_run cdc [Worker ws, Worker ws] (net s) = Inr st \<and> m_sessions st 1 = Some 0 \<and>
    m_socket (objs st ! 0) = ws_socket ws \<and> pending st = [a] \<and> tasks st a = Some (TaskAcceptIO (Some 0) ERunning client)"
proof -
  obtain sock where "ws_socket ws = Some sock" using assms(2) by auto
  moreover have "net s = WorkerPush (TaskListen 7777 0) NetworkServer_new"
    using assms(1) by (auto simp: start_defs Let_def)
  ultimately show ?thesis using assms(3-5)
    by (simp add: WorkerPush_def NetworkServer_new_def WorkerThread_round_def Listen_Run_def CreateNewSession_def GenerateSessionID_def
        Session_Listen_def SetSocket_def upd_session_def RegisterSocketToIOCP_def AcceptIO_Run_def AcceptIO_Start_def request_def
        NetworkSession_new_def Let_def)
qed

end
