(* ===== verification/Flat_Block.thy ===== *)
theory Flat_Block
  imports Flat_Builder
begin

text \<open>
  The memory block below the builder's buffer (flatbuffers/flatbuffers: vector_downward.h, allocator.h,
  default_allocator.h). One block holds two vectors: the buffer, which grows down from its end,
  and the scratch pad, which grows up from its start. When they would meet, a larger block is
  allocated and both are copied to its ends. Any sequence of operations on the block shows the
  same bytes as the operations of \<open>Flat_Builder\<close> on lists, which do not know of the block.
\<close>

section \<open>The block\<close>

text \<open>
  \<open>blk\<close> is the allocated memory (None: \<^verbatim>\<open>buf_\<close> is null). \<^verbatim>\<open>cur_\<close> and \<^verbatim>\<open>scratch_\<close> are offsets into it;
  \<^verbatim>\<open>reserved_\<close> and \<^verbatim>\<open>size_\<close> have 64 and 32 bits.
\<close>

record vector_block =
  blk :: "byte list option"
  reserved :: int
  bsize :: int
  cur :: int
  scratch :: int

definition vector_block_new :: vector_block where
  "vector_block_new = \<lparr>blk = None, reserved = 0, bsize = 0, cur = 0, scratch = 0\<rparr>"

text \<open>The arguments of the builder's constructor: \<^verbatim>\<open>initial_size\<close> and the alignment of the largest scalar.\<close>

definition initial_size :: int where
  "initial_size = 1024"

definition buffer_minalign :: int where
  "buffer_minalign = 8"

text \<open>Fresh memory is not initialized: it holds any bytes (\<open>junk\<close>).\<close>

definition Allocate :: "(nat \<Rightarrow> byte) \<Rightarrow> int \<Rightarrow> byte list" where
  "Allocate junk n = map junk [0..<nat n]"

definition memcpy_downward :: "byte list \<Rightarrow> int \<Rightarrow> byte list \<Rightarrow> int \<Rightarrow> int \<Rightarrow> int \<Rightarrow> byte list result" where
  "memcpy_downward old_p old_size new_p new_size in_use_back in_use_front =
     ebind (mem_read old_p (old_size - in_use_back) in_use_back) (\<lambda>back.
     ebind (mem_write new_p (new_size - in_use_back) back) (\<lambda>new_p.
     ebind (mem_read old_p 0 in_use_front) (\<lambda>front.
     mem_write new_p 0 front)))"

definition reallocate_downward :: "(nat \<Rightarrow> byte) \<Rightarrow> byte list \<Rightarrow> int \<Rightarrow> int \<Rightarrow> int \<Rightarrow> int \<Rightarrow> byte list result" where
  "reallocate_downward junk old_p old_size new_size in_use_back in_use_front =
     ebind (assert (new_size > old_size)) (\<lambda>_.
     memcpy_downward old_p old_size (Allocate junk new_size) new_size in_use_back in_use_front)"

definition unused_buffer_size :: "vector_block \<Rightarrow> int" where
  "unused_buffer_size b = (cur b - scratch b) mod 2 ^ 32"

definition scratch_size :: "vector_block \<Rightarrow> int" where
  "scratch_size b = scratch b mod 2 ^ 32"

definition new_reserved :: "int \<Rightarrow> int \<Rightarrow> int" where
  "new_reserved old_reserved len =
     (let r = (old_reserved + max len (if old_reserved \<noteq> 0 then old_reserved div 2 else initial_size)) mod 2 ^ 64
      in ((r + buffer_minalign - 1) mod 2 ^ 64) AND NOT (buffer_minalign - 1))"

definition reallocate :: "(nat \<Rightarrow> byte) \<Rightarrow> int \<Rightarrow> vector_block \<Rightarrow> vector_block result" where
  "reallocate junk len b =
     (let old_reserved = reserved b; old_size = bsize b; old_scratch_size = scratch_size b;
          r = new_reserved old_reserved len
      in ebind (case blk b of Some m \<Rightarrow> reallocate_downward junk m old_reserved r old_size old_scratch_size
                | None \<Rightarrow> Inr (Allocate junk r)) (\<lambda>m.
         Inr (b\<lparr>reserved := r, blk := Some m, cur := r - old_size, scratch := old_scratch_size\<rparr>)))"

definition block_ensure_space :: "(nat \<Rightarrow> byte) \<Rightarrow> int \<Rightarrow> vector_block \<Rightarrow> vector_block result" where
  "block_ensure_space junk len b =
     ebind (assert (cur b \<ge> scratch b \<and> scratch b \<ge> 0)) (\<lambda>_.
     ebind (if len > unused_buffer_size b then reallocate junk len b else Inr b) (\<lambda>b.
     ebind (assert (bsize b < max_size)) (\<lambda>_. Inr b)))"

definition make_space :: "(nat \<Rightarrow> byte) \<Rightarrow> int \<Rightarrow> vector_block \<Rightarrow> vector_block result" where
  "make_space junk len b =
     (if len = 0 then Inr b
      else ebind (block_ensure_space junk len b) (\<lambda>b.
        Inr (b\<lparr>cur := cur b - len, bsize := (bsize b + len) mod 2 ^ 32\<rparr>)))"

text \<open>A write through a pointer into the block.\<close>

definition store :: "int \<Rightarrow> byte list \<Rightarrow> vector_block \<Rightarrow> vector_block result" where
  "store p bytes b =
     (case blk b of None \<Rightarrow> Inl NullDeref
      | Some m \<Rightarrow> ebind (mem_write m p bytes) (\<lambda>m. Inr (b\<lparr>blk := Some m\<rparr>)))"

definition block_push :: "(nat \<Rightarrow> byte) \<Rightarrow> byte list \<Rightarrow> vector_block \<Rightarrow> vector_block result" where
  "block_push junk bytes b =
     (if bytes = [] then Inr b
      else ebind (make_space junk (int (length bytes)) b) (\<lambda>b. store (cur b) bytes b))"

text \<open>\<^verbatim>\<open>push_small\<close> of a scalar, and \<^verbatim>\<open>fill\<close> with its loop.\<close>

definition push_small :: "(nat \<Rightarrow> byte) \<Rightarrow> nat \<Rightarrow> int \<Rightarrow> vector_block \<Rightarrow> vector_block result" where
  "push_small junk w x b =
     ebind (make_space junk (int w) b) (\<lambda>b. store (cur b) (le_bytes w x) b)"

fun fill_loop :: "nat \<Rightarrow> nat \<Rightarrow> vector_block \<Rightarrow> vector_block result" where
  "fill_loop i 0 b = Inr b"
| "fill_loop i (Suc n) b = ebind (store (cur b + int i) [0] b) (fill_loop (Suc i) n)"

definition block_fill :: "(nat \<Rightarrow> byte) \<Rightarrow> nat \<Rightarrow> vector_block \<Rightarrow> vector_block result" where
  "block_fill junk zero_pad_bytes b = ebind (make_space junk (int zero_pad_bytes) b) (fill_loop 0 zero_pad_bytes)"

definition fill_big :: "(nat \<Rightarrow> byte) \<Rightarrow> nat \<Rightarrow> vector_block \<Rightarrow> vector_block result" where
  "fill_big junk zero_pad_bytes b =
     ebind (make_space junk (int zero_pad_bytes) b) (\<lambda>b. store (cur b) (replicate zero_pad_bytes 0) b)"

definition scratch_push_small :: "(nat \<Rightarrow> byte) \<Rightarrow> byte list \<Rightarrow> vector_block \<Rightarrow> vector_block result" where
  "scratch_push_small junk t b =
     ebind (block_ensure_space junk (int (length t)) b) (\<lambda>b.
     ebind (store (scratch b) t b) (\<lambda>b. Inr (b\<lparr>scratch := scratch b + int (length t)\<rparr>)))"

definition block_pop :: "int \<Rightarrow> vector_block \<Rightarrow> vector_block" where
  "block_pop n b = b\<lparr>cur := cur b + n, bsize := (bsize b - n) mod 2 ^ 32\<rparr>"

definition scratch_pop :: "int \<Rightarrow> vector_block \<Rightarrow> vector_block" where
  "scratch_pop n b = b\<lparr>scratch := scratch b - n\<rparr>"

definition clear_scratch :: "vector_block \<Rightarrow> vector_block" where
  "clear_scratch b = b\<lparr>scratch := 0\<rparr>"

definition clear :: "vector_block \<Rightarrow> vector_block" where
  "clear b =
     clear_scratch ((if blk b \<noteq> None then b\<lparr>cur := reserved b\<rparr> else b\<lparr>reserved := 0, cur := 0\<rparr>)\<lparr>bsize := 0\<rparr>)"

definition block_data_at :: "int \<Rightarrow> vector_block \<Rightarrow> int" where
  "block_data_at off b = reserved b - off"

text \<open>\<^verbatim>\<open>release\<close>: the detached buffer has the block, \<^verbatim>\<open>cur_\<close> and the size; its bytes.\<close>

definition block_release :: "vector_block \<Rightarrow> byte list result \<times> vector_block" where
  "block_release b =
     (case blk b of None \<Rightarrow> Inl NullDeref | Some m \<Rightarrow> mem_read m (cur b) (bsize b), clear (b\<lparr>blk := None\<rparr>))"

section \<open>Runs\<close>

datatype vop = VPush "byte list" | VPushSmall nat int | VFill nat | VFillBig nat | VPop nat | VWrite nat int int
  | VScratchPush "byte list" | VScratchPop nat | VClearScratch | VClear

fun block_step :: "(nat \<Rightarrow> byte) \<Rightarrow> vop \<Rightarrow> vector_block \<Rightarrow> vector_block result" where
  "block_step junk (VPush bytes) b = block_push junk bytes b"
| "block_step junk (VPushSmall w x) b = push_small junk w x b"
| "block_step junk (VFill n) b = block_fill junk n b"
| "block_step junk (VFillBig n) b = fill_big junk n b"
| "block_step junk (VPop n) b = Inr (block_pop (int n) b)"
| "block_step junk (VWrite w off x) b = store (block_data_at off b) (le_bytes w x) b"
| "block_step junk (VScratchPush t) b = scratch_push_small junk t b"
| "block_step junk (VScratchPop n) b = Inr (scratch_pop (int n) b)"
| "block_step junk VClearScratch b = Inr (clear_scratch b)"
| "block_step junk VClear b = Inr (clear b)"

text \<open>The same operations on the buffer of \<open>Flat_Builder\<close> and a list for the scratch pad.\<close>

fun vectors_step :: "vop \<Rightarrow> vector_downward \<times> byte list \<Rightarrow> (vector_downward \<times> byte list) result" where
  "vectors_step (VPush bytes) (v, sp) = ebind (push bytes v) (\<lambda>v. Inr (v, sp))"
| "vectors_step (VPushSmall w x) (v, sp) = ebind (push (le_bytes w x) v) (\<lambda>v. Inr (v, sp))"
| "vectors_step (VFill n) (v, sp) = ebind (fill (int n) v) (\<lambda>v. Inr (v, sp))"
| "vectors_step (VFillBig n) (v, sp) = ebind (fill (int n) v) (\<lambda>v. Inr (v, sp))"
| "vectors_step (VPop n) (v, sp) = Inr (vd_pop (int n) v, sp)"
| "vectors_step (VWrite w off x) (v, sp) = ebind (WriteScalar w (data_at off v) x v) (\<lambda>v. Inr (v, sp))"
| "vectors_step (VScratchPush t) (v, sp) = ebind (ensure_space v) (\<lambda>_. Inr (v, sp @ t))"
| "vectors_step (VScratchPop n) (v, sp) = Inr (v, take (length sp - n) sp)"
| "vectors_step VClearScratch (v, sp) = Inr (v, [])"
| "vectors_step VClear (v, sp) = Inr (vector_downward_new, [])"

text \<open>Scalars have a size, nothing is popped that is not there, and both vectors together stay below \<open>2 ^ 30\<close> bytes.\<close>

fun vop_ok :: "vop \<Rightarrow> vector_downward \<times> byte list \<Rightarrow> bool" where
  "vop_ok op (v, sp) =
     (let room = 2 ^ 30 - int (length sp) - int (length (vd_data v))
      in case op of VPush bytes \<Rightarrow> int (length bytes) < room | VPushSmall w x \<Rightarrow> 0 < w \<and> int w < room
        | VFill n \<Rightarrow> int n < room | VFillBig n \<Rightarrow> 0 < n \<and> int n < room | VPop n \<Rightarrow> n \<le> length (vd_data v)
        | VWrite w off x \<Rightarrow> 0 < w | VScratchPush t \<Rightarrow> t \<noteq> [] \<and> int (length t) < room | VScratchPop n \<Rightarrow> n \<le> length sp
        | VClearScratch \<Rightarrow> True | VClear \<Rightarrow> True)"

text \<open>A run; the step is told how many operations are still to come (fresh memory differs from call to call).\<close>

fun run_steps :: "(nat \<Rightarrow> 'op \<Rightarrow> 's \<Rightarrow> 's result) \<Rightarrow> 'op list \<Rightarrow> 's \<Rightarrow> 's result" where
  "run_steps step [] s = Inr s"
| "run_steps step (op # ops) s = ebind (step (length ops) op s) (run_steps step ops)"

definition block_run :: "(nat \<Rightarrow> nat \<Rightarrow> byte) \<Rightarrow> vop list \<Rightarrow> vector_block \<Rightarrow> vector_block result" where
  "block_run junk = run_steps (\<lambda>k. block_step (junk k))"

definition vectors_run :: "vop list \<Rightarrow> vector_downward \<times> byte list \<Rightarrow> (vector_downward \<times> byte list) result" where
  "vectors_run = run_steps (\<lambda>k op s. if vop_ok op s then vectors_step op s else Inl AssertionFailed)"

text \<open>What the block shows.\<close>

definition buffer_of :: "vector_block \<Rightarrow> vector_downward" where
  "buffer_of b = \<lparr>vd_data = (case blk b of None \<Rightarrow> [] | Some m \<Rightarrow> drop (nat (cur b)) m), vd_size = bsize b\<rparr>"

definition scratch_of :: "vector_block \<Rightarrow> byte list" where
  "scratch_of b = (case blk b of None \<Rightarrow> [] | Some m \<Rightarrow> take (nat (scratch b)) m)"

text \<open>
  The interface between the two levels: every step of the abstract side that succeeds is matched
  by a step of the concrete side, and the relation is kept.
\<close>

locale simulated_steps =
  fixes conc :: "nat \<Rightarrow> 'op \<Rightarrow> 'c \<Rightarrow> 'c result"
    and abst :: "nat \<Rightarrow> 'op \<Rightarrow> 'a \<Rightarrow> 'a result"
    and sim :: "'c \<Rightarrow> 'a \<Rightarrow> bool"
  assumes simulates: "sim c a \<Longrightarrow> abst k op a = Inr a' \<Longrightarrow> \<exists>c'. conc k op c = Inr c' \<and> sim c' a'"
begin

lemma run_simulates: "sim c a \<Longrightarrow> run_steps abst ops a = Inr a' \<Longrightarrow> \<exists>c'. run_steps conc ops c = Inr c' \<and> sim c' a'"
proof (induction ops arbitrary: c a)
  case (Cons op ops)
  then obtain a1 where a1: "abst (length ops) op a = Inr a1" "run_steps abst ops a1 = Inr a'" by auto
  then obtain c1 where "conc (length ops) op c = Inr c1" "sim c1 a1" using simulates [OF Cons.prems(1)] by blast
  then show ?case using Cons.IH [OF _ a1(2)] by auto
qed simp

end

section \<open>Two vectors in one block\<close>

text \<open>
  The block holds the scratch pad \<open>sp\<close> and the buffer \<open>data\<close> with unused bytes between them; before the
  first allocation both are empty.
\<close>

definition represents :: "vector_block \<Rightarrow> byte list \<Rightarrow> byte list \<Rightarrow> bool" where
  "represents b sp data \<longleftrightarrow>
     b = vector_block_new \<and> sp = [] \<and> data = [] \<or>
     (\<exists>gap. b = \<lparr>blk = Some (sp @ gap @ data), reserved = int (length (sp @ gap @ data)), bsize = int (length data),
        cur = int (length (sp @ gap)), scratch = int (length sp)\<rparr> \<and> int (length (sp @ gap @ data)) < 2 ^ 32)"

lemma represents_new: "represents vector_block_new [] []"
  by (simp add: represents_def)

lemma represents_gap:
  "int (length (sp @ gap @ data)) < 2 ^ 32 \<Longrightarrow>
   represents \<lparr>blk = Some (sp @ gap @ data), reserved = int (length (sp @ gap @ data)), bsize = int (length data),
     cur = int (length (sp @ gap)), scratch = int (length sp)\<rparr> sp data"
  by (auto simp: represents_def)

lemma represents_sizes:
  assumes "represents b sp data"
  shows "scratch b = int (length sp)" "bsize b = int (length data)" "reserved b = cur b + int (length data)"
    "scratch b \<le> cur b" "reserved b < 2 ^ 32" "blk b = None \<Longrightarrow> reserved b = 0"
  using assms by (auto simp: represents_def vector_block_new_def)

lemma mem_write_mid: "length ys = length xs \<Longrightarrow> p = int (length pre) \<Longrightarrow> mem_write (pre @ ys @ post) p xs = Inr (pre @ xs @ post)"
  by (simp add: mem_write_ok)

lemma mem_read_mid: "p = int (length pre) \<Longrightarrow> n = int (length xs) \<Longrightarrow> mem_read (pre @ xs @ post) p n = Inr xs"
  by (simp add: mem_read_ok)

lemma and_not_7: "x AND NOT 7 = x - x mod 8" for x :: int
proof -
  have "NOT x AND (x AND 7) = 0" by (simp add: and.assoc [symmetric])
  from disjunctive_diff_eq_and_not [OF this] have "x AND NOT (x AND 7) = x - (x AND 7)" by simp
  moreover have "x AND 7 = x mod 8" using take_bit_eq_mask [of 3 x] by (simp add: take_bit_eq_mod mask_eq_exp_minus_1)
  moreover have "x AND NOT (x AND 7) = x AND NOT 7" by (rule bit_eqI) (auto simp: bit_simps)
  ultimately show ?thesis by simp
qed

lemma new_reserved_bounds:
  assumes "0 \<le> r" "r < 2 ^ 30" "0 < len" "len < 2 ^ 30"
  shows "r + len \<le> new_reserved r len" "new_reserved r len < 2 ^ 32" "r < new_reserved r len"
proof -
  define m where "m = max len (if r \<noteq> 0 then r div 2 else initial_size)"
  have m: "len \<le> m" "m < 2 ^ 30" using assms by (auto simp: m_def initial_size_def max_def)
  have r: "(r + m) mod 2 ^ 64 = r + m" "(r + m + 8 - 1) mod 2 ^ 64 = r + m + 7" using m assms by (simp_all add: mod_pos_pos_trivial)
  have "new_reserved r len = r + m + 7 - (r + m + 7) mod 8"
    unfolding new_reserved_def Let_def m_def [symmetric] buffer_minalign_def r using and_not_7 [of "r + m + 7"] by simp
  moreover have "0 \<le> (r + m + 7) mod 8" "(r + m + 7) mod 8 < 8" "(2::int) ^ 32 = 4 * 2 ^ 30" "(2::int) ^ 30 > 7" by simp_all
  ultimately show "r + len \<le> new_reserved r len" "new_reserved r len < 2 ^ 32" "r < new_reserved r len"
    using m assms by linarith+
qed

text \<open>A larger block with the same two vectors at its ends.\<close>

lemma reallocate_ok:
  assumes b: "represents b sp data" and len: "0 < len" "int (length sp) + int (length data) + len < 2 ^ 30"
    and full: "unused_buffer_size b < len"
  shows "\<exists>b'. reallocate junk len b = Inr b' \<and> represents b' sp data \<and> len \<le> cur b' - scratch b'"
proof -
  let ?n = "new_reserved (reserved b) len"
  let ?g = "nat (?n - int (length sp) - int (length data))"
  note sz = represents_sizes [OF b]
  have unused: "unused_buffer_size b = cur b - scratch b" using sz by (simp add: unused_buffer_size_def)
  have r: "0 \<le> reserved b" "reserved b < 2 ^ 30" using sz len full unused by linarith+
  note n = new_reserved_bounds [OF r len(1)]
  have nb: "reserved b + len \<le> ?n" "?n < 2 ^ 32" "reserved b < ?n" using n len by simp_all
  have scr: "scratch_size b = int (length sp)" using sz r by (simp add: scratch_size_def)
  obtain gap where gap: "(case blk b of Some m \<Rightarrow> reallocate_downward junk m (reserved b) ?n (bsize b) (scratch_size b)
      | None \<Rightarrow> Inr (Allocate junk ?n)) = Inr (sp @ gap @ data)" "length gap = ?g"
  proof (cases "blk b")
    case None
    then have "sp = []" "data = []" using b by (auto simp: represents_def)
    then show ?thesis using that [of "Allocate junk ?n"] None by (simp add: Allocate_def)
  next
    case (Some m)
    then obtain gap where m: "m = sp @ gap @ data" using b by (auto simp: represents_def vector_block_new_def)
    let ?new = "Allocate junk ?n"
    have nl: "length ?new = length sp + ?g + length data" using nb sz r by (simp add: Allocate_def)
    define p where "p = take (length sp) ?new"
    define g where "g = take ?g (drop (length sp) ?new)"
    define q where "q = drop (length sp + ?g) ?new"
    have "?new = p @ drop (length sp) ?new" "drop (length sp) ?new = g @ q" unfolding p_def g_def q_def
      by (simp_all del: drop_drop add: drop_drop [symmetric] add.commute [of _ ?g])
    then have new: "?new = p @ g @ q" by simp
    have lens: "length p = length sp" "length g = ?g" "length q = length data" using nl by (simp_all add: p_def g_def q_def)
    have "mem_read m (reserved b - bsize b) (bsize b) = Inr data" unfolding m
      using sz b Some m mem_read_mid [of "cur b" "sp @ gap" "bsize b" data "[]"] by (auto simp: represents_def vector_block_new_def)
    moreover have "mem_write ?new (?n - bsize b) data = Inr (p @ g @ data)"
      using mem_write_mid [of q data "?n - bsize b" "p @ g" "[]"] new lens nb sz r by simp
    moreover have "mem_read m 0 (scratch_size b) = Inr sp" unfolding m using mem_read_mid [of 0 "[]" _ sp] scr by simp
    moreover have "mem_write (p @ g @ data) 0 sp = Inr (sp @ g @ data)"
      using mem_write_mid [of p sp 0 "[]"] lens by simp
    ultimately show ?thesis using that [of g] lens(2) Some nb
      by (simp add: reallocate_downward_def memcpy_downward_def assert_def)
  qed
  let ?b = "\<lparr>blk = Some (sp @ gap @ data), reserved = int (length (sp @ gap @ data)), bsize = int (length data),
    cur = int (length (sp @ gap)), scratch = int (length sp)\<rparr>"
  have L: "int (length (sp @ gap @ data)) = ?n" using gap(2) nb sz r by simp
  have "reallocate junk len b = Inr ?b"
    unfolding reallocate_def Let_def using gap(1) sz L scr by simp
  moreover have "represents ?b sp data" using L nb(2) by (intro represents_gap) simp
  ultimately show ?thesis using L nb sz r by (auto simp: algebra_simps)
qed

lemma ensure_space_ok:
  assumes b: "represents b sp data" and len: "0 < len" "int (length sp) + int (length data) + len < 2 ^ 30"
  shows "\<exists>gap. block_ensure_space junk len b =
      Inr \<lparr>blk = Some (sp @ gap @ data), reserved = int (length (sp @ gap @ data)), bsize = int (length data),
        cur = int (length (sp @ gap)), scratch = int (length sp)\<rparr> \<and>
    len \<le> int (length gap) \<and> int (length (sp @ gap @ data)) < 2 ^ 32"
proof -
  note sz = represents_sizes [OF b]
  have "\<exists>b'. (if len > unused_buffer_size b then reallocate junk len b else Inr b) = Inr b' \<and>
      represents b' sp data \<and> len \<le> cur b' - scratch b'"
  proof (cases "unused_buffer_size b < len")
    case True
    then show ?thesis using reallocate_ok [OF b len True] by simp
  next
    case False
    moreover have "unused_buffer_size b = cur b - scratch b" using sz by (simp add: unused_buffer_size_def)
    ultimately show ?thesis using b by auto
  qed
  then obtain b' where b': "(if len > unused_buffer_size b then reallocate junk len b else Inr b) = Inr b'"
    "represents b' sp data" "len \<le> cur b' - scratch b'" by blast
  then obtain gap where "b' = \<lparr>blk = Some (sp @ gap @ data), reserved = int (length (sp @ gap @ data)), bsize = int (length data),
      cur = int (length (sp @ gap)), scratch = int (length sp)\<rparr>" "int (length (sp @ gap @ data)) < 2 ^ 32"
    using len(1) by (auto simp: represents_def vector_block_new_def)
  then show ?thesis using b'(1,3) sz len
    by (auto simp: block_ensure_space_def assert_def max_size_def)
qed

text \<open>Bytes behind the buffer's start: every writing operation takes them from the gap.\<close>

lemma make_space_ok:
  assumes "represents b sp data" "0 < n" "int (length sp) + int (length data) + int n < 2 ^ 30"
  obtains gap old where "make_space junk (int n) b =
      Inr \<lparr>blk = Some (sp @ gap @ old @ data), reserved = int (length (sp @ gap @ old @ data)), bsize = int (length (old @ data)),
        cur = int (length (sp @ gap)), scratch = int (length sp)\<rparr>"
    "length old = n" "int (length (sp @ gap @ old @ data)) < 2 ^ 32"
proof -
  obtain gap where gap: "block_ensure_space junk (int n) b =
      Inr \<lparr>blk = Some (sp @ gap @ data), reserved = int (length (sp @ gap @ data)), bsize = int (length data),
        cur = int (length (sp @ gap)), scratch = int (length sp)\<rparr>" "int n \<le> int (length gap)" "int (length (sp @ gap @ data)) < 2 ^ 32"
    using ensure_space_ok [OF assms(1), of "int n" junk] assms(2,3) by auto
  define g where "g = take (length gap - n) gap"
  define old where "old = drop (length gap - n) gap"
  have g: "gap = g @ old" "length old = n" using gap(2) by (simp_all add: g_def old_def)
  show thesis
    by (rule that [of g old]) (use gap(1,3) g assms(2,3) in \<open>auto simp: make_space_def\<close>)
qed

lemma block_push_ok:
  assumes "represents b sp data" "int (length sp) + int (length data) + int (length bs) < 2 ^ 30"
  shows "\<exists>b'. block_push junk bs b = Inr b' \<and> represents b' sp (bs @ data)"
proof (cases "bs = []")
  case False
  then obtain gap old where m: "make_space junk (int (length bs)) b =
      Inr \<lparr>blk = Some (sp @ gap @ old @ data), reserved = int (length (sp @ gap @ old @ data)), bsize = int (length (old @ data)),
        cur = int (length (sp @ gap)), scratch = int (length sp)\<rparr>"
    "length old = length bs" "int (length (sp @ gap @ old @ data)) < 2 ^ 32"
    using make_space_ok [OF assms(1) _ assms(2), of junk] by blast
  have "mem_write ((sp @ gap) @ old @ data) (int (length (sp @ gap))) bs = Inr ((sp @ gap) @ bs @ data)"
    using m(2) by (intro mem_write_mid) simp_all
  then show ?thesis using m False represents_gap [of sp gap "bs @ data"]
    by (simp add: block_push_def store_def)
qed (use assms in \<open>simp add: block_push_def\<close>)

lemma fill_big_push: "0 < n \<Longrightarrow> fill_big junk n b = block_push junk (replicate n 0) b"
  by (simp add: fill_big_def block_push_def)

lemma push_small_push: "0 < w \<Longrightarrow> push_small junk w x b = block_push junk (le_bytes w x) b"
  by (cases w) (simp_all add: push_small_def block_push_def)

text \<open>The loop of \<^verbatim>\<open>fill\<close> is \<^verbatim>\<open>memset\<close>.\<close>

lemma fill_loop_ok:
  assumes "blk b = Some (pre @ zs @ old @ post)" "cur b = int (length pre)" "length zs = i"
  shows "fill_loop i (length old) b = Inr (b\<lparr>blk := Some (pre @ zs @ replicate (length old) 0 @ post)\<rparr>)"
  using assms
proof (induction old arbitrary: i zs b)
  case Nil
  then show ?case by simp
next
  case (Cons x old)
  have "mem_write ((pre @ zs) @ [x] @ old @ post) (cur b + int i) [0] = Inr ((pre @ zs) @ [0] @ old @ post)"
    using Cons.prems by (intro mem_write_mid) simp_all
  then have "store (cur b + int i) [0] b = Inr (b\<lparr>blk := Some (pre @ (zs @ [0]) @ old @ post)\<rparr>)"
    using Cons.prems(1) by (simp add: store_def)
  then show ?case using Cons.IH [of "b\<lparr>blk := Some (pre @ (zs @ [0]) @ old @ post)\<rparr>" "zs @ [0]" "Suc i"] Cons.prems by simp
qed

lemma block_fill_ok:
  assumes "represents b sp data" "int (length sp) + int (length data) + int n < 2 ^ 30"
  shows "\<exists>b'. block_fill junk n b = Inr b' \<and> represents b' sp (replicate n 0 @ data)"
proof (cases "n = 0")
  case False
  then obtain gap old where m: "make_space junk (int n) b =
      Inr \<lparr>blk = Some (sp @ gap @ old @ data), reserved = int (length (sp @ gap @ old @ data)), bsize = int (length (old @ data)),
        cur = int (length (sp @ gap)), scratch = int (length sp)\<rparr>" (is "_ = Inr ?b")
    "length old = n" "int (length (sp @ gap @ old @ data)) < 2 ^ 32"
    using make_space_ok [OF assms(1) _ assms(2), of junk] by blast
  have "fill_loop 0 (length old) ?b = Inr (?b\<lparr>blk := Some ((sp @ gap) @ [] @ replicate (length old) 0 @ data)\<rparr>)"
    by (intro fill_loop_ok) simp_all
  then show ?thesis using m represents_gap [of sp gap "replicate n 0 @ data"]
    by (simp add: block_fill_def)
qed (use assms in \<open>simp add: block_fill_def make_space_def\<close>)

lemma scratch_push_ok:
  assumes "represents b sp data" "0 < length t" "int (length sp) + int (length data) + int (length t) < 2 ^ 30"
  shows "\<exists>b'. scratch_push_small junk t b = Inr b' \<and> represents b' (sp @ t) data"
proof -
  obtain gap where gap: "block_ensure_space junk (int (length t)) b =
      Inr \<lparr>blk = Some (sp @ gap @ data), reserved = int (length (sp @ gap @ data)), bsize = int (length data),
        cur = int (length (sp @ gap)), scratch = int (length sp)\<rparr>" "int (length t) \<le> int (length gap)" "int (length (sp @ gap @ data)) < 2 ^ 32"
    using ensure_space_ok [OF assms(1), of "int (length t)" junk] assms(2,3) by auto
  define old where "old = take (length t) gap"
  define g where "g = drop (length t) gap"
  have g: "gap = old @ g" "length old = length t" using gap(2) by (simp_all add: g_def old_def)
  have "mem_write (sp @ old @ g @ data) (int (length sp)) t = Inr (sp @ t @ g @ data)"
    using g(2) by (intro mem_write_mid) simp_all
  then show ?thesis using gap g represents_gap [of "sp @ t" g data]
    by (simp add: scratch_push_small_def store_def add.assoc)
qed

lemma represents_cases [consumes 1, case_names null block]:
  assumes "represents b sp data"
  obtains "b = vector_block_new" "sp = []" "data = []"
  | gap where "b = \<lparr>blk = Some (sp @ gap @ data), reserved = int (length (sp @ gap @ data)), bsize = int (length data),
      cur = int (length (sp @ gap)), scratch = int (length sp)\<rparr>" "int (length (sp @ gap @ data)) < 2 ^ 32"
  using assms unfolding represents_def by blast

lemma represents_pop:
  assumes "represents b sp data" "n \<le> length data"
  shows "represents (block_pop (int n) b) sp (drop n data)"
  using assms(1)
proof (cases rule: represents_cases)
  case null
  then show ?thesis using assms(2) represents_new by (simp add: block_pop_def vector_block_new_def)
next
  case (block gap)
  then show ?thesis using represents_gap [of sp "gap @ take n data" "drop n data"] assms(2)
    by (simp add: block_pop_def of_nat_diff add.assoc)
qed

lemma represents_scratch:
  assumes "represents b sp data" "n \<le> length sp"
  shows "represents (b\<lparr>scratch := int n\<rparr>) (take n sp) data"
  using assms(1)
proof (cases rule: represents_cases)
  case null
  then show ?thesis using assms(2) represents_new by (simp add: vector_block_new_def)
next
  case (block gap)
  have td: "take n sp @ drop n sp @ xs = sp @ xs" for xs by (metis append.assoc append_take_drop_id)
  show ?thesis using block represents_gap [of "take n sp" "drop n sp @ gap" data] assms(2)
    by (simp add: of_nat_diff td)
qed

lemma represents_clear:
  assumes "represents b sp data"
  shows "represents (clear b) [] []"
  using assms
proof (cases rule: represents_cases)
  case null
  then show ?thesis using represents_new by (simp add: clear_def clear_scratch_def vector_block_new_def)
next
  case (block gap)
  then show ?thesis using represents_gap [of "[]" "sp @ gap @ data" "[]"] by (simp add: clear_def clear_scratch_def)
qed

lemma represents_store:
  assumes "represents b sp data" "xs \<noteq> []" "mem_write data (int (length data) - off) xs = Inr data'"
  shows "\<exists>b'. store (block_data_at off b) xs b = Inr b' \<and> represents b' sp data'"
proof -
  have r: "off \<le> int (length data)" "int (length xs) \<le> off" using assms(3) by (auto simp: mem_write_def split: if_splits)
  then have "data \<noteq> []" using assms(2) by (cases xs) auto
  then obtain gap where b: "b = \<lparr>blk = Some (sp @ gap @ data), reserved = int (length (sp @ gap @ data)), bsize = int (length data),
      cur = int (length (sp @ gap)), scratch = int (length sp)\<rparr>" "int (length (sp @ gap @ data)) < 2 ^ 32"
    using assms(1) by (auto simp: represents_def)
  let ?k = "nat (int (length data) - off)"
  have d: "data' = take ?k data @ xs @ drop (?k + length xs) data" using assms(3) r by (simp add: mem_write_ok)
  have "data = take ?k data @ take (length xs) (drop ?k data) @ drop (?k + length xs) data"
    by (metis append_take_drop_id drop_drop add.commute)
  then have "sp @ gap @ data = (sp @ gap @ take ?k data) @ take (length xs) (drop ?k data) @ drop (?k + length xs) data"
    by simp
  moreover have "mem_write ((sp @ gap @ take ?k data) @ take (length xs) (drop ?k data) @ drop (?k + length xs) data)
      (block_data_at off b) xs = Inr ((sp @ gap @ take ?k data) @ xs @ drop (?k + length xs) data)"
    using r b(1) by (intro mem_write_mid) (auto simp: block_data_at_def)
  ultimately have "mem_write (sp @ gap @ data) (block_data_at off b) xs = Inr (sp @ gap @ data')" using d by simp
  then have "store (block_data_at off b) xs b = Inr (b\<lparr>blk := Some (sp @ gap @ data')\<rparr>)" using b(1) by (simp add: store_def)
  moreover have "length data' = length data" using mem_write_length [OF assms(3)] .
  ultimately show ?thesis using b represents_gap [of sp gap data'] by simp
qed

section \<open>The block refines the two vectors\<close>

definition same_vectors :: "vector_block \<Rightarrow> vector_downward \<times> byte list \<Rightarrow> bool" where
  "same_vectors b s \<longleftrightarrow> represents b (snd s) (vd_data (fst s)) \<and> vd_size (fst s) = int (length (vd_data (fst s)))"

lemma push_Inr: "push bytes v = Inr v' \<longleftrightarrow>
    (if bytes = [] then v' = v
     else vd_size v < max_size \<and> v' = \<lparr>vd_data = bytes @ vd_data v, vd_size = (vd_size v + int (length bytes)) mod 2 ^ 32\<rparr>)"
  by (auto simp: push_def ensure_space_def assert_def)

lemma same_push:
  assumes "same_vectors b (v, sp)" "int (length sp) + int (length (vd_data v)) + int (length bytes) < 2 ^ 30"
    "push bytes v = Inr v'" "represents b' sp (bytes @ vd_data v)"
  shows "same_vectors b' (v', sp)"
  using assms by (auto simp: same_vectors_def push_Inr split: if_splits)

lemma block_step_simulates:
  assumes "same_vectors b s" "vop_ok op s" "vectors_step op s = Inr s'"
  shows "\<exists>b'. block_step junk op b = Inr b' \<and> same_vectors b' s'"
proof (cases s)
  case (Pair v sp)
  have b: "represents b sp (vd_data v)" and size: "vd_size v = int (length (vd_data v))"
    using assms(1) Pair by (simp_all add: same_vectors_def)
  note same = same_push [OF assms(1) [unfolded Pair]]
  show ?thesis
  proof (cases op)
    case (VPush bs)
    then show ?thesis using block_push_ok [OF b, of bs junk] same [of bs] assms(2,3) Pair by fastforce
  next
    case (VPushSmall w x)
    then show ?thesis using block_push_ok [OF b, of "le_bytes w x" junk] same [of "le_bytes w x"] push_small_push [of w] assms(2,3) Pair
      by fastforce
  next
    case (VFill n)
    then show ?thesis using block_fill_ok [OF b, of n junk] same [of "replicate n 0"] assms(2,3) Pair by (fastforce simp: fill_def)
  next
    case (VFillBig n)
    then show ?thesis using block_push_ok [OF b, of "replicate n 0" junk] same [of "replicate n 0"] fill_big_push [of n] assms(2,3) Pair
      by (fastforce simp: fill_def)
  next
    case (VPop n)
    then have "same_vectors (block_pop (int n) b) s'"
      using represents_pop [OF b, of n] represents_sizes(2,3,5) [OF b] represents_sizes(1,4) [OF b] size assms(2,3) Pair
      by (auto simp: same_vectors_def vd_pop_def of_nat_diff)
    then show ?thesis using VPop by simp
  next
    case (VWrite w off x)
    then obtain d where "mem_write (vd_data v) (int (length (vd_data v)) - off) (le_bytes w x) = Inr d" "s' = (v\<lparr>vd_data := d\<rparr>, sp)"
      using assms(3) Pair by (auto simp: WriteScalar_def data_at_def)
    then show ?thesis using represents_store [OF b, of "le_bytes w x" off d] mem_write_length [of "vd_data v"] size VWrite assms(2) Pair
      by (cases w) (auto simp: same_vectors_def)
  next
    case (VScratchPush t)
    then show ?thesis using scratch_push_ok [OF b, of t junk] size assms(2,3) Pair by (auto simp: same_vectors_def)
  next
    case (VScratchPop n)
    then show ?thesis using represents_scratch [OF b, of "length sp - n"] represents_sizes(1) [OF b] size assms(2,3) Pair
      by (auto simp: same_vectors_def scratch_pop_def of_nat_diff)
  next
    case VClearScratch
    then show ?thesis using represents_scratch [OF b, of 0] size assms(3) Pair by (auto simp: same_vectors_def clear_scratch_def)
  next
    case VClear
    then show ?thesis using represents_clear [OF b] assms(3) Pair by (auto simp: same_vectors_def vector_downward_new_def)
  qed
qed

interpretation block: simulated_steps "\<lambda>k. block_step (junk k)"
  "\<lambda>k op s. if vop_ok op s then vectors_step op s else Inl AssertionFailed" same_vectors for junk
  by unfold_locales (auto split: if_splits intro: block_step_simulates)

lemma same_vectors_shows:
  assumes "same_vectors b (v, sp)"
  shows "buffer_of b = v" "scratch_of b = sp" "vd_data v \<noteq> [] \<Longrightarrow> fst (block_release b) = Inr (vd_data v)"
proof -
  have b: "represents b sp (vd_data v)" and size: "vd_size v = int (length (vd_data v))" using assms by (simp_all add: same_vectors_def)
  show "buffer_of b = v" "scratch_of b = sp" using b size
    by (auto simp: represents_def vector_block_new_def buffer_of_def scratch_of_def)
  assume "vd_data v \<noteq> []"
  then obtain gap where "b = \<lparr>blk = Some (sp @ gap @ vd_data v), reserved = int (length (sp @ gap @ vd_data v)),
      bsize = int (length (vd_data v)), cur = int (length (sp @ gap)), scratch = int (length sp)\<rparr>"
    using b by (auto simp: represents_def)
  then show "fst (block_release b) = Inr (vd_data v)"
    using mem_read_mid [of _ "sp @ gap" _ "vd_data v" "[]"] by (simp add: block_release_def)
qed

text \<open>
  C27. One block, two vectors: whatever operations run on a new \<^verbatim>\<open>vector_downward\<close>, and whatever bytes fresh
  memory holds, the block shows the buffer and the scratch pad that the same operations give on two
  lists. No access leaves the block, a reallocation loses nothing, and the released buffer has
  exactly the bytes of the list. (Both vectors together
  stay below \<open>2 ^ 30\<close> bytes and nothing is popped that is not there: otherwise the run on the lists fails.)
\<close>

theorem block_refines_two_vectors:
  assumes "vectors_run ops (vector_downward_new, []) = Inr (v, sp)"
  shows "\<exists>b. block_run junk ops vector_block_new = Inr b \<and> buffer_of b = v \<and> scratch_of b = sp \<and>
    (vd_data v \<noteq> [] \<longrightarrow> fst (block_release b) = Inr (vd_data v))"
proof -
  have "same_vectors vector_block_new (vector_downward_new, [])"
    by (simp add: same_vectors_def represents_new vector_downward_new_def)
  from block.run_simulates [OF this assms [unfolded vectors_run_def], of junk] show ?thesis
    using same_vectors_shows unfolding block_run_def by blast
qed

theorem block_refines_two_vectors_witness:
  "\<exists>b. block_run (\<lambda>k i. 170) [VPush (replicate 1000 7), VScratchPush [1, 2, 3, 4], VFill 100, VWrite 2 1002 513, VPop 90] vector_block_new = Inr b \<and>
    vd_data (buffer_of b) = replicate 8 0 @ [1, 2] @ replicate 1000 7 \<and> scratch_of b = [1, 2, 3, 4]"
proof -
  have b: "le_bytes 2 513 = [1, 2]" by code_simp
  let ?v = "\<lparr>vd_data = replicate 8 0 @ [1, 2] @ replicate 1000 7, vd_size = 1010\<rparr>"
  have "vectors_run [VPush (replicate 1000 7), VScratchPush [1, 2, 3, 4], VFill 100, VWrite 2 1002 513, VPop 90]
      (vector_downward_new, []) = Inr (?v, [1, 2, 3, 4])"
    by (simp add: vectors_run_def vector_downward_new_def push_def fill_def ensure_space_def assert_def max_size_def
      WriteScalar_def data_at_def vd_pop_def mem_write_ok b)
  from block_refines_two_vectors [OF this, of "\<lambda>k i. 170"] show ?thesis by auto
qed

end
