(* ===== verification/Singleton_Instance.thy ===== *)
theory Singleton_Instance
  imports MMO_Prelude
begin

text \<open>
  \<^verbatim>\<open>Singleton<T>\<close> (ServerCore/Utill/Singleton.h): every part of the server is reached through
  \<open>GetInstance\<close>, which creates the one instance on first use, by double-checked locking. Any number
  of threads call it; a step of a thread is one read or write of \<^verbatim>\<open>g_instance\<close>, one operation on
  \<^verbatim>\<open>g_lock\<close>, or one half of \<^verbatim>\<open>new T()\<close> (allocation, then the constructor). The steps interleave
  sequentially consistently: \<^verbatim>\<open>g_instance\<close> is a plain pointer in the source, so this is what an
  ordering-preserving compiler and machine do with it, not what the language promises.
\<close>

section \<open>State and steps\<close>

datatype pc =
    Idle
  | Lock                 \<comment> \<open>\<^verbatim>\<open>g_instance\<close> was null: waiting for \<^verbatim>\<open>g_lock\<close>\<close>
  | Recheck              \<comment> \<open>inside the lock, before the second test\<close>
  | Construct nat        \<comment> \<open>memory allocated, the constructor still to run\<close>
  | Store nat            \<comment> \<open>constructed, \<^verbatim>\<open>g_instance\<close> still to be set\<close>
  | ReturnLocked         \<comment> \<open>before \<^verbatim>\<open>return g_instance\<close> and the end of the guard\<close>
  | ReturnFast           \<comment> \<open>before \<^verbatim>\<open>return g_instance\<close> of \<open>GetInstance\<close>\<close>
  | Returned "nat option"

text \<open>
  \<open>allocated\<close> counts the objects allocated (their addresses are \<open>0, 1, \<dots>\<close>), \<open>constructed\<close> lists the
  ones whose constructor has run.
\<close>

record singleton =
  g_instance :: "nat option"
  g_lock :: "nat option"
  allocated :: nat
  constructed :: "nat list"
  pcs :: "pc list"

definition singleton_new :: "nat \<Rightarrow> singleton" where
  "singleton_new n = \<lparr>g_instance = None, g_lock = None, allocated = 0, constructed = [], pcs = replicate n Idle\<rparr>"

abbreviation at :: "nat \<Rightarrow> pc \<Rightarrow> singleton \<Rightarrow> bool" where
  "at t p s \<equiv> t < length (pcs s) \<and> pcs s ! t = p"

definition goto :: "nat \<Rightarrow> pc \<Rightarrow> singleton \<Rightarrow> singleton" where
  "goto t p s = s\<lparr>pcs := (pcs s)[t := p]\<rparr>"

text \<open>\<open>GetInstance\<close>: the first test, and the return of what is read then.\<close>

definition GetInstance_test :: "nat \<Rightarrow> singleton \<Rightarrow> singleton" where
  "GetInstance_test t s = goto t (if g_instance s = None then Lock else ReturnFast) s"

definition GetInstance_return :: "nat \<Rightarrow> singleton \<Rightarrow> singleton" where
  "GetInstance_return t s = goto t (Returned (g_instance s)) s"

text \<open>\<open>CreateInstance\<close>: lock, second test with the allocation, constructor, store, return and unlock.\<close>

definition CreateInstance_lock :: "nat \<Rightarrow> singleton \<Rightarrow> singleton" where
  "CreateInstance_lock t s = goto t Recheck (s\<lparr>g_lock := Some t\<rparr>)"

definition CreateInstance_test :: "nat \<Rightarrow> singleton \<Rightarrow> singleton" where
  "CreateInstance_test t s =
     (if g_instance s = None then goto t (Construct (allocated s)) (s\<lparr>allocated := allocated s + 1\<rparr>)
      else goto t ReturnLocked s)"

definition CreateInstance_construct :: "nat \<Rightarrow> nat \<Rightarrow> singleton \<Rightarrow> singleton" where
  "CreateInstance_construct t a s = goto t (Store a) (s\<lparr>constructed := constructed s @ [a]\<rparr>)"

definition CreateInstance_store :: "nat \<Rightarrow> nat \<Rightarrow> singleton \<Rightarrow> singleton" where
  "CreateInstance_store t a s = goto t ReturnLocked (s\<lparr>g_instance := Some a\<rparr>)"

definition CreateInstance_return :: "nat \<Rightarrow> singleton \<Rightarrow> singleton" where
  "CreateInstance_return t s = goto t (Returned (g_instance s)) (s\<lparr>g_lock := None\<rparr>)"

inductive step :: "singleton \<Rightarrow> singleton \<Rightarrow> bool" where
  call: "at t Idle s \<Longrightarrow> step s (GetInstance_test t s)"
| call_again: "at t (Returned r) s \<Longrightarrow> step s (GetInstance_test t s)"
| fast: "at t ReturnFast s \<Longrightarrow> step s (GetInstance_return t s)"
| lock: "at t Lock s \<Longrightarrow> g_lock s = None \<Longrightarrow> step s (CreateInstance_lock t s)"
| recheck: "at t Recheck s \<Longrightarrow> step s (CreateInstance_test t s)"
| construct: "at t (Construct a) s \<Longrightarrow> step s (CreateInstance_construct t a s)"
| store: "at t (Store a) s \<Longrightarrow> step s (CreateInstance_store t a s)"
| unlock: "at t ReturnLocked s \<Longrightarrow> step s (CreateInstance_return t s)"

inductive_cases stepE: "step s s'"

definition reachable :: "nat \<Rightarrow> singleton \<Rightarrow> bool" where
  "reachable n s \<longleftrightarrow> step\<^sup>*\<^sup>* (singleton_new n) s"

section \<open>Invariant\<close>

text \<open>
  Who is inside the lock; what each program point knows. At most one object exists; it is
  \<open>g_instance\<close> as soon as anything can have been returned.
\<close>

fun locked_pc :: "pc \<Rightarrow> bool" where
  "locked_pc Recheck = True"
| "locked_pc (Construct _) = True"
| "locked_pc (Store _) = True"
| "locked_pc ReturnLocked = True"
| "locked_pc _ = False"

fun pc_ok :: "singleton \<Rightarrow> pc \<Rightarrow> bool" where
  "pc_ok s (Construct a) \<longleftrightarrow> a = 0 \<and> allocated s = 1 \<and> constructed s = [] \<and> g_instance s = None"
| "pc_ok s (Store a) \<longleftrightarrow> a = 0 \<and> allocated s = 1 \<and> constructed s = [0] \<and> g_instance s = None"
| "pc_ok s ReturnLocked \<longleftrightarrow> g_instance s = Some 0"
| "pc_ok s ReturnFast \<longleftrightarrow> g_instance s = Some 0"
| "pc_ok s (Returned r) \<longleftrightarrow> r = Some 0 \<and> g_instance s = Some 0"
| "pc_ok s _ \<longleftrightarrow> True"

fun creating :: "pc \<Rightarrow> bool" where
  "creating (Construct _) = True"
| "creating (Store _) = True"
| "creating _ = False"

definition singleton_inv :: "singleton \<Rightarrow> bool" where
  "singleton_inv s \<longleftrightarrow>
     (\<forall>t < length (pcs s). pc_ok s (pcs s ! t) \<and> (locked_pc (pcs s ! t) \<longleftrightarrow> g_lock s = Some t)) \<and>
     (g_instance s = None \<longrightarrow> (\<forall>t < length (pcs s). \<not> creating (pcs s ! t)) \<longrightarrow> allocated s = 0 \<and> constructed s = []) \<and>
     (g_instance s \<noteq> None \<longrightarrow> g_instance s = Some 0 \<and> allocated s = 1 \<and> constructed s = [0])"

lemmas singleton_defs = GetInstance_test_def GetInstance_return_def CreateInstance_lock_def CreateInstance_test_def
  CreateInstance_construct_def CreateInstance_store_def CreateInstance_return_def goto_def

lemma singleton_inv_new: "singleton_inv (singleton_new n)"
  by (simp add: singleton_inv_def singleton_new_def)

text \<open>Inside the lock there is one thread; another thread's program point is outside.\<close>

lemma singleton_inv_other:
  assumes "singleton_inv s" "at t p s" "locked_pc p" "u < length (pcs s)" "u \<noteq> t"
  shows "\<not> locked_pc (pcs s ! u)"
  using assms by (auto simp: singleton_inv_def)

lemma not_locked_not_creating: "\<not> locked_pc p \<Longrightarrow> \<not> creating p"
  by (cases p) simp_all

text \<open>Program points outside the lock depend on \<open>g_instance\<close> alone.\<close>

lemma single_pc_frame: "\<not> locked_pc p \<Longrightarrow> pc_ok s p \<Longrightarrow> g_instance s' = g_instance s \<Longrightarrow> pc_ok s' p"
  by (cases p) simp_all

lemma single_pc_store: "\<not> locked_pc p \<Longrightarrow> pc_ok s p \<Longrightarrow> g_instance s = None \<Longrightarrow> pc_ok s' p"
  by (cases p) simp_all

text \<open>A step of a thread inside the lock: only its own program point has to be looked at.\<close>

lemma singleton_inv_locked_step:
  assumes inv: "singleton_inv s" and t: "at t p s" "locked_pc p"
    and s': "pcs s' = (pcs s)[t := q]" "g_lock s' = (if locked_pc q then Some t else None)" "pc_ok s' q"
    and inst: "g_instance s' = g_instance s \<or> g_instance s = None"
    and none: "g_instance s' = None \<Longrightarrow> \<not> creating q \<Longrightarrow> allocated s' = 0 \<and> constructed s' = []"
    and some: "g_instance s' \<noteq> None \<Longrightarrow> g_instance s' = Some 0 \<and> allocated s' = 1 \<and> constructed s' = [0]"
  shows "singleton_inv s'"
proof -
  have "pc_ok s' (pcs s' ! u) \<and> (locked_pc (pcs s' ! u) \<longleftrightarrow> g_lock s' = Some u)" if "u < length (pcs s')" for u
  proof (cases "u = t")
    case False
    with that s' have u: "u < length (pcs s)" "pcs s' ! u = pcs s ! u" by simp_all
    with singleton_inv_other [OF inv t _ False] have "\<not> locked_pc (pcs s ! u)" by blast
    moreover have "pc_ok s (pcs s ! u)" using inv u by (simp add: singleton_inv_def)
    ultimately show ?thesis using u inst False s'(2) single_pc_frame [of "pcs s ! u" s s'] single_pc_store [of "pcs s ! u" s s']
      by auto
  qed (use t s' in auto)
  moreover have "\<not> creating q" if "\<forall>u < length (pcs s'). \<not> creating (pcs s' ! u)"
    using that t s'(1) by auto
  ultimately show ?thesis using none some by (simp add: singleton_inv_def)
qed

text \<open>A step of a thread outside the lock that leaves the shared fields alone.\<close>

lemma singleton_inv_outside_step:
  assumes inv: "singleton_inv s" and t: "at t p s" "\<not> locked_pc p" and q: "\<not> locked_pc q" "pc_ok s q"
  shows "singleton_inv (goto t q s)"
proof -
  let ?s = "goto t q s"
  have sh: "g_instance ?s = g_instance s" "g_lock ?s = g_lock s" "allocated ?s = allocated s" "constructed ?s = constructed s"
    "pcs ?s = (pcs s)[t := q]" by (simp_all add: goto_def)
  have same: "pc_ok ?s r = pc_ok s r" for r by (cases r) (simp_all add: sh)
  have "pc_ok ?s (pcs ?s ! u) \<and> (locked_pc (pcs ?s ! u) \<longleftrightarrow> g_lock ?s = Some u)" if "u < length (pcs ?s)" for u
    using that inv t q by (cases "u = t") (auto simp: sh same singleton_inv_def)
  moreover have "\<forall>u < length (pcs s). \<not> creating (pcs s ! u)" if "\<forall>u < length (pcs ?s). \<not> creating (pcs ?s ! u)"
    using that t not_locked_not_creating [of p] by (metis length_list_update nth_list_update_neq sh(5))
  ultimately show ?thesis using inv by (auto simp: singleton_inv_def sh)
qed

text \<open>Taking the free lock.\<close>

lemma singleton_inv_lock:
  assumes inv: "singleton_inv s" and t: "at t Lock s" "g_lock s = None"
  shows "singleton_inv (CreateInstance_lock t s)"
proof -
  let ?s = "CreateInstance_lock t s"
  have sh: "g_instance ?s = g_instance s" "g_lock ?s = Some t" "allocated ?s = allocated s" "constructed ?s = constructed s"
    "pcs ?s = (pcs s)[t := Recheck]" by (simp_all add: CreateInstance_lock_def goto_def)
  have same: "pc_ok ?s r = pc_ok s r" for r by (cases r) (simp_all add: sh)
  have "pc_ok ?s (pcs ?s ! u) \<and> (locked_pc (pcs ?s ! u) \<longleftrightarrow> g_lock ?s = Some u)" if "u < length (pcs ?s)" for u
    using that inv t by (cases "u = t") (auto simp: sh same singleton_inv_def)
  moreover have "\<forall>u < length (pcs s). \<not> creating (pcs s ! u)" if "\<forall>u < length (pcs ?s). \<not> creating (pcs ?s ! u)"
    using that t by (metis creating.simps(4) length_list_update nth_list_update_neq sh(5))
  ultimately show ?thesis using inv by (auto simp: singleton_inv_def sh)
qed

lemma singleton_inv_at:
  assumes "singleton_inv s" "at t p s"
  shows "pc_ok s p" "locked_pc p \<Longrightarrow> g_lock s = Some t"
  using assms by (auto simp: singleton_inv_def)

text \<open>At the second test with a null pointer nobody is creating: nothing has been allocated yet.\<close>

lemma recheck_fresh:
  assumes inv: "singleton_inv s" and t: "at t Recheck s" and "g_instance s = None"
  shows "allocated s = 0 \<and> constructed s = []"
proof -
  have "\<not> creating (pcs s ! u)" if "u < length (pcs s)" for u
    using that t singleton_inv_other [OF inv t] not_locked_not_creating by (cases "u = t") auto
  with assms show ?thesis by (auto simp: singleton_inv_def)
qed

lemma singleton_inv_step: "step s s' \<Longrightarrow> singleton_inv s \<Longrightarrow> singleton_inv s'"
proof (induction rule: step.induct)
  case (call t s)
  then show ?case unfolding GetInstance_test_def
    by (intro singleton_inv_outside_step [OF _ call(1)]) (auto simp: singleton_inv_def)
next
  case (call_again t r s)
  then show ?case unfolding GetInstance_test_def
    by (intro singleton_inv_outside_step [OF _ call_again(1)]) (auto simp: singleton_inv_def)
next
  case (fast t s)
  then have "g_instance s = Some 0" using singleton_inv_at [of s t ReturnFast] by simp
  with fast show ?case unfolding GetInstance_return_def
    by (intro singleton_inv_outside_step [OF _ fast(1)]) auto
next
  case (lock t s)
  then show ?case by (intro singleton_inv_lock)
next
  case (recheck t s)
  show ?case
  proof (cases "g_instance s = None")
    case True
    with recheck_fresh [OF recheck(2,1)] singleton_inv_at(2) [OF recheck(2,1)] show ?thesis
      by (intro singleton_inv_locked_step [OF recheck(2,1), where q = "Construct 0"]) (simp_all add: singleton_defs)
  next
    case False
    with recheck singleton_inv_at(2) [OF recheck(2,1)] show ?thesis
      by (intro singleton_inv_locked_step [OF recheck(2,1), where q = ReturnLocked])
        (auto simp: singleton_defs singleton_inv_def)
  qed
next
  case (construct t a s)
  with singleton_inv_at [OF construct(2,1)] show ?case
    by (intro singleton_inv_locked_step [OF construct(2,1), where q = "Store 0"]) (simp_all add: singleton_defs)
next
  case (store t a s)
  with singleton_inv_at [OF store(2,1)] show ?case
    by (intro singleton_inv_locked_step [OF store(2,1), where q = ReturnLocked]) (simp_all add: singleton_defs)
next
  case (unlock t s)
  with singleton_inv_at [OF unlock(2,1)] show ?case
    by (intro singleton_inv_locked_step [OF unlock(2,1), where q = "Returned (Some 0)"])
      (auto simp: singleton_defs singleton_inv_def)
qed

lemma reachable_inv: "reachable n s \<Longrightarrow> singleton_inv s"
  unfolding reachable_def by (induction rule: rtranclp_induct) (auto simp: singleton_inv_new singleton_inv_step)

section \<open>What the callers see\<close>

text \<open>
  C28. In every interleaving of any number of callers: the constructor runs at most once, no second
  object is even allocated, and a call that has returned has returned that object, constructed;
  so two calls never return different instances.
\<close>

theorem GetInstance_unique:
  assumes "reachable n s"
  shows "allocated s \<le> 1 \<and> length (constructed s) \<le> 1 \<and>
    (\<forall>t < length (pcs s). \<forall>r. pcs s ! t = Returned r \<longrightarrow> r = Some 0 \<and> 0 \<in> set (constructed s))"
proof -
  note inv = reachable_inv [OF assms]
  have "(\<exists>t < length (pcs s). creating (pcs s ! t)) \<Longrightarrow> allocated s \<le> 1 \<and> length (constructed s) \<le> 1"
  proof (elim exE conjE)
    fix t assume "t < length (pcs s)" "creating (pcs s ! t)"
    with inv show ?thesis by (cases "pcs s ! t") (auto simp: singleton_inv_def)
  qed
  moreover have "r = Some 0 \<and> 0 \<in> set (constructed s)" if "t < length (pcs s)" "pcs s ! t = Returned r" for t r
    using singleton_inv_at [OF inv, of t "Returned r"] that inv by (auto simp: singleton_inv_def)
  ultimately show ?thesis using inv by (auto simp: singleton_inv_def)
qed

definition two_callers :: singleton where
  "two_callers = \<lparr>g_instance = Some 0, g_lock = None, allocated = 1, constructed = [0],
     pcs = [Returned (Some 0), Returned (Some 0)]\<rparr>"

text \<open>Both threads see null; the second one waits for the lock and finds the instance made.\<close>

lemma two_callers_reachable: "reachable 2 two_callers"
proof -
  define s0 where "s0 = singleton_new 2"
  define s1 where "s1 = GetInstance_test 0 s0"
  define s2 where "s2 = GetInstance_test 1 s1"
  define s3 where "s3 = CreateInstance_lock 0 s2"
  define s4 where "s4 = CreateInstance_test 0 s3"
  define s5 where "s5 = CreateInstance_construct 0 0 s4"
  define s6 where "s6 = CreateInstance_store 0 0 s5"
  define s7 where "s7 = CreateInstance_return 0 s6"
  define s8 where "s8 = CreateInstance_lock 1 s7"
  define s9 where "s9 = CreateInstance_test 1 s8"
  define s10 where "s10 = CreateInstance_return 1 s9"
  note d = s0_def s1_def s2_def s3_def s4_def s5_def s6_def s7_def s8_def s9_def s10_def singleton_defs singleton_new_def numeral_2_eq_2
  have "step s0 s1" unfolding s1_def by (rule step.call) (simp_all add: d)
  moreover have "step s1 s2" unfolding s2_def by (rule step.call) (simp_all add: d)
  moreover have "step s2 s3" unfolding s3_def by (rule step.lock) (simp_all add: d)
  moreover have "step s3 s4" unfolding s4_def by (rule step.recheck) (simp_all add: d)
  moreover have "step s4 s5" unfolding s5_def by (rule step.construct) (simp_all add: d)
  moreover have "step s5 s6" unfolding s6_def by (rule step.store) (simp_all add: d)
  moreover have "step s6 s7" unfolding s7_def by (rule step.unlock) (simp_all add: d)
  moreover have "step s7 s8" unfolding s8_def by (rule step.lock) (simp_all add: d)
  moreover have "step s8 s9" unfolding s9_def by (rule step.recheck) (simp_all add: d)
  moreover have "step s9 s10" unfolding s10_def by (rule step.unlock) (simp_all add: d)
  ultimately have "step\<^sup>*\<^sup>* s0 s10" by (meson rtranclp.rtrancl_into_rtrancl rtranclp.rtrancl_refl)
  moreover have "s10 = two_callers" by (simp add: d two_callers_def)
  ultimately show ?thesis by (simp add: reachable_def s0_def)
qed

theorem GetInstance_unique_witness:
  "reachable 2 two_callers \<and> pcs two_callers ! 1 = Returned (Some 0) \<and> 0 \<in> set (constructed two_callers)"
  using GetInstance_unique [OF two_callers_reachable] two_callers_reachable by (simp add: two_callers_def)

end
