(* ===== verification/Time_Util.thy ===== *)
theory Time_Util
  imports Complex_Main MMO_Prelude
begin

text \<open>
  \<^verbatim>\<open>TimeUtil\<close> (ServerCore/Utill/TimeUtil.h, TimeUtil.cpp). A local time point is a number of
  milliseconds since 1970-01-01 00:00:00; the server's clock is an argument, in the 100 ns ticks of
  \<^verbatim>\<open>system_clock\<close>. What the code uses of \<^verbatim>\<open>std::chrono\<close> (the Gregorian calendar, \<^verbatim>\<open>std::format\<close> and
  \<^verbatim>\<open>parse\<close> of \<^verbatim>\<open>%Y-%m-%d %H:%M:%S\<close> for a millisecond time point) is written out.
\<close>

section \<open>The civil calendar\<close>

definition leap :: "int \<Rightarrow> bool" where
  "leap y \<longleftrightarrow> y mod 4 = 0 \<and> (y mod 100 \<noteq> 0 \<or> y mod 400 = 0)"

text \<open>Days from 0000-01-01 to the first day of a year.\<close>

definition days_before_year :: "int \<Rightarrow> int" where
  "days_before_year y = 365 * y + (y + 3) div 4 - (y + 99) div 100 + (y + 399) div 400"

definition month_lengths :: "int \<Rightarrow> int list" where
  "month_lengths y = [31, if leap y then 29 else 28, 31, 30, 31, 30, 31, 31, 30, 31, 30, 31]"

text \<open>The year of a day: an estimate, corrected by at most one.\<close>

definition year_of :: "int \<Rightarrow> int" where
  "year_of z =
     (let g = z * 400 div 146097
      in if days_before_year (g + 1) \<le> z then g + 1 else if z < days_before_year g then g - 1 else g)"

fun month_day :: "int list \<Rightarrow> int \<Rightarrow> int \<times> int" where
  "month_day [] doy = (1, doy + 1)"
| "month_day (l # ls) doy =
     (if doy < l then (1, doy + 1) else (let (m, d) = month_day ls (doy - l) in (m + 1, d)))"

definition epoch_day :: int where
  "epoch_day = 719528"

definition ymd :: "int \<Rightarrow> int \<times> int \<times> int" where
  "ymd days = (let z = days + epoch_day; y = year_of z; (m, d) = month_day (month_lengths y) (z - days_before_year y)
               in (y, m, d))"

definition local_days :: "int \<Rightarrow> int \<Rightarrow> int \<Rightarrow> int" where
  "local_days y m d =
     days_before_year y + sum_list (take (nat (m - 1)) (month_lengths y)) + (d - 1) - epoch_day"

definition ymd_ok :: "int \<Rightarrow> int \<Rightarrow> int \<Rightarrow> bool" where
  "ymd_ok y m d \<longleftrightarrow> 1 \<le> m \<and> m \<le> 12 \<and> 1 \<le> d \<and> d \<le> month_lengths y ! nat (m - 1)"

section \<open>Decimal numbers\<close>

definition digit :: "int \<Rightarrow> char" where
  "digit n = char_of (48 + n)"

text \<open>At least \<open>k\<close> digits, with leading zeros.\<close>

function digits :: "nat \<Rightarrow> int \<Rightarrow> string" where
  "digits k n = (if k = 0 \<and> n \<le> 0 then [] else digits (k - 1) (n div 10) @ [digit (n mod 10)])"
  by auto
termination by (relation "measure (\<lambda>(k, n). k + nat n)") auto

definition digit_val :: "char \<Rightarrow> int option" where
  "digit_val c = (let v = of_char c :: int in if 48 \<le> v \<and> v \<le> 57 then Some (v - 48) else None)"

text \<open>Up to \<open>k\<close> digits from the front.\<close>

fun scan :: "nat \<Rightarrow> int \<Rightarrow> string \<Rightarrow> int \<times> string" where
  "scan 0 acc s = (acc, s)"
| "scan (Suc k) acc [] = (acc, [])"
| "scan (Suc k) acc (c # s) =
     (case digit_val c of None \<Rightarrow> (acc, c # s) | Some d \<Rightarrow> scan k (acc * 10 + d) s)"

definition read_uint :: "nat \<Rightarrow> string \<Rightarrow> (int \<times> string) option" where
  "read_uint k s = (if s \<noteq> [] \<and> digit_val (hd s) \<noteq> None then Some (scan k 0 s) else None)"

fun expect :: "char \<Rightarrow> string \<Rightarrow> string option" where
  "expect c [] = None"
| "expect c (d # s) = (if c = d then Some s else None)"

section \<open>Formatting and parsing\<close>

abbreviation DAY :: int where
  "DAY \<equiv> 86400000"

text \<open>\<^verbatim>\<open>{:%Y-%m-%d %H:%M:%S}\<close> of a millisecond time point: the seconds have three decimals.\<close>

definition format_time :: "int \<Rightarrow> string" where
  "format_time tp =
     (let (y, m, d) = ymd (tp div DAY); t = tp mod DAY
      in (if y < 0 then ''-'' else []) @ digits 4 \<bar>y\<bar> @ ''-'' @ digits 2 m @ ''-'' @ digits 2 d @ '' '' @
         digits 2 (t div 3600000) @ '':'' @ digits 2 (t div 60000 mod 60) @ '':'' @
         digits 2 (t div 1000 mod 60) @ ''.'' @ digits 3 (t mod 1000))"

text \<open>
  \<^verbatim>\<open>%S\<close> for a millisecond time point: two digits, and up to three decimals behind a point.
  Whatever follows is left in the stream.
\<close>

definition read_seconds :: "string \<Rightarrow> int option" where
  "read_seconds s =
     (case read_uint 2 s of None \<Rightarrow> None
      | Some (sec, s) \<Rightarrow>
          if sec > 59 then None
          else if s \<noteq> [] \<and> hd s = CHR ''.''
          then (case read_uint 3 (tl s) of None \<Rightarrow> None
                | Some (f, r) \<Rightarrow> Some (sec * 1000 + f * 10 ^ (3 - (length (tl s) - length r))))
          else Some (sec * 1000))"

definition is_space :: "char \<Rightarrow> bool" where
  "is_space c \<longleftrightarrow> c \<in> set [CHR '' '', CHR 0x09, CHR 0x0A, CHR 0x0B, CHR 0x0C, CHR 0x0D]"

text \<open>
  The parser; a space of the format stands for any amount of white space. Years are read without
  a sign. \<open>None\<close>: the fail bit is set and the time point is not written.
\<close>

definition parse_time :: "string \<Rightarrow> int option" where
  "parse_time s = Option.bind (read_uint 4 s) (\<lambda>(y, s).
     Option.bind (expect (CHR ''-'') s) (\<lambda>s. Option.bind (read_uint 2 s) (\<lambda>(m, s).
     Option.bind (expect (CHR ''-'') s) (\<lambda>s. Option.bind (read_uint 2 s) (\<lambda>(d, s).
     Option.bind (read_uint 2 (dropWhile is_space s)) (\<lambda>(H, s).
     Option.bind (expect (CHR '':'') s) (\<lambda>s. Option.bind (read_uint 2 s) (\<lambda>(M, s).
     Option.bind (expect (CHR '':'') s) (\<lambda>s. Option.bind (read_seconds s) (\<lambda>ms.
       if ymd_ok y m d \<and> H < 24 \<and> M < 60
       then Some (local_days y m d * DAY + H * 3600000 + M * 60000 + ms) else None))))))))))"

section \<open>TimeUtil\<close>

text \<open>
  \<^verbatim>\<open>std::div\<close> splits off the seconds, truncating; \<^verbatim>\<open>from_time_t\<close> counts 100 ns ticks at 64 bits; the
  sum is cast back to milliseconds, truncating.
\<close>

definition FromEpochTime :: "int64 \<Rightarrow> int" where
  "FromEpochTime epochTime =
     (let quot = epochTime sdiv 1000; rem = epochTime smod 1000
      in to_int64 (to_int64 (quot * 10000000) + rem * 10000) sdiv 10000)"

definition ToEpochTime :: "int \<Rightarrow> int64" where
  "ToEpochTime timePoint = timePoint"

definition EpochTimeToString :: "int64 \<Rightarrow> string" where
  "EpochTimeToString epochTime = format_time (FromEpochTime epochTime)"

text \<open>A text that does not parse leaves the time point at 0.\<close>

definition VariantTimeToEpochTime :: "string \<Rightarrow> int64" where
  "VariantTimeToEpochTime timeStamp = ToEpochTime (case parse_time timeStamp of None \<Rightarrow> 0 | Some tp \<Rightarrow> tp)"

definition OLE_AUTOMATION_BASE_TIME :: int where
  "OLE_AUTOMATION_BASE_TIME = local_days 1899 12 30"

text \<open>The date as a number of days; \<open>rnd\<close> is the rounding of the two \<^verbatim>\<open>double\<close> operations.\<close>

definition EpochTimeToVariantTime :: "(rat \<Rightarrow> rat) \<Rightarrow> int64 \<Rightarrow> rat" where
  "EpochTimeToVariantTime rnd epochTime =
     (let timePoint = FromEpochTime epochTime;
          daysPart = timePoint div DAY;
          timePart = rnd (of_int (timePoint - daysPart * DAY) / of_int DAY)
      in rnd (of_int (daysPart - OLE_AUTOMATION_BASE_TIME) + timePart))"

record TimeUtil =
  m_spanTime :: int32
  NowLocalTimePoint :: "int option"


definition FixNow :: "int \<Rightarrow> TimeUtil \<Rightarrow> TimeUtil" where
  "FixNow clock tu = tu\<lparr>NowLocalTimePoint := Some (clock sdiv 10000)\<rparr>"

definition Now :: "int \<Rightarrow> TimeUtil \<Rightarrow> int" where
  "Now clock tu =
     (case NowLocalTimePoint tu of
        Some tp \<Rightarrow> tp + m_spanTime tu * 60000
      | None \<Rightarrow> clock sdiv 10000 + m_spanTime tu * 60000)"

definition GetEpochTime :: "int64 \<Rightarrow> int \<Rightarrow> TimeUtil \<Rightarrow> int64" where
  "GetEpochTime spanTime clock tu = to_int64 (ToEpochTime (Now clock tu) + spanTime)"

text \<open>The overload for a duration (here in milliseconds), and \<^verbatim>\<open>ToMilliseconds\<close> of one in 100 ns ticks.\<close>

definition GetEpochTime_duration :: "int \<Rightarrow> int \<Rightarrow> TimeUtil \<Rightarrow> int64" where
  "GetEpochTime_duration spanTime clock tu = ToEpochTime (Now clock tu + spanTime)"

definition ToMilliseconds :: "int \<Rightarrow> int64" where
  "ToMilliseconds ticks = ticks sdiv 10000"

definition GetEpochTimeForNetwork :: "int64 \<Rightarrow> int \<Rightarrow> int64" where
  "GetEpochTimeForNetwork spanTime clock = to_int64 (ToEpochTime (clock sdiv 10000) + spanTime)"

definition GetCurrentHourAndMinute :: "int \<Rightarrow> TimeUtil \<Rightarrow> int32" where
  "GetCurrentHourAndMinute clock tu =
     (let zoneTime = clock + m_spanTime tu * 600000000;
          sinceTime = zoneTime smod 864000000000;
          hours = \<bar>sinceTime\<bar> div 36000000000;
          minutes = \<bar>sinceTime\<bar> div 600000000 mod 60
      in hours * 100 + minutes)"



section \<open>The calendar is consistent\<close>

lemma div_Suc:
  assumes "1 < k" "k = j + 1"
  shows "(y + 1 + j) div k = (y + j) div k + (if y mod k = 0 then 1 else (0 :: int))"
proof -
  define q r where "q = y div k" and "r = y mod k"
  have y: "y = q * k + r" "0 \<le> r" "r < k" using assms(1) by (simp_all add: q_def r_def)
  have "(y + j) div k = (if r = 0 then q else q + 1)"
    using y assms by (auto intro!: int_div_pos_eq [where r = "if r = 0 then j else r - 1"] simp: algebra_simps)
  moreover have "(y + 1 + j) div k = q + 1"
    using y assms by (intro int_div_pos_eq [where r = r]) (simp_all add: algebra_simps)
  ultimately show ?thesis by (simp add: r_def)
qed

lemma mod_4_100_400: "y mod 400 = 0 \<Longrightarrow> y mod 100 = (0 :: int)" "y mod 100 = 0 \<Longrightarrow> y mod 4 = (0 :: int)"
  using mod_mod_cancel [of 100 400 y] mod_mod_cancel [of 4 100 y] by simp_all

lemma days_before_year_Suc: "days_before_year (y + 1) = days_before_year y + (if leap y then 366 else 365)"
proof -
  have d: "(y + 1 + 3) div 4 = (y + 3) div 4 + (if y mod 4 = 0 then 1 else 0)"
    "(y + 1 + 99) div 100 = (y + 99) div 100 + (if y mod 100 = 0 then 1 else 0)"
    "(y + 1 + 399) div 400 = (y + 399) div 400 + (if y mod 400 = 0 then 1 else 0)"
    by (rule div_Suc; simp)+
  show ?thesis unfolding days_before_year_def leap_def d ring_distribs
    using mod_4_100_400 [of y] by (cases "y mod 400 = 0"; cases "y mod 100 = 0"; cases "y mod 4 = 0") simp_all
qed

lemma sum_month_lengths: "sum_list (month_lengths y) = (if leap y then 366 else 365)"
  by (simp add: month_lengths_def)

text \<open>The mean year has 146097/400 days; a year starts less than two days off the mean.\<close>

lemma days_before_year_bounds:
  "146097 * y \<le> 400 * days_before_year y + 396" "400 * days_before_year y \<le> 146097 * y + 699"
proof -
  have "y \<le> 4 * ((y + 3) div 4)" "4 * ((y + 3) div 4) \<le> y + 3" by linarith+
  moreover have "y \<le> 100 * ((y + 99) div 100)" "100 * ((y + 99) div 100) \<le> y + 99" by linarith+
  moreover have "y \<le> 400 * ((y + 399) div 400)" "400 * ((y + 399) div 400) \<le> y + 399" by linarith+
  ultimately show "146097 * y \<le> 400 * days_before_year y + 396" "400 * days_before_year y \<le> 146097 * y + 699"
    unfolding days_before_year_def ring_distribs by linarith+
qed

lemma year_of_bounds: "days_before_year (year_of z) \<le> z \<and> z < days_before_year (year_of z + 1)"
proof -
  define g where "g = z * 400 div 146097"
  have g: "146097 * g \<le> 400 * z" "400 * z < 146097 * g + 146097" unfolding g_def by linarith+
  have "days_before_year (g - 1) \<le> z" using days_before_year_bounds(2) [of "g - 1"] g by (simp add: algebra_simps)
  moreover have "z < days_before_year (g + 2)" using days_before_year_bounds(1) [of "g + 2"] g by (simp add: algebra_simps)
  ultimately show ?thesis by (auto simp: year_of_def Let_def g_def [symmetric] add.commute)
qed

lemma month_day_inverse:
  assumes "0 \<le> doy" "doy < sum_list ls" "month_day ls doy = (m, d)"
  shows "1 \<le> m \<and> m \<le> int (length ls) \<and> 1 \<le> d \<and> d \<le> ls ! nat (m - 1) \<and> sum_list (take (nat (m - 1)) ls) + (d - 1) = doy"
  using assms
proof (induction ls doy arbitrary: m rule: month_day.induct)
  case (2 l ls doy)
  show ?case
  proof (cases "doy < l")
    case False
    with 2(4) obtain m' where m: "month_day ls (doy - l) = (m', d)" "m = m' + 1"
      by (auto split: prod.splits)
    with 2 False have "1 \<le> m' \<and> m' \<le> int (length ls) \<and> 1 \<le> d \<and> d \<le> ls ! nat (m' - 1) \<and>
      sum_list (take (nat (m' - 1)) ls) + (d - 1) = doy - l" by simp
    moreover have "nat m' = Suc (nat (m' - 1))" if "1 \<le> m'" using that by simp
    ultimately show ?thesis using m by (auto simp del: nat_diff_distrib)
  qed (use 2 in auto)
qed simp

text \<open>The date of a day is a valid date, and is that day.\<close>

lemma ymd_valid:
  assumes "ymd days = (y, m, d)"
  shows "ymd_ok y m d" "local_days y m d = days" "y = year_of (days + epoch_day)"
proof -
  let ?z = "days + epoch_day" and ?y = "year_of (days + epoch_day)"
  have md: "month_day (month_lengths ?y) (?z - days_before_year ?y) = (m, d)" and y: "y = ?y"
    using assms by (auto simp: ymd_def Let_def split: prod.splits)
  have "0 \<le> ?z - days_before_year ?y" "?z - days_before_year ?y < sum_list (month_lengths ?y)"
    using year_of_bounds [of ?z] by (auto simp: days_before_year_Suc sum_month_lengths split: if_splits)
  from month_day_inverse [OF this md] show "ymd_ok y m d" "local_days y m d = days" "y = ?y"
    by (auto simp: y ymd_ok_def local_days_def month_lengths_def)
qed

lemma month_lengths_le: "1 \<le> m \<Longrightarrow> m \<le> 12 \<Longrightarrow> month_lengths y ! nat (m - 1) \<le> 31"
proof -
  assume "1 \<le> m" "m \<le> 12"
  then have "month_lengths y ! nat (m - 1) \<in> set (month_lengths y)" by (intro nth_mem) (simp add: month_lengths_def)
  then show ?thesis by (auto simp: month_lengths_def split: if_splits)
qed

section \<open>Digits read back\<close>

declare digits.simps [simp del]

lemma digits_Suc: "digits (Suc k) n = digits k (n div 10) @ [digit (n mod 10)]"
  by (simp add: digits.simps [of "Suc k"])

lemma digits_0: "n \<le> 0 \<Longrightarrow> digits 0 n = []"
  by (simp add: digits.simps)

lemma digit_val_digit: "0 \<le> n \<Longrightarrow> n < 10 \<Longrightarrow> digit_val (digit n) = Some n"
  by (simp add: digit_val_def digit_def of_char_of)

lemma digits_length: "0 \<le> n \<Longrightarrow> n < 10 ^ k \<Longrightarrow> length (digits k n) = k"
  by (induction k arbitrary: n) (auto simp: digits_0 digits_Suc)

lemma scan_digits:
  "0 \<le> n \<Longrightarrow> n < 10 ^ k \<Longrightarrow> scan (k + j) acc (digits k n @ s) = scan j (acc * 10 ^ k + n) s"
proof (induction k arbitrary: n j s)
  case (Suc k)
  have n: "0 \<le> n div 10" "n div 10 < 10 ^ k" "0 \<le> n mod 10" "n mod 10 < 10" using Suc.prems by auto
  have "scan (Suc k + j) acc (digits (Suc k) n @ s) = scan (k + Suc j) acc (digits k (n div 10) @ digit (n mod 10) # s)"
    by (simp add: digits_Suc)
  also have "\<dots> = scan (Suc j) (acc * 10 ^ k + n div 10) (digit (n mod 10) # s)" by (rule Suc.IH [OF n(1,2)])
  also have "\<dots> = scan j ((acc * 10 ^ k + n div 10) * 10 + n mod 10) s" by (simp add: digit_val_digit n)
  also have "(acc * 10 ^ k + n div 10) * 10 + n mod 10 = acc * 10 ^ Suc k + n" by (simp add: algebra_simps)
  finally show ?case .
next
  case 0
  then have "n = 0" by simp
  then show ?case by (simp add: digits_0)
qed

lemma hd_digits: "0 \<le> n \<Longrightarrow> n < 10 ^ Suc k \<Longrightarrow> \<exists>d. digit_val (hd (digits (Suc k) n)) = Some d"
proof (induction k arbitrary: n)
  case 0
  then show ?case by (simp add: digits_Suc digits_0 digit_val_digit)
next
  case (Suc k)
  have "digits (Suc k) (n div 10) \<noteq> []" by (simp add: digits_Suc)
  moreover have "\<exists>d. digit_val (hd (digits (Suc k) (n div 10))) = Some d" using Suc.prems by (intro Suc.IH) auto
  ultimately show ?case by (simp add: digits_Suc [of "Suc k"])
qed

lemma read_uint_digits:
  assumes "0 \<le> n" "n < 10 ^ Suc k"
  shows "read_uint (Suc k) (digits (Suc k) n @ s) = Some (n, s)"
  using scan_digits [OF assms, of 0 0 s] hd_digits [OF assms]
  by (auto simp: read_uint_def digits_Suc hd_append)

lemmas read_2 = read_uint_digits [of _ 1, simplified]
lemmas read_3 = read_uint_digits [of _ 2, simplified]
lemmas read_4 = read_uint_digits [of _ 3, simplified]

section \<open>Time points\<close>

lemma mult_sdiv_cancel: "0 < k \<Longrightarrow> (t * k) sdiv k = (t :: int)"
  by (simp add: signed_divide_int_def sgn_mult abs_mult sgn_mult_abs)

lemma FromEpochTime_wraps: "FromEpochTime t = to_int64 (t * 10000) sdiv 10000"
proof -
  have "(t sdiv 1000) * 10000000 + (t smod 1000) * 10000 = (t sdiv 1000 * 1000 + t smod 1000) * 10000" by simp
  also have "\<dots> = t * 10000" by (simp only: sdiv_mult_smod_eq)
  finally show ?thesis unfolding FromEpochTime_def Let_def by (simp only: to_int64_add)
qed

lemma FromEpochTime_id: "\<bar>t\<bar> \<le> 922337203685477 \<Longrightarrow> FromEpochTime t = t"
  by (simp add: FromEpochTime_wraps to_int64_id mult_sdiv_cancel)

lemma year_of_range: "0 \<le> z \<Longrightarrow> z < 3652425 \<Longrightarrow> 0 \<le> year_of z \<and> year_of z \<le> 9999"
proof -
  assume z: "0 \<le> z" "z < 3652425"
  let ?y = "year_of z"
  have "400 * days_before_year (?y + 1) \<le> 146097 * (?y + 1) + 699" "146097 * ?y \<le> 400 * days_before_year ?y + 396"
    by (rule days_before_year_bounds)+
  with year_of_bounds [of z] z have "- 2 < ?y" "?y < 10001" by (simp_all add: algebra_simps)
  moreover have "?y \<noteq> - 1" "?y \<noteq> 10000" using year_of_bounds [of z] z by (auto simp: days_before_year_def)
  ultimately show ?thesis by linarith
qed

lemma ymd_fields:
  assumes "ymd days = (y, m, d)"
  shows "0 \<le> m" "m < 100" "0 \<le> d" "d < 100"
proof -
  have ok: "ymd_ok y m d" by (rule ymd_valid [OF assms])
  with month_lengths_le [of m y] show "0 \<le> m" "m < 100" "0 \<le> d" "d < 100" by (auto simp: ymd_ok_def)
qed

lemma space_is_space: "is_space (CHR '' '')"
  by (simp add: is_space_def)

lemma dropWhile_digits:
  assumes "0 \<le> n" "n < 100"
  shows "dropWhile is_space (digits 2 n @ s) = digits 2 n @ s"
proof -
  obtain v where v: "digit_val (hd (digits 2 n)) = Some v" using hd_digits [of n 1] assms by (auto simp: numeral_2_eq_2)
  obtain c cs where c: "digits 2 n = c # cs" by (cases "digits 2 n") (simp_all add: digits_Suc numeral_2_eq_2)
  have "\<not> is_space c" using v c by (auto simp: is_space_def digit_val_def)
  with c show ?thesis by simp
qed

lemma read_seconds_digits:
  assumes "0 \<le> a" "a < 60" "0 \<le> b" "b < 1000"
  shows "read_seconds (digits 2 a @ CHR ''.'' # digits 3 b) = Some (a * 1000 + b)"
proof -
  have "length (digits 3 b) = 3" using assms by (intro digits_length) simp_all
  then show ?thesis using assms read_2 [of a] read_3 [of b "[]"]
    by (simp add: read_seconds_def numeral_2_eq_2 numeral_3_eq_3)
qed

text \<open>The text of a time point parses back to it, for the years with four digits.\<close>

lemma parse_format:
  assumes "0 \<le> tp div DAY + epoch_day" "tp div DAY + epoch_day < 3652425"
  shows "parse_time (format_time tp) = Some tp"
proof -
  obtain y m d where ymd: "ymd (tp div DAY) = (y, m, d)" by (metis prod_cases3)
  define t where "t = tp mod DAY"
  have t: "0 \<le> t" "t < DAY" by (simp_all add: t_def)
  have hms: "0 \<le> t div 3600000" "t div 3600000 < 24" "0 \<le> t div 60000 mod 60" "t div 60000 mod 60 < 60"
    "0 \<le> t div 1000 mod 60" "t div 1000 mod 60 < 60" "0 \<le> t mod 1000" "t mod 1000 < 1000"
    using t by simp_all
  have y: "0 \<le> y" "y < 10000"
    using ymd_valid(3) [OF ymd] year_of_range [OF assms] by auto
  have parts: "t div 3600000 * 3600000 + t div 60000 mod 60 * 60000 + (t div 1000 mod 60 * 1000 + t mod 1000) = t"
  proof -
    have "t div 60000 = t div 3600000 * 60 + t div 60000 mod 60"
      using div_mult_mod_eq [of "t div 60000" 60] by (simp add: zdiv_zmult2_eq [symmetric])
    moreover have "t div 1000 = t div 60000 * 60 + t div 1000 mod 60"
      using div_mult_mod_eq [of "t div 1000" 60] by (simp add: zdiv_zmult2_eq [symmetric])
    moreover have "t = t div 1000 * 1000 + t mod 1000" by simp
    ultimately show ?thesis by linarith
  qed
  have "parse_time (format_time tp) = Some (tp div DAY * DAY + t div 3600000 * 3600000 + t div 60000 mod 60 * 60000 +
      (t div 1000 mod 60 * 1000 + t mod 1000))"
    using y hms ymd_fields [OF ymd] ymd_valid [OF ymd]
    by (simp add: format_time_def parse_time_def ymd t_def [symmetric] read_2 [unfolded numeral_2_eq_2 [symmetric]]
        read_4 space_is_space dropWhile_digits read_seconds_digits)
  also have "tp div DAY * DAY + t div 3600000 * 3600000 + t div 60000 mod 60 * 60000 +
      (t div 1000 mod 60 * 1000 + t mod 1000) = tp div DAY * DAY + t" using parts by linarith
  also have "\<dots> = tp" by (simp add: t_def)
  finally show ?thesis .
qed

text \<open>
  C34. What \<open>EpochTimeToString\<close> writes for a time is read back by \<open>VariantTimeToEpochTime\<close>
  (which reads the database's timestamps) as exactly that time, to the millisecond, for every
  instant of the years 0000 to 9999, times before 1970 included.
\<close>

theorem timestamp_text_roundtrip:
  assumes "- 62167219200000 \<le> t" "t < 253402300800000"
  shows "VariantTimeToEpochTime (EpochTimeToString t) = t"
proof -
  have "FromEpochTime t = t" using assms by (intro FromEpochTime_id) linarith
  moreover have "0 \<le> t div DAY + epoch_day" "t div DAY + epoch_day < 3652425"
    using assms by (simp_all add: epoch_day_def)
  ultimately show ?thesis
    by (simp add: VariantTimeToEpochTime_def EpochTimeToString_def ToEpochTime_def parse_format)
qed

theorem timestamp_text_roundtrip_witness:
  "VariantTimeToEpochTime (EpochTimeToString (- 1)) = - 1 \<and> VariantTimeToEpochTime (EpochTimeToString 951782399999) = 951782399999"
  using timestamp_text_roundtrip [of "- 1"] timestamp_text_roundtrip [of 951782399999] by simp

text \<open>A text that is no timestamp is read as the epoch.\<close>

lemma VariantTime_failure: "parse_time s = None \<Longrightarrow> VariantTimeToEpochTime s = 0"
  by (simp add: VariantTimeToEpochTime_def ToEpochTime_def)



text \<open>
  Without rounding the OLE date is the number of days since 1899-12-30, which is day 25569 before the epoch.
\<close>

lemma EpochTimeToVariantTime_exact:
  assumes "\<bar>t\<bar> \<le> 922337203685477"
  shows "EpochTimeToVariantTime (\<lambda>x. x) t = of_int t / of_int DAY + 25569"
proof -
  have base: "OLE_AUTOMATION_BASE_TIME = - 25569"
    by (simp add: OLE_AUTOMATION_BASE_TIME_def local_days_def days_before_year_def month_lengths_def leap_def epoch_day_def)
  have "of_int t = of_int (t div DAY) * (of_int DAY :: rat) + of_int (t mod DAY)"
    unfolding of_int_mult [symmetric] of_int_add [symmetric] by simp
  then show ?thesis using FromEpochTime_id [OF assms]
    by (simp add: EpochTimeToVariantTime_def Let_def base minus_div_mult_eq_mod field_simps)
qed

text \<open>After \<open>FixNow\<close> the clock no longer matters for \<open>Now\<close>, but it still does for the hour and minute.\<close>

lemma FixNow_freezes: "Now c1 (FixNow clock tu) = Now c2 (FixNow clock tu)"
  by (simp add: Now_def FixNow_def)

lemma GetCurrentHourAndMinute_not_frozen:
  "GetCurrentHourAndMinute clock (FixNow c tu) = GetCurrentHourAndMinute clock tu"
  by (simp add: GetCurrentHourAndMinute_def FixNow_def)

lemma GetCurrentHourAndMinute_range:
  assumes "0 \<le> clock + m_spanTime tu * 600000000"
  shows "0 \<le> GetCurrentHourAndMinute clock tu \<and> GetCurrentHourAndMinute clock tu \<le> 2359"
proof -
  let ?s = "(clock + m_spanTime tu * 600000000) smod 864000000000"
  have "0 \<le> ?s" "?s < 864000000000" using assms by (simp_all add: crem_simps)
  then have "0 \<le> \<bar>?s\<bar> div 36000000000" "\<bar>?s\<bar> div 36000000000 \<le> 23" by simp_all
  moreover have "0 \<le> \<bar>?s\<bar> div 600000000 mod 60" "\<bar>?s\<bar> div 600000000 mod 60 \<le> 59" by simp_all
  ultimately show ?thesis unfolding GetCurrentHourAndMinute_def Let_def by linarith
qed

end
