(* ===== verification/Db_Select.thy ===== *)
theory Db_Select
  imports Time_Util
begin

text \<open>
  \<^verbatim>\<open>Select\<close> (ServerCore/DB/DBSession.h): the rows of a query result become objects. A binder names the
  members of an object that the columns go to, in order; each column's PostgreSQL type decides
  as what it is read and which alternative of the variant the member must be.
\<close>

section \<open>Members, references and fields\<close>

text \<open>
  A member of an object with its value; the real numbers of \<^verbatim>\<open>float\<close> and \<^verbatim>\<open>double\<close> are of any type.
\<close>

datatype 'r cell =
    Int8 int | Int16 int | Int32 int | Int64 int | Float 'r | Double 'r | Str string

datatype cell_type = TInt8 | TInt16 | TInt32 | TInt64 | TFloat | TDouble | TStr

fun type_of :: "'r cell \<Rightarrow> cell_type" where
  "type_of (Int8 _) = TInt8"
| "type_of (Int16 _) = TInt16"
| "type_of (Int32 _) = TInt32"
| "type_of (Int64 _) = TInt64"
| "type_of (Float _) = TFloat"
| "type_of (Double _) = TDouble"
| "type_of (Str _) = TStr"

text \<open>
  An object is the list of its members. The binder returns references to members, one per column;
  a reference is the member's position. A field of a row: its type OID and its text (\<open>None\<close> for null).
\<close>

type_synonym 'r object = "'r cell list"
type_synonym RowData = "nat list"

record field =
  oid :: nat
  ftext :: "string option"

text \<open>The conversions \<^verbatim>\<open>field.as<T>()\<close> of libpqxx; each may throw.\<close>

record 'r pqxx =
  as_int16 :: "field \<Rightarrow> int result"
  as_int32 :: "field \<Rightarrow> int result"
  as_int64 :: "field \<Rightarrow> int result"
  as_float :: "field \<Rightarrow> 'r result"
  as_double :: "field \<Rightarrow> 'r result"
  as_string :: "field \<Rightarrow> string result"

section \<open>Select\<close>

text \<open>
  The value a field has for its OID; \<open>None\<close> when the \<^verbatim>\<open>switch\<close> has no case for it.
\<close>

definition field_value :: "'r pqxx \<Rightarrow> field \<Rightarrow> 'r cell result option" where
  "field_value px f =
     (if oid f = 21 then Some (ebind (as_int16 px f) (\<lambda>v. Inr (Int16 v)))
      else if oid f = 23 then Some (ebind (as_int32 px f) (\<lambda>v. Inr (Int32 v)))
      else if oid f = 20 then Some (ebind (as_int64 px f) (\<lambda>v. Inr (Int64 v)))
      else if oid f = 700 then Some (ebind (as_float px f) (\<lambda>v. Inr (Float v)))
      else if oid f = 701 then Some (ebind (as_double px f) (\<lambda>v. Inr (Double v)))
      else if oid f = 1114 \<or> oid f = 1184
           then Some (ebind (as_string px f) (\<lambda>temp. Inr (Int64 (VariantTimeToEpochTime temp))))
      else if oid f = 25 then Some (ebind (as_string px f) (\<lambda>v. Inr (Str v)))
      else None)"

text \<open>
  \<^verbatim>\<open>std::get<reference_wrapper<T>>(rowDatas[index]).get() = v\<close>: the value has been computed already.
\<close>

definition assign :: "RowData \<Rightarrow> nat \<Rightarrow> 'r cell \<Rightarrow> 'r object \<Rightarrow> 'r object result" where
  "assign rowDatas index v obj =
     (if index < length rowDatas \<and> rowDatas ! index < length obj
      then if type_of (obj ! (rowDatas ! index)) = type_of v then Inr (obj[rowDatas ! index := v]) else Inl BadVariant
      else Inl OutOfBounds)"

text \<open>The loop over the fields of a row.\<close>

fun Select_row :: "'r pqxx \<Rightarrow> RowData \<Rightarrow> field list \<Rightarrow> nat \<Rightarrow> 'r object \<Rightarrow> 'r object result" where
  "Select_row px rowDatas [] index obj = Inr obj"
| "Select_row px rowDatas (f # row) index obj =
     (case field_value px f of
        None \<Rightarrow> Select_row px rowDatas row index obj
      | Some r \<Rightarrow> ebind r (\<lambda>v. ebind (assign rowDatas index v obj)
                   (\<lambda>obj. Select_row px rowDatas row (index + 1) obj)))"

text \<open>
  The loop over the rows; \<open>fresh_obj\<close> is what \<^verbatim>\<open>make_shared<T>()\<close> gives. An exception leaves the
  objects pushed so far in \<open>outList\<close>.
\<close>

fun Select :: "'r pqxx \<Rightarrow> 'r object \<Rightarrow> RowData \<Rightarrow> field list list \<Rightarrow> 'r object list \<Rightarrow> 'r object list \<times> bool result" where
  "Select px fresh_obj binder [] outList = (outList, Inr True)"
| "Select px fresh_obj binder (row # rows) outList =
     (case Select_row px binder row 0 fresh_obj of
        Inl e \<Rightarrow> (outList, Inl e)
      | Inr obj \<Rightarrow> Select px fresh_obj binder rows (outList @ [obj]))"

section \<open>Types are kept\<close>

lemma assign_types: "assign rd i v obj = Inr obj' \<Longrightarrow> map type_of obj' = map type_of obj"
  by (auto simp: assign_def map_update list_update_same_conv split: if_splits)

lemma Select_row_types: "Select_row px rd row i obj = Inr obj' \<Longrightarrow> map type_of obj' = map type_of obj"
proof (induction px rd row i obj rule: Select_row.induct)
  case (2 px rd f row i obj)
  then show ?case by (cases "field_value px f") (auto dest: assign_types)
qed simp

text \<open>
  What goes wrong in a row, said of its columns alone and not of the loop: the columns that have a
  value are numbered from 0, and column \<open>k\<close> fails with the error of its conversion, with
  \<^verbatim>\<open>bad_variant_access\<close> when the \<open>k\<close>-th bound member has another type, or beyond the bound members.
\<close>

definition columns :: "'r pqxx \<Rightarrow> field list \<Rightarrow> 'r cell result list" where
  "columns px row = List.map_filter (field_value px) row"

definition column_error :: "RowData \<Rightarrow> 'r object \<Rightarrow> 'r cell result list \<Rightarrow> nat \<Rightarrow> error option" where
  "column_error rowDatas obj cols k =
     (case cols ! k of
        Inl e \<Rightarrow> Some e
      | Inr v \<Rightarrow> (if \<not> (k < length rowDatas \<and> rowDatas ! k < length obj) then Some OutOfBounds
                  else if type_of v \<noteq> type_of (obj ! (rowDatas ! k)) then Some BadVariant else None))"

text \<open>No column of the row fails; column \<open>k\<close> is the first that fails, with error \<open>e\<close>.\<close>

definition row_fine :: "'r pqxx \<Rightarrow> RowData \<Rightarrow> 'r object \<Rightarrow> field list \<Rightarrow> bool" where
  "row_fine px rowDatas obj row \<longleftrightarrow> (\<forall>k < length (columns px row). column_error rowDatas obj (columns px row) k = None)"

definition row_fails :: "'r pqxx \<Rightarrow> RowData \<Rightarrow> 'r object \<Rightarrow> field list \<Rightarrow> error \<Rightarrow> bool" where
  "row_fails px rowDatas obj row e \<longleftrightarrow>
     (\<exists>k < length (columns px row). column_error rowDatas obj (columns px row) k = Some e \<and>
        (\<forall>j < k. column_error rowDatas obj (columns px row) j = None))"

lemma columns_simps [simp]:
  "columns px [] = []"
  "columns px (f # row) = (case field_value px f of None \<Rightarrow> columns px row | Some r \<Rightarrow> r # columns px row)"
  by (auto simp: columns_def List.map_filter_def split: option.split)

lemma column_error_types: "map type_of obj' = map type_of obj \<Longrightarrow> column_error rd obj' cols k = column_error rd obj cols k"
proof -
  assume eq: "map type_of obj' = map type_of obj"
  then have "length obj' = length obj" by (rule map_eq_imp_length_eq)
  moreover have "type_of (obj' ! i) = type_of (obj ! i)" if "i < length obj" for i
    using that eq calculation by (metis nth_map)
  ultimately show ?thesis by (auto simp: column_error_def split: sum.split)
qed

text \<open>The loop over a row, from column \<open>i\<close> on, against the columns: \<open>pre\<close> are the ones behind it.\<close>

lemma Select_row_columns:
  "case Select_row px rd row (length pre) obj of
     Inr obj' \<Rightarrow> \<forall>k < length pre + length (columns px row). length pre \<le> k \<longrightarrow> column_error rd obj (pre @ columns px row) k = None
   | Inl e \<Rightarrow> \<exists>k < length pre + length (columns px row). length pre \<le> k \<and>
        column_error rd obj (pre @ columns px row) k = Some e \<and>
        (\<forall>j < k. length pre \<le> j \<longrightarrow> column_error rd obj (pre @ columns px row) j = None)"
proof (induction row arbitrary: pre obj)
  case (Cons f row)
  show ?case
  proof (cases "field_value px f")
    case (Some r)
    have at: "column_error rd obj (pre @ r # columns px row) (length pre) =
      (case r of Inl e \<Rightarrow> Some e | Inr v \<Rightarrow> (case assign rd (length pre) v obj of Inl e \<Rightarrow> Some e | Inr _ \<Rightarrow> None))"
      by (auto simp: column_error_def assign_def split: sum.split)
    show ?thesis
    proof (cases "ebind r (\<lambda>v. assign rd (length pre) v obj)")
      case (Inl e)
      then have "Select_row px rd (f # row) (length pre) obj = Inl e" using Some by (cases r) auto
      moreover have "column_error rd obj (pre @ r # columns px row) (length pre) = Some e" using at Inl by (cases r) auto
      ultimately show ?thesis using Some by (auto intro!: exI [of _ "length pre"])
    next
      case (Inr obj1)
      then obtain v where v: "r = Inr v" "assign rd (length pre) v obj = Inr obj1" by (cases r) auto
      have "Select_row px rd (f # row) (length pre) obj = Select_row px rd row (length (pre @ [r])) obj1"
        using Some v by simp
      moreover have "column_error rd obj1 = column_error rd obj"
        by (intro ext column_error_types assign_types [OF v(2)])
      moreover have "column_error rd obj (pre @ r # columns px row) (length pre) = None" using at v by simp
      moreover have "length pre \<le> k \<longleftrightarrow> k = length pre \<or> Suc (length pre) \<le> k" for k by linarith
      ultimately show ?thesis using Cons.IH [of "pre @ [r]" obj1] Some
        by (cases "Select_row px rd row (Suc (length pre)) obj1") fastforce+
    qed
  next
    case None
    then have "Select_row px rd (f # row) (length pre) obj = Select_row px rd row (length pre) obj"
      "columns px (f # row) = columns px row" by simp_all
    then show ?thesis using Cons.IH [of pre obj] by (simp only:)
  qed
qed simp

lemma Select_row_verdict:
  "Select_row px rd row 0 obj = Inr obj' \<Longrightarrow> row_fine px rd obj row"
  "Select_row px rd row 0 obj = Inl e \<Longrightarrow> row_fails px rd obj row e"
  using Select_row_columns [where pre = "[]" and px = px and rd = rd and row = row and obj = obj] by (auto simp: row_fine_def row_fails_def)

text \<open>
  C33. \<open>Select\<close> stops at the first row with a column that cannot be stored, and nowhere else. It
  returns true only when no column of any row fails, and then there is one object per row; otherwise
  the error is that of the first failing column of the first failing row (\<^verbatim>\<open>bad_variant_access\<close> when
  the member has another type), and what it delivers are the objects of exactly the rows before.
  Every delivered object has its members' types, and the objects already in the list stay.
\<close>

theorem Select_keeps_types:
  assumes "Select px fresh_obj binder rows outList = (outList', r)"
  shows "\<exists>new. outList' = outList @ new \<and> (\<forall>obj \<in> set new. map type_of obj = map type_of fresh_obj) \<and>
    (\<forall>i < length new. row_fine px binder fresh_obj (rows ! i)) \<and>
    (case r of
       Inr b \<Rightarrow> b \<and> length new = length rows
     | Inl e \<Rightarrow> length new < length rows \<and> row_fails px binder fresh_obj (rows ! length new) e)"
  using assms
proof (induction rows arbitrary: outList)
  case (Cons row rows)
  show ?case
  proof (cases "Select_row px binder row 0 fresh_obj")
    case (Inr obj)
    with Cons.prems have "Select px fresh_obj binder rows (outList @ [obj]) = (outList', r)" by simp
    from Cons.IH [OF this] obtain new where new: "outList' = (outList @ [obj]) @ new"
      "\<forall>obj \<in> set new. map type_of obj = map type_of fresh_obj"
      "\<forall>i < length new. row_fine px binder fresh_obj (rows ! i)"
      "case r of Inr b \<Rightarrow> b \<and> length new = length rows
       | Inl e \<Rightarrow> length new < length rows \<and> row_fails px binder fresh_obj (rows ! length new) e" by blast
    then show ?thesis using Select_row_types [OF Inr] Select_row_verdict(1) [OF Inr]
      by (intro exI [of _ "obj # new"]) (auto simp: nth_Cons split: sum.splits nat.split)
  next
    case (Inl e)
    then show ?thesis using Cons.prems Select_row_verdict(2) [OF Inl] by auto
  qed
qed auto

text \<open>A column whose type has no case is skipped, and does not use up a member: the next one takes its place.\<close>

lemma Select_row_unknown: "field_value px f = None \<Longrightarrow> Select_row px rd (f # row) i obj = Select_row px rd row i obj"
  by simp

section \<open>Columns go to their members\<close>

text \<open>The row fits: from position \<open>i\<close> on, every field has a value of the type of its member.\<close>

definition fits :: "'r pqxx \<Rightarrow> RowData \<Rightarrow> 'r object \<Rightarrow> nat \<Rightarrow> field list \<Rightarrow> 'r cell list \<Rightarrow> bool" where
  "fits px rd obj i row vs \<longleftrightarrow> length vs = length row \<and> i + length row \<le> length rd \<and>
     (\<forall>k < length row. field_value px (row ! k) = Some (Inr (vs ! k)) \<and>
        rd ! (i + k) < length obj \<and> type_of (obj ! (rd ! (i + k))) = type_of (vs ! k))"

lemma fits_Cons:
  assumes "fits px rd obj i (f # row) (v # vs)"
  shows "field_value px f = Some (Inr v)" "assign rd i v obj = Inr (obj[rd ! i := v])"
    "fits px rd (obj[rd ! i := v]) (i + 1) row vs"
proof -
  have k: "field_value px ((f # row) ! k) = Some (Inr ((v # vs) ! k)) \<and> rd ! (i + k) < length obj \<and>
    type_of (obj ! (rd ! (i + k))) = type_of ((v # vs) ! k)" if "k < Suc (length row)" for k
    using assms that by (auto simp: fits_def)
  have len: "length vs = length row" "i + Suc (length row) \<le> length rd" using assms by (auto simp: fits_def)
  show "field_value px f = Some (Inr v)" using k [of 0] by simp
  show "assign rd i v obj = Inr (obj[rd ! i := v])" using k [of 0] len by (simp add: assign_def)
  show "fits px rd (obj[rd ! i := v]) (i + 1) row vs" using k [of "Suc _"] k [of 0] len
    by (auto simp: fits_def nth_list_update)
qed

lemma Select_row_fits:
  assumes "fits px rd obj i row vs" "distinct rd"
  shows "\<exists>obj'. Select_row px rd row i obj = Inr obj' \<and> length obj' = length obj \<and>
    (\<forall>k < length row. obj' ! (rd ! (i + k)) = vs ! k) \<and>
    (\<forall>j < length obj. j \<notin> (\<lambda>k. rd ! (i + k)) ` {..<length row} \<longrightarrow> obj' ! j = obj ! j)"
  using assms(1)
proof (induction row arbitrary: i obj vs)
  case (Cons f row)
  then obtain v vs' where vs: "vs = v # vs'" by (cases vs) (auto simp: fits_def)
  note f = fits_Cons [OF Cons.prems [unfolded vs]]
  from Cons.IH [OF f(3)] obtain obj' where o: "Select_row px rd row (i + 1) (obj[rd ! i := v]) = Inr obj'"
    "length obj' = length obj" "\<forall>k < length row. obj' ! (rd ! (i + 1 + k)) = vs' ! k"
    "\<forall>j < length obj. j \<notin> (\<lambda>k. rd ! (i + 1 + k)) ` {..<length row} \<longrightarrow> obj' ! j = (obj[rd ! i := v]) ! j" by auto
  have len: "i + Suc (length row) \<le> length rd" "rd ! i < length obj" using Cons.prems by (auto simp: fits_def)
  have "rd ! i \<notin> (\<lambda>k. rd ! (i + 1 + k)) ` {..<length row}"
    using len assms(2) by (auto simp: nth_eq_iff_index_eq)
  then have i: "obj' ! (rd ! i) = v" using o(4) len by simp
  have all: "\<forall>k < length (f # row). obj' ! (rd ! (i + k)) = vs ! k"
  proof (intro allI impI)
    fix k assume "k < length (f # row)"
    then show "obj' ! (rd ! (i + k)) = vs ! k" using i o(3) by (cases k) (auto simp: vs)
  qed
  have rest: "obj' ! j = obj ! j"
    if "j < length obj" "j \<notin> (\<lambda>k. rd ! (i + k)) ` {..<length (f # row)}" for j
  proof -
    have "j \<noteq> rd ! i" using that(2) by (auto simp: image_iff dest: bspec [of _ _ 0])
    moreover have "j \<noteq> rd ! (i + 1 + k)" if "k < length row" for k
      using \<open>j \<notin> _\<close> that by (auto simp: image_iff dest: bspec [of _ _ "Suc k"])
    then have "j \<notin> (\<lambda>k. rd ! (i + 1 + k)) ` {..<length row}" by blast
    ultimately show ?thesis using o(4) that(1) by simp
  qed
  show ?case using o(1,2) all rest f(1,2) by auto
qed simp

text \<open>
  C32. A result whose columns have the types of the bound members, in order, is delivered whole: one
  object per row, in order, with the value of column \<open>k\<close> in the \<open>k\<close>-th bound member and every other
  member as the constructor left it.
\<close>

theorem Select_columns_to_members:
  assumes "distinct binder" "\<forall>row \<in> set rows. \<exists>vs. fits px binder fresh_obj 0 row vs"
  shows "\<exists>new. Select px fresh_obj binder rows outList = (outList @ new, Inr True) \<and> length new = length rows \<and>
    (\<forall>i < length rows. (\<forall>k < length (rows ! i). field_value px (rows ! i ! k) = Some (Inr (new ! i ! (binder ! k)))) \<and>
       (\<forall>j < length fresh_obj. j \<notin> (\<lambda>k. binder ! k) ` {..<length (rows ! i)} \<longrightarrow> new ! i ! j = fresh_obj ! j))"
  using assms(2)
proof (induction rows arbitrary: outList)
  case (Cons row rows)
  then obtain vs where vs: "fits px binder fresh_obj 0 row vs" by auto
  from Select_row_fits [OF this assms(1)] obtain obj where obj: "Select_row px binder row 0 fresh_obj = Inr obj"
    "\<forall>k < length row. obj ! (binder ! k) = vs ! k"
    "\<forall>j < length fresh_obj. j \<notin> (\<lambda>k. binder ! k) ` {..<length row} \<longrightarrow> obj ! j = fresh_obj ! j" by auto
  have val: "\<forall>k < length row. field_value px (row ! k) = Some (Inr (obj ! (binder ! k)))"
    using vs obj(2) by (auto simp: fits_def)
  from Cons obtain new where new: "Select px fresh_obj binder rows (outList @ [obj]) = ((outList @ [obj]) @ new, Inr True)"
    "length new = length rows"
    "\<forall>i < length rows. (\<forall>k < length (rows ! i). field_value px (rows ! i ! k) = Some (Inr (new ! i ! (binder ! k)))) \<and>
       (\<forall>j < length fresh_obj. j \<notin> (\<lambda>k. binder ! k) ` {..<length (rows ! i)} \<longrightarrow> new ! i ! j = fresh_obj ! j)"
    by (metis list.set_intros(2))
  show ?case using obj(1) new obj(3) val
    by (intro exI [of _ "obj # new"]) (auto simp: nth_Cons split: nat.split)
qed simp

definition sample_pqxx :: "int pqxx" where
  "sample_pqxx = \<lparr>as_int16 = \<lambda>f. Inr 1, as_int32 = \<lambda>f. Inr 2, as_int64 = \<lambda>f. Inr 3, as_float = \<lambda>f. Inr 4, as_double = \<lambda>f. Inr 5,
     as_string = \<lambda>f. (case ftext f of Some s \<Rightarrow> Inr s | None \<Rightarrow> Inl ConversionError)\<rparr>"

lemma sample_fits:
  "fits sample_pqxx [1, 0] [Str [], Int64 0, Int8 9] 0 [\<lparr>oid = 20, ftext = Some ''3''\<rparr>, \<lparr>oid = 25, ftext = Some ''kim''\<rparr>]
     [Int64 3, Str ''kim'']"
  by (auto simp: fits_def sample_pqxx_def field_value_def less_Suc_eq)

theorem Select_columns_to_members_witness:
  "\<exists>new. Select sample_pqxx [Str [], Int64 0, Int8 9] [1, 0]
      [[\<lparr>oid = 20, ftext = Some ''3''\<rparr>, \<lparr>oid = 25, ftext = Some ''kim''\<rparr>]] [] = ([] @ new, Inr True) \<and> length new = 1"
  using Select_columns_to_members [of "[1, 0]" "[[\<lparr>oid = 20, ftext = Some ''3''\<rparr>, \<lparr>oid = 25, ftext = Some ''kim''\<rparr>]]"
      sample_pqxx "[Str [], Int64 0, Int8 9]" "[]"] sample_fits by fastforce

theorem Select_keeps_types_witness:
  "\<exists>new. fst (Select sample_pqxx [Str [], Int64 0] [1, 0]
        [[\<lparr>oid = 20, ftext = Some ''3''\<rparr>], [\<lparr>oid = 23, ftext = Some ''3''\<rparr>]] []) = [] @ new \<and> length new = 1 \<and>
    snd (Select sample_pqxx [Str [], Int64 0] [1, 0] [[\<lparr>oid = 20, ftext = Some ''3''\<rparr>], [\<lparr>oid = 23, ftext = Some ''3''\<rparr>]] []) = Inl BadVariant"
  using Select_keeps_types [of sample_pqxx "[Str [], Int64 0]" "[1, 0]"
      "[[\<lparr>oid = 20, ftext = Some ''3''\<rparr>], [\<lparr>oid = 23, ftext = Some ''3''\<rparr>]]" "[]" "[[Str [], Int64 3]]" "Inl BadVariant"]
  by (simp add: sample_pqxx_def field_value_def assign_def)

end
