(* ===== verification/Spec2Isabelle.thy ===== *)
theory Spec2Isabelle
  imports Ring_Buffer Packet_Codec Receive_Stream Job_System Free_List Lock_Free_Stack Lock_Free_Queue Memory_Pool Pool_Threads
    Template_Queue Network Bot_Manager Memory_Log Profiling
    Dispatching Protocol_Codec Message_Path Protocol_Pack End_To_End Network_Protocol Server_App Flat_Block Singleton_Instance Log_Text Time_Util Db_Select
begin

text \<open>
  A verification of MMOServer: an I/O-completion-port server core (ServerCore), the
  load generator that drives it (DummyClient) and two diagnostic tools. File names below are
  relative to \<^verbatim>\<open>src/\<close>.

  \<^bold>\<open>The program.\<close> Worker threads take completion packets from an I/O completion port. Every
  overlapped request is a task object (NetworkTask.cpp) whose \<^verbatim>\<open>Run\<close> starts the request or handles
  its completion. A session (NetworkSession.cpp) owns a socket, a byte ring the kernel receives
  into (RingBuffer.cpp), a lock-free queue of packets to send (LockFreeQ.h) and a job queue. Received
  packets (a header of four bytes and a payload scrambled with a fixed key) are decoded into messages
  and pushed as jobs; a dispatcher's threads run the jobs of one session in order and never
  two at a time (JobQueue.cpp, JobDispatcher.cpp). Nodes and buffers come from a lock-free free
  list (FreeList.h) and from pools with thread-local chunks behind a table of size classes
  (Chunk.h, ObjectPool.h, MemoryPool.cpp). The load generator runs bots that connect, send,
  disconnect and reconnect (BotManager.cpp).

  \<^bold>\<open>The theories\<close>, with what they model and what their theorems show.
  \<^item> \<open>MMO_Prelude\<close>: machine types, failures as values (\<open>error\<close>), \<open>memcpy\<close> with bounds, the C remainder,
    conversions to 32 and 64 bits, circular slices, linked nodes, weights summed over threads.
  \<^item> \<open>Fifo_Interface\<close>: the contract \<open>bounded_fifo\<close> of a bounded queue whose transfers may fail, and its
    consequence: any sequence of transfers runs and reports what a bounded list would. Both rings below are interpretations of it.
  \<^item> \<open>Ring_Buffer\<close> (ServerCore/Memory/RingBuffer): every operation of \<^verbatim>\<open>RingQ\<close> on a block of 7000
    bytes with signed positions. The ring is a byte FIFO of 6999 places; the scatter list handed
    to the kernel is exactly the free space; calls of length zero corrupt it.
  \<^item> \<open>Packet_Codec\<close> (\<^verbatim>\<open>Convert\<close>, \<^verbatim>\<open>PacketHeader\<close>): encoding and decoding are inverse.
  \<^item> \<open>Receive_Stream\<close> (\<^verbatim>\<open>NetworkTaskReceiveIO::Complete\<close> on the ring): however the stream is cut into
    receives, the packets come out whole and in order, as long as none straddles the end of
    the buffer; a straddling one leaves the buffer's bounds.
  \<^item> \<open>Job_System\<close>: an interleaving model of queues, dispatchers and their lock. One thread per queue,
    every job once and in order, no queue forgotten, a sleeping dispatcher has run everything.
  \<^item> \<open>Free_List\<close>, \<open>Lock_Free_Stack\<close>, \<open>Lock_Free_Queue\<close>: the lock-free containers, one shared access per
    step, any number of threads. Blocks are in one place at a time; the stack refines an atomic
    stack and never dereferences null; the queue is a FIFO for a lone thread, whose
    calls all end, and has two races in which it dereferences null.
  \<^item> \<open>Memory_Pool\<close>: \<^verbatim>\<open>PointerStack\<close>, \<^verbatim>\<open>ChunkPage\<close>, \<^verbatim>\<open>ObjectPool\<close>, \<^verbatim>\<open>MemoryPool\<close> and the allocator of the
    standard containers, one call at a time. Live blocks never overlap and are large enough; slots
    can be lost, chunks abandoned, and the preconditions on sizes are stated.
  \<^item> \<open>Pool_Threads\<close>: the object pool with overlapping calls, one access to an unlocked stack per step. No
    slot is shared while threads free what they allocated only into chunks they made; otherwise
    there is an interleaving that hands a slot out twice. An uninterrupted call is the operation of
    \<open>Memory_Pool\<close>.
  \<^item> \<open>Template_Queue\<close> (ServerCore/Network/TemplateQ.h): a ring of items, and its use by one producer and
    one consumer without a lock, access by access.
  \<^item> \<open>Network\<close>: sessions, tasks, server, completion port. Tasks are never used after their deletion,
    one send per session at a time and in order, packets become jobs, the session table is
    consistent and ids are used once. A wake-up can be lost: a packet then stays in its queue,
    whatever happens, until the session sends again.
  \<^item> \<open>Bot_Manager\<close> (DummyClient): console, bots and main loop as a client of \<open>Network\<close>: all its effects
    on the network are runs of \<open>Network\<close>. Bots never share a session, counters and totals agree,
    Enter ends the loop; a session that closes too early stalls the bots that still connect.
  \<^item> \<open>Memory_Log\<close> (ServerCore/Memory/MemoryLog.h): three logs as interpretations of the interface
    \<open>circular_log\<close>; the last \<open>MAX_SIZE\<close> calls are kept, \<^verbatim>\<open>Clear\<close> clears a tenth.
  \<^item> \<open>Profiling\<close> (Profiler.cpp): the report is the trimmed mean of the samples of each thread and tag.
  \<^item> \<open>Protocol_Messages\<close> (flatbuffers/ProtocoID.h): the messages and the tagged pointer that owns one.
  \<^item> \<open>Flat_Reader\<close>, \<open>Protocol_Codec\<close> (flatbuffers/flatbuffers/verifier.h, table.h; flatbuffers/ProtocoID.h): the
    verifier and the accessors of a FlatBuffer, and \<^verbatim>\<open>Verify\<close> and \<^verbatim>\<open>UnPack\<close> of every message. No bytes
    make the decoding read outside the packet.
  \<^item> \<open>Flat_Builder\<close>, \<open>Flat_Access\<close>, \<open>Protocol_Pack\<close> (flatbuffers/flatbuffers/flatbuffer_builder.h;
    flatbuffers/ProtocoID.h): the builder, and \<^verbatim>\<open>Pack\<close> of every message. What was built is where the
    accessors look for it, so every message is decoded as itself.
  \<^item> \<open>Flat_Block\<close> (flatbuffers/flatbuffers/vector_downward.h, allocator.h): the memory block below the
    builder, with its reallocations, refines the two lists that \<open>Flat_Builder\<close> works on; the
    simulation is an interpretation of \<open>simulated_steps\<close>.
  \<^item> \<open>Dispatching\<close> (PlayServer): every received message is processed and freed once, and the handler
    sees the requests it is registered for; a request without its table crashes it.
  \<^item> \<open>Message_Path\<close>, \<open>End_To_End\<close>: a packet's bytes up to the end of its job, and a message from \<^verbatim>\<open>Send\<close> over
    the stream to the handler. Everything sent is processed, in order, and freed; a session that
    has carried 7000 bytes breaks at the end of the ring's array.
  \<^item> \<open>Network_Protocol\<close>: the interface \<open>lossless_codec\<close> between sessions and messages, interpreted on the
    protocol (\<open>protocol_codec\<close>); below, one server's messages become jobs of another server's session.
  \<^item> \<open>Server_App\<close> (NetworkServer::Initialize, PlayServer.cpp, PlayServer/main.cpp): the start of the server, with
    and without a completion port.
  \<^item> \<open>Singleton_Instance\<close> (Singleton.h): double-checked creation gives all callers one constructed instance.
  \<^item> \<open>Log_Text\<close> (LogManager): the text of a log line is its format woven with its arguments.
  \<^item> \<open>Time_Util\<close> (TimeUtil.cpp): calendar, text of a time and back, reset times.
  \<^item> \<open>Db_Select\<close> (DBSession.h): rows become objects, column by column and type by type.

  \<^bold>\<open>Concurrency.\<close> The containers and the job system are step relations with one access to shared
  memory per step. In \<open>Network\<close> a task's \<^verbatim>\<open>Run\<close> is one step of a worker, the kernel and the
  application act between such steps in any order, and the containers a session uses appear
  by what they are shown to provide. In \<open>Bot_Manager\<close> a \<^verbatim>\<open>Tick\<close> is one step. Calls of
  the logs are single steps by any thread. Calls of the pool come one at a time in \<open>Memory_Pool\<close>, and
  overlap, access by access, in \<open>Pool_Threads\<close>.

  \<^bold>\<open>Fuel.\<close> The parse loop has \<open>PARSE_FUEL\<close> = 1750 rounds: each consumes at least the four header bytes
  of a ring that holds at most 6999 bytes (\<open>parse_loop_fuel\<close>). \<^verbatim>\<open>ChunkPage::Alloc\<close> calls itself on a
  new chunk; depth 2 is enough because a new chunk is not empty (\<open>ObjectPool_Alloc_ok\<close>). The loops
  of the lock-free containers are not bounded: they are steps of a relation. The main loop of
  the load generator runs over the rounds it is given and says whether it has ended.

  \<^bold>\<open>Parameters.\<close> What Winsock answers (\<open>winsock\<close>), the codec of a session in \<open>Network\<close> and \<open>Bot_Manager\<close> (\<open>codec\<close>,
  \<open>authen_req\<close>; \<open>protocol_codec\<close> is the program's), the clock, the performance counter, whether the
  completion port is created, the contents of fresh memory, the conversions of libpqxx. Memory is
  never exhausted, except where the code handles it.

  \<^bold>\<open>Not modelled\<close>: NetworkSession_bak.cpp (in no project), crash dumps and performance counters (only
  calls of the system), the test drivers, the layout of the profiler's report file, the result codes
  and the reflection tables in ProtocoID.h (data that is not read), and the vendored code: spdlog,
  libpqxx, and the parts of FlatBuffers that neither decoding nor encoding a message runs.
\<close>

section \<open>From server to server\<close>

text \<open>
  C12. Two servers: the bytes that one server's \<^verbatim>\<open>Send\<close> made of the messages \<open>xs\<close> reach a session of the
  other whose receive is pending on a new, empty ring, while no completion packet is queued; they are
  at most 6999 bytes, so that they fit the ring, and arrive in one completion. When the kernel
  completes that receive and a worker takes the completion, nothing fails and the session's job queue has gained exactly
  these messages, in order, with the session's id.
\<close>

theorem network_delivers_messages:
  assumes "\<forall>x \<in> set xs. native_ok x" "xs \<noteq> []" "heap_ok h" "Send_all xs h = Inr (stream, h')" "length stream \<le> 6999"
    and "iocp st = []" "i < length (pending st)" "tasks st (pending st ! i) = Some (TaskReceiveIO (Some o1) ERunning)"
    and "o1 < length (objs st)" "m_recvRingQueue (objs st ! o1) = RingQ_new"
  shows "\<exists>st'. net_run protocol_codec [Kernel i True n stream, Worker ws] st = Inr st' \<and>
    m_jobQueue (objs st' ! o1) = m_jobQueue (objs st ! o1) @
      map (\<lambda>x. \<lparr>m_message = packet_of x, MessageJob.m_sessionID = m_sessionID (objs st ! o1)\<rparr>) xs"
proof -
  have "\<forall>p \<in> set (map packet_of xs). sendable_packet p" using assms(1) by (auto simp: sendable_packet_def packet_of_def)
  from protocol.received_messages [OF assms(6-10) this _ Send_all_frames [OF assms(1,3,4)] assms(5), of n ws] assms(2)
  show ?thesis by (simp add: comp_def del: net_run.simps)
qed

definition receiving_server :: "packet NetworkServer" where
  "receiving_server = NetworkServer_new\<lparr>objs := [NetworkSession_new 1 0], tasks := [0 \<mapsto> TaskReceiveIO (Some 0) ERunning],
     next_task := 1, pending := [0]\<rparr>"

theorem network_delivers_messages_witness:
  "\<exists>stream h' st'. Send_all [CLGS_AUTHEN_REQT 5 ''t'' False ''''] heap_new = Inr (stream, h') \<and>
    net_run protocol_codec [Kernel 0 True 0 stream, Worker good_ws] receiving_server = Inr st' \<and>
    m_jobQueue (objs st' ! 0) =
      [\<lparr>m_message = packet_of (CLGS_AUTHEN_REQT 5 ''t'' False ''''), MessageJob.m_sessionID = 1\<rparr>]"
proof -
  let ?xs = "[CLGS_AUTHEN_REQT 5 ''t'' False '''']"
  have ok: "\<forall>x \<in> set ?xs. native_ok x" "heap_ok heap_new"
    by (simp_all add: native_ok_def field_int_ok_def int32_ok_def heap_ok_def heap_new_def)
  obtain pls h' where s: "Send_all ?xs heap_new = Inr (concat (map frame pls), h')" "payloads_of ?xs pls"
    using Send_all_ok [OF ok] by blast
  have "length (concat (map frame pls)) \<le> 6999" using s(2) by (auto simp: payloads_of_def list_all2_Cons1)
  from network_delivers_messages [OF ok(1) _ ok(2) s(1) this, of receiving_server 0 0 0 good_ws]
  show ?thesis using s(1)
    by (auto simp: receiving_server_def NetworkServer_new_def NetworkSession_new_def simp del: net_run.simps Send_all.simps)
qed

end
